(* ===== verification/Prelude.thy ===== *)
theory Prelude
  imports Main "HOL-Library.Word"
begin

text \<open>
  Shared vocabulary of the development: the machine types of the Rust sources, Rust's
  checked and saturating integer operations, \<open>Result\<close> as a sum, fixed-width byte encodings
  (\<open>to_le_bytes\<close>, \<open>to_be_bytes\<close> and their readers), and \<open>std::collections::HashMap\<close> as an
  association list with distinct keys, behind the locale \<open>finite_map_ops\<close> that states what
  the components rely on.
\<close>

unbundle bit_operations_syntax

section \<open>Types\<close>

type_synonym u8 = "8 word"
type_synonym u16 = "16 word"
type_synonym u32 = "32 word"
type_synonym u64 = "64 word"
type_synonym u128 = "128 word"
type_synonym bytes = "u8 list"

text \<open>\<open>Result<T, E>\<close> is \<open>'e + 'a\<close>, with the error on the left.\<close>

abbreviation Ok :: "'a \<Rightarrow> 'e + 'a" where "Ok \<equiv> Inr"
abbreviation Err :: "'e \<Rightarrow> 'e + 'a" where "Err \<equiv> Inl"

named_theorems rust_int \<open>value of Rust's integer operations, read with unat\<close>

section \<open>Integer operations\<close>

definition saturating_sub :: "'a::len word \<Rightarrow> 'a word \<Rightarrow> 'a word" where
  "saturating_sub a b = (if a < b then 0 else a - b)"

definition checked_add :: "'a::len word \<Rightarrow> 'a word \<Rightarrow> 'a word option" where
  "checked_add a b = (if unat a + unat b < 2 ^ LENGTH('a) then Some (a + b) else None)"

definition saturating_add :: "'a::len word \<Rightarrow> 'a word \<Rightarrow> 'a word" where
  "saturating_add a b = (if unat a + unat b < 2 ^ LENGTH('a) then a + b else - 1)"

definition checked_sub :: "'a::len word \<Rightarrow> 'a word \<Rightarrow> 'a word option" where
  "checked_sub a b = (if b \<le> a then Some (a - b) else None)"

definition checked_mul :: "'a::len word \<Rightarrow> 'a word \<Rightarrow> 'a word option" where
  "checked_mul a b = (if unat a * unat b < 2 ^ LENGTH('a) then Some (a * b) else None)"

definition saturating_mul :: "'a::len word \<Rightarrow> 'a word \<Rightarrow> 'a word" where
  "saturating_mul a b = (if unat a * unat b < 2 ^ LENGTH('a) then a * b else - 1)"

lemma unat_bound: "unat (w :: 'a::len word) < 2 ^ LENGTH('a)"
  by (rule unsigned_less)

lemma unat_max: "unat (- 1 :: 'a::len word) = 2 ^ LENGTH('a) - 1"
  by (simp add: unsigned_minus_1_eq_mask mask_eq_exp_minus_1)

lemma unat_ucast_mod:
  "unat (ucast (w :: 'a::len word) :: 'b::len word) = unat w mod 2 ^ LENGTH('b)"
  by (simp add: unsigned_ucast_eq take_bit_eq_mod)

lemma unat_ucast_widen:
  assumes "LENGTH('a) \<le> LENGTH('b)"
  shows "unat (ucast (w :: 'a::len word) :: 'b::len word) = unat w"
proof -
  have "unat w < 2 ^ LENGTH('b)"
    by (rule less_le_trans [OF unat_bound]) (simp add: assms)
  then show ?thesis by (simp add: unat_ucast_mod)
qed

lemma eq_word_of_nat: "unat w = n \<Longrightarrow> w = word_of_nat n"
  using unat_bound [of w] by (simp add: word_unat_eq_iff unat_of_nat)

text \<open>Tagging the high bits of a small value with OR is addition.\<close>

lemma unat_or_tag:
  fixes w tag :: "'a::len word"
  assumes "unat w < 2 ^ k" and "take_bit k tag = 0" and "unat w + unat tag < 2 ^ LENGTH('a)"
  shows "unat (w OR tag) = unat w + unat tag"
proof -
  have "take_bit k w = w"
    using assms(1) by (simp add: word_unat_eq_iff unsigned_take_bit_eq take_bit_nat_eq_self)
  then have "w AND tag = take_bit k w AND tag" by simp
  also have "\<dots> = w AND take_bit k tag"
    by (rule bit_word_eqI) (auto simp: bit_simps)
  finally have "w OR tag = w + tag"
    using assms(2) by (simp add: disjunctive_add_eq_or)
  with assms(3) show ?thesis by (simp add: unat_word_ariths)
qed

lemma unat_saturating_sub [rust_int]: "unat (saturating_sub a b) = unat a - unat b"
  by (auto simp: saturating_sub_def unat_sub word_less_nat_alt not_less word_le_nat_alt)

lemma unat_saturating_add [rust_int]:
  "unat (saturating_add (a :: 'a::len word) b) = min (unat a + unat b) (2 ^ LENGTH('a) - 1)"
  by (auto simp: saturating_add_def unat_word_ariths unat_max min_def)

lemma checked_add_Some [rust_int]:
  "checked_add a b = Some c \<longleftrightarrow> unat a + unat b < 2 ^ LENGTH('a) \<and> c = a + (b :: 'a::len word)"
  by (auto simp: checked_add_def)

lemma unat_add_no_wrap:
  "unat (a :: 'a::len word) + unat b < 2 ^ LENGTH('a) \<Longrightarrow> unat (a + b) = unat a + unat b"
  by (simp add: unat_word_ariths)

lemma checked_add_SomeD:
  "checked_add a b = Some c \<Longrightarrow> unat c = unat a + unat b"
  by (auto simp: checked_add_def unat_add_no_wrap split: if_splits)

lemma checked_add_NoneD:
  "checked_add (a :: 'a::len word) b = None \<Longrightarrow> 2 ^ LENGTH('a) \<le> unat a + unat b"
  by (auto simp: checked_add_def split: if_splits)

lemma checked_sub_SomeD:
  "checked_sub a b = Some c \<Longrightarrow> unat c = unat a - unat b \<and> unat b \<le> unat a"
  by (auto simp: checked_sub_def unat_sub word_le_nat_alt split: if_splits)

lemma checked_mul_SomeD:
  "checked_mul a b = Some c \<Longrightarrow> unat c = unat a * unat b"
  by (auto simp: checked_mul_def unat_word_ariths split: if_splits)

lemma unat_saturating_mul [rust_int]:
  "unat (saturating_mul (a :: 'a::len word) b) = min (unat a * unat b) (2 ^ LENGTH('a) - 1)"
proof (cases "unat a * unat b < 2 ^ LENGTH('a)")
  case False
  then have "2 ^ LENGTH('a) - 1 \<le> unat a * unat b" by linarith
  then have "min (unat a * unat b) (2 ^ LENGTH('a) - 1) = 2 ^ LENGTH('a) - 1"
    by (rule min_absorb2)
  with False show ?thesis by (simp only: saturating_mul_def if_False unat_max)
next
  case True
  then have "unat a * unat b \<le> 2 ^ LENGTH('a) - 1" by linarith
  then have "min (unat a * unat b) (2 ^ LENGTH('a) - 1) = unat a * unat b"
    by (rule min_absorb1)
  with True show ?thesis by (simp add: saturating_mul_def unat_word_ariths)
qed

section \<open>Fixed-width byte encodings\<close>

fun nat_le :: "nat \<Rightarrow> nat \<Rightarrow> bytes" where
  "nat_le 0 v = []"
| "nat_le (Suc n) v = word_of_nat v # nat_le n (v div 256)"

fun le_nat :: "bytes \<Rightarrow> nat" where
  "le_nat [] = 0"
| "le_nat (b # bs) = unat b + 256 * le_nat bs"

lemma length_nat_le [simp]: "length (nat_le n v) = n"
  by (induction n arbitrary: v) auto

lemma unat_byte_of_nat [simp]: "unat (word_of_nat v :: u8) = v mod 256"
  by (simp add: unat_of_nat)

lemma le_nat_nat_le: "le_nat (nat_le n v) = v mod 256 ^ n"
proof (induction n arbitrary: v)
  case 0
  show ?case by simp
next
  case (Suc n)
  have "v mod 256 + 256 * (v div 256 mod 256 ^ n) = v mod (256 * 256 ^ n)"
    by (simp add: mod_mult2_eq)
  with Suc show ?case by simp
qed

lemma nat_le_snoc: "nat_le (Suc n) v = nat_le n v @ [word_of_nat (v div 256 ^ n)]"
proof (induction n arbitrary: v)
  case (Suc n)
  have "v div 256 div 256 ^ n = v div 256 ^ Suc n"
    by (simp add: div_mult2_eq)
  with Suc.IH [of "v div 256"] show ?case by simp
qed simp

lemma le_nat_bound: "le_nat bs < 256 ^ length bs"
proof (induction bs)
  case Nil
  show ?case by simp
next
  case (Cons b bs)
  have "unat b < 256" using unat_bound [of b] by simp
  with Cons show ?case by simp
qed

lemma nat_le_le_nat: "length bs = n \<Longrightarrow> nat_le n (le_nat bs) = bs"
proof (induction bs arbitrary: n)
  case Nil
  then show ?case by simp
next
  case (Cons b bs)
  have "unat b < 256" using unat_bound [of b] by simp
  then have "unat (word_of_nat (unat b + 256 * le_nat bs) :: u8) = unat b"
    by (simp only: unat_byte_of_nat) simp
  then have "word_of_nat (unat b + 256 * le_nat bs) = b"
    by (simp only: word_unat_eq_iff)
  moreover have "(unat b + 256 * le_nat bs) div 256 = le_nat bs"
    using \<open>unat b < 256\<close> by simp
  ultimately show ?case using Cons by (cases n) auto
qed

definition to_le_bytes32 :: "u32 \<Rightarrow> bytes" where
  "to_le_bytes32 w = nat_le 4 (unat w)"

definition to_le_bytes64 :: "u64 \<Rightarrow> bytes" where
  "to_le_bytes64 w = nat_le 8 (unat w)"

definition to_be_bytes16 :: "u16 \<Rightarrow> bytes" where
  "to_be_bytes16 w = rev (nat_le 2 (unat w))"

definition to_be_bytes32 :: "u32 \<Rightarrow> bytes" where
  "to_be_bytes32 w = rev (nat_le 4 (unat w))"

definition to_be_bytes64 :: "u64 \<Rightarrow> bytes" where
  "to_be_bytes64 w = rev (nat_le 8 (unat w))"

definition from_le_bytes32 :: "bytes \<Rightarrow> u32" where
  "from_le_bytes32 bs = word_of_nat (le_nat bs)"

definition from_le_bytes64 :: "bytes \<Rightarrow> u64" where
  "from_le_bytes64 bs = word_of_nat (le_nat bs)"

definition from_be_bytes16 :: "bytes \<Rightarrow> u16" where
  "from_be_bytes16 bs = word_of_nat (le_nat (rev bs))"

definition from_be_bytes32 :: "bytes \<Rightarrow> u32" where
  "from_be_bytes32 bs = word_of_nat (le_nat (rev bs))"

definition from_be_bytes64 :: "bytes \<Rightarrow> u64" where
  "from_be_bytes64 bs = word_of_nat (le_nat (rev bs))"

lemmas byte_codec_defs =
  to_le_bytes32_def to_le_bytes64_def to_be_bytes16_def to_be_bytes32_def to_be_bytes64_def
  from_le_bytes32_def from_le_bytes64_def from_be_bytes16_def from_be_bytes32_def
  from_be_bytes64_def

lemma length_byte_codecs [simp]:
  "length (to_le_bytes32 a) = 4" "length (to_le_bytes64 b) = 8"
  "length (to_be_bytes16 c) = 2" "length (to_be_bytes32 a) = 4" "length (to_be_bytes64 b) = 8"
  by (simp_all add: byte_codec_defs)

lemma byte_codec_roundtrips [simp]:
  "from_le_bytes32 (to_le_bytes32 a) = a" "from_le_bytes64 (to_le_bytes64 b) = b"
  "from_be_bytes16 (to_be_bytes16 c) = c" "from_be_bytes32 (to_be_bytes32 a) = a"
  "from_be_bytes64 (to_be_bytes64 b) = b"
  using unat_bound [of a] unat_bound [of b] unat_bound [of c]
  by (simp_all add: byte_codec_defs le_nat_nat_le)

lemma byte_codec_inject [simp]:
  "to_le_bytes32 a = to_le_bytes32 a' \<longleftrightarrow> a = a'"
  "to_le_bytes64 b = to_le_bytes64 b' \<longleftrightarrow> b = b'"
  "to_be_bytes16 c = to_be_bytes16 c' \<longleftrightarrow> c = c'"
  "to_be_bytes32 a = to_be_bytes32 a' \<longleftrightarrow> a = a'"
  "to_be_bytes64 b = to_be_bytes64 b' \<longleftrightarrow> b = b'"
  by (metis byte_codec_roundtrips)+

section \<open>Hash maps\<close>

text \<open>
  A \<open>HashMap\<close> is an association list whose keys are distinct. The sources never rely on its
  iteration order.
\<close>

type_synonym ('k, 'v) hmap = "('k \<times> 'v) list"

definition hm_empty :: "('k, 'v) hmap" where
  "hm_empty = []"

definition hm_get :: "('k, 'v) hmap \<Rightarrow> 'k \<Rightarrow> 'v option" where
  "hm_get m = map_of m"

fun hm_insert :: "'k \<Rightarrow> 'v \<Rightarrow> ('k, 'v) hmap \<Rightarrow> ('k, 'v) hmap" where
  "hm_insert k v [] = [(k, v)]"
| "hm_insert k v ((a, b) # m) = (if a = k then (k, v) # m else (a, b) # hm_insert k v m)"

definition hm_remove :: "'k \<Rightarrow> ('k, 'v) hmap \<Rightarrow> ('k, 'v) hmap" where
  "hm_remove k m = filter (\<lambda>p. fst p \<noteq> k) m"

definition hm_retain :: "('k \<Rightarrow> 'v \<Rightarrow> bool) \<Rightarrow> ('k, 'v) hmap \<Rightarrow> ('k, 'v) hmap" where
  "hm_retain P m = filter (\<lambda>p. P (fst p) (snd p)) m"

definition hm_len :: "('k, 'v) hmap \<Rightarrow> nat" where
  "hm_len m = length m"

definition hm_contains :: "('k, 'v) hmap \<Rightarrow> 'k \<Rightarrow> bool" where
  "hm_contains m k = (hm_get m k \<noteq> None)"

definition hm_wf :: "('k, 'v) hmap \<Rightarrow> bool" where
  "hm_wf m \<longleftrightarrow> distinct (map fst m)"

text \<open>What a client of a hash map may rely on.\<close>

locale finite_map_ops =
  fixes emp :: "'m"
    and get :: "'m \<Rightarrow> 'k \<Rightarrow> 'v option"
    and ins :: "'k \<Rightarrow> 'v \<Rightarrow> 'm \<Rightarrow> 'm"
    and rem :: "'k \<Rightarrow> 'm \<Rightarrow> 'm"
    and retain :: "('k \<Rightarrow> 'v \<Rightarrow> bool) \<Rightarrow> 'm \<Rightarrow> 'm"
    and len :: "'m \<Rightarrow> nat"
    and wf :: "'m \<Rightarrow> bool"
  assumes get_emp: "get emp k = None"
    and get_ins: "get (ins k v m) k' = (if k = k' then Some v else get m k')"
    and get_rem: "get (rem k m) k' = (if k = k' then None else get m k')"
    and get_retain: "wf m \<Longrightarrow>
      get (retain P m) k = (case get m k of None \<Rightarrow> None | Some v \<Rightarrow> if P k v then Some v else None)"
    and finite_dom: "finite (dom (get m))"
    and len_card: "wf m \<Longrightarrow> len m = card (dom (get m))"
    and wf_emp: "wf emp"
    and wf_ins: "wf m \<Longrightarrow> wf (ins k v m)"
    and wf_rem: "wf m \<Longrightarrow> wf (rem k m)"
    and wf_retain: "wf m \<Longrightarrow> wf (retain P m)"
begin

lemma dom_ins: "dom (get (ins k v m)) = insert k (dom (get m))"
  by (auto simp: dom_def get_ins)

lemma dom_rem: "dom (get (rem k m)) = dom (get m) - {k}"
  by (auto simp: dom_def get_rem)

lemma len_ins_old: "wf m \<Longrightarrow> get m k \<noteq> None \<Longrightarrow> len (ins k v m) = len m"
  by (simp add: len_card wf_ins dom_ins insert_absorb domIff)

lemma len_ins_new: "wf m \<Longrightarrow> get m k = None \<Longrightarrow> len (ins k v m) = Suc (len m)"
  by (simp add: len_card wf_ins dom_ins finite_dom domIff)

lemma len_ins_le: "wf m \<Longrightarrow> len (ins k v m) \<le> Suc (len m)"
  by (cases "get m k") (auto simp: len_ins_old len_ins_new)

lemma len_rem_old: "wf m \<Longrightarrow> get m k \<noteq> None \<Longrightarrow> Suc (len (rem k m)) = len m"
  using card_Suc_Diff1 [OF finite_dom, of k m]
  by (simp add: len_card wf_rem dom_rem domIff)

lemma dom_retain: "wf m \<Longrightarrow> dom (get (retain P m)) \<subseteq> dom (get m)"
  by (auto simp: get_retain split: option.splits)

lemma len_retain_le: "wf m \<Longrightarrow> len (retain P m) \<le> len m"
  by (simp add: len_card wf_retain card_mono finite_dom dom_retain)

text \<open>A capped insert (drop one held key when full, then insert) never passes the cap.\<close>

lemma len_evict_insert_le:
  assumes "wf m" "get m old \<noteq> None" "len m \<le> c" "0 < c"
  shows "len (ins k v (rem old m)) \<le> c"
  using len_rem_old [OF assms(1,2)] len_ins_le [OF wf_rem [OF assms(1)], of k v old] assms(3)
  by linarith

end

lemma map_of_hm_insert: "map_of (hm_insert k v m) k' = (if k = k' then Some v else map_of m k')"
  by (induction k v m rule: hm_insert.induct) auto

lemma map_of_hm_remove: "map_of (hm_remove k m) k' = (if k = k' then None else map_of m k')"
  by (induction m) (auto simp: hm_remove_def)

lemma fst_set_hm_insert: "fst ` set (hm_insert k v m) = insert k (fst ` set m)"
  by (induction k v m rule: hm_insert.induct) (auto simp: image_iff)

lemma hm_retain_subset: "fst ` set (hm_retain P m) \<subseteq> fst ` set m"
  by (auto simp: hm_retain_def)

lemma map_of_hm_retain:
  "distinct (map fst m) \<Longrightarrow> map_of (hm_retain P m) k =
     (case map_of m k of None \<Rightarrow> None | Some v \<Rightarrow> if P k v then Some v else None)"
  by (induction m) (auto simp: hm_retain_def map_of_eq_None_iff split: option.splits)

lemma distinct_hm_insert: "distinct (map fst m) \<Longrightarrow> distinct (map fst (hm_insert k v m))"
proof (induction k v m rule: hm_insert.induct)
  case (2 k v a b m)
  then show ?case using fst_set_hm_insert [of k v m] by auto
qed simp

interpretation hm: finite_map_ops hm_empty hm_get hm_insert hm_remove hm_retain hm_len hm_wf
proof unfold_locales
  show "finite (dom (hm_get m))" for m :: "('k, 'v) hmap"
    by (simp add: hm_get_def finite_dom_map_of)
  show "hm_wf m \<Longrightarrow> hm_len m = card (dom (hm_get m))" for m :: "('k, 'v) hmap"
    by (simp add: hm_wf_def hm_len_def hm_get_def dom_map_of_conv_image_fst
        distinct_card flip: set_map)
  show "hm_wf m \<Longrightarrow> hm_wf (hm_remove k m)" "hm_wf m \<Longrightarrow> hm_wf (hm_retain P m)"
    for m :: "('k, 'v) hmap" and k P
    by (auto simp: hm_wf_def hm_remove_def hm_retain_def intro: distinct_map_filter)
qed (auto simp: hm_empty_def hm_get_def hm_wf_def map_of_hm_insert map_of_hm_remove
    map_of_hm_retain distinct_hm_insert)

lemmas hm_get_simps [simp] = hm.get_emp hm.get_ins hm.get_rem
lemmas hm_wf_intros [simp, intro] = hm.wf_emp hm.wf_ins hm.wf_rem hm.wf_retain

lemma hm_contains_iff: "hm_contains m k \<longleftrightarrow> k \<in> dom (hm_get m)"
  by (auto simp: hm_contains_def)

section \<open>Time-stamped call sequences\<close>

text \<open>The answers a stateful operation gives to a sequence of calls.\<close>

fun outputs :: "('s \<Rightarrow> 'c \<Rightarrow> 'r \<times> 's) \<Rightarrow> 's \<Rightarrow> 'c list \<Rightarrow> 'r list" where
  "outputs f s [] = []"
| "outputs f s (c # cs) = fst (f s c) # outputs f (snd (f s c)) cs"

text \<open>
  A component that forgets what a non-decreasing clock makes irrelevant, against a reference that
  forgets nothing: the relation may depend on the time of the last call.
\<close>

locale timed_refinement =
  fixes impl :: "'s \<Rightarrow> 'c \<Rightarrow> 'r \<times> 's"
    and spec :: "'h \<Rightarrow> 'c \<Rightarrow> 'r \<times> 'h"
    and clock :: "'c \<Rightarrow> 't::linorder"
    and rel :: "'s \<Rightarrow> 'h \<Rightarrow> 't \<Rightarrow> bool"
  assumes same_answer: "rel s h t \<Longrightarrow> t \<le> clock c \<Longrightarrow> fst (impl s c) = fst (spec h c)"
    and keeps_rel: "rel s h t \<Longrightarrow> t \<le> clock c \<Longrightarrow> rel (snd (impl s c)) (snd (spec h c)) (clock c)"
begin

lemma outputs_agree:
  assumes "rel s h t" "sorted (t # map clock cs)"
  shows "outputs impl s cs = outputs spec h cs"
  using assms
proof (induction cs arbitrary: s h t)
  case (Cons c cs)
  have "t \<le> clock c" "sorted (clock c # map clock cs)" using Cons.prems(2) by auto
  with Cons.prems(1) show ?case
    using Cons.IH [OF keeps_rel] by (simp add: same_answer [of s h t c])
qed simp

end

end
