(* ===== verification/Varint.thy ===== *)
theory Varint
  imports Prelude
begin

text \<open>
  The QUIC variable-length integer codec of the MASQUE proxy
  (\<open>src/crates/masque-proxy/src/varint.rs\<close>): \<open>encode\<close> with its panic above the 62-bit range,
  \<open>decode\<close> with its buffer-more answer, their round trip and their bounds.
\<close>

definition varint_encode :: "u64 \<Rightarrow> bytes \<Rightarrow> bytes option" where
  "varint_encode v out =
     (if v < push_bit 6 1 then Some (out @ [ucast v])
      else if v < push_bit 14 1 then Some (out @ to_be_bytes16 (ucast v OR 0x4000))
      else if v < push_bit 30 1 then Some (out @ to_be_bytes32 (ucast v OR 0x80000000))
      else if v < push_bit 62 1 then Some (out @ to_be_bytes64 (v OR 0xC000000000000000))
      else None)"

definition varint_decode :: "bytes \<Rightarrow> (u64 \<times> nat) option" where
  "varint_decode buf =
     (case buf of
        [] \<Rightarrow> None
      | first # _ \<Rightarrow>
          let len = 2 ^ unat (drop_bit 6 first) in
          if length buf < len then None
          else Some (foldl (\<lambda>v b. push_bit 8 v OR ucast b) (ucast (first AND 0x3f))
                       (take (len - 1) (drop 1 buf)), len))"

section \<open>Big-endian accumulation\<close>

text \<open>Reading a big-endian byte string onto an accumulator, over the naturals.\<close>

fun be_acc :: "nat \<Rightarrow> bytes \<Rightarrow> nat" where
  "be_acc a [] = a"
| "be_acc a (b # bs) = be_acc (a * 256 + unat b) bs"

lemma be_acc_append: "be_acc a (xs @ ys) = be_acc (be_acc a xs) ys"
  by (induction xs arbitrary: a) auto

lemma be_acc_le_nat: "be_acc a (rev bs) = a * 256 ^ length bs + le_nat bs"
  by (induction bs arbitrary: a) (auto simp: be_acc_append algebra_simps)

lemma shift_or_byte:
  assumes "unat v < 2 ^ 56"
  shows "unat (push_bit 8 v OR ucast (b :: u8) :: u64) = unat v * 256 + unat b"
proof -
  have "push_bit 8 v AND (ucast b :: u64) = 0"
    by (rule bit_word_eqI) (auto simp: bit_simps dest: bit_imp_le_length)
  then have "push_bit 8 v OR ucast b = push_bit 8 v + (ucast b :: u64)"
    by (simp add: disjunctive_add_eq_or)
  moreover have "unat (push_bit 8 v) = unat v * 256"
    using assms by (simp add: push_bit_eq_mult unat_word_ariths)
  moreover have "unat (ucast b :: u64) = unat b" "unat b < 256"
    using unat_bound [of b] by (simp_all add: unat_ucast_widen)
  ultimately show ?thesis using assms by (simp add: unat_word_ariths)
qed

lemma unat_fold_shift:
  assumes "be_acc (unat v) bs < 2 ^ 64"
  shows "unat (foldl (\<lambda>v b. push_bit 8 v OR ucast b) v bs :: u64) = be_acc (unat v) bs"
  using assms
proof (induction bs arbitrary: v)
  case (Cons b bs)
  have "(unat v * 256 + unat b) * 256 ^ length bs + le_nat (rev bs) < 2 ^ 64"
    using Cons.prems be_acc_le_nat [of "unat v * 256 + unat b" "rev bs"] by simp
  moreover have "unat v * 256 \<le> (unat v * 256 + unat b) * 256 ^ length bs"
    by (simp add: trans_le_add1 add_mult_distrib)
  ultimately have "unat v < 2 ^ 56" by simp
  then have "unat (push_bit 8 v OR ucast b :: u64) = unat v * 256 + unat b"
    by (rule shift_or_byte)
  with Cons show ?case by simp
qed simp

section \<open>Decoding\<close>

lemma unat_low6: "unat (b AND 0x3f :: u8) = unat b mod 64"
proof -
  have "b AND 0x3f = take_bit 6 b"
    by (simp add: take_bit_eq_mask mask_eq_exp_minus_1)
  then show ?thesis by (simp add: take_bit_eq_mod unat_mod)
qed

lemma unat_top2: "unat (drop_bit 6 b :: u8) = unat b div 64"
  by (simp add: drop_bit_eq_div unat_div)

lemma byte_div64_cases:
  obtains "unat (b :: u8) div 64 = 0" | "unat b div 64 = 1" | "unat b div 64 = 2" | "unat b div 64 = 3"
proof -
  have "unat b div 64 < 4" using unat_bound [of b] by (simp add: div_less_iff_less_mult)
  then show ?thesis using that by linarith
qed

text \<open>The value is the big-endian number under the two prefix bits; it fits 62 bits.\<close>

lemma varint_body_bound:
  assumes "length bs = 2 ^ (unat (b :: u8) div 64) - 1"
  shows "be_acc (unat b mod 64) bs < 2 ^ (8 * 2 ^ (unat b div 64) - 2)"
proof -
  have acc: "be_acc (unat b mod 64) bs = (unat b mod 64) * 256 ^ length bs + le_nat (rev bs)"
    using be_acc_le_nat [of "unat b mod 64" "rev bs"] by simp
  have "le_nat (rev bs) < 256 ^ length bs"
    using le_nat_bound [of "rev bs"] by simp
  moreover have "(unat b mod 64) * 256 ^ length bs \<le> 63 * 256 ^ length bs"
    by (rule mult_le_mono1) (use mod_less_divisor [of 64 "unat b"] in linarith)
  ultimately have "be_acc (unat b mod 64) bs < 64 * 256 ^ length bs"
    unfolding acc by linarith
  then show ?thesis
    using assms by (cases rule: byte_div64_cases [of b]) simp_all
qed

lemma varint_decode_Cons:
  assumes "2 ^ (unat b div 64) \<le> Suc (length bs)"
  shows "varint_decode (b # bs) =
    Some (word_of_nat (be_acc (unat b mod 64) (take (2 ^ (unat b div 64) - 1) bs)), 2 ^ (unat b div 64))"
proof -
  let ?n = "2 ^ (unat b div 64) :: nat" and ?m = "ucast (b AND 0x3f) :: u64"
  have m: "unat ?m = unat b mod 64"
    by (simp add: unat_ucast_widen unat_low6)
  have len: "length (take (?n - 1) bs) = ?n - 1"
    using assms by simp
  have "be_acc (unat b mod 64) (take (?n - 1) bs) < 2 ^ (8 * ?n - 2)"
    by (rule varint_body_bound [OF len])
  also have "\<dots> \<le> 2 ^ 62"
    by (cases rule: byte_div64_cases [of b]) simp_all
  finally have "be_acc (unat ?m) (take (?n - 1) bs) < 2 ^ 64"
    by (simp add: m)
  from unat_fold_shift [OF this]
  have "foldl (\<lambda>v b. push_bit 8 v OR ucast b) ?m (take (?n - 1) bs)
      = word_of_nat (be_acc (unat b mod 64) (take (?n - 1) bs))"
    unfolding m by (rule eq_word_of_nat)
  then show ?thesis
    using assms by (simp add: varint_decode_def unat_top2 Let_def)
qed


section \<open>Encoding\<close>

text \<open>The two-bit length class of a value, and the bytes it is written as.\<close>

definition varint_class :: "nat \<Rightarrow> nat" where
  "varint_class v = (if v < 2 ^ 6 then 0 else if v < 2 ^ 14 then 1 else if v < 2 ^ 30 then 2 else 3)"

definition varint_bytes :: "nat \<Rightarrow> bytes" where
  "varint_bytes v = (let c = varint_class v in rev (nat_le (2 ^ c) (c * 64 * 256 ^ (2 ^ c - 1) + v)))"

lemma varint_thresholds:
  "v < push_bit 6 1 \<longleftrightarrow> unat v < 2 ^ 6" "v < push_bit 14 1 \<longleftrightarrow> unat v < 2 ^ 14"
  "v < push_bit 30 1 \<longleftrightarrow> unat v < 2 ^ 30" "v < push_bit 62 1 \<longleftrightarrow> unat v < 2 ^ 62" for v :: u64
  by (simp_all add: word_less_nat_alt)

lemma varint_encode_unat:
  "varint_encode v out =
     (if unat v < 2 ^ 6 then Some (out @ [ucast v])
      else if unat v < 2 ^ 14 then Some (out @ to_be_bytes16 (ucast v OR 0x4000))
      else if unat v < 2 ^ 30 then Some (out @ to_be_bytes32 (ucast v OR 0x80000000))
      else if unat v < 2 ^ 62 then Some (out @ to_be_bytes64 (v OR 0xC000000000000000))
      else None)"
  by (simp only: varint_encode_def varint_thresholds)

lemma nat_le_2: "nat_le 2 x = [word_of_nat x, word_of_nat (x div 256)]"
  by (simp add: numeral_2_eq_2)

lemma varint_encode_bytes:
  "varint_encode v out = (if unat v < 2 ^ 62 then Some (out @ varint_bytes (unat v)) else None)"
proof -
  consider (a) "unat v < 2 ^ 6" | (b) "2 ^ 6 \<le> unat v" "unat v < 2 ^ 14"
    | (c) "2 ^ 14 \<le> unat v" "unat v < 2 ^ 30" | (d) "2 ^ 30 \<le> unat v" "unat v < 2 ^ 62"
    | (e) "2 ^ 62 \<le> unat v"
    by linarith
  then show ?thesis
  proof cases
    case a
    then have "ucast v = (word_of_nat (unat v) :: u8)"
      by (simp add: word_unat_eq_iff unat_ucast_mod)
    with a show ?thesis
      by (simp add: varint_encode_unat varint_bytes_def varint_class_def)
  next
    case b
    have "unat (ucast v OR 0x4000 :: u16) = unat v + 0x4000"
      using b by (subst unat_or_tag [where k = 14]) (simp_all add: unat_ucast_mod)
    with b show ?thesis
      by (simp add: varint_encode_unat varint_bytes_def varint_class_def
          to_be_bytes16_def add.commute nat_le_2)
  next
    case c
    have "unat (ucast v OR 0x80000000 :: u32) = unat v + 0x80000000"
      using c by (subst unat_or_tag [where k = 30]) (simp_all add: unat_ucast_mod)
    with c show ?thesis
      by (simp add: varint_encode_unat varint_bytes_def varint_class_def
          to_be_bytes32_def add.commute)
  next
    case d
    have "unat (v OR 0xC000000000000000) = unat v + 0xC000000000000000"
      using d by (subst unat_or_tag [where k = 62]) simp_all
    with d show ?thesis
      by (simp add: varint_encode_unat varint_bytes_def varint_class_def
          to_be_bytes64_def add.commute)
  next
    case e
    then show ?thesis
      by (simp add: varint_encode_unat)
  qed
qed

lemma length_varint_bytes: "length (varint_bytes v) = 2 ^ varint_class v"
  by (simp add: varint_bytes_def Let_def)

lemma varint_class_bound: "varint_class v \<le> 3"
  by (simp add: varint_class_def)

lemma varint_class_fits: "v < 2 ^ 62 \<Longrightarrow> v < 64 * 256 ^ (2 ^ varint_class v - 1)"
  by (simp add: varint_class_def)

text \<open>Decoding \<open>n + 1\<close> big-endian bytes whose top two bits hold the class.\<close>

lemma varint_decode_class:
  assumes c: "c < 4" and n: "2 ^ c = Suc n" and v: "v < 64 * 256 ^ n"
  shows "varint_decode (rev (nat_le (2 ^ c) (c * 64 * 256 ^ n + v)) @ rest)
    = Some (word_of_nat v, 2 ^ c)"
proof -
  let ?V = "c * 64 * 256 ^ n + v" and ?q = "v div 256 ^ n"
  let ?b = "word_of_nat (?V div 256 ^ n) :: u8"
  have q: "?q < 64"
    using v by (simp add: less_mult_imp_div_less)
  have "?V div 256 ^ n = c * 64 + ?q" by simp
  then have b: "unat ?b = c * 64 + ?q"
    using c q by (simp only: unat_byte_of_nat) simp
  have cls: "unat ?b div 64 = c" and low: "unat ?b mod 64 = ?q"
    unfolding b using q by simp_all
  have split: "rev (nat_le (Suc n) ?V) = ?b # rev (nat_le n ?V)"
    by (simp only: nat_le_snoc rev_append rev.simps append.simps)
  have "be_acc ?q (rev (nat_le n ?V)) = ?q * 256 ^ n + ?V mod 256 ^ n"
    by (simp add: be_acc_le_nat le_nat_nat_le)
  also have "\<dots> = v" by (simp add: div_mult_mod_eq)
  finally have val: "be_acc ?q (rev (nat_le n ?V)) = v" .
  have len: "2 ^ c - 1 = n" using n by simp
  have tk: "take n (rev (nat_le n ?V) @ rest) = rev (nat_le n ?V)" by simp
  have "varint_decode (?b # (rev (nat_le n ?V) @ rest)) = Some (word_of_nat v, 2 ^ c)"
    by (subst varint_decode_Cons) (simp_all only: cls low len tk val, simp add: n)
  then show ?thesis by (simp only: n split append.simps)
qed

lemma varint_decode_bytes:
  "v < 2 ^ 62 \<Longrightarrow> varint_decode (varint_bytes v @ rest) = Some (word_of_nat v, 2 ^ varint_class v)"
  unfolding varint_bytes_def Let_def
  using varint_class_bound [of v]
  by (intro varint_decode_class varint_class_fits) simp_all


lemma varint_decode_length:
  assumes "varint_decode buf = Some (v, n)"
  shows "n \<in> {1, 2, 4, 8} \<and> n \<le> length buf"
proof (cases buf)
  case (Cons b bs)
  have "n = 2 ^ (unat b div 64)" "n \<le> length buf"
    using assms Cons by (auto simp: varint_decode_def unat_top2 Let_def split: if_splits)
  then show ?thesis by (cases rule: byte_div64_cases [of b]) auto
qed (use assms in \<open>simp add: varint_decode_def\<close>)

lemma varint_decode_append:
  assumes "varint_decode buf = Some r"
  shows "varint_decode (buf @ more) = Some r"
  using assms by (cases buf) (auto simp: varint_decode_def Let_def split: if_splits)

lemma varint_decode_value:
  assumes "varint_decode buf = Some (v, n)"
  shows "unat v < 2 ^ (8 * n - 2)"
proof (cases buf)
  case (Cons b bs)
  let ?n = "2 ^ (unat b div 64) :: nat"
  have n: "n = ?n" "?n \<le> Suc (length bs)"
    using assms Cons by (auto simp: varint_decode_def unat_top2 Let_def split: if_splits)
  have v: "v = word_of_nat (be_acc (unat b mod 64) (take (?n - 1) bs))"
    using assms Cons varint_decode_Cons [OF n(2)] by auto
  have bound: "be_acc (unat b mod 64) (take (?n - 1) bs) < 2 ^ (8 * n - 2)"
    unfolding n(1) using n(2) by (intro varint_body_bound) simp
  show ?thesis
    unfolding v unat_of_nat by (rule le_less_trans [OF mod_less_eq_dividend bound])
qed (use assms in \<open>simp add: varint_decode_def\<close>)

section \<open>Properties\<close>

text \<open>
  Every value of the 62-bit range is encoded without a panic, and decoding its bytes from
  the front of any buffer gives the value back with exactly the encoded length consumed; a
  value outside the range panics.
\<close>

theorem varint_roundtrip:
  "(if unat v < 2 ^ 62
    then \<exists>bs. varint_encode v out = Some (out @ bs) \<and> varint_decode (bs @ rest) = Some (v, length bs)
    else varint_encode v out = None)"
  by (simp add: varint_encode_bytes varint_decode_bytes length_varint_bytes)

text \<open>
  What \<open>decode\<close> returns is bounded: it consumes 1, 2, 4 or 8 bytes, never more than the
  buffer holds, the value fits in the 62-bit range, more input never changes the answer, and
  re-encoding the value never takes more bytes than were consumed (\<open>encode\<close> is the shortest
  form).
\<close>

theorem varint_decode_bounds:
  assumes "varint_decode buf = Some (v, n)"
  shows "n \<in> {1, 2, 4, 8} \<and> n \<le> length buf \<and> unat v < 2 ^ 62
    \<and> varint_decode (buf @ more) = Some (v, n)
    \<and> (\<exists>bs. varint_encode v [] = Some bs \<and> length bs \<le> n)"
proof -
  have n: "n \<in> {1, 2, 4, 8}" "n \<le> length buf"
    using varint_decode_length [OF assms] by simp_all
  have v: "unat v < 2 ^ (8 * n - 2)"
    by (rule varint_decode_value [OF assms])
  with n(1) have "unat v < 2 ^ 62" "2 ^ varint_class (unat v) \<le> n"
    by (auto simp: varint_class_def)
  then show ?thesis
    using n varint_decode_append [OF assms] by (simp add: varint_encode_bytes length_varint_bytes)
qed

theorem varint_decode_bounds_witness:
  "varint_decode [0x40, 37] = Some (37, 2) \<and> (\<exists>bs. varint_encode 37 [] = Some bs \<and> length bs \<le> 2)"
proof -
  have d: "varint_decode [0x40, 37] = Some (37, 2)" by code_simp
  then show ?thesis using varint_decode_bounds [OF d] by simp
qed

end
