(* ===== verification/Hex.thy ===== *)
theory Hex
  imports Prelude
begin

text \<open>
  Lowercase hex encoding and strict decoding (\<open>src/crates/common/src/hex.rs\<close>) and the
  constant-time comparison (\<open>src/crates/common/src/ct.rs\<close>). A Rust \<open>&str\<close> is its UTF-8 bytes,
  which is what both functions read.
\<close>

definition DIGITS :: bytes where
  "DIGITS = [0x30, 0x31, 0x32, 0x33, 0x34, 0x35, 0x36, 0x37, 0x38, 0x39,
             0x61, 0x62, 0x63, 0x64, 0x65, 0x66]"

definition hex_encode :: "bytes \<Rightarrow> bytes" where
  "hex_encode bs = concat (map (\<lambda>b. [DIGITS ! unat (drop_bit 4 b), DIGITS ! unat (b AND 0x0f)]) bs)"

definition nibble :: "u8 \<Rightarrow> u8 option" where
  "nibble c = (if 0x30 \<le> c \<and> c \<le> 0x39 then Some (c - 0x30)
               else if 0x61 \<le> c \<and> c \<le> 0x66 then Some (c - 0x61 + 10)
               else if 0x41 \<le> c \<and> c \<le> 0x46 then Some (c - 0x41 + 10)
               else None)"

text \<open>\<open>chunks_exact(2)\<close> mapped and collected into an \<open>Option\<close>.\<close>

fun hex_pairs :: "bytes \<Rightarrow> bytes option" where
  "hex_pairs (a # b # rest) =
     (case nibble a of None \<Rightarrow> None | Some x \<Rightarrow>
      case nibble b of None \<Rightarrow> None | Some y \<Rightarrow>
        map_option (\<lambda>bs. (push_bit 4 x OR y) # bs) (hex_pairs rest))"
| "hex_pairs _ = Some []"

definition hex_decode :: "bytes \<Rightarrow> bytes option" where
  "hex_decode s = (if length s mod 2 \<noteq> 0 then None else hex_pairs s)"

definition hex_decode_array :: "nat \<Rightarrow> bytes \<Rightarrow> bytes option" where
  "hex_decode_array n s =
     (if length s \<noteq> 2 * n then None
      else case hex_decode s of None \<Rightarrow> None | Some bs \<Rightarrow> if length bs = n then Some bs else None)"

definition hex_decode_32 :: "bytes \<Rightarrow> bytes option" where
  "hex_decode_32 s = hex_decode_array 32 s"

definition ct_eq :: "bytes \<Rightarrow> bytes \<Rightarrow> bool" where
  "ct_eq a b = (if length a \<noteq> length b then False
     else foldl (\<lambda>acc (x, y). acc OR (x XOR y)) 0 (zip a b) = 0)"

section \<open>Digits\<close>

definition ascii_lower :: "u8 \<Rightarrow> u8" where
  "ascii_lower c = (if 0x41 \<le> c \<and> c \<le> 0x5A then c + 32 else c)"

lemma byte_range: "lo \<le> a \<Longrightarrow> a \<le> hi \<Longrightarrow> a \<in> word_of_nat ` set [unat lo ..< Suc (unat (hi :: u8))]"
  by (rule image_eqI [where x = "unat a"]) (auto simp: word_le_nat_alt intro: eq_word_of_nat)

lemma byte_range_ball:
  "list_all P (map word_of_nat [unat lo ..< Suc (unat hi)]) \<Longrightarrow> lo \<le> a \<Longrightarrow> a \<le> (hi :: u8) \<Longrightarrow> P a"
  using byte_range [of lo a hi] by (auto simp: list_all_iff)

lemma nibble_Some:
  assumes "nibble a = Some x"
  shows "x < 16 \<and> DIGITS ! unat x = ascii_lower a"
proof -
  let ?P = "\<lambda>a. case nibble a of None \<Rightarrow> True | Some x \<Rightarrow> x < 16 \<and> DIGITS ! unat x = ascii_lower a"
  have "list_all ?P (map word_of_nat [unat (0x30 :: u8) ..< Suc (unat (0x39 :: u8))])"
    "list_all ?P (map word_of_nat [unat (0x61 :: u8) ..< Suc (unat (0x66 :: u8))])"
    "list_all ?P (map word_of_nat [unat (0x41 :: u8) ..< Suc (unat (0x46 :: u8))])"
    by (simp_all add: upt_rec nibble_def DIGITS_def ascii_lower_def)
  note range = this [THEN byte_range_ball]
  from assms show ?thesis
    using range [of a] by (auto simp: nibble_def split: if_splits)
qed

lemma nibble_lower: "nibble (ascii_lower a) = nibble a"
proof (cases "0x41 \<le> a \<and> a \<le> 0x5A")
  case True
  have "list_all (\<lambda>a. nibble (ascii_lower a) = nibble a)
    (map word_of_nat [unat (0x41 :: u8) ..< Suc (unat (0x5A :: u8))])"
    by (simp add: upt_rec nibble_def ascii_lower_def)
  from byte_range_ball [OF this] True show ?thesis by simp
qed (auto simp: ascii_lower_def)

lemma nibble_DIGITS:
  assumes "x < 16"
  shows "nibble (DIGITS ! unat x) = Some x"
proof -
  have "x \<le> 15" using assms by (simp add: word_le_nat_alt word_less_nat_alt)
  moreover have "list_all (\<lambda>x. nibble (DIGITS ! unat x) = Some x)
    (map word_of_nat [unat (0 :: u8) ..< Suc (unat (15 :: u8))])"
    by (simp add: upt_rec nibble_def DIGITS_def)
  ultimately show ?thesis
    using byte_range_ball [where lo = 0 and hi = 15 and a = x] by simp
qed

lemma nibbles_split:
  "drop_bit 4 (b :: u8) < 16" "(b AND 0x0f) < 16" "push_bit 4 (drop_bit 4 b) OR (b AND 0x0f) = b"
proof -
  have m: "(0x0f :: u8) = mask 4" by (simp add: mask_eq_exp_minus_1)
  show "push_bit 4 (drop_bit 4 b) OR (b AND 0x0f) = b"
    unfolding m by (rule bit_word_eqI) (auto simp: bit_simps)
  show "drop_bit 4 b < 16"
    using unat_bound [of b] by (simp add: word_less_nat_alt drop_bit_eq_div unat_div)
  show "(b AND 0x0f) < 16"
    unfolding m by (simp add: and_mask_lt_2p take_bit_eq_mask [symmetric] word_less_nat_alt
        take_bit_eq_mod unat_mod)
qed

lemma low_nibble_bits: "x < 16 \<Longrightarrow> take_bit 4 x = (x :: u8)"
  by (simp add: word_unat_eq_iff word_less_nat_alt take_bit_eq_mod unat_mod)

lemma nibbles_join:
  assumes "x < 16" "y < (16 :: u8)"
  shows "drop_bit 4 (push_bit 4 x OR y) = x" "(push_bit 4 x OR y) AND 0x0f = y"
proof -
  have m: "(0x0f :: u8) = mask 4" by (simp add: mask_eq_exp_minus_1)
  have "drop_bit 4 (push_bit 4 (take_bit 4 x) OR take_bit 4 y) = take_bit 4 x"
    and "(push_bit 4 (take_bit 4 x) OR take_bit 4 y) AND mask 4 = take_bit 4 y"
    by (rule bit_word_eqI; auto simp: bit_simps)+
  then show "drop_bit 4 (push_bit 4 x OR y) = x" "(push_bit 4 x OR y) AND 0x0f = y"
    by (simp_all only: m low_nibble_bits assms)
qed

section \<open>Decoding and encoding\<close>

lemma hex_pairs_encode: "hex_pairs (hex_encode bs) = Some bs"
  by (induction bs) (auto simp: hex_encode_def nibble_DIGITS nibbles_split)

lemma length_hex_encode [simp]: "length (hex_encode bs) = 2 * length bs"
  by (induction bs) (auto simp: hex_encode_def)

lemma hex_pairs_sound:
  "hex_pairs s = Some bs \<Longrightarrow> even (length s) \<Longrightarrow> hex_encode bs = map ascii_lower s"
proof (induction s arbitrary: bs rule: hex_pairs.induct)
  case (1 a b rest)
  then obtain x y r where *: "nibble a = Some x" "nibble b = Some y" "hex_pairs rest = Some r"
    "bs = (push_bit 4 x OR y) # r"
    by (auto split: option.splits)
  moreover from 1 * have "hex_encode r = map ascii_lower rest" by simp
  moreover have "hex_encode [push_bit 4 x OR y] = map ascii_lower [a, b]"
    using nibble_Some [OF *(1)] nibble_Some [OF *(2)] nibbles_join [of x y]
    by (simp only: hex_encode_def list.map concat.simps append.simps)
  ultimately show ?case by (simp add: hex_encode_def)
qed (auto simp: hex_encode_def)

lemma hex_pairs_lower: "hex_pairs (map ascii_lower s) = hex_pairs s"
  by (induction s rule: hex_pairs.induct) (auto simp: nibble_lower split: option.splits)

lemma hex_pairs_length: "hex_pairs s = Some bs \<Longrightarrow> length bs = length s div 2"
  by (induction s arbitrary: bs rule: hex_pairs.induct) (auto split: option.splits)

lemma xor_zero_iff: "(x XOR y) = 0 \<longleftrightarrow> x = (y :: u8)"
  by (auto simp: bit_eq_iff bit_simps)

lemma fold_or_xor_eq_0:
  "foldl (\<lambda>acc (x, y). acc OR (x XOR y)) acc ps = (0 :: u8) \<longleftrightarrow> acc = 0 \<and> (\<forall>(x, y) \<in> set ps. x = y)"
  by (induction ps arbitrary: acc) (auto simp: or_eq_0_iff xor_zero_iff split: prod.splits)

lemma ct_eq_iff: "ct_eq a b \<longleftrightarrow> a = b"
proof (cases "length a = length b")
  case True
  then have "(\<forall>(x, y) \<in> set (zip a b). x = y) \<longleftrightarrow> a = b"
    by (induction a b rule: list_induct2) auto
  with True show ?thesis by (simp add: ct_eq_def fold_or_xor_eq_0)
qed (auto simp: ct_eq_def)

section \<open>Properties\<close>

text \<open>
  \<open>decode\<close> answers \<open>Some bs\<close> exactly on the encodings of \<open>bs\<close> up to letter case, so it
  inverts \<open>encode\<close>, two inputs that decode alike differ only in case, and an odd length or any
  byte that is not a hex digit is refused; \<open>decode_array\<close> adds exactly the length test.
\<close>

theorem hex_decode_exact:
  "(hex_decode s = Some bs \<longleftrightarrow> map ascii_lower s = hex_encode bs)
   \<and> (hex_decode_array n s = Some bs \<longleftrightarrow> map ascii_lower s = hex_encode bs \<and> length bs = n)"
proof -
  have dec: "hex_decode s = Some bs \<longleftrightarrow> map ascii_lower s = hex_encode bs"
  proof
    assume "hex_decode s = Some bs"
    then have "hex_pairs s = Some bs" "even (length s)"
      by (auto simp: hex_decode_def split: if_splits)
    then show "map ascii_lower s = hex_encode bs"
      by (rule hex_pairs_sound [symmetric])
  next
    assume eq: "map ascii_lower s = hex_encode bs"
    then have "length s = 2 * length bs"
      using length_hex_encode [of bs] length_map [of ascii_lower s] by simp
    moreover have "hex_pairs s = Some bs"
      using hex_pairs_lower [of s] eq hex_pairs_encode [of bs] by simp
    ultimately show "hex_decode s = Some bs"
      by (simp add: hex_decode_def)
  qed
  have len: "length s = 2 * length bs" if "map ascii_lower s = hex_encode bs"
    using arg_cong [OF that, of length] by simp
  have "hex_decode_array n s = Some bs \<longleftrightarrow> length s = 2 * n \<and> hex_decode s = Some bs \<and> length bs = n"
    by (auto simp: hex_decode_array_def split: option.splits)
  then show ?thesis unfolding dec using len by auto
qed

text \<open>
  The constant-time comparison decides equality: it is true exactly when the two byte
  strings are equal, so a strict prefix or a single flipped bit is a mismatch.
\<close>

theorem ct_eq_correct:
  "ct_eq a b = (a = b) \<and> (ct_eq a (a @ s) = (s = [])) \<and> (m \<noteq> 0 \<longrightarrow> \<not> ct_eq (a @ [c]) (a @ [c XOR m]))"
  using xor_zero_iff by (auto simp: ct_eq_iff xor.assoc [symmetric] dest: arg_cong [of _ _ "\<lambda>x. c XOR x"])

theorem ct_eq_correct_witness: "\<not> ct_eq ([1] @ [5]) ([1] @ [5 XOR 4])"
  using ct_eq_correct [where a = "[1]" and c = 5 and m = 4] by simp

end
