(* ===== verification/Masque.thy ===== *)
theory Masque
  imports Varint Hex
begin

text \<open>
  The CONNECT-UDP proxy (\<open>src/crates/masque-proxy/src\<close>): RFC 9297 capsule framing
  (\<open>capsule.rs\<close>) and the tunnel of \<open>lib.rs\<close>: the token check, the admission of one request and
  the two directions of the datagram pump. The HTTP/2 and UDP libraries appear as the events a
  tunnel receives (a body chunk, the end of the body, a datagram from the target, the idle
  timer) and the effects it has (a datagram sent to the target, a frame sent to the agent).
\<close>

section \<open>Capsules\<close>

datatype capsule_error = CapsuleLengthExceedsMaximum

definition DATAGRAM_CAPSULE_TYPE :: u64 where
  "DATAGRAM_CAPSULE_TYPE = 0"

definition MAX_CAPSULE_VALUE_LEN :: u64 where
  "MAX_CAPSULE_VALUE_LEN = 65527 + 8"

definition CONTEXT_ID_RAW_UDP :: u64 where
  "CONTEXT_ID_RAW_UDP = 0"

text \<open>\<open>None\<close> is the panic of \<open>varint::encode\<close>.\<close>

definition encode_datagram :: "bytes \<Rightarrow> bytes option" where
  "encode_datagram payload =
     (case varint_encode DATAGRAM_CAPSULE_TYPE [] of None \<Rightarrow> None | Some out \<Rightarrow>
      case varint_encode (word_of_nat (length payload)) out of None \<Rightarrow> None | Some out \<Rightarrow>
      Some (out @ payload))"

definition capsule_decode :: "bytes \<Rightarrow> capsule_error + (u64 \<times> bytes \<times> nat) option" where
  "capsule_decode buf =
     (case varint_decode buf of None \<Rightarrow> Ok None | Some (cap_type, type_len) \<Rightarrow>
      case varint_decode (drop type_len buf) of None \<Rightarrow> Ok None | Some (len, len_len) \<Rightarrow>
      if MAX_CAPSULE_VALUE_LEN < len then Err CapsuleLengthExceedsMaximum
      else let header_len = type_len + len_len; total = header_len + unat len in
        if length buf < total then Ok None
        else Ok (Some (cap_type, take (total - header_len) (drop header_len buf), total)))"

definition udp_payload_encode :: "bytes \<Rightarrow> bytes option" where
  "udp_payload_encode udp_payload =
     (case varint_encode CONTEXT_ID_RAW_UDP [] of None \<Rightarrow> None | Some out \<Rightarrow> Some (out @ udp_payload))"

definition udp_payload_decode :: "bytes \<Rightarrow> bytes option" where
  "udp_payload_decode buf =
     (case varint_decode buf of None \<Rightarrow> None | Some (context_id, consumed) \<Rightarrow>
      if context_id \<noteq> CONTEXT_ID_RAW_UDP then None else Some (drop consumed buf))"

section \<open>The token\<close>

text \<open>
  \<open>u8::from_str_radix(_, 16)\<close> on a two-byte chunk: an optional leading plus, then digits. A
  header value that passed \<open>to_str\<close> is ASCII, so \<open>trim\<close> removes ASCII white space only.
\<close>

definition is_space :: "u8 \<Rightarrow> bool" where
  "is_space c \<longleftrightarrow> c = 0x20 \<or> (9 \<le> c \<and> c \<le> 13)"

definition trim_ascii :: "bytes \<Rightarrow> bytes" where
  "trim_ascii s = rev (dropWhile is_space (rev (dropWhile is_space s)))"

definition from_str_radix16_pair :: "u8 \<Rightarrow> u8 \<Rightarrow> u8 option" where
  "from_str_radix16_pair a b =
     (if a = 0x2B then nibble b
      else case nibble a of None \<Rightarrow> None | Some x \<Rightarrow>
           case nibble b of None \<Rightarrow> None | Some y \<Rightarrow> Some (16 * x + y))"

fun token_chunks :: "bytes \<Rightarrow> bytes option" where
  "token_chunks (a # b # rest) =
     (case from_str_radix16_pair a b of None \<Rightarrow> None | Some v \<Rightarrow>
        map_option (\<lambda>bs. v # bs) (token_chunks rest))"
| "token_chunks _ = Some []"

definition parse_token_hex :: "bytes \<Rightarrow> bytes option" where
  "parse_token_hex s = (let s = trim_ascii s in if length s \<noteq> 64 then None else token_chunks s)"

definition ct_token_eq :: "bytes \<Rightarrow> bytes \<Rightarrow> bool" where
  "ct_token_eq a b = (foldl (\<lambda>acc (x, y). acc OR (x XOR y)) 0 (zip a b) = 0)"

text \<open>\<open>header\<close> is the \<open>x-ct-masque-token\<close> value, when present and readable as a string.\<close>

definition masque_authed :: "bytes option \<Rightarrow> bytes \<Rightarrow> bool" where
  "masque_authed header expected_token =
     (case header of None \<Rightarrow> False | Some v \<Rightarrow>
      case parse_token_hex v of None \<Rightarrow> False | Some got \<Rightarrow> ct_token_eq got expected_token)"

section \<open>One tunnel\<close>

record masque_request =
  req_is_connect_udp :: bool
  req_path :: bytes
  req_token :: "bytes option"

datatype reply = RefusedStream | Status200

text \<open>
  The entry of \<open>handle_request\<close>: one condition for method, path and token, then one permit of
  the admission semaphore. The result is the reply and the permits left.
\<close>

definition admit_request ::
  "bytes \<Rightarrow> bytes \<Rightarrow> nat \<Rightarrow> masque_request \<Rightarrow> reply \<times> nat" where
  "admit_request expected_path shared_token permits req =
     (if \<not> req_is_connect_udp req \<or> req_path req \<noteq> expected_path
         \<or> \<not> masque_authed (req_token req) shared_token
      then (RefusedStream, permits)
      else if permits = 0 then (RefusedStream, permits)
      else (Status200, permits - 1))"

record tunnel =
  inbound_buf :: bytes
  sent_udp :: "bytes list"
  sent_h2 :: "bytes list"
  live :: bool

datatype event = Chunk bytes | StreamEnd | UdpRecv bytes | IdleTimeout

lemma capsule_consumed:
  assumes "capsule_decode buf = Ok (Some (ty, val, n))"
  shows "2 \<le> n \<and> n \<le> length buf"
  using assms
  by (auto simp: capsule_decode_def Let_def split: option.splits prod.splits if_splits
      dest!: varint_decode_length)

text \<open>The inner loop over the inbound buffer: datagrams sent, and the rest or a teardown.\<close>

function drain_capsules :: "bytes \<Rightarrow> bytes list \<times> bytes option" where
  "drain_capsules buf =
     (case capsule_decode buf of
        Ok (Some (cap_type, val, consumed)) \<Rightarrow>
          let out = (if cap_type = 0 then
                       (case udp_payload_decode val of Some p \<Rightarrow> [p] | None \<Rightarrow> []) else []);
              (ps, r) = drain_capsules (drop consumed buf)
          in (out @ ps, r)
      | Ok None \<Rightarrow> ([], Some buf)
      | Err _ \<Rightarrow> ([], None))"
  by pat_completeness auto
termination
  by (relation "measure length") (use capsule_consumed in fastforce)+

declare drain_capsules.simps [simp del]

definition masque_step :: "tunnel \<Rightarrow> event \<Rightarrow> tunnel" where
  "masque_step t e =
     (if \<not> live t then t else
      case e of
        Chunk chunk \<Rightarrow>
          (case drain_capsules (inbound_buf t @ chunk) of
             (ps, Some rest) \<Rightarrow> t\<lparr>inbound_buf := rest, sent_udp := sent_udp t @ ps\<rparr>
           | (ps, None) \<Rightarrow> t\<lparr>sent_udp := sent_udp t @ ps, live := False\<rparr>)
      | StreamEnd \<Rightarrow> t\<lparr>sent_h2 := sent_h2 t @ [[]], live := False\<rparr>
      | IdleTimeout \<Rightarrow> t\<lparr>sent_h2 := sent_h2 t @ [[]], live := False\<rparr>
      | UdpRecv d \<Rightarrow>
          (case udp_payload_encode d of None \<Rightarrow> t\<lparr>live := False\<rparr> | Some p \<Rightarrow>
           case encode_datagram p of None \<Rightarrow> t\<lparr>live := False\<rparr> | Some framed \<Rightarrow>
             t\<lparr>sent_h2 := sent_h2 t @ [framed]\<rparr>))"

definition new_tunnel :: tunnel where
  "new_tunnel = \<lparr>inbound_buf = [], sent_udp = [], sent_h2 = [], live = True\<rparr>"

definition run_tunnel :: "tunnel \<Rightarrow> event list \<Rightarrow> tunnel" where
  "run_tunnel t es = foldl masque_step t es"

section \<open>Framing lemmas\<close>

lemma varint_encode_zero: "varint_encode 0 [] = Some [0]"
  by (simp add: varint_encode_def)

lemma varint_bytes_zero [simp]: "varint_bytes 0 = [0]"
  by (simp add: varint_bytes_def varint_class_def)

lemma udp_payload_encode_eq: "udp_payload_encode d = Some (0 # d)"
  by (simp add: udp_payload_encode_def CONTEXT_ID_RAW_UDP_def varint_encode_zero)

lemma varint_decode_zero: "varint_decode (0 # rest) = Some (0, 1)"
  by (simp add: varint_decode_def)

lemma udp_payload_decode_zero: "udp_payload_decode (0 # d) = Some d"
  by (simp add: udp_payload_decode_def varint_decode_zero CONTEXT_ID_RAW_UDP_def)

lemma encode_datagram_eq:
  "length p < 2 ^ 62 \<Longrightarrow> encode_datagram p = Some (0 # varint_bytes (length p) @ p)"
  by (simp add: encode_datagram_def DATAGRAM_CAPSULE_TYPE_def varint_encode_zero
      varint_encode_bytes unat_of_nat)

lemma capsule_decode_frame:
  assumes "length p \<le> 65535"
  shows "capsule_decode (0 # varint_bytes (length p) @ p @ rest)
    = Ok (Some (0, p, length (0 # varint_bytes (length p) @ p)))"
proof -
  let ?w = "word_of_nat (length p) :: u64"
  have "varint_decode (varint_bytes (length p) @ p @ rest) = Some (?w, 2 ^ varint_class (length p))"
    using assms by (intro varint_decode_bytes) simp
  moreover have u: "unat ?w = length p" using assms by (simp add: unat_of_nat)
  moreover have "\<not> MAX_CAPSULE_VALUE_LEN < ?w"
    using assms by (simp add: MAX_CAPSULE_VALUE_LEN_def word_less_nat_alt u)
  ultimately show ?thesis
    by (simp add: capsule_decode_def varint_decode_zero length_varint_bytes)
qed

lemma capsule_decode_append_Ok:
  assumes "capsule_decode buf = Ok (Some (ty, val, n))"
  shows "capsule_decode (buf @ suf) = Ok (Some (ty, val, n))"
proof -
  obtain tl len ll where d: "varint_decode buf = Some (ty, tl)"
      "varint_decode (drop tl buf) = Some (len, ll)" "\<not> MAX_CAPSULE_VALUE_LEN < len"
      "n = tl + ll + unat len" "n \<le> length buf" "val = take (unat len) (drop (tl + ll) buf)"
    using assms
    by (auto simp: capsule_decode_def Let_def split: option.splits prod.splits if_splits)
  have "drop tl (buf @ suf) = drop tl buf @ suf"
    using d(4,5) by simp
  then show ?thesis
    using d varint_decode_append [OF d(1), of suf] varint_decode_append [OF d(2), of suf]
    by (simp add: capsule_decode_def Let_def)
qed

lemma capsule_decode_append_Err:
  assumes "capsule_decode buf = Err e"
  shows "capsule_decode (buf @ suf) = Err e"
proof -
  obtain ty tl len ll where d: "varint_decode buf = Some (ty, tl)"
      "varint_decode (drop tl buf) = Some (len, ll)" "MAX_CAPSULE_VALUE_LEN < len"
    using assms
    by (auto simp: capsule_decode_def Let_def split: option.splits prod.splits if_splits)
  have "drop tl (buf @ suf) = drop tl buf @ suf"
    using varint_decode_length [OF d(1)] by simp
  then show ?thesis
    using assms d varint_decode_append [OF d(1), of suf] varint_decode_append [OF d(2), of suf]
    by (simp add: capsule_decode_def)
qed

section \<open>The pump does not depend on chunk boundaries\<close>

definition datagram_of :: "u64 \<Rightarrow> bytes \<Rightarrow> bytes list" where
  "datagram_of cap_type val =
     (if cap_type = 0 then (case udp_payload_decode val of Some p \<Rightarrow> [p] | None \<Rightarrow> []) else [])"

lemma drain_unfold:
  "capsule_decode buf = Err e \<Longrightarrow> drain_capsules buf = ([], None)"
  "capsule_decode buf = Ok None \<Longrightarrow> drain_capsules buf = ([], Some buf)"
  "capsule_decode buf = Ok (Some (ty, val, n)) \<Longrightarrow> drain_capsules buf =
     (datagram_of ty val @ fst (drain_capsules (drop n buf)), snd (drain_capsules (drop n buf)))"
  by (simp_all add: drain_capsules.simps [of buf] datagram_of_def Let_def split_def)

lemma drain_cases:
  obtains (err) e where "capsule_decode buf = Err e" | (wait) "capsule_decode buf = Ok None"
    | (capsule) ty val n where "capsule_decode buf = Ok (Some (ty, val, n))" "n \<le> length buf" "0 < n"
proof (cases "capsule_decode buf")
  case (Inr o')
  then show ?thesis
    using that capsule_consumed [of buf] by (cases o') fastforce+
qed (use that in blast)

lemma drain_induct [case_names err wait capsule]:
  assumes "\<And>buf e. capsule_decode buf = Err e \<Longrightarrow> P buf"
    and "\<And>buf. capsule_decode buf = Ok None \<Longrightarrow> P buf"
    and "\<And>buf ty val n. capsule_decode buf = Ok (Some (ty, val, n)) \<Longrightarrow> n \<le> length buf \<Longrightarrow>
      P (drop n buf) \<Longrightarrow> P buf"
  shows "P buf"
proof (induction buf rule: length_induct)
  case (1 buf)
  then show ?case by (cases rule: drain_cases [of buf]) (auto intro: assms)
qed

lemma drain_capsules_append:
  "drain_capsules (buf @ suf) =
     (case drain_capsules buf of
        (ps, None) \<Rightarrow> (ps, None)
      | (ps, Some rest) \<Rightarrow> (case drain_capsules (rest @ suf) of (qs, r) \<Rightarrow> (ps @ qs, r)))"
proof (induction buf rule: drain_induct)
  case (err buf e)
  then show ?case
    by (simp add: drain_unfold(1) [OF err] drain_unfold(1) [OF capsule_decode_append_Err [OF err]])
next
  case (wait buf)
  then show ?case by (simp add: drain_unfold(2) split_def)
next
  case (capsule buf ty val n)
  then have "drop n (buf @ suf) = drop n buf @ suf" by simp
  with capsule show ?case
    by (simp add: drain_unfold(3) [OF capsule(1)]
        drain_unfold(3) [OF capsule_decode_append_Ok [OF capsule(1)]] split: prod.splits option.splits)
qed

text \<open>The bytes received in the body, and the frame of one datagram.\<close>

fun inbound_bytes :: "event list \<Rightarrow> bytes" where
  "inbound_bytes [] = []"
| "inbound_bytes (Chunk c # es) = c @ inbound_bytes es"
| "inbound_bytes (_ # es) = inbound_bytes es"

fun traffic :: "event \<Rightarrow> bool" where
  "traffic (Chunk c) = True"
| "traffic (UdpRecv d) = (length d \<le> 65527)"
| "traffic _ = False"

definition frame :: "bytes \<Rightarrow> bytes" where
  "frame d = 0 # varint_bytes (Suc (length d)) @ 0 # d"

lemma masque_step_UdpRecv:
  assumes "live t" "length d \<le> 65527"
  shows "masque_step t (UdpRecv d) = t\<lparr>sent_h2 := sent_h2 t @ [frame d]\<rparr>"
  using assms encode_datagram_eq [of "0 # d"]
  by (simp add: masque_step_def udp_payload_encode_eq frame_def)

lemma masque_step_dead: "\<not> live t \<Longrightarrow> masque_step t e = t"
  by (simp add: masque_step_def)

lemma run_tunnel_dead: "\<not> live t \<Longrightarrow> run_tunnel t es = t"
  unfolding run_tunnel_def by (induction es) (simp_all add: masque_step_dead)

lemma drain_rest_stable: "drain_capsules buf = (ps, Some rest) \<Longrightarrow> drain_capsules rest = ([], Some rest)"
proof (induction buf arbitrary: ps rule: drain_induct)
  case (capsule buf ty val n)
  then show ?case
    using capsule.IH [of "fst (drain_capsules (drop n buf))"]
    by (simp add: drain_unfold(3) [OF capsule(1)] prod_eq_iff)
qed (simp_all add: drain_unfold)

lemma run_tunnel_traffic:
  assumes "live t" "drain_capsules (inbound_buf t) = ([], Some (inbound_buf t))" "list_all traffic es"
    and "drain_capsules (inbound_buf t @ inbound_bytes es) = (ps, r)"
  shows "sent_udp (run_tunnel t es) = sent_udp t @ ps \<and> live (run_tunnel t es) = (r \<noteq> None)
    \<and> (\<forall>rest. r = Some rest \<longrightarrow> inbound_buf (run_tunnel t es) = rest)"
  using assms
proof (induction es arbitrary: t ps r)
  case Nil
  then show ?case by (auto simp: run_tunnel_def)
next
  case (Cons e es)
  show ?case
  proof (cases e)
    case (UdpRecv d)
    with Cons show ?thesis
      by (auto simp: run_tunnel_def masque_step_UdpRecv)
  next
    case (Chunk c)
    obtain ps1 r1 where one: "drain_capsules (inbound_buf t @ c) = (ps1, r1)" by fastforce
    note all = Cons.prems(4) [unfolded Chunk inbound_bytes.simps append_assoc [symmetric]
      drain_capsules_append [of "inbound_buf t @ c"] one]
    show ?thesis
    proof (cases r1)
      case None
      then have "masque_step t e = t\<lparr>sent_udp := sent_udp t @ ps1, live := False\<rparr>"
        using Chunk one Cons.prems(1) by (simp add: masque_step_def)
      moreover have "ps = ps1" "r = None" using all None by simp_all
      ultimately show ?thesis
        using run_tunnel_dead [of "t\<lparr>sent_udp := sent_udp t @ ps1, live := False\<rparr>" es]
        by (simp add: run_tunnel_def)
    next
      case (Some rest)
      let ?t = "t\<lparr>inbound_buf := rest, sent_udp := sent_udp t @ ps1\<rparr>"
      have step: "masque_step t e = ?t"
        using Chunk one Some Cons.prems(1) by (simp add: masque_step_def)
      obtain qs where qs: "drain_capsules (rest @ inbound_bytes es) = (qs, r)" "ps = ps1 @ qs"
        using all Some by (auto split: prod.splits)
      have "drain_capsules rest = ([], Some rest)"
        using drain_rest_stable one Some by blast
      with Cons.IH [of ?t qs r] qs Cons.prems(1,3)
      show ?thesis by (simp add: run_tunnel_def step)
    qed
  qed (use Cons.prems in simp_all)
qed

lemma drain_capsules_Nil: "drain_capsules [] = ([], Some [])"
  by (simp add: drain_capsules.simps capsule_decode_def varint_decode_def)

lemma drain_frame:
  assumes "length d \<le> 65527"
  shows "drain_capsules (frame d @ rest) = (case drain_capsules rest of (ps, r) \<Rightarrow> (d # ps, r))"
proof -
  have "capsule_decode (frame d @ rest) = Ok (Some (0, 0 # d, length (frame d)))"
    using capsule_decode_frame [of "0 # d" rest] assms by (simp add: frame_def)
  from drain_unfold(3) [OF this] show ?thesis
    by (simp add: datagram_of_def udp_payload_decode_zero split_def)
qed

lemma drain_frames:
  "\<forall>d \<in> set ds. length d \<le> 65527 \<Longrightarrow> drain_capsules (concat (map frame ds)) = (ds, Some [])"
  by (induction ds) (simp_all add: drain_capsules_Nil drain_frame)

lemma run_tunnel_UdpRecv:
  "live t \<Longrightarrow> \<forall>d \<in> set ds. length d \<le> 65527 \<Longrightarrow>
     run_tunnel t (map UdpRecv ds) = t\<lparr>sent_h2 := sent_h2 t @ map frame ds\<rparr>"
  by (induction ds arbitrary: t) (simp_all add: run_tunnel_def masque_step_UdpRecv)

lemma inbound_bytes_chunks [simp]: "inbound_bytes (map Chunk cs) = concat cs"
  by (induction cs) simp_all

lemma traffic_chunks [simp]: "list_all traffic (map Chunk cs)"
  by (induction cs) simp_all


section \<open>Token and admission lemmas\<close>

lemma token_chunks_length: "token_chunks s = Some bs \<Longrightarrow> length bs = length s div 2"
  by (induction s arbitrary: bs rule: token_chunks.induct) (auto split: option.splits)

lemma ct_token_eq_iff: "length a = length b \<Longrightarrow> ct_token_eq a b \<longleftrightarrow> a = b"
  using ct_eq_iff [of a b] by (simp add: ct_token_eq_def ct_eq_def)

lemma masque_authed_iff:
  assumes "length tok = 32"
  shows "masque_authed h tok \<longleftrightarrow> (\<exists>v. h = Some v \<and> parse_token_hex v = Some tok)"
proof -
  have "length got = 32" if "parse_token_hex v = Some got" for v got
    using that token_chunks_length by (auto simp: parse_token_hex_def Let_def split: if_splits)
  with assms show ?thesis
    by (auto simp: masque_authed_def ct_token_eq_iff split: option.splits)
qed

lemma radix_pair_strict:
  assumes "nibble a = Some x" "nibble b = Some y"
  shows "from_str_radix16_pair a b = Some (push_bit 4 x OR y)"
proof -
  have "push_bit 4 x AND take_bit 4 y = 0"
    by (rule bit_word_eqI) (auto simp: bit_simps)
  then have "push_bit 4 x AND y = 0"
    using nibble_Some [OF assms(2)] by (simp only: low_nibble_bits)
  then have "push_bit 4 x OR y = push_bit 4 x + y"
    by (simp add: disjunctive_add_eq_or)
  moreover have "a \<noteq> 0x2B" using assms(1) by (auto simp: nibble_def)
  ultimately show ?thesis
    using assms by (simp add: from_str_radix16_pair_def push_bit_eq_mult mult.commute)
qed

lemma token_chunks_strict: "hex_pairs s = Some bs \<Longrightarrow> token_chunks s = Some bs"
proof (induction s arbitrary: bs rule: hex_pairs.induct)
  case (1 a b rest)
  then show ?case by (auto simp: radix_pair_strict split: option.splits)
qed auto

section \<open>Properties\<close>

text \<open>
  C25. End to end through the pump: datagrams of at most 65527 bytes read from the target socket
  are framed without a panic, and a tunnel that receives those frames forwards exactly the same
  datagrams in the same order, whatever the chunks the body arrives in; it stays up and keeps no
  bytes back.
\<close>

theorem masque_end_to_end:
  assumes "\<forall>d \<in> set ds. length d \<le> 65527"
    and "concat cs = concat (sent_h2 (run_tunnel new_tunnel (map UdpRecv ds)))"
  shows "sent_udp (run_tunnel new_tunnel (map Chunk cs)) = ds
    \<and> live (run_tunnel new_tunnel (map Chunk cs))
    \<and> inbound_buf (run_tunnel new_tunnel (map Chunk cs)) = []"
proof -
  have "concat cs = concat (map frame ds)"
    using assms by (simp add: run_tunnel_UdpRecv new_tunnel_def)
  then have "drain_capsules (inbound_bytes (map Chunk cs)) = (ds, Some [])"
    using drain_frames [OF assms(1)] by simp
  from run_tunnel_traffic [of new_tunnel "map Chunk cs", simplified new_tunnel_def tunnel.simps append.simps,
      OF _ drain_capsules_Nil _ this]
  show ?thesis by (simp add: new_tunnel_def)
qed

theorem masque_end_to_end_witness:
  "sent_udp (run_tunnel new_tunnel (map Chunk [[0], [3, 0, 7], [], [9, 0, 1, 0]])) = [[7, 9], []]"
proof -
  have "sent_h2 (run_tunnel new_tunnel (map UdpRecv [[7, 9], []])) = [frame [7, 9], frame []]"
    by (subst run_tunnel_UdpRecv) (simp_all add: new_tunnel_def)
  moreover have "frame [7, 9] = [0, 3, 0, 7, 9]" "frame [] = [0, 1, 0]"
    by (simp_all add: frame_def varint_bytes_def varint_class_def)
  ultimately have "concat [[0], [3, 0, 7], [], [9, 0, 1, 0]]
      = concat (sent_h2 (run_tunnel new_tunnel (map UdpRecv [[7, 9], []])))"
    by simp
  from masque_end_to_end [OF _ this] show ?thesis by simp
qed

text \<open>
  Admission: a request is answered 200 exactly when it is a CONNECT-UDP to the one configured
  path, carries a header that parses to the shared token, and a permit is free; it then takes one
  permit. Every other request gets the same refusal and takes none.
\<close>

theorem admit_request_exact:
  assumes "length tok = 32"
  shows "admit_request path tok permits req =
    (if req_is_connect_udp req \<and> req_path req = path \<and> 0 < permits
        \<and> (\<exists>v. req_token req = Some v \<and> parse_token_hex v = Some tok)
     then (Status200, permits - 1) else (RefusedStream, permits))"
  by (auto simp: admit_request_def masque_authed_iff [OF assms])

theorem admit_request_exact_witness:
  "fst (admit_request [47] (replicate 32 0) 1
     \<lparr>req_is_connect_udp = True, req_path = [47], req_token = Some (replicate 64 0x30)\<rparr>) = Status200"
proof -
  have "parse_token_hex (replicate 64 0x30) = Some (replicate 32 0)" by code_simp
  then show ?thesis by (subst admit_request_exact) simp_all
qed

text \<open>
  The token parser accepts every spelling the strict decoder \<open>hex::decode_32\<close> accepts, with
  the same value, but is not that decoder: \<open>from_str_radix\<close> also reads a plus sign as the first
  byte of a pair, so some 64-byte strings that are not hex are accepted as tokens.
\<close>

theorem parse_token_hex_laxer:
  "(\<forall>s k. hex_decode_32 (trim_ascii s) = Some k \<longrightarrow> parse_token_hex s = Some k)
   \<and> (\<exists>s k. parse_token_hex s = Some k \<and> hex_decode_32 (trim_ascii s) = None)"
proof -
  have "parse_token_hex s = Some k" if "hex_decode_32 (trim_ascii s) = Some k" for s k
  proof -
    from that have "length (trim_ascii s) = 64" "hex_pairs (trim_ascii s) = Some k"
      by (auto simp: hex_decode_32_def hex_decode_array_def hex_decode_def
          split: option.splits if_splits)
    then show ?thesis by (simp add: parse_token_hex_def token_chunks_strict)
  qed
  moreover have "parse_token_hex (concat (replicate 32 [0x2B, 0x66])) = Some (replicate 32 15)"
    "hex_decode_32 (trim_ascii (concat (replicate 32 [0x2B, 0x66]))) = None"
    by code_simp+
  ultimately show ?thesis by blast
qed

theorem parse_token_hex_laxer_witness:
  "parse_token_hex (replicate 64 0x61) = Some (replicate 32 0xAA)"
proof -
  have "hex_decode_32 (trim_ascii (replicate 64 0x61)) = Some (replicate 32 0xAA)" by code_simp
  then show ?thesis using parse_token_hex_laxer by blast
qed

end
