(* ===== verification/Collections.thy ===== *)
theory Collections
  imports Prelude "HOL-Library.List_Lexorder"
begin

text \<open>
  \<open>std::collections::BTreeMap\<close> as an association list with strictly ascending keys (byte-array
  keys compare lexicographically), interpreted as \<open>finite_map_ops\<close>, with the sum of its values
  as a measure; and \<open>BTreeSet\<close> as a strictly ascending list.
\<close>

section \<open>Ordered maps\<close>

type_synonym ('k, 'v) btmap = "('k \<times> 'v) list"

definition bt_get :: "('k::linorder, 'v) btmap \<Rightarrow> 'k \<Rightarrow> 'v option" where
  "bt_get m = map_of m"

fun bt_insert :: "'k::linorder \<Rightarrow> 'v \<Rightarrow> ('k, 'v) btmap \<Rightarrow> ('k, 'v) btmap" where
  "bt_insert k v [] = [(k, v)]"
| "bt_insert k v ((a, b) # m) =
     (if k = a then (k, v) # m else if k < a then (k, v) # (a, b) # m else (a, b) # bt_insert k v m)"

definition bt_remove :: "'k::linorder \<Rightarrow> ('k, 'v) btmap \<Rightarrow> ('k, 'v) btmap" where
  "bt_remove k m = filter (\<lambda>p. fst p \<noteq> k) m"

definition bt_retain :: "('k::linorder \<Rightarrow> 'v \<Rightarrow> bool) \<Rightarrow> ('k, 'v) btmap \<Rightarrow> ('k, 'v) btmap" where
  "bt_retain P m = filter (\<lambda>p. P (fst p) (snd p)) m"

definition bt_len :: "('k::linorder, 'v) btmap \<Rightarrow> nat" where
  "bt_len m = length m"

definition bt_empty :: "('k::linorder, 'v) btmap" where
  "bt_empty = []"

definition bt_wf :: "('k::linorder, 'v) btmap \<Rightarrow> bool" where
  "bt_wf m \<longleftrightarrow> sorted_wrt (<) (map fst m)"

lemma bt_wf_distinct: "bt_wf m \<Longrightarrow> distinct (map fst m)"
  by (simp add: bt_wf_def strict_sorted_iff)

lemma map_of_bt_insert: "map_of (bt_insert k v m) k' = (if k = k' then Some v else map_of m k')"
  by (induction k v m rule: bt_insert.induct) auto

lemma fst_set_bt_insert: "fst ` set (bt_insert k v m) = insert k (fst ` set m)"
  by (induction k v m rule: bt_insert.induct) (auto simp: image_iff)

lemma sorted_bt_insert: "bt_wf m \<Longrightarrow> bt_wf (bt_insert k v m)"
proof (induction k v m rule: bt_insert.induct)
  case (2 k v a b m)
  then show ?case
    using fst_set_bt_insert [of k v m] by (auto simp: bt_wf_def)
qed (simp add: bt_wf_def)

lemma sorted_wrt_map_filter: "sorted_wrt R (map f xs) \<Longrightarrow> sorted_wrt R (map f (filter P xs))"
  by (induction xs) auto

lemma map_of_bt_remove: "map_of (bt_remove k m) k' = (if k = k' then None else map_of m k')"
  by (induction m) (auto simp: bt_remove_def)

lemma map_of_bt_retain:
  "distinct (map fst m) \<Longrightarrow> map_of (bt_retain P m) k =
     (case map_of m k of None \<Rightarrow> None | Some v \<Rightarrow> if P k v then Some v else None)"
  by (induction m) (auto simp: bt_retain_def map_of_eq_None_iff split: option.splits)

interpretation bt: finite_map_ops bt_empty bt_get bt_insert bt_remove bt_retain bt_len bt_wf
proof unfold_locales
  show "finite (dom (bt_get m))" for m :: "('k::linorder, 'v) btmap"
    by (simp add: bt_get_def finite_dom_map_of)
  show "bt_wf m \<Longrightarrow> bt_len m = card (dom (bt_get m))" for m :: "('k::linorder, 'v) btmap"
    by (simp add: bt_wf_distinct bt_len_def bt_get_def dom_map_of_conv_image_fst
        distinct_card flip: set_map)
  show "bt_wf m \<Longrightarrow> bt_wf (bt_remove k m)" "bt_wf m \<Longrightarrow> bt_wf (bt_retain P m)"
    for m :: "('k::linorder, 'v) btmap" and k P
    by (simp_all add: bt_wf_def bt_remove_def bt_retain_def sorted_wrt_map_filter)
qed (auto simp: bt_empty_def bt_get_def bt_wf_def map_of_bt_insert map_of_bt_remove
    map_of_bt_retain [OF bt_wf_distinct [unfolded bt_wf_def]] sorted_bt_insert [unfolded bt_wf_def])

lemmas bt_get_simps [simp] = bt.get_emp bt.get_ins bt.get_rem
lemmas bt_wf_intros [simp, intro] = bt.wf_emp bt.wf_ins bt.wf_rem bt.wf_retain

text \<open>A well-formed ordered map is determined by its lookups.\<close>

lemma bt_ext:
  assumes "bt_wf m" "bt_wf n" "bt_get m = bt_get n"
  shows "m = n"
proof -
  have m: "set m = set n"
    using assms by (intro map_of_inject_set [THEN iffD1]) (simp_all add: bt_wf_distinct bt_get_def)
  then have "map fst m = map fst n"
    using assms(1,2) unfolding bt_wf_def by (intro strict_sorted_equal) auto
  moreover have "inj_on fst (set m \<union> set n)"
    using bt_wf_distinct [OF assms(1)] m by (simp add: distinct_map)
  ultimately show ?thesis by (rule map_inj_on)
qed

section \<open>Totals\<close>

definition bt_total :: "('v \<Rightarrow> nat) \<Rightarrow> ('k::linorder, 'v) btmap \<Rightarrow> nat" where
  "bt_total f m = sum_list (map (f \<circ> snd) m)"

definition bt_at :: "('v \<Rightarrow> nat) \<Rightarrow> ('k::linorder, 'v) btmap \<Rightarrow> 'k \<Rightarrow> nat" where
  "bt_at f m k = (case bt_get m k of None \<Rightarrow> 0 | Some v \<Rightarrow> f v)"

lemma bt_total_insert: "bt_wf m \<Longrightarrow> bt_total f (bt_insert k v m) + bt_at f m k = bt_total f m + f v"
proof (induction k v m rule: bt_insert.induct)
  case (2 k v a b m)
  then show ?case
    by (auto simp: bt_total_def bt_at_def bt_wf_def bt_get_def map_of_eq_None_iff
        split: option.splits dest!: map_of_SomeD)
qed (simp add: bt_total_def bt_at_def bt_get_def)

lemma filter_keys_idle: "k \<notin> fst ` set m \<Longrightarrow> filter (\<lambda>p. fst p \<noteq> k) m = m"
  by (induction m) auto

lemma bt_total_remove: "bt_wf m \<Longrightarrow> bt_total f (bt_remove k m) + bt_at f m k = bt_total f m"
proof (induction m)
  case (Cons p m)
  then show ?case
    by (cases p) (auto simp: bt_total_def bt_at_def bt_wf_def bt_get_def bt_remove_def
        filter_keys_idle split: option.splits dest!: map_of_SomeD)
qed (simp add: bt_total_def bt_at_def bt_get_def bt_remove_def)

lemma bt_at_le_total: "bt_wf m \<Longrightarrow> bt_at f m k \<le> bt_total f m"
  using bt_total_remove [of m f k] by linarith

section \<open>Ordered sets\<close>

definition bts_insert :: "'a::linorder \<Rightarrow> 'a list \<Rightarrow> 'a list" where
  "bts_insert x xs = map fst (bt_insert x () (map (\<lambda>y. (y, ())) xs))"

lemma set_bts_insert [simp]: "set (bts_insert x xs) = insert x (set xs)"
  using fst_set_bt_insert [of x "()" "map (\<lambda>y. (y, ())) xs"] by (simp add: bts_insert_def image_image)

lemma sorted_bts_insert: "sorted_wrt (<) xs \<Longrightarrow> sorted_wrt (<) (bts_insert x xs)"
  using sorted_bt_insert [of "map (\<lambda>y. (y, ())) xs" x "()"]
  by (simp add: bt_wf_def bts_insert_def comp_def)

end
