(* ===== verification/Preimage.thy ===== *)
theory Preimage
  imports Prelude
begin

text \<open>
  The signing-preimage builder (\<open>src/crates/common/src/preimage.rs\<close>), one function per method,
  and the injectivity every signed object of the system relies on. A chain
  \<open>Preimage::new(D).fixed(a).u64(b).finish()\<close> is
  \<open>pre_finish (pre_u64 b (pre_fixed a (preimage_new D)))\<close>.
\<close>

record preimage =
  buf :: bytes

definition preimage_new :: "bytes \<Rightarrow> preimage" where
  "preimage_new domain = \<lparr>buf = to_le_bytes32 (word_of_nat (length domain)) @ domain\<rparr>"

definition pre_fixed :: "bytes \<Rightarrow> preimage \<Rightarrow> preimage" where
  "pre_fixed bs p = p\<lparr>buf := buf p @ bs\<rparr>"

definition pre_u64 :: "u64 \<Rightarrow> preimage \<Rightarrow> preimage" where
  "pre_u64 v p = p\<lparr>buf := buf p @ to_le_bytes64 v\<rparr>"

definition pre_u32 :: "u32 \<Rightarrow> preimage \<Rightarrow> preimage" where
  "pre_u32 v p = p\<lparr>buf := buf p @ to_le_bytes32 v\<rparr>"

definition pre_tag :: "u8 \<Rightarrow> preimage \<Rightarrow> preimage" where
  "pre_tag t p = p\<lparr>buf := buf p @ [t]\<rparr>"

definition pre_var_bytes :: "bytes \<Rightarrow> preimage \<Rightarrow> preimage" where
  "pre_var_bytes bs p = p\<lparr>buf := buf p @ to_le_bytes32 (word_of_nat (length bs)) @ bs\<rparr>"

definition pre_finish :: "preimage \<Rightarrow> bytes" where
  "pre_finish p = buf p"

lemmas preimage_defs =
  preimage_new_def pre_fixed_def pre_u64_def pre_u32_def pre_tag_def pre_var_bytes_def pre_finish_def

section \<open>Injectivity of a chain of fields\<close>

datatype field = Fixed bytes | U64 u64 | U32 u32 | Tag u8 | Var bytes

fun push_field :: "preimage \<Rightarrow> field \<Rightarrow> preimage" where
  "push_field p (Fixed bs) = pre_fixed bs p"
| "push_field p (U64 v) = pre_u64 v p"
| "push_field p (U32 v) = pre_u32 v p"
| "push_field p (Tag t) = pre_tag t p"
| "push_field p (Var bs) = pre_var_bytes bs p"

definition build :: "bytes \<Rightarrow> field list \<Rightarrow> bytes" where
  "build domain fs = pre_finish (foldl push_field (preimage_new domain) fs)"

text \<open>Two fields occupy the same slot of a schema: same kind, fixed fields of one length.\<close>

fun same_slot :: "field \<Rightarrow> field \<Rightarrow> bool" where
  "same_slot (Fixed a) (Fixed b) = (length a = length b)"
| "same_slot (U64 _) (U64 _) = True"
| "same_slot (U32 _) (U32 _) = True"
| "same_slot (Tag _) (Tag _) = True"
| "same_slot (Var _) (Var _) = True"
| "same_slot _ _ = False"

fun short_field :: "field \<Rightarrow> bool" where
  "short_field (Var bs) = (length bs < 2 ^ 32)"
| "short_field _ = True"

fun field_bytes :: "field \<Rightarrow> bytes" where
  "field_bytes (Fixed bs) = bs"
| "field_bytes (U64 v) = to_le_bytes64 v"
| "field_bytes (U32 v) = to_le_bytes32 v"
| "field_bytes (Tag t) = [t]"
| "field_bytes (Var bs) = to_le_bytes32 (word_of_nat (length bs)) @ bs"

lemma buf_foldl_push: "buf (foldl push_field p fs) = buf p @ concat (map field_bytes fs)"
proof (induction fs arbitrary: p)
  case (Cons f fs)
  have "buf (push_field p f) = buf p @ field_bytes f"
    by (cases f) (simp_all add: preimage_defs)
  with Cons show ?case by simp
qed simp

lemma build_bytes: "build d fs = field_bytes (Var d) @ concat (map field_bytes fs)"
  by (simp add: build_def pre_finish_def buf_foldl_push preimage_new_def)

lemma le32_length_inject:
  "m < 2 ^ 32 \<Longrightarrow> n < 2 ^ 32 \<Longrightarrow> (word_of_nat m :: u32) = word_of_nat n \<longleftrightarrow> m = n"
  by (auto simp: word_unat_eq_iff unat_of_nat)

text \<open>One field can be read off the front of the bytes.\<close>

lemma field_prefix:
  assumes "same_slot f g" "short_field f" "short_field g" "field_bytes f @ xs = field_bytes g @ ys"
  shows "f = g \<and> xs = ys"
proof (cases "\<exists>a b. f = Var a \<and> g = Var b")
  case True
  then obtain a b where ab: "f = Var a" "g = Var b" by blast
  from assms(4) have "to_le_bytes32 (word_of_nat (length a)) = to_le_bytes32 (word_of_nat (length b))"
    "a @ xs = b @ ys"
    by (simp_all add: ab append_eq_append_conv)
  with assms(2,3) have "length a = length b"
    by (simp add: ab le32_length_inject)
  with \<open>a @ xs = b @ ys\<close> show ?thesis by (simp add: ab)
next
  case False
  with assms show ?thesis by (cases f; cases g) simp_all
qed

lemma fields_inject:
  assumes "list_all2 same_slot fs gs" "list_all short_field fs" "list_all short_field gs"
    and "concat (map field_bytes fs) = concat (map field_bytes gs)"
  shows "fs = gs"
  using assms
proof (induction rule: list_all2_induct)
  case (Cons f fs g gs)
  then show ?case using field_prefix [of f g] by auto
qed simp

lemma build_domain: "build d fs = build e gs \<Longrightarrow> length d < 2 ^ 32 \<Longrightarrow> length e < 2 ^ 32 \<Longrightarrow> d = e"
  using field_prefix [of "Var d" "Var e" "concat (map field_bytes fs)" "concat (map field_bytes gs)"] by (simp add: build_bytes)

lemma build_inject:
  assumes "build d fs = build e gs" "length d < 2 ^ 32" "length e < 2 ^ 32"
    and "list_all2 same_slot fs gs" "list_all short_field fs" "list_all short_field gs"
  shows "d = e \<and> fs = gs"
proof -
  have "d = e \<and> concat (map field_bytes fs) = concat (map field_bytes gs)"
    using assms(1-3) field_prefix [of "Var d" "Var e" "concat (map field_bytes fs)" "concat (map field_bytes gs)"] by (simp add: build_bytes)
  with assms(4-6) show ?thesis by (blast intro: fields_inject)
qed

section \<open>Properties\<close>

text \<open>
  Domain separation and injectivity: two preimages with equal bytes have the same domain tag,
  whatever the schemas behind the tags are; and if their fields fill the same schema they are the
  same fields. So one signature never authenticates two different objects. Lengths are below
  \<open>2 ^ 32\<close>, past which the \<open>as u32\<close> cast drops bits.
\<close>

theorem preimage_injective:
  assumes "build d fs = build e gs" "length d < 2 ^ 32" "length e < 2 ^ 32"
  shows "d = e \<and> (list_all2 same_slot fs gs \<and> list_all short_field fs \<and> list_all short_field gs
    \<longrightarrow> fs = gs)"
  using build_domain [OF assms] build_inject [OF assms] by blast

theorem preimage_injective_witness:
  "build [1] [Var [2, 3], Fixed [4]] \<noteq> build [1] [Var [2], Fixed [3, 4]]
   \<and> build [1] [Var [2, 3], Var [4]] \<noteq> build [1] [Var [2], Var [3, 4]]"
proof -
  have "build [1] [Var [2, 3], Var [4]] = build [1] [Var [2], Var [3, 4]] \<Longrightarrow> False"
    using preimage_injective [of "[1]" "[Var [2, 3], Var [4]]" "[1]" "[Var [2], Var [3, 4]]"] by simp
  moreover have "build [1] [Var [2, 3], Fixed [4]] \<noteq> build [1] [Var [2], Fixed [3, 4]]"
    by (simp add: build_bytes)
  ultimately show ?thesis by blast
qed

end
