(* ===== verification/Wire.thy ===== *)
theory Wire
  imports Preimage "HOL-Library.Monad_Syntax"
begin

text \<open>
  Reading fixed-width and length-prefixed fields off the front of a byte string, as the decoders
  of the signed objects do (\<open>take(&mut cur, n)?\<close>), and UTF-8 validity as \<open>String::from_utf8\<close>
  checks it. A Rust \<open>String\<close> is its bytes together with that validity.
\<close>

type_synonym verifier = "bytes \<Rightarrow> bytes \<Rightarrow> bytes \<Rightarrow> bool"
type_synonym digest = "bytes \<Rightarrow> bytes"

definition take_n :: "nat \<Rightarrow> bytes \<Rightarrow> (bytes \<times> bytes) option" where
  "take_n n cur = (if length cur < n then None else Some (take n cur, drop n cur))"

lemma take_n_append [simp]: "length xs = n \<Longrightarrow> take_n n (xs @ ys) = Some (xs, ys)"
  by (simp add: take_n_def)

lemma take_n_all [simp]: "length xs = n \<Longrightarrow> take_n n xs = Some (xs, [])"
  by (simp add: take_n_def)

lemma take_n_Cons [simp]: "take_n (Suc 0) (x # ys) = Some ([x], ys)"
  by (simp add: take_n_def)

lemma take_n_SomeD: "take_n n cur = Some (h, t) \<Longrightarrow> cur = h @ t \<and> length h = n"
  by (auto simp: take_n_def split: if_splits)

lemma take_n_iff: "take_n n cur = Some (h, t) \<longleftrightarrow> cur = h @ t \<and> length h = n"
  by (auto simp: take_n_def split: if_splits)

definition cont :: "u8 \<Rightarrow> bool" where
  "cont b \<longleftrightarrow> 0x80 \<le> b \<and> b \<le> 0xBF"

fun utf8_valid :: "bytes \<Rightarrow> bool" where
  "utf8_valid [] = True"
| "utf8_valid (a # s) =
     (if a \<le> 0x7F then utf8_valid s
      else if 0xC2 \<le> a \<and> a \<le> 0xDF then
        (case s of b # s' \<Rightarrow> cont b \<and> utf8_valid s' | _ \<Rightarrow> False)
      else if 0xE0 \<le> a \<and> a \<le> 0xEF then
        (case s of b # c # s' \<Rightarrow> cont b \<and> cont c \<and> (a = 0xE0 \<longrightarrow> 0xA0 \<le> b) \<and> (a = 0xED \<longrightarrow> b \<le> 0x9F)
           \<and> utf8_valid s' | _ \<Rightarrow> False)
      else if 0xF0 \<le> a \<and> a \<le> 0xF4 then
        (case s of b # c # d # s' \<Rightarrow> cont b \<and> cont c \<and> cont d \<and> (a = 0xF0 \<longrightarrow> 0x90 \<le> b)
           \<and> (a = 0xF4 \<longrightarrow> b \<le> 0x8F) \<and> utf8_valid s' | _ \<Rightarrow> False)
      else False)"

definition from_utf8 :: "bytes \<Rightarrow> bytes option" where
  "from_utf8 bs = (if utf8_valid bs then Some bs else None)"

lemma from_utf8_iff [simp]: "from_utf8 bs = Some s \<longleftrightarrow> s = bs \<and> utf8_valid bs"
  by (auto simp: from_utf8_def)

text \<open>A length-prefixed string field, as the encoders write and the decoders read it.\<close>

definition put_str :: "bytes \<Rightarrow> bytes" where
  "put_str s = to_le_bytes32 (word_of_nat (length s)) @ s"

lemma to_le_from_le64: "length bs = 8 \<Longrightarrow> to_le_bytes64 (from_le_bytes64 bs) = bs"
  using le_nat_bound [of bs] by (simp add: byte_codec_defs unat_of_nat nat_le_le_nat)

lemma to_le_from_le32: "length bs = 4 \<Longrightarrow> to_le_bytes32 (from_le_bytes32 bs) = bs"
  using le_nat_bound [of bs] by (simp add: byte_codec_defs unat_of_nat nat_le_le_nat)

lemma le32_length [simp]: "n < 2 ^ 32 \<Longrightarrow> unat (word_of_nat n :: u32) = n"
  by (simp add: unat_of_nat)

lemma unat32_back: "word_of_nat (unat (w :: u32)) = w"
  by (rule sym, rule eq_word_of_nat) simp

end
