(* ===== verification/Ledger.thy ===== *)
theory Ledger
  imports Collections Wire
begin

text \<open>
  The settlement chain (\<open>src/crates/common/src/settlement.rs\<close>, \<open>Transfer\<close>, \<open>Block\<close>, \<open>Chain\<close>).
  The ed25519 verifier and SHA-256 are third-party: they are the parameters \<open>vrfy\<close> (public key,
  message, signature; false also for a key that does not parse) and \<open>sha\<close>. A \<open>&mut self\<close>
  method returns its result and the chain afterwards.
\<close>

type_synonym account = bytes

definition TRANSFER_DOMAIN :: bytes where
  "TRANSFER_DOMAIN = map of_char ''ct-settlement-transfer-v1''"

definition BLOCK_DOMAIN :: bytes where
  "BLOCK_DOMAIN = map of_char ''ct-settlement-block-v1''"

datatype chain_error =
    BadSignature
  | Overdraft account u64 u64
  | BadNonce account u64 u64
  | BalanceOverflow account u64 u64
  | BrokenChain u64

section \<open>Transfers\<close>

record transfer =
  tr_from :: account
  tr_to :: account
  tr_amount :: u64
  tr_nonce :: u64
  tr_signature :: bytes

definition transfer_signing_bytes :: "account \<Rightarrow> account \<Rightarrow> u64 \<Rightarrow> u64 \<Rightarrow> bytes" where
  "transfer_signing_bytes frm to amount nonce =
     pre_finish (pre_u64 nonce (pre_u64 amount (pre_fixed to (pre_fixed frm
       (preimage_new TRANSFER_DOMAIN)))))"

definition transfer_sign_new ::
  "('sk \<Rightarrow> bytes) \<Rightarrow> ('sk \<Rightarrow> bytes \<Rightarrow> bytes) \<Rightarrow> 'sk \<Rightarrow> account \<Rightarrow> u64 \<Rightarrow> u64 \<Rightarrow> transfer" where
  "transfer_sign_new pubkey sign key to amount nonce =
     (let frm = pubkey key; signature = sign key (transfer_signing_bytes frm to amount nonce)
      in \<lparr>tr_from = frm, tr_to = to, tr_amount = amount, tr_nonce = nonce, tr_signature = signature\<rparr>)"

definition transfer_verify :: "verifier \<Rightarrow> transfer \<Rightarrow> bool" where
  "transfer_verify vrfy t =
     vrfy (tr_from t) (transfer_signing_bytes (tr_from t) (tr_to t) (tr_amount t) (tr_nonce t))
       (tr_signature t)"

definition TRANSFER_WIRE_LEN :: nat where
  "TRANSFER_WIRE_LEN = 32 + 32 + 8 + 8 + 64"

definition transfer_encode :: "transfer \<Rightarrow> bytes" where
  "transfer_encode t = tr_from t @ tr_to t @ to_le_bytes64 (tr_amount t) @ to_le_bytes64 (tr_nonce t)
     @ tr_signature t"

text \<open>\<open>slice a n b\<close> is \<open>b[a..a+n]\<close>.\<close>

definition slice :: "nat \<Rightarrow> nat \<Rightarrow> bytes \<Rightarrow> bytes" where
  "slice a n b = take n (drop a b)"

definition transfer_decode :: "bytes \<Rightarrow> transfer option" where
  "transfer_decode b =
     (if length b \<noteq> TRANSFER_WIRE_LEN then None
      else Some \<lparr>tr_from = slice 0 32 b, tr_to = slice 32 32 b,
                 tr_amount = from_le_bytes64 (slice 64 8 b),
                 tr_nonce = from_le_bytes64 (slice 72 8 b),
                 tr_signature = slice 80 64 b\<rparr>)"

section \<open>Blocks\<close>

record block =
  bl_height :: u64
  bl_prev_hash :: bytes
  bl_transfers :: "transfer list"
  bl_hash :: bytes

definition block_encode :: "block \<Rightarrow> bytes" where
  "block_encode b = to_le_bytes64 (bl_height b) @ bl_prev_hash b
     @ to_le_bytes32 (word_of_nat (length (bl_transfers b)))
     @ concat (map transfer_encode (bl_transfers b)) @ bl_hash b"

text \<open>The loop over \<open>0..count\<close>, reading one transfer per step.\<close>

fun decode_transfers :: "nat \<Rightarrow> bytes \<Rightarrow> transfer list option" where
  "decode_transfers 0 b = Some []"
| "decode_transfers (Suc n) b =
     (case transfer_decode (take TRANSFER_WIRE_LEN b) of None \<Rightarrow> None | Some t \<Rightarrow>
        map_option (\<lambda>ts. t # ts) (decode_transfers n (drop TRANSFER_WIRE_LEN b)))"

text \<open>\<open>usize\<close> has 64 bits, so the checked products and sums of a 32-bit count cannot fail.\<close>

definition block_decode :: "bytes \<Rightarrow> block option" where
  "block_decode b =
     (let HEAD = 8 + 32 + 4 in
      if length b < HEAD + 32 then None else
      let height = from_le_bytes64 (slice 0 8 b);
          prev_hash = slice 8 32 b;
          count = unat (from_le_bytes32 (slice 40 4 b));
          expected = HEAD + count * TRANSFER_WIRE_LEN + 32 in
      if length b \<noteq> expected then None else
      case decode_transfers count (drop HEAD b) of None \<Rightarrow> None | Some transfers \<Rightarrow>
        Some \<lparr>bl_height = height, bl_prev_hash = prev_hash, bl_transfers = transfers,
              bl_hash = slice (expected - 32) 32 b\<rparr>)"

definition block_preimage :: "u64 \<Rightarrow> bytes \<Rightarrow> transfer list \<Rightarrow> bytes" where
  "block_preimage height prev_hash transfers =
     BLOCK_DOMAIN @ to_le_bytes64 height @ prev_hash
     @ to_le_bytes32 (word_of_nat (length transfers))
     @ concat (map (\<lambda>t. tr_from t @ tr_to t @ to_le_bytes64 (tr_amount t)
                        @ to_le_bytes64 (tr_nonce t) @ tr_signature t) transfers)"

definition block_hash :: "digest \<Rightarrow> u64 \<Rightarrow> bytes \<Rightarrow> transfer list \<Rightarrow> bytes" where
  "block_hash sha height prev_hash transfers = sha (block_preimage height prev_hash transfers)"

section \<open>The chain\<close>

type_synonym ledger_state = "(account, u64) btmap \<times> (account, u64) btmap"

record chain =
  ch_genesis :: "(account, u64) btmap"
  ch_blocks :: "block list"
  ch_cached_state :: "ledger_state option"

definition chain_new :: "digest \<Rightarrow> (account, u64) btmap \<Rightarrow> chain" where
  "chain_new sha genesis =
     \<lparr>ch_genesis = genesis,
      ch_blocks = [\<lparr>bl_height = 0, bl_prev_hash = replicate 32 0, bl_transfers = [],
                    bl_hash = block_hash sha 0 (replicate 32 0) []\<rparr>],
      ch_cached_state = None\<rparr>"

definition tip_block :: "chain \<Rightarrow> block" where
  "tip_block c = last (ch_blocks c)"

definition tip_hash :: "chain \<Rightarrow> bytes" where
  "tip_hash c = bl_hash (last (ch_blocks c))"

definition chain_height :: "chain \<Rightarrow> u64" where
  "chain_height c = bl_height (last (ch_blocks c))"

definition get_or0 :: "(account, u64) btmap \<Rightarrow> account \<Rightarrow> u64" where
  "get_or0 m a = (case bt_get m a of None \<Rightarrow> 0 | Some v \<Rightarrow> v)"

definition apply_transfer :: "ledger_state \<Rightarrow> transfer \<Rightarrow> ledger_state" where
  "apply_transfer st t =
     (let (balances, nonces) = st;
          balances = bt_insert (tr_from t) (saturating_sub (get_or0 balances (tr_from t)) (tr_amount t)) balances;
          balances = bt_insert (tr_to t) (saturating_add (get_or0 balances (tr_to t)) (tr_amount t)) balances;
          nonces = bt_insert (tr_from t) (get_or0 nonces (tr_from t) + 1) nonces
      in (balances, nonces))"

definition compute_state :: "chain \<Rightarrow> ledger_state" where
  "compute_state c =
     foldl (\<lambda>acc block. foldl apply_transfer acc (bl_transfers block)) (ch_genesis c, bt_empty) (ch_blocks c)"

definition chain_state :: "chain \<Rightarrow> ledger_state \<times> chain" where
  "chain_state c =
     (case ch_cached_state c of
        Some st \<Rightarrow> (st, c)
      | None \<Rightarrow> let st = compute_state c in (st, c\<lparr>ch_cached_state := Some st\<rparr>))"

definition validate_and_apply ::
  "verifier \<Rightarrow> ledger_state \<Rightarrow> transfer \<Rightarrow> chain_error + ledger_state" where
  "validate_and_apply vrfy st t =
     (if \<not> transfer_verify vrfy t then Err BadSignature else
      let expected = get_or0 (snd st) (tr_from t) in
      if tr_nonce t \<noteq> expected then Err (BadNonce (tr_from t) expected (tr_nonce t)) else
      let balance = get_or0 (fst st) (tr_from t) in
      if balance < tr_amount t then Err (Overdraft (tr_from t) balance (tr_amount t)) else
      let to_balance = get_or0 (fst st) (tr_to t) in
      if checked_add to_balance (tr_amount t) = None
      then Err (BalanceOverflow (tr_to t) to_balance (tr_amount t)) else
      Ok (apply_transfer st t))"

fun validate_all ::
  "verifier \<Rightarrow> ledger_state \<Rightarrow> transfer list \<Rightarrow> chain_error + ledger_state" where
  "validate_all vrfy st [] = Ok st"
| "validate_all vrfy st (t # ts) =
     (case validate_and_apply vrfy st t of Err e \<Rightarrow> Err e | Ok st' \<Rightarrow> validate_all vrfy st' ts)"

definition chain_append ::
  "verifier \<Rightarrow> digest \<Rightarrow> chain \<Rightarrow> transfer list \<Rightarrow> (chain_error + unit) \<times> chain" where
  "chain_append vrfy sha c transfers =
     (let (st, c) = chain_state c in
      case validate_all vrfy st transfers of
        Err e \<Rightarrow> (Err e, c)
      | Ok st' \<Rightarrow>
          let height = chain_height c + 1;
              prev_hash = tip_hash c;
              hash = block_hash sha height prev_hash transfers
          in (Ok (), c\<lparr>ch_blocks := ch_blocks c @ [\<lparr>bl_height = height, bl_prev_hash = prev_hash,
                          bl_transfers = transfers, bl_hash = hash\<rparr>],
                       ch_cached_state := Some st'\<rparr>))"

definition accept_block ::
  "verifier \<Rightarrow> digest \<Rightarrow> chain \<Rightarrow> block \<Rightarrow> (chain_error + unit) \<times> chain" where
  "accept_block vrfy sha c block =
     (let own = block_hash sha (bl_height block) (bl_prev_hash block) (bl_transfers block) in
      if bl_height block \<le> chain_height c then
        let known_hash = bl_hash (ch_blocks c ! unat (bl_height block));
            content_ok = (bl_hash block = own)
        in if content_ok \<and> known_hash = bl_hash block then (Ok (), c)
           else (Err (BrokenChain (bl_height block)), c)
      else let expected_height = chain_height c + 1 in
        if bl_height block \<noteq> expected_height \<or> bl_prev_hash block \<noteq> tip_hash c \<or> bl_hash block \<noteq> own
        then (Err (BrokenChain expected_height), c)
        else let (st, c) = chain_state c in
          case validate_all vrfy st (bl_transfers block) of
            Err e \<Rightarrow> (Err e, c)
          | Ok st' \<Rightarrow> (Ok (), c\<lparr>ch_blocks := ch_blocks c @ [block], ch_cached_state := Some st'\<rparr>))"

definition chain_balance :: "chain \<Rightarrow> account \<Rightarrow> u64 \<times> chain" where
  "chain_balance c a = (let (st, c) = chain_state c in (get_or0 (fst st) a, c))"

fun valid_from ::
  "verifier \<Rightarrow> digest \<Rightarrow> nat \<Rightarrow> bytes \<Rightarrow> ledger_state \<Rightarrow> block list \<Rightarrow> chain_error + unit" where
  "valid_from vrfy sha i prev_hash st [] = Ok ()"
| "valid_from vrfy sha i prev_hash st (block # bs) =
     (let expected_height = word_of_nat i in
      if bl_height block \<noteq> expected_height \<or> bl_prev_hash block \<noteq> prev_hash
         \<or> bl_hash block \<noteq> block_hash sha (bl_height block) (bl_prev_hash block) (bl_transfers block)
      then Err (BrokenChain expected_height)
      else case validate_all vrfy st (bl_transfers block) of
             Err e \<Rightarrow> Err e
           | Ok st' \<Rightarrow> valid_from vrfy sha (Suc i) (bl_hash block) st' bs)"

definition is_valid :: "verifier \<Rightarrow> digest \<Rightarrow> chain \<Rightarrow> chain_error + unit" where
  "is_valid vrfy sha c = valid_from vrfy sha 0 (replicate 32 0) (ch_genesis c, bt_empty) (ch_blocks c)"


section \<open>Wire forms\<close>

definition sized_transfer :: "transfer \<Rightarrow> bool" where
  "sized_transfer t \<longleftrightarrow> length (tr_from t) = 32 \<and> length (tr_to t) = 32 \<and> length (tr_signature t) = 64"

definition sized_block :: "block \<Rightarrow> bool" where
  "sized_block b \<longleftrightarrow> length (bl_prev_hash b) = 32 \<and> length (bl_hash b) = 32
     \<and> list_all sized_transfer (bl_transfers b) \<and> length (bl_transfers b) < 2 ^ 32"

lemma length_transfer_encode: "sized_transfer t \<Longrightarrow> length (transfer_encode t) = TRANSFER_WIRE_LEN"
  by (simp add: sized_transfer_def transfer_encode_def TRANSFER_WIRE_LEN_def)

lemma transfer_decode_encode: "sized_transfer t \<Longrightarrow> transfer_decode (transfer_encode t) = Some t"
  by (simp add: transfer_decode_def length_transfer_encode)
    (simp add: sized_transfer_def transfer_encode_def slice_def)

lemma length_slice: "a + n \<le> length b \<Longrightarrow> length (slice a n b) = n"
  by (simp add: slice_def)

lemma slice_append: "slice a m b @ slice (a + m) n b = slice a (m + n) b"
  by (simp add: slice_def take_add add.commute)

lemma transfer_encode_decode:
  assumes "transfer_decode b = Some t"
  shows "transfer_encode t = b \<and> sized_transfer t"
proof -
  have len: "length b = 144" and t: "t = \<lparr>tr_from = slice 0 32 b, tr_to = slice 32 32 b,
      tr_amount = from_le_bytes64 (slice 64 8 b), tr_nonce = from_le_bytes64 (slice 72 8 b),
      tr_signature = slice 80 64 b\<rparr>"
    using assms by (auto simp: transfer_decode_def TRANSFER_WIRE_LEN_def split: if_splits)
  have "transfer_encode t = slice 0 32 b @ slice 32 32 b @ slice 64 8 b @ slice 72 8 b @ slice 80 64 b"
    using len by (simp add: t transfer_encode_def to_le_from_le64 length_slice)
  also have "\<dots> = slice 0 144 b"
    using slice_append [of 72 8 b 64] slice_append [of 64 8 b 72] slice_append [of 32 32 b 80]
      slice_append [of 0 32 b 112] by simp
  finally show ?thesis
    using len by (simp add: t sized_transfer_def length_slice) (simp add: slice_def)
qed

lemma decode_transfers_encode:
  "list_all sized_transfer ts \<Longrightarrow>
     decode_transfers (length ts) (concat (map transfer_encode ts) @ rest) = Some ts"
  by (induction ts) (simp_all add: length_transfer_encode transfer_decode_encode)

lemma length_encoded_transfers:
  "list_all sized_transfer ts \<Longrightarrow>
     length (concat (map transfer_encode ts)) = length ts * TRANSFER_WIRE_LEN"
  by (induction ts) (simp_all add: length_transfer_encode)

lemma block_decode_encode:
  assumes "sized_block b"
  shows "block_decode (block_encode b) = Some b"
proof -
  let ?ts = "bl_transfers b"
  have prev: "length (bl_prev_hash b) = 32" and hash: "length (bl_hash b) = 32"
    and ts: "list_all sized_transfer ?ts" and cnt: "length ?ts < 2 ^ 32"
    using assms by (simp_all add: sized_block_def)
  have body: "length (concat (map transfer_encode ?ts)) = length ?ts * TRANSFER_WIRE_LEN"
    by (rule length_encoded_transfers [OF ts])
  have count: "unat (word_of_nat (length ?ts) :: u32) = length ?ts"
    using cnt by (simp add: unat_of_nat)
  show ?thesis
    using decode_transfers_encode [OF ts, of "bl_hash b"] prev hash body
    by (simp add: block_decode_def block_encode_def slice_def count Let_def)
qed

section \<open>Replaying transfers\<close>

definition transfers_of :: "block list \<Rightarrow> transfer list" where
  "transfers_of bs = concat (map bl_transfers bs)"

lemma foldl_blocks:
  "foldl (\<lambda>acc b. foldl apply_transfer acc (bl_transfers b)) st bs = foldl apply_transfer st (transfers_of bs)"
  by (induction bs arbitrary: st) (simp_all add: transfers_of_def)

lemma compute_state_transfers:
  "compute_state c = foldl apply_transfer (ch_genesis c, bt_empty) (transfers_of (ch_blocks c))"
  by (simp add: compute_state_def foldl_blocks)

lemma validate_and_apply_Ok:
  "validate_and_apply vrfy st t = Ok st' \<longleftrightarrow>
     transfer_verify vrfy t \<and> tr_nonce t = get_or0 (snd st) (tr_from t)
     \<and> tr_amount t \<le> get_or0 (fst st) (tr_from t)
     \<and> unat (get_or0 (fst st) (tr_to t)) + unat (tr_amount t) < 2 ^ 64
     \<and> st' = apply_transfer st t"
  by (auto simp: validate_and_apply_def Let_def checked_add_def)

lemma validate_all_append:
  "validate_all vrfy st (xs @ ys) =
     (case validate_all vrfy st xs of Err e \<Rightarrow> Err e | Ok st' \<Rightarrow> validate_all vrfy st' ys)"
  by (induction xs arbitrary: st) (auto split: sum.splits)

lemma validate_all_state: "validate_all vrfy st ts = Ok st' \<Longrightarrow> st' = foldl apply_transfer st ts"
  by (induction ts arbitrary: st) (auto simp: validate_and_apply_Ok split: sum.splits)

lemma valid_from_snoc:
  "valid_from vrfy sha i prev st (bs @ [b]) = Ok () \<longleftrightarrow>
     valid_from vrfy sha i prev st bs = Ok ()
     \<and> bl_height b = word_of_nat (i + length bs)
     \<and> bl_prev_hash b = (if bs = [] then prev else bl_hash (last bs))
     \<and> bl_hash b = block_hash sha (bl_height b) (bl_prev_hash b) (bl_transfers b)
     \<and> validate_all vrfy (foldl apply_transfer st (transfers_of bs)) (bl_transfers b)
         = Ok (foldl apply_transfer st (transfers_of (bs @ [b])))"
proof (induction bs arbitrary: i prev st)
  case Nil
  show ?case
    using validate_all_state [of vrfy st "bl_transfers b"]
    by (auto simp: Let_def transfers_of_def split: sum.splits)
next
  case (Cons a bs)
  show ?case
  proof (cases "validate_all vrfy st (bl_transfers a)")
    case (Inr st')
    then have "st' = foldl apply_transfer st (bl_transfers a)" by (rule validate_all_state)
    with Inr Cons show ?thesis by (auto simp: Let_def transfers_of_def)
  qed (simp add: Let_def)
qed

lemma valid_from_validate_all:
  "valid_from vrfy sha i prev st bs = Ok () \<Longrightarrow>
     validate_all vrfy st (transfers_of bs) = Ok (foldl apply_transfer st (transfers_of bs))"
proof (induction bs rule: rev_induct)
  case (snoc b bs)
  then show ?case
    unfolding valid_from_snoc by (simp add: transfers_of_def validate_all_append)
qed (simp add: transfers_of_def)


section \<open>The chain invariant\<close>

definition chain_inv :: "verifier \<Rightarrow> digest \<Rightarrow> (account, u64) btmap \<Rightarrow> chain \<Rightarrow> bool" where
  "chain_inv vrfy sha g c \<longleftrightarrow> ch_genesis c = g \<and> ch_blocks c \<noteq> [] \<and> is_valid vrfy sha c = Ok ()
     \<and> (ch_cached_state c = None \<or> ch_cached_state c = Some (compute_state c))"

text \<open>One call on a chain: a local append, a block from a peer, a balance query.\<close>

datatype chain_call = Append "transfer list" | Accept block | Balance account

definition chain_step :: "verifier \<Rightarrow> digest \<Rightarrow> chain \<Rightarrow> chain_call \<Rightarrow> chain" where
  "chain_step vrfy sha c call =
     (case call of Append ts \<Rightarrow> snd (chain_append vrfy sha c ts)
      | Accept b \<Rightarrow> snd (accept_block vrfy sha c b)
      | Balance a \<Rightarrow> snd (chain_balance c a))"

inductive chain_reachable :: "verifier \<Rightarrow> digest \<Rightarrow> (account, u64) btmap \<Rightarrow> chain \<Rightarrow> bool"
  for vrfy sha g where
  start: "chain_reachable vrfy sha g (chain_new sha g)"
| step: "chain_reachable vrfy sha g c \<Longrightarrow> chain_reachable vrfy sha g (chain_step vrfy sha c call)"

lemma chain_new_inv: "chain_inv vrfy sha g (chain_new sha g)"
  by (simp add: chain_inv_def chain_new_def is_valid_def)

lemma chain_state_inv:
  assumes "chain_inv vrfy sha g c" "chain_state c = (st, c')"
  shows "chain_inv vrfy sha g c' \<and> st = compute_state c' \<and> ch_blocks c' = ch_blocks c"
  using assms
  by (auto simp: chain_inv_def chain_state_def compute_state_def is_valid_def Let_def split: option.splits)

lemma chain_state_fst: "chain_inv vrfy sha g c \<Longrightarrow> fst (chain_state c) = compute_state c"
  by (cases "ch_cached_state c") (auto simp: chain_inv_def chain_state_def Let_def)

lemma chain_balance_eq:
  "chain_inv vrfy sha g c \<Longrightarrow> fst (chain_balance c a) = get_or0 (fst (compute_state c)) a"
  using chain_state_fst by (fastforce simp: chain_balance_def split_def)

lemma chain_inv_validated:
  assumes "chain_inv vrfy sha g c"
  shows "validate_all vrfy (g, bt_empty) (transfers_of (ch_blocks c)) = Ok (compute_state c)"
proof -
  have "ch_genesis c = g" "valid_from vrfy sha 0 (replicate 32 0) (ch_genesis c, bt_empty) (ch_blocks c) = Ok ()"
    using assms by (auto simp: chain_inv_def is_valid_def)
  from valid_from_validate_all [OF this(2)] this(1) show ?thesis
    by (simp add: compute_state_transfers)
qed

lemma chain_height_inv:
  assumes "chain_inv vrfy sha g c"
  shows "chain_height c = word_of_nat (length (ch_blocks c) - 1)"
proof -
  obtain bs b where c: "ch_blocks c = bs @ [b]"
    using assms by (cases "ch_blocks c" rule: rev_cases) (auto simp: chain_inv_def)
  then show ?thesis
    using assms by (simp add: chain_inv_def is_valid_def valid_from_snoc chain_height_def)
qed

text \<open>Adding a block that links to the tip and validates keeps the chain valid.\<close>

lemma extend_inv:
  assumes inv: "chain_inv vrfy sha g c"
    and "bl_height b = chain_height c + 1" "bl_prev_hash b = tip_hash c"
    and "bl_hash b = block_hash sha (bl_height b) (bl_prev_hash b) (bl_transfers b)"
    and ok: "validate_all vrfy (compute_state c) (bl_transfers b) = Ok st"
  shows "chain_inv vrfy sha g (c\<lparr>ch_blocks := ch_blocks c @ [b], ch_cached_state := Some st\<rparr>)"
proof -
  have "0 < length (ch_blocks c)" using inv by (simp add: chain_inv_def)
  then have "bl_height b = word_of_nat (length (ch_blocks c))"
    using assms(2) chain_height_inv [OF inv] by (cases "length (ch_blocks c)") simp_all
  moreover have "st = foldl apply_transfer (compute_state c) (bl_transfers b)"
    by (rule validate_all_state [OF ok])
  ultimately show ?thesis
    using inv assms(3,4) ok
    by (auto simp: chain_inv_def is_valid_def valid_from_snoc compute_state_transfers tip_hash_def
        transfers_of_def)
qed

lemma chain_append_inv:
  assumes "chain_inv vrfy sha g c"
  shows "chain_inv vrfy sha g (snd (chain_append vrfy sha c ts))"
proof -
  obtain st c' where st: "chain_state c = (st, c')" by fastforce
  then have c': "chain_inv vrfy sha g c'" "st = compute_state c'"
    using chain_state_inv [OF assms] by blast+
  with st show ?thesis
    using extend_inv [OF c'(1)]
    by (cases "validate_all vrfy st ts") (auto simp: chain_append_def Let_def)
qed

lemma accept_block_inv:
  assumes "chain_inv vrfy sha g c"
  shows "chain_inv vrfy sha g (snd (accept_block vrfy sha c b))"
proof -
  obtain st c' where st: "chain_state c = (st, c')" by fastforce
  then have c': "chain_inv vrfy sha g c'" "st = compute_state c'" "ch_blocks c' = ch_blocks c"
    using chain_state_inv [OF assms] by blast+
  then have "tip_hash c' = tip_hash c" "chain_height c' = chain_height c"
    by (simp_all add: tip_hash_def chain_height_def)
  with st c' assms show ?thesis
    using extend_inv [OF c'(1), of b]
    by (cases "validate_all vrfy st (bl_transfers b)") (auto simp: accept_block_def Let_def)
qed

lemma chain_step_inv: "chain_inv vrfy sha g c \<Longrightarrow> chain_inv vrfy sha g (chain_step vrfy sha c call)"
  using chain_state_inv [of vrfy sha g c]
  by (cases call) (auto simp: chain_step_def chain_balance_def chain_append_inv accept_block_inv
      split: prod.splits)

lemma chain_reachable_inv: "chain_reachable vrfy sha g c \<Longrightarrow> chain_inv vrfy sha g c"
  by (induction rule: chain_reachable.induct) (simp_all add: chain_new_inv chain_step_inv)

text \<open>Errors leave the blocks as they were.\<close>

lemma chain_state_blocks: "chain_state c = (st, c') \<Longrightarrow> ch_blocks c' = ch_blocks c"
  by (auto simp: chain_state_def Let_def split: option.splits)

lemma chain_append_Err:
  "chain_append vrfy sha c ts = (Err e, c') \<Longrightarrow> ch_blocks c' = ch_blocks c"
  using chain_state_blocks by (fastforce simp: chain_append_def Let_def split: prod.splits sum.splits)

lemma accept_block_Err:
  "accept_block vrfy sha c b = (Err e, c') \<Longrightarrow> ch_blocks c' = ch_blocks c"
  using chain_state_blocks
  by (fastforce simp: accept_block_def Let_def split: prod.splits sum.splits if_splits)

text \<open>The index of the duplicate check is in range: \<open>accept_block\<close> does not panic.\<close>

lemma accept_block_index:
  assumes "chain_inv vrfy sha g c" "length (ch_blocks c) \<le> 2 ^ 64" "bl_height b \<le> chain_height c"
  shows "unat (bl_height b) < length (ch_blocks c)"
proof -
  have "0 < length (ch_blocks c)" using assms(1) by (simp add: chain_inv_def)
  moreover have "unat (bl_height b) \<le> unat (chain_height c)"
    using assms(3) by (simp add: word_le_nat_alt)
  moreover have "unat (chain_height c) = length (ch_blocks c) - 1"
    using assms(2) calculation(1)
    by (simp only: chain_height_inv [OF assms(1)] unat_of_nat) simp
  ultimately show ?thesis by linarith
qed

section \<open>Conservation of value\<close>

abbreviation ledger_wf :: "ledger_state \<Rightarrow> bool" where
  "ledger_wf st \<equiv> bt_wf (fst st) \<and> bt_wf (snd st)"

definition total_supply :: "(account, u64) btmap \<Rightarrow> nat" where
  "total_supply m = bt_total unat m"

lemma get_or0_insert [simp]: "get_or0 (bt_insert k v m) a = (if k = a then v else get_or0 m a)"
  by (simp add: get_or0_def)

lemma supply_insert: "bt_wf m \<Longrightarrow> total_supply (bt_insert k v m) + unat (get_or0 m k) = total_supply m + unat v"
  using bt_total_insert [of m unat k v]
  by (simp add: total_supply_def bt_at_def get_or0_def split: option.splits)

lemma apply_transfer_wf: "ledger_wf st \<Longrightarrow> ledger_wf (apply_transfer st t)"
  by (cases st) (simp add: apply_transfer_def Let_def)

lemma apply_transfer_supply:
  assumes "ledger_wf st" "tr_amount t \<le> get_or0 (fst st) (tr_from t)"
    and "unat (get_or0 (fst st) (tr_to t)) + unat (tr_amount t) < 2 ^ 64"
  shows "total_supply (fst (apply_transfer st t)) = total_supply (fst st)"
proof -
  obtain m n where st: "st = (m, n)" by fastforce
  let ?f = "tr_from t" and ?t = "tr_to t" and ?a = "tr_amount t"
  let ?d = "saturating_sub (get_or0 m ?f) ?a"
  let ?m1 = "bt_insert ?f ?d m"
  let ?c = "saturating_add (get_or0 ?m1 ?t) ?a"
  have d: "unat ?d = unat (get_or0 m ?f) - unat ?a" "unat ?a \<le> unat (get_or0 m ?f)"
    using assms(2) by (simp_all add: st unat_saturating_sub word_le_nat_alt)
  have c: "unat ?c = unat (get_or0 ?m1 ?t) + unat ?a"
    using assms(3) d by (auto simp: st unat_saturating_add)
  have "total_supply ?m1 + unat (get_or0 m ?f) = total_supply m + unat ?d"
    "total_supply (bt_insert ?t ?c ?m1) + unat (get_or0 ?m1 ?t) = total_supply ?m1 + unat ?c"
    using assms(1) by (simp_all only: st fst_conv supply_insert sorted_bt_insert)
  with c d have "total_supply (bt_insert ?t ?c ?m1) = total_supply m" by linarith
  then show ?thesis by (simp add: st apply_transfer_def Let_def)
qed

lemma validate_all_supply:
  "validate_all vrfy st ts = Ok st' \<Longrightarrow> ledger_wf st \<Longrightarrow> total_supply (fst st') = total_supply (fst st) \<and> ledger_wf st'"
proof (induction ts arbitrary: st)
  case (Cons t ts)
  then obtain st1 where st1: "validate_and_apply vrfy st t = Ok st1" "validate_all vrfy st1 ts = Ok st'"
    by (auto split: sum.splits)
  then have "total_supply (fst st1) = total_supply (fst st) \<and> ledger_wf st1"
    using Cons.prems(2) apply_transfer_wf [of st t]
    by (auto simp: validate_and_apply_Ok intro: apply_transfer_supply)
  with Cons.IH [OF st1(2)] show ?case by simp
qed simp

lemma chain_inv_supply:
  assumes "chain_inv vrfy sha g c" "bt_wf g"
  shows "total_supply (fst (compute_state c)) = total_supply g \<and> ledger_wf (compute_state c)"
proof -
  from validate_all_supply [OF chain_inv_validated [OF assms(1)]] assms(2) show ?thesis by simp
qed


section \<open>Nonces\<close>





section \<open>Tamper evidence\<close>

lemma block_preimage_inject:
  assumes "block_preimage h p ts = block_preimage h' p' ts'" "length p = 32" "length p' = 32"
    and "list_all sized_transfer ts" "list_all sized_transfer ts'"
  shows "h = h' \<and> p = p' \<and> ts = ts'"
proof -
  have "h = h'" "p = p'" and body: "concat (map transfer_encode ts) = concat (map transfer_encode ts')"
    using assms(1-3) by (simp_all add: block_preimage_def transfer_encode_def [abs_def])
  have "TRANSFER_WIRE_LEN \<noteq> 0" by (simp add: TRANSFER_WIRE_LEN_def)
  then have "length ts = length ts'"
    using arg_cong [OF body, of length] assms(4,5) by (simp only: length_encoded_transfers) simp
  then have "ts = ts'"
    using decode_transfers_encode [OF assms(4), of "[]"] decode_transfers_encode [OF assms(5), of "[]"] body
    by simp
  with \<open>h = h'\<close> \<open>p = p'\<close> show ?thesis by simp
qed

text \<open>A collision exhibited by the blocks of two chains themselves.\<close>

definition own_preimage :: "block \<Rightarrow> bytes" where
  "own_preimage b = block_preimage (bl_height b) (bl_prev_hash b) (bl_transfers b)"

definition blocks_collide :: "digest \<Rightarrow> block list \<Rightarrow> block list \<Rightarrow> bool" where
  "blocks_collide sha bs cs \<longleftrightarrow> list_ex (\<lambda>b. list_ex (\<lambda>c. own_preimage b \<noteq> own_preimage c
     \<and> sha (own_preimage b) = sha (own_preimage c)) cs) bs"

lemma blocks_collide_snoc:
  "\<not> blocks_collide sha (bs @ [b]) (cs @ [c]) \<Longrightarrow> \<not> blocks_collide sha bs cs"
  by (auto simp: blocks_collide_def list_ex_iff)

lemma same_tip_same_blocks:
  assumes "valid_from vrfy sha i p0 st bs = Ok ()" "valid_from vrfy' sha i p0 st' bs' = Ok ()"
    and "list_all sized_block bs" "list_all sized_block bs'" "length p0 = 32"
    and "length bs = length bs'" "bs \<noteq> []" "bl_hash (last bs) = bl_hash (last bs')"
    and "\<not> blocks_collide sha bs bs'"
  shows "bs = bs'"
  using assms
proof (induction bs arbitrary: bs' rule: rev_induct)
  case (snoc b bs)
  then obtain cs c where bs': "bs' = cs @ [c]" by (cases bs' rule: rev_cases) auto
  note v = snoc.prems(1) [unfolded valid_from_snoc] and v' = snoc.prems(2) [unfolded bs' valid_from_snoc]
  have "sha (block_preimage (bl_height b) (bl_prev_hash b) (bl_transfers b))
      = sha (block_preimage (bl_height c) (bl_prev_hash c) (bl_transfers c))"
    using v v' snoc.prems(8) by (simp add: bs' block_hash_def)
  then have "block_preimage (bl_height b) (bl_prev_hash b) (bl_transfers b)
      = block_preimage (bl_height c) (bl_prev_hash c) (bl_transfers c)"
    using snoc.prems(9) by (auto simp: bs' blocks_collide_def own_preimage_def)
  then have eq: "bl_height b = bl_height c \<and> bl_prev_hash b = bl_prev_hash c
      \<and> bl_transfers b = bl_transfers c"
    using snoc.prems(3,4) by (intro block_preimage_inject) (auto simp: bs' sized_block_def)
  then have bc: "b = c"
    using snoc.prems(8) by (simp add: bs')
  have "bs = cs"
  proof (cases "bs = []")
    case True
    with snoc.prems(6) show ?thesis by (simp add: bs')
  next
    case False
    moreover from False have "cs \<noteq> []" using snoc.prems(6) by (auto simp: bs')
    ultimately have "bl_hash (last bs) = bl_hash (last cs)"
      using v v' eq by simp
    with False show ?thesis
      using v v' snoc.prems snoc.IH [of cs] blocks_collide_snoc [of sha bs b cs c] by (auto simp: bs')
  qed
  with bc bs' show ?case by simp
qed simp


section \<open>Who can spend\<close>

lemma fst_apply_transfer_mono:
  assumes "tr_from t \<noteq> a"
  shows "get_or0 (fst st) a \<le> get_or0 (fst (apply_transfer st t)) a"
proof -
  have "unat (get_or0 (fst st) a) \<le> unat (saturating_add (get_or0 (fst st) a) (tr_amount t))"
    using unat_bound [of "get_or0 (fst st) a"] by (simp add: unat_saturating_add)
  with assms show ?thesis
    by (cases st) (auto simp: apply_transfer_def Let_def word_le_nat_alt)
qed

lemma validate_all_mono:
  assumes "validate_all vrfy st ts = Ok st'" "\<not> (\<exists>t \<in> set ts. tr_from t = a \<and> transfer_verify vrfy t)"
  shows "get_or0 (fst st) a \<le> get_or0 (fst st') a"
  using assms
proof (induction ts arbitrary: st)
  case (Cons t ts)
  then obtain st1 where st1: "st1 = apply_transfer st t" "transfer_verify vrfy t"
    "validate_all vrfy st1 ts = Ok st'"
    by (auto simp: validate_and_apply_Ok split: sum.splits)
  then have "get_or0 (fst st) a \<le> get_or0 (fst st1) a"
    using Cons.prems(2) by (auto intro: fst_apply_transfer_mono)
  also have "\<dots> \<le> get_or0 (fst st') a"
    using Cons st1(3) by auto
  finally show ?case .
qed simp

lemma chain_step_blocks:
  "ch_blocks (chain_step vrfy sha c call) = ch_blocks c
   \<or> (\<exists>b. ch_blocks (chain_step vrfy sha c call) = ch_blocks c @ [b])"
proof -
  obtain st c' where st: "chain_state c = (st, c')" by fastforce
  note blocks = chain_state_blocks [OF st]
  show ?thesis
  proof (cases call)
    case (Append ts)
    then show ?thesis
      using blocks by (cases "validate_all vrfy st ts") (simp_all add: chain_step_def chain_append_def st Let_def)
  next
    case (Accept b)
    then show ?thesis
      using blocks
      by (cases "validate_all vrfy st (bl_transfers b)") (simp_all add: chain_step_def accept_block_def st Let_def)
  next
    case (Balance a)
    then show ?thesis using blocks by (simp add: chain_step_def chain_balance_def st)
  qed
qed

lemma chain_step_transfers:
  assumes "chain_inv vrfy sha g c"
  shows "\<exists>ts. validate_all vrfy (compute_state c) ts = Ok (compute_state (chain_step vrfy sha c call))
    \<and> transfers_of (ch_blocks (chain_step vrfy sha c call)) = transfers_of (ch_blocks c) @ ts"
proof -
  let ?c = "chain_step vrfy sha c call"
  note inv = chain_step_inv [OF assms, of call]
  have g: "ch_genesis ?c = ch_genesis c" using assms inv by (simp add: chain_inv_def)
  from chain_step_blocks [of vrfy sha c call] show ?thesis
  proof (elim disjE exE)
    assume "ch_blocks ?c = ch_blocks c"
    then show ?thesis
      using g by (intro exI [where x = "[]"]) (simp add: compute_state_def)
  next
    fix b assume b: "ch_blocks ?c = ch_blocks c @ [b]"
    with inv g show ?thesis
      by (intro exI [where x = "bl_transfers b"])
        (auto simp: chain_inv_def is_valid_def valid_from_snoc compute_state_transfers transfers_of_def)
  qed
qed

section \<open>A concrete chain, for the witnesses\<close>

definition ex_sha :: digest where
  "ex_sha x = replicate 32 0"

definition ex_vrfy :: verifier where
  "ex_vrfy k m s = True"

definition ex_genesis :: "(account, u64) btmap" where
  "ex_genesis = [([1], 100)]"

definition ex_transfer :: transfer where
  "ex_transfer = \<lparr>tr_from = [1], tr_to = [2], tr_amount = 40, tr_nonce = 0, tr_signature = []\<rparr>"

definition ex_chain :: chain where
  "ex_chain = chain_step ex_vrfy ex_sha (chain_new ex_sha ex_genesis) (Append [ex_transfer])"

lemma ex_chain_reachable: "chain_reachable ex_vrfy ex_sha ex_genesis ex_chain"
  unfolding ex_chain_def by (intro chain_reachable.intros)

lemmas ex_chain_defs =
  ex_chain_def ex_transfer_def ex_vrfy_def ex_sha_def ex_genesis_def chain_step_def chain_append_def
  chain_state_def chain_new_def compute_state_def validate_and_apply_def transfer_verify_def
  apply_transfer_def get_or0_def bt_get_def bt_empty_def saturating_sub_def saturating_add_def
  checked_add_def block_hash_def transfers_of_def chain_height_def tip_hash_def Let_def


lemma ex_chain_state: "compute_state ex_chain = ([([1], 60), ([2], 40)], [([1], 1)])"
  by (simp add: ex_chain_defs)

section \<open>Properties\<close>

text \<open>
  C1. Every chain the node can reach from genesis by local appends, blocks accepted from peers
  and balance queries passes the full audit \<open>is_valid\<close>, and the cached state that \<open>balance\<close>
  answers from equals the replay of all committed transfers.
\<close>

theorem reachable_chain_valid:
  assumes "chain_reachable vrfy sha g c"
  shows "is_valid vrfy sha c = Ok () \<and> fst (chain_balance c a) = get_or0 (fst (compute_state c)) a"
proof -
  have inv: "chain_inv vrfy sha g c" by (rule chain_reachable_inv [OF assms])
  then have "is_valid vrfy sha c = Ok ()" by (simp add: chain_inv_def)
  with chain_balance_eq [OF inv] show ?thesis by simp
qed

theorem reachable_chain_valid_witness:
  "is_valid ex_vrfy ex_sha ex_chain = Ok () \<and> fst (chain_balance ex_chain [2]) = 40"
proof -
  have "get_or0 (fst (compute_state ex_chain)) [2] = 40"
    by (simp add: ex_chain_state get_or0_def bt_get_def)
  then show ?thesis using reachable_chain_valid [OF ex_chain_reachable] by simp
qed

text \<open>
  C2. Value is conserved: over any reachable chain the balances add up to the genesis
  allocation, as natural numbers, so no transfer mints, burns or wraps value, and no balance
  exceeds the total.
\<close>

theorem reachable_chain_conserves:
  assumes "chain_reachable vrfy sha g c" "bt_wf g"
  shows "total_supply (fst (compute_state c)) = total_supply g
    \<and> unat (fst (chain_balance c a)) \<le> total_supply g"
proof -
  have inv: "chain_inv vrfy sha g c" by (rule chain_reachable_inv [OF assms(1)])
  note sup = chain_inv_supply [OF inv assms(2)]
  have "fst (chain_balance c a) = get_or0 (fst (compute_state c)) a"
    by (rule chain_balance_eq [OF inv])
  moreover have "unat (get_or0 (fst (compute_state c)) a) \<le> total_supply (fst (compute_state c))"
    using bt_at_le_total [of "fst (compute_state c)" unat a] sup
    by (simp add: total_supply_def bt_at_def get_or0_def split: option.splits)
  ultimately show ?thesis using sup by simp
qed

theorem reachable_chain_conserves_witness:
  "total_supply (fst (compute_state ex_chain)) = 100"
proof -
  have "bt_wf ex_genesis" "total_supply ex_genesis = 100"
    by (simp_all add: ex_genesis_def bt_wf_def total_supply_def bt_total_def)
  then show ?thesis using reachable_chain_conserves [OF ex_chain_reachable] by simp
qed



text \<open>
  C27. No one else can spend: if one step of the chain lowers an account's balance, the step
  committed a transfer from that account whose signature verifies under that account's key.
\<close>

theorem only_holder_spends:
  assumes "chain_reachable vrfy sha g c"
    and "get_or0 (fst (compute_state (chain_step vrfy sha c call))) a < get_or0 (fst (compute_state c)) a"
  shows "\<exists>t ts. transfers_of (ch_blocks (chain_step vrfy sha c call)) = transfers_of (ch_blocks c) @ ts
    \<and> t \<in> set ts \<and> tr_from t = a \<and> transfer_verify vrfy t"
proof -
  obtain ts where "validate_all vrfy (compute_state c) ts = Ok (compute_state (chain_step vrfy sha c call))"
    "transfers_of (ch_blocks (chain_step vrfy sha c call)) = transfers_of (ch_blocks c) @ ts"
    using chain_step_transfers [OF chain_reachable_inv [OF assms(1)]] by blast
  then show ?thesis
    using assms(2) validate_all_mono [of vrfy "compute_state c" ts _ a] by (meson leD)
qed

theorem only_holder_spends_witness:
  "\<exists>t. t \<in> set (transfers_of (ch_blocks ex_chain)) \<and> tr_from t = [1] \<and> transfer_verify ex_vrfy t"
proof -
  have "get_or0 (fst (compute_state ex_chain)) [1] < get_or0 (fst (compute_state (chain_new ex_sha ex_genesis))) [1]"
    unfolding ex_chain_state by (simp add: ex_chain_defs)
  from only_holder_spends [OF chain_reachable.start, folded ex_chain_def, OF this [unfolded ex_chain_def]]
  show ?thesis unfolding ex_chain_def [symmetric] by auto
qed

text \<open>
  The chain is tamper-evident: two chains that pass the audit, hold as many blocks and end in
  the same tip hash are the same blocks with the same transfers, unless two of their own block
  preimages differ and hash alike under SHA-256.
\<close>

theorem tip_hash_binds_history:
  assumes "is_valid vrfy sha c = Ok ()" "is_valid vrfy' sha d = Ok ()"
    and "list_all sized_block (ch_blocks c)" "list_all sized_block (ch_blocks d)"
    and "length (ch_blocks c) = length (ch_blocks d)" "ch_blocks c \<noteq> []" "tip_hash c = tip_hash d"
  shows "ch_blocks c = ch_blocks d \<or> blocks_collide sha (ch_blocks c) (ch_blocks d)"
proof -
  from assms(1) have c: "valid_from vrfy sha 0 (replicate 32 0) (ch_genesis c, bt_empty) (ch_blocks c) = Ok ()"
    by (simp add: is_valid_def)
  from assms(2) have d: "valid_from vrfy' sha 0 (replicate 32 0) (ch_genesis d, bt_empty) (ch_blocks d) = Ok ()"
    by (simp add: is_valid_def)
  show ?thesis
    using same_tip_same_blocks [OF c d assms(3,4) _ assms(5,6)] assms(7) by (auto simp: tip_hash_def)
qed

theorem tip_hash_binds_history_witness:
  "ch_blocks (chain_new ex_sha ex_genesis) = ch_blocks (chain_new ex_sha [])"
proof -
  have "is_valid ex_vrfy ex_sha (chain_new ex_sha g) = Ok ()" for g
    using chain_new_inv [of ex_vrfy ex_sha g] by (simp add: chain_inv_def)
  moreover have "list_all sized_block (ch_blocks (chain_new ex_sha g))" for g
    by (simp add: chain_new_def sized_block_def ex_sha_def block_hash_def)
  ultimately show ?thesis
    using tip_hash_binds_history [of ex_vrfy ex_sha "chain_new ex_sha ex_genesis" ex_vrfy "chain_new ex_sha []"]
    by (simp add: chain_new_def tip_hash_def blocks_collide_def)
qed

text \<open>
  The wire forms are exact: decoding inverts encoding for transfers and blocks, and a decoded
  transfer re-encodes to the very bytes it came from, so no two byte strings decode to one
  transfer.
\<close>

theorem settlement_wire_roundtrip:
  "(sized_transfer t \<longrightarrow> transfer_decode (transfer_encode t) = Some t)
   \<and> (transfer_decode bs = Some t \<longrightarrow> transfer_encode t = bs)
   \<and> (sized_block b \<longrightarrow> block_decode (block_encode b) = Some b)"
  using transfer_decode_encode transfer_encode_decode block_decode_encode by blast

theorem settlement_wire_roundtrip_witness:
  "transfer_decode (replicate 144 7) \<noteq> None
   \<and> transfer_encode (the (transfer_decode (replicate 144 7))) = replicate 144 7"
proof -
  have "transfer_decode (replicate 144 7) \<noteq> None"
    by (simp add: transfer_decode_def TRANSFER_WIRE_LEN_def)
  then obtain t where "transfer_decode (replicate 144 7) = Some t" by blast
  with settlement_wire_roundtrip [of t "replicate 144 7"] show ?thesis by simp
qed

end
