(* ===== verification/Usage.thy ===== *)
theory Usage
  imports Wire
begin

text \<open>
  The co-signed usage receipt (\<open>src/crates/common/src/channel.rs\<close>, \<open>CapacityKind\<close> and
  \<open>UsageReceipt\<close>): its signing preimage, its validity check, its co-signing constructors and its
  wire form. The ed25519 operations are the parameters \<open>vrfy\<close>, \<open>pubkey\<close> and \<open>sign\<close>.
\<close>

datatype capacity_kind = CloudApiQuota | LocalHardware

fun kind_tag :: "capacity_kind \<Rightarrow> u8" where
  "kind_tag CloudApiQuota = 0"
| "kind_tag LocalHardware = 1"

definition kind_from_tag :: "u8 \<Rightarrow> capacity_kind option" where
  "kind_from_tag tag = (if tag = 0 then Some CloudApiQuota else if tag = 1 then Some LocalHardware else None)"

definition USAGE_RECEIPT_DOMAIN :: bytes where
  "USAGE_RECEIPT_DOMAIN = map of_char ''ct-usage-receipt-v1''"

record usage_receipt =
  ur_provider :: bytes
  ur_consumer :: bytes
  ur_kind :: capacity_kind
  ur_model :: bytes
  ur_units_consumed :: u64
  ur_match_ref :: bytes
  ur_issued_at :: u64
  ur_request_hash :: bytes
  ur_response_hash :: bytes
  ur_provider_sig :: bytes
  ur_consumer_sig :: bytes

definition receipt_signing_bytes ::
  "bytes \<Rightarrow> bytes \<Rightarrow> capacity_kind \<Rightarrow> bytes \<Rightarrow> u64 \<Rightarrow> bytes \<Rightarrow> u64 \<Rightarrow> bytes \<Rightarrow> bytes \<Rightarrow> bytes" where
  "receipt_signing_bytes provider consumer kind model units match_ref issued_at request_hash response_hash =
     pre_finish (pre_fixed response_hash (pre_fixed request_hash (pre_u64 issued_at (pre_fixed match_ref
       (pre_u64 units (pre_var_bytes model (pre_tag (kind_tag kind) (pre_fixed consumer
       (pre_fixed provider (preimage_new USAGE_RECEIPT_DOMAIN))))))))))"

definition receipt_bytes :: "usage_receipt \<Rightarrow> bytes" where
  "receipt_bytes r = receipt_signing_bytes (ur_provider r) (ur_consumer r) (ur_kind r) (ur_model r)
     (ur_units_consumed r) (ur_match_ref r) (ur_issued_at r) (ur_request_hash r) (ur_response_hash r)"

definition receipt_is_valid :: "verifier \<Rightarrow> usage_receipt \<Rightarrow> bool" where
  "receipt_is_valid vrfy r =
     (let bytes = receipt_bytes r in
      vrfy (ur_provider r) bytes (ur_provider_sig r) \<and> vrfy (ur_consumer r) bytes (ur_consumer_sig r))"

definition co_sign_audited ::
  "('sk \<Rightarrow> bytes) \<Rightarrow> ('sk \<Rightarrow> bytes \<Rightarrow> bytes) \<Rightarrow> 'sk \<Rightarrow> 'sk \<Rightarrow> capacity_kind \<Rightarrow> bytes \<Rightarrow> u64 \<Rightarrow>
     bytes \<Rightarrow> u64 \<Rightarrow> bytes \<Rightarrow> bytes \<Rightarrow> usage_receipt" where
  "co_sign_audited pubkey sign provider_key consumer_key kind model units match_ref issued_at
     request_hash response_hash =
     (let provider = pubkey provider_key; consumer = pubkey consumer_key;
          bytes = receipt_signing_bytes provider consumer kind model units match_ref issued_at
                    request_hash response_hash
      in \<lparr>ur_provider = provider, ur_consumer = consumer, ur_kind = kind, ur_model = model,
          ur_units_consumed = units, ur_match_ref = match_ref, ur_issued_at = issued_at,
          ur_request_hash = request_hash, ur_response_hash = response_hash,
          ur_provider_sig = sign provider_key bytes, ur_consumer_sig = sign consumer_key bytes\<rparr>)"

definition co_sign ::
  "('sk \<Rightarrow> bytes) \<Rightarrow> ('sk \<Rightarrow> bytes \<Rightarrow> bytes) \<Rightarrow> 'sk \<Rightarrow> 'sk \<Rightarrow> capacity_kind \<Rightarrow> bytes \<Rightarrow> u64 \<Rightarrow>
     bytes \<Rightarrow> u64 \<Rightarrow> usage_receipt" where
  "co_sign pubkey sign provider_key consumer_key kind model units match_ref issued_at =
     co_sign_audited pubkey sign provider_key consumer_key kind model units match_ref issued_at
       (replicate 32 0) (replicate 32 0)"

definition receipt_encode :: "usage_receipt \<Rightarrow> bytes" where
  "receipt_encode r =
     ur_provider r @ ur_consumer r @ [kind_tag (ur_kind r)]
     @ to_le_bytes32 (word_of_nat (length (ur_model r))) @ ur_model r
     @ to_le_bytes64 (ur_units_consumed r) @ ur_match_ref r @ to_le_bytes64 (ur_issued_at r)
     @ ur_request_hash r @ ur_response_hash r @ ur_provider_sig r @ ur_consumer_sig r"

definition receipt_decode :: "bytes \<Rightarrow> usage_receipt option" where
  "receipt_decode b = do {
     (provider, cur) \<leftarrow> take_n 32 b;
     (consumer, cur) \<leftarrow> take_n 32 cur;
     (tag, cur) \<leftarrow> take_n 1 cur;
     kind \<leftarrow> kind_from_tag (tag ! 0);
     (len, cur) \<leftarrow> take_n 4 cur;
     (model, cur) \<leftarrow> take_n (unat (from_le_bytes32 len)) cur;
     model \<leftarrow> from_utf8 model;
     (units, cur) \<leftarrow> take_n 8 cur;
     (match_ref, cur) \<leftarrow> take_n 32 cur;
     (issued_at, cur) \<leftarrow> take_n 8 cur;
     (request_hash, cur) \<leftarrow> take_n 32 cur;
     (response_hash, cur) \<leftarrow> take_n 32 cur;
     (provider_sig, cur) \<leftarrow> take_n 64 cur;
     (consumer_sig, cur) \<leftarrow> take_n 64 cur;
     if cur \<noteq> [] then None
     else Some \<lparr>ur_provider = provider, ur_consumer = consumer, ur_kind = kind, ur_model = model,
            ur_units_consumed = from_le_bytes64 units, ur_match_ref = match_ref,
            ur_issued_at = from_le_bytes64 issued_at, ur_request_hash = request_hash,
            ur_response_hash = response_hash, ur_provider_sig = provider_sig,
            ur_consumer_sig = consumer_sig\<rparr>
   }"

section \<open>Lemmas\<close>

definition sized_receipt :: "usage_receipt \<Rightarrow> bool" where
  "sized_receipt r \<longleftrightarrow> length (ur_provider r) = 32 \<and> length (ur_consumer r) = 32
     \<and> length (ur_match_ref r) = 32 \<and> length (ur_request_hash r) = 32
     \<and> length (ur_response_hash r) = 32 \<and> length (ur_provider_sig r) = 64
     \<and> length (ur_consumer_sig r) = 64 \<and> utf8_valid (ur_model r) \<and> length (ur_model r) < 2 ^ 32"

lemma kind_from_tag_tag [simp]: "kind_from_tag (kind_tag k) = Some k"
  by (cases k) (simp_all add: kind_from_tag_def)

lemma kind_from_tag_iff: "kind_from_tag t = Some k \<longleftrightarrow> t = kind_tag k"
  by (cases k) (auto simp: kind_from_tag_def)

lemma receipt_decode_encode: "sized_receipt r \<Longrightarrow> receipt_decode (receipt_encode r) = Some r"
  by (simp add: sized_receipt_def receipt_decode_def receipt_encode_def from_utf8_def)

lemma receipt_encode_decode:
  assumes "receipt_decode b = Some r"
  shows "receipt_encode r = b \<and> sized_receipt r"
  using assms unat_bound [where ?'a = 32]
  by (auto simp: receipt_decode_def bind_eq_Some_conv take_n_iff kind_from_tag_iff receipt_encode_def
      sized_receipt_def to_le_from_le64 to_le_from_le32 unat32_back length_Suc_conv split: if_splits)

text \<open>The signed fields, as a schema of the preimage builder.\<close>

definition receipt_fields :: "usage_receipt \<Rightarrow> field list" where
  "receipt_fields r = [Fixed (ur_provider r), Fixed (ur_consumer r), Tag (kind_tag (ur_kind r)),
     Var (ur_model r), U64 (ur_units_consumed r), Fixed (ur_match_ref r), U64 (ur_issued_at r),
     Fixed (ur_request_hash r), Fixed (ur_response_hash r)]"

lemma receipt_bytes_build: "receipt_bytes r = build USAGE_RECEIPT_DOMAIN (receipt_fields r)"
  by (simp add: receipt_bytes_def receipt_signing_bytes_def receipt_fields_def build_def)

lemma receipt_bytes_inject:
  assumes "sized_receipt r" "sized_receipt s" "receipt_bytes r = receipt_bytes s"
  shows "receipt_fields r = receipt_fields s"
proof -
  have "list_all2 same_slot (receipt_fields r) (receipt_fields s)"
    "list_all short_field (receipt_fields r)" "list_all short_field (receipt_fields s)"
    using assms(1,2) by (simp_all add: receipt_fields_def sized_receipt_def)
  then show ?thesis
    using assms(3) build_inject [of USAGE_RECEIPT_DOMAIN _ USAGE_RECEIPT_DOMAIN]
    by (simp add: receipt_bytes_build USAGE_RECEIPT_DOMAIN_def)
qed

end
