(* ===== verification/Escrow.thy ===== *)
theory Escrow
  imports Ledger Usage
begin

text \<open>
  Escrow-at-match (\<open>src/crates/common/src/settlement.rs\<close>, \<open>Hold\<close>, \<open>Escrow\<close> and \<open>SettlementOp\<close>).
  A \<open>&mut self\<close> operation returns its result and the escrow afterwards, so what an error
  leaves behind is part of the model.
\<close>

definition HOLD_DOMAIN :: bytes where
  "HOLD_DOMAIN = map of_char ''ct-settlement-hold-v1''"

record hold =
  ho_from :: account
  ho_to :: account
  ho_amount :: u64
  ho_match_ref :: bytes
  ho_nonce :: u64
  ho_expires_at :: u64
  ho_signature :: bytes

definition hold_signing_bytes :: "account \<Rightarrow> account \<Rightarrow> u64 \<Rightarrow> bytes \<Rightarrow> u64 \<Rightarrow> u64 \<Rightarrow> bytes" where
  "hold_signing_bytes frm to amount match_ref nonce expires_at =
     pre_finish (pre_u64 expires_at (pre_u64 nonce (pre_fixed match_ref (pre_u64 amount
       (pre_fixed to (pre_fixed frm (preimage_new HOLD_DOMAIN)))))))"

definition hold_sign_new ::
  "('sk \<Rightarrow> bytes) \<Rightarrow> ('sk \<Rightarrow> bytes \<Rightarrow> bytes) \<Rightarrow> 'sk \<Rightarrow> account \<Rightarrow> u64 \<Rightarrow> bytes \<Rightarrow> u64 \<Rightarrow> u64 \<Rightarrow> hold" where
  "hold_sign_new pubkey sign key to amount match_ref nonce expires_at =
     (let frm = pubkey key;
          signature = sign key (hold_signing_bytes frm to amount match_ref nonce expires_at)
      in \<lparr>ho_from = frm, ho_to = to, ho_amount = amount, ho_match_ref = match_ref, ho_nonce = nonce,
          ho_expires_at = expires_at, ho_signature = signature\<rparr>)"

definition hold_verify :: "verifier \<Rightarrow> hold \<Rightarrow> bool" where
  "hold_verify vrfy h =
     vrfy (ho_from h) (hold_signing_bytes (ho_from h) (ho_to h) (ho_amount h) (ho_match_ref h)
       (ho_nonce h) (ho_expires_at h)) (ho_signature h)"

definition HOLD_WIRE_LEN :: nat where
  "HOLD_WIRE_LEN = 32 + 32 + 8 + 32 + 8 + 8 + 64"

definition hold_encode :: "hold \<Rightarrow> bytes" where
  "hold_encode h = ho_from h @ ho_to h @ to_le_bytes64 (ho_amount h) @ ho_match_ref h
     @ to_le_bytes64 (ho_nonce h) @ to_le_bytes64 (ho_expires_at h) @ ho_signature h"

definition hold_decode :: "bytes \<Rightarrow> hold option" where
  "hold_decode b =
     (if length b \<noteq> HOLD_WIRE_LEN then None
      else Some \<lparr>ho_from = slice 0 32 b, ho_to = slice 32 32 b,
                 ho_amount = from_le_bytes64 (slice 64 8 b),
                 ho_match_ref = slice 72 32 b,
                 ho_nonce = from_le_bytes64 (slice 104 8 b),
                 ho_expires_at = from_le_bytes64 (slice 112 8 b),
                 ho_signature = slice 120 64 b\<rparr>)"

datatype escrow_error =
    EBadSignature
  | EOverdraft account u64 u64
  | EBadNonce account u64 u64
  | EDuplicateHold bytes
  | EUnknownHold bytes
  | EReceiptMismatch
  | ENotYetExpired u64 u64
  | EBalanceOverflow account u64 u64

record held_record =
  hr_from :: account
  hr_to :: account
  hr_amount :: u64
  hr_expires_at :: u64

record escrow =
  es_balances :: "(account, u64) btmap"
  es_nonces :: "(account, u64) btmap"
  es_held :: "(bytes, held_record) btmap"

definition escrow_new :: "(account, u64) btmap \<Rightarrow> escrow" where
  "escrow_new genesis = \<lparr>es_balances = genesis, es_nonces = bt_empty, es_held = bt_empty\<rparr>"

definition escrow_balance :: "escrow \<Rightarrow> account \<Rightarrow> u64" where
  "escrow_balance e a = (case bt_get (es_balances e) a of None \<Rightarrow> 0 | Some v \<Rightarrow> v)"

definition held_amount :: "escrow \<Rightarrow> bytes \<Rightarrow> u64" where
  "held_amount e match_ref = (case bt_get (es_held e) match_ref of None \<Rightarrow> 0 | Some r \<Rightarrow> hr_amount r)"

definition escrow_lock :: "verifier \<Rightarrow> escrow \<Rightarrow> hold \<Rightarrow> (escrow_error + unit) \<times> escrow" where
  "escrow_lock vrfy e h =
     (if \<not> hold_verify vrfy h then (Err EBadSignature, e) else
      let expected = get_or0 (es_nonces e) (ho_from h) in
      if ho_nonce h \<noteq> expected then (Err (EBadNonce (ho_from h) expected (ho_nonce h)), e) else
      if bt_get (es_held e) (ho_match_ref h) \<noteq> None then (Err (EDuplicateHold (ho_match_ref h)), e) else
      let balance = escrow_balance e (ho_from h) in
      if balance < ho_amount h then (Err (EOverdraft (ho_from h) balance (ho_amount h)), e) else
      (Ok (), e\<lparr>es_balances := bt_insert (ho_from h) (balance - ho_amount h) (es_balances e),
                es_nonces := bt_insert (ho_from h) (expected + 1) (es_nonces e),
                es_held := bt_insert (ho_match_ref h)
                  \<lparr>hr_from = ho_from h, hr_to = ho_to h, hr_amount = ho_amount h,
                   hr_expires_at = ho_expires_at h\<rparr> (es_held e)\<rparr>))"

definition escrow_release :: "verifier \<Rightarrow> escrow \<Rightarrow> usage_receipt \<Rightarrow> (escrow_error + unit) \<times> escrow" where
  "escrow_release vrfy e receipt =
     (case bt_get (es_held e) (ur_match_ref receipt) of
        None \<Rightarrow> (Err (EUnknownHold (ur_match_ref receipt)), e)
      | Some rec \<Rightarrow>
          if \<not> receipt_is_valid vrfy receipt \<or> ur_provider receipt \<noteq> hr_to rec
             \<or> ur_consumer receipt \<noteq> hr_from rec
          then (Err EReceiptMismatch, e)
          else case checked_add (escrow_balance e (hr_to rec)) (hr_amount rec) of
                 None \<Rightarrow> (Err (EBalanceOverflow (hr_to rec) (escrow_balance e (hr_to rec)) (hr_amount rec)), e)
               | Some credited \<Rightarrow>
                   (Ok (), e\<lparr>es_held := bt_remove (ur_match_ref receipt) (es_held e),
                             es_balances := bt_insert (hr_to rec) credited (es_balances e)\<rparr>))"

definition escrow_refund :: "escrow \<Rightarrow> bytes \<Rightarrow> u64 \<Rightarrow> (escrow_error + unit) \<times> escrow" where
  "escrow_refund e match_ref now =
     (case bt_get (es_held e) match_ref of
        None \<Rightarrow> (Err (EUnknownHold match_ref), e)
      | Some rec \<Rightarrow>
          if now < hr_expires_at rec then (Err (ENotYetExpired (hr_expires_at rec) now), e)
          else case checked_add (escrow_balance e (hr_from rec)) (hr_amount rec) of
                 None \<Rightarrow> (Err (EBalanceOverflow (hr_from rec) (escrow_balance e (hr_from rec)) (hr_amount rec)), e)
               | Some credited \<Rightarrow>
                   (Ok (), e\<lparr>es_held := bt_remove match_ref (es_held e),
                             es_balances := bt_insert (hr_from rec) credited (es_balances e)\<rparr>))"

definition expired_holds :: "escrow \<Rightarrow> u64 \<Rightarrow> bytes list" where
  "expired_holds e now = map fst (filter (\<lambda>(_, rec). hr_expires_at rec \<le> now) (es_held e))"

text \<open>The filter of \<open>refund_expired\<close> calls \<open>refund\<close> on each element and keeps the refunded ones.\<close>

fun refund_each :: "escrow \<Rightarrow> u64 \<Rightarrow> bytes list \<Rightarrow> bytes list \<times> escrow" where
  "refund_each e now [] = ([], e)"
| "refund_each e now (m # ms) =
     (let (r, e') = escrow_refund e m now; (out, e'') = refund_each e' now ms
      in (if r = Ok () then m # out else out, e''))"

definition refund_expired :: "escrow \<Rightarrow> u64 \<Rightarrow> bytes list \<times> escrow" where
  "refund_expired e now = refund_each e now (expired_holds e now)"

section \<open>Settlement operations on the wire\<close>

datatype settlement_op =
    OpTransfer transfer
  | OpHold hold
  | OpRelease usage_receipt
  | OpRefund bytes

fun op_tag :: "settlement_op \<Rightarrow> u8" where
  "op_tag (OpTransfer _) = 0"
| "op_tag (OpHold _) = 1"
| "op_tag (OpRelease _) = 2"
| "op_tag (OpRefund _) = 3"

definition op_encode :: "settlement_op \<Rightarrow> bytes" where
  "op_encode op = [op_tag op] @ (case op of
       OpTransfer t \<Rightarrow> transfer_encode t
     | OpHold h \<Rightarrow> hold_encode h
     | OpRelease r \<Rightarrow> receipt_encode r
     | OpRefund match_ref \<Rightarrow> match_ref)"

definition op_decode :: "bytes \<Rightarrow> settlement_op option" where
  "op_decode b =
     (case b of
        [] \<Rightarrow> None
      | tag # payload \<Rightarrow>
          if tag = 0 then map_option OpTransfer (transfer_decode payload)
          else if tag = 1 then map_option OpHold (hold_decode payload)
          else if tag = 2 then map_option OpRelease (receipt_decode payload)
          else if tag = 3 then (if length payload = 32 then Some (OpRefund payload) else None)
          else None)"


section \<open>Conservation\<close>

definition held_total :: "escrow \<Rightarrow> nat" where
  "held_total e = bt_total (unat \<circ> hr_amount) (es_held e)"

definition escrow_value :: "escrow \<Rightarrow> nat" where
  "escrow_value e = total_supply (es_balances e) + held_total e"

definition escrow_wf :: "escrow \<Rightarrow> bool" where
  "escrow_wf e \<longleftrightarrow> bt_wf (es_balances e) \<and> bt_wf (es_nonces e) \<and> bt_wf (es_held e)"

lemma escrow_balance_or0: "escrow_balance e a = get_or0 (es_balances e) a"
  by (simp add: escrow_balance_def get_or0_def)

lemma held_insert:
  "bt_wf m \<Longrightarrow> bt_get m k = None \<Longrightarrow>
     bt_total (unat \<circ> hr_amount) (bt_insert k r m) = bt_total (unat \<circ> hr_amount) m + unat (hr_amount r)"
  using bt_total_insert [of m "unat \<circ> hr_amount" k r] by (simp add: bt_at_def)

lemma held_remove:
  "bt_wf m \<Longrightarrow> bt_get m k = Some r \<Longrightarrow>
     bt_total (unat \<circ> hr_amount) (bt_remove k m) + unat (hr_amount r) = bt_total (unat \<circ> hr_amount) m"
  using bt_total_remove [of m "unat \<circ> hr_amount" k] by (simp add: bt_at_def)

lemma escrow_new_wf: "bt_wf g \<Longrightarrow> escrow_wf (escrow_new g) \<and> escrow_value (escrow_new g) = total_supply g"
  by (simp add: escrow_new_def escrow_wf_def escrow_value_def held_total_def bt_total_def bt_empty_def)
    (simp add: bt_wf_def)

text \<open>Paying a held record out to an account.\<close>

lemma pay_out:
  assumes "escrow_wf e" "bt_get (es_held e) m = Some rec"
    and "checked_add (escrow_balance e a) (hr_amount rec) = Some credited"
  shows "escrow_wf (e\<lparr>es_held := bt_remove m (es_held e), es_balances := bt_insert a credited (es_balances e)\<rparr>)
    \<and> escrow_value (e\<lparr>es_held := bt_remove m (es_held e), es_balances := bt_insert a credited (es_balances e)\<rparr>)
      = escrow_value e"
proof -
  have wf: "bt_wf (es_balances e)" "bt_wf (es_held e)" using assms(1) by (simp_all add: escrow_wf_def)
  have "unat credited = unat (get_or0 (es_balances e) a) + unat (hr_amount rec)"
    using checked_add_SomeD [OF assms(3)] by (simp add: escrow_balance_or0)
  with supply_insert [OF wf(1), of a credited] held_remove [OF wf(2) assms(2)]
  show ?thesis using assms(1) by (simp add: escrow_value_def held_total_def escrow_wf_def)
qed

lemma escrow_lock_value:
  assumes "escrow_wf e"
  shows "escrow_wf (snd (escrow_lock vrfy e h)) \<and> escrow_value (snd (escrow_lock vrfy e h)) = escrow_value e"
proof (cases "fst (escrow_lock vrfy e h)")
  case (Inl err)
  then have "snd (escrow_lock vrfy e h) = e" by (auto simp: escrow_lock_def Let_def split: if_splits)
  with assms show ?thesis by simp
next
  case (Inr u)
  let ?b = "get_or0 (es_balances e) (ho_from h)"
  let ?r = "\<lparr>hr_from = ho_from h, hr_to = ho_to h, hr_amount = ho_amount h, hr_expires_at = ho_expires_at h\<rparr>"
  from Inr have ok: "bt_get (es_held e) (ho_match_ref h) = None" "ho_amount h \<le> ?b"
    "snd (escrow_lock vrfy e h) = e\<lparr>es_balances := bt_insert (ho_from h) (?b - ho_amount h) (es_balances e),
       es_nonces := bt_insert (ho_from h) (get_or0 (es_nonces e) (ho_from h) + 1) (es_nonces e),
       es_held := bt_insert (ho_match_ref h) ?r (es_held e)\<rparr>"
    by (auto simp: escrow_lock_def escrow_balance_or0 Let_def split: if_splits)
  have wf: "bt_wf (es_balances e)" "bt_wf (es_held e)" using assms by (simp_all add: escrow_wf_def)
  have "unat (?b - ho_amount h) = unat ?b - unat (ho_amount h)" "unat (ho_amount h) \<le> unat ?b"
    using ok(2) by (simp_all add: unat_sub word_le_nat_alt)
  with supply_insert [OF wf(1), of "ho_from h" "?b - ho_amount h"] held_insert [OF wf(2) ok(1), of ?r]
  show ?thesis using assms by (simp add: ok(3) escrow_value_def held_total_def escrow_wf_def)
qed

lemma escrow_release_value:
  assumes "escrow_wf e"
  shows "escrow_wf (snd (escrow_release vrfy e r)) \<and> escrow_value (snd (escrow_release vrfy e r)) = escrow_value e"
  using assms pay_out [OF assms] by (auto simp: escrow_release_def split: option.splits)

lemma escrow_refund_value:
  assumes "escrow_wf e"
  shows "escrow_wf (snd (escrow_refund e m now)) \<and> escrow_value (snd (escrow_refund e m now)) = escrow_value e"
  using assms pay_out [OF assms] by (auto simp: escrow_refund_def split: option.splits)

lemma refund_each_value:
  "escrow_wf e \<Longrightarrow> escrow_wf (snd (refund_each e now ms)) \<and> escrow_value (snd (refund_each e now ms)) = escrow_value e"
proof (induction ms arbitrary: e)
  case (Cons m ms)
  obtain r e' where e': "escrow_refund e m now = (r, e')" by fastforce
  with escrow_refund_value [OF Cons.prems, of m now] Cons.IH [of e'] show ?case
    by (simp add: split_def Let_def)
qed simp

section \<open>Bounded supply\<close>

text \<open>While all value fits 64 bits, no payout can overflow.\<close>

lemma payout_fits:
  assumes "escrow_wf e" "escrow_value e < 2 ^ 64" "bt_get (es_held e) m = Some rec"
  shows "\<exists>c. checked_add (escrow_balance e a) (hr_amount rec) = Some c"
proof -
  have wf: "bt_wf (es_balances e)" "bt_wf (es_held e)" using assms(1) by (simp_all add: escrow_wf_def)
  have "unat (escrow_balance e a) \<le> total_supply (es_balances e)"
    using bt_at_le_total [OF wf(1), of unat a]
    by (simp add: escrow_balance_def total_supply_def bt_at_def split: option.splits)
  moreover have "unat (hr_amount rec) \<le> held_total e"
    using bt_at_le_total [OF wf(2), of "unat \<circ> hr_amount" m] assms(3) by (simp add: held_total_def bt_at_def)
  ultimately show ?thesis using assms(2) by (simp add: checked_add_def escrow_value_def)
qed

lemma escrow_refund_expired:
  assumes "escrow_wf e" "escrow_value e < 2 ^ 64" "bt_get (es_held e) m = Some rec" "hr_expires_at rec \<le> now"
  shows "fst (escrow_refund e m now) = Ok () \<and> es_held (snd (escrow_refund e m now)) = bt_remove m (es_held e)"
  using payout_fits [OF assms(1-3), of "hr_from rec"] assms(3,4)
  by (auto simp: escrow_refund_def)

lemma bt_get_iff: "bt_wf m \<Longrightarrow> bt_get m k = Some v \<longleftrightarrow> (k, v) \<in> set m"
  using bt_wf_distinct [of m] by (simp add: bt_get_def)

lemma expired_holds_iff:
  "escrow_wf e \<Longrightarrow> m \<in> set (expired_holds e now) \<longleftrightarrow>
     (\<exists>rec. bt_get (es_held e) m = Some rec \<and> hr_expires_at rec \<le> now)"
  by (force simp: expired_holds_def escrow_wf_def bt_get_iff)

lemma distinct_expired_holds: "escrow_wf e \<Longrightarrow> distinct (expired_holds e now)"
  using bt_wf_distinct [of "es_held e"]
  by (simp add: expired_holds_def escrow_wf_def distinct_map_filter)

lemma refund_each_all:
  assumes "escrow_wf e" "escrow_value e < 2 ^ 64" "distinct ms"
    and "\<forall>m \<in> set ms. \<exists>rec. bt_get (es_held e) m = Some rec \<and> hr_expires_at rec \<le> now"
  shows "fst (refund_each e now ms) = ms
    \<and> es_held (snd (refund_each e now ms)) = filter (\<lambda>p. fst p \<notin> set ms) (es_held e)"
  using assms
proof (induction ms arbitrary: e)
  case (Cons m ms)
  obtain rec where rec: "bt_get (es_held e) m = Some rec" "hr_expires_at rec \<le> now"
    using Cons.prems(4) by auto
  obtain e' where e': "escrow_refund e m now = (Ok (), e')" "es_held e' = bt_remove m (es_held e)"
    using escrow_refund_expired [OF Cons.prems(1,2) rec] by (metis prod.collapse)
  have "escrow_wf e'" "escrow_value e' < 2 ^ 64"
    using escrow_refund_value [OF Cons.prems(1), of m now] Cons.prems(2) e'(1) by simp_all
  moreover have "\<forall>k \<in> set ms. \<exists>rec. bt_get (es_held e') k = Some rec \<and> hr_expires_at rec \<le> now"
    using Cons.prems(3,4) by (auto simp: e'(2))
  ultimately show ?case
    using Cons.IH [of e'] Cons.prems(3) e'
    by (auto simp: split_def Let_def bt_remove_def intro!: filter_cong)
qed simp


section \<open>Operations in sequence\<close>

datatype escrow_call = Lock hold | Release usage_receipt | Refund bytes u64 | Sweep u64

definition escrow_step :: "verifier \<Rightarrow> escrow \<Rightarrow> escrow_call \<Rightarrow> escrow" where
  "escrow_step vrfy e call =
     (case call of Lock h \<Rightarrow> snd (escrow_lock vrfy e h)
      | Release r \<Rightarrow> snd (escrow_release vrfy e r)
      | Refund m now \<Rightarrow> snd (escrow_refund e m now)
      | Sweep now \<Rightarrow> snd (refund_expired e now))"

inductive escrow_reachable :: "verifier \<Rightarrow> (account, u64) btmap \<Rightarrow> escrow \<Rightarrow> bool" for vrfy g where
  start: "escrow_reachable vrfy g (escrow_new g)"
| step: "escrow_reachable vrfy g e \<Longrightarrow> escrow_reachable vrfy g (escrow_step vrfy e call)"

lemma escrow_step_value:
  "escrow_wf e \<Longrightarrow> escrow_wf (escrow_step vrfy e call) \<and> escrow_value (escrow_step vrfy e call) = escrow_value e"
  by (cases call)
    (simp_all add: escrow_step_def escrow_lock_value escrow_release_value escrow_refund_value
      refund_expired_def refund_each_value)

lemma escrow_reachable_value:
  "escrow_reachable vrfy g e \<Longrightarrow> bt_wf g \<Longrightarrow> escrow_wf e \<and> escrow_value e = total_supply g"
  by (induction rule: escrow_reachable.induct) (simp_all add: escrow_new_wf escrow_step_value)

section \<open>Wire lemmas\<close>

definition sized_hold :: "hold \<Rightarrow> bool" where
  "sized_hold h \<longleftrightarrow> length (ho_from h) = 32 \<and> length (ho_to h) = 32 \<and> length (ho_match_ref h) = 32
     \<and> length (ho_signature h) = 64"

lemma hold_decode_encode: "sized_hold h \<Longrightarrow> hold_decode (hold_encode h) = Some h"
  by (simp add: sized_hold_def hold_decode_def hold_encode_def HOLD_WIRE_LEN_def slice_def)

lemma hold_encode_decode:
  assumes "hold_decode b = Some h"
  shows "hold_encode h = b \<and> sized_hold h"
proof -
  have len: "length b = 184" and h: "h = \<lparr>ho_from = slice 0 32 b, ho_to = slice 32 32 b,
      ho_amount = from_le_bytes64 (slice 64 8 b), ho_match_ref = slice 72 32 b,
      ho_nonce = from_le_bytes64 (slice 104 8 b), ho_expires_at = from_le_bytes64 (slice 112 8 b),
      ho_signature = slice 120 64 b\<rparr>"
    using assms by (auto simp: hold_decode_def HOLD_WIRE_LEN_def split: if_splits)
  have "hold_encode h = slice 0 32 b @ slice 32 32 b @ slice 64 8 b @ slice 72 32 b @ slice 104 8 b
      @ slice 112 8 b @ slice 120 64 b"
    using len by (simp add: h hold_encode_def to_le_from_le64 length_slice)
  also have "\<dots> = slice 0 184 b"
    using slice_append [of 112 8 b 64] slice_append [of 104 8 b 72] slice_append [of 72 32 b 80]
      slice_append [of 64 8 b 112] slice_append [of 32 32 b 120] slice_append [of 0 32 b 152] by simp
  finally show ?thesis
    using len by (simp add: h sized_hold_def length_slice) (simp add: slice_def)
qed

fun sized_op :: "settlement_op \<Rightarrow> bool" where
  "sized_op (OpTransfer t) = sized_transfer t"
| "sized_op (OpHold h) = sized_hold h"
| "sized_op (OpRelease r) = sized_receipt r"
| "sized_op (OpRefund m) = (length m = 32)"

section \<open>A concrete escrow, for the witnesses\<close>

definition ex_hold :: hold where
  "ex_hold = \<lparr>ho_from = [1], ho_to = [2], ho_amount = 30, ho_match_ref = [9], ho_nonce = 0,
     ho_expires_at = 500, ho_signature = []\<rparr>"

definition ex_receipt :: usage_receipt where
  "ex_receipt = \<lparr>ur_provider = [2], ur_consumer = [1], ur_kind = LocalHardware, ur_model = [],
     ur_units_consumed = 7, ur_match_ref = [9], ur_issued_at = 1, ur_request_hash = [],
     ur_response_hash = [], ur_provider_sig = [], ur_consumer_sig = []\<rparr>"

definition ex_escrow :: escrow where
  "ex_escrow = escrow_step ex_vrfy (escrow_new ex_genesis) (Lock ex_hold)"

lemma ex_escrow_reachable: "escrow_reachable ex_vrfy ex_genesis ex_escrow"
  unfolding ex_escrow_def by (intro escrow_reachable.intros)

lemma ex_genesis_wf: "bt_wf ex_genesis" "total_supply ex_genesis = 100"
  by (simp_all add: ex_genesis_def bt_wf_def total_supply_def bt_total_def)

lemma ex_escrow_eq:
  "ex_escrow = \<lparr>es_balances = [([1], 70)], es_nonces = [([1], 1)],
     es_held = [([9], \<lparr>hr_from = [1], hr_to = [2], hr_amount = 30, hr_expires_at = 500\<rparr>)]\<rparr>"
  by (simp add: ex_escrow_def escrow_step_def escrow_lock_def ex_hold_def ex_genesis_def escrow_new_def
      hold_verify_def ex_vrfy_def get_or0_def escrow_balance_def bt_get_def bt_empty_def Let_def)

section \<open>Properties\<close>

text \<open>
  C3. Escrow conserves value: after any sequence of locks, releases, refunds and sweeps, whatever
  fails on the way, available balances and held amounts together add up to the genesis balances.
\<close>

theorem escrow_conserves:
  assumes "escrow_reachable vrfy g e" "bt_wf g"
  shows "escrow_value e = total_supply g"
  using escrow_reachable_value [OF assms] by simp

theorem escrow_conserves_witness: "escrow_value ex_escrow = 100"
  using escrow_conserves [OF ex_escrow_reachable ex_genesis_wf(1)] by (simp add: ex_genesis_wf)

text \<open>
  Escrow operations are all-or-nothing: an error returns the escrow unchanged.
\<close>

theorem escrow_error_unchanged:
  "(fst (escrow_lock vrfy e h) = Err err \<longrightarrow> snd (escrow_lock vrfy e h) = e)
   \<and> (fst (escrow_release vrfy e r) = Err err \<longrightarrow> snd (escrow_release vrfy e r) = e)
   \<and> (fst (escrow_refund e m now) = Err err \<longrightarrow> snd (escrow_refund e m now) = e)"
  by (auto simp: escrow_lock_def escrow_release_def escrow_refund_def Let_def split: option.splits)

theorem escrow_error_unchanged_witness:
  "snd (escrow_refund ex_escrow [9] 10) = ex_escrow"
proof -
  have "fst (escrow_refund ex_escrow [9] 10) = Err (ENotYetExpired 500 10)"
    by (simp add: ex_escrow_eq escrow_refund_def bt_get_def)
  then show ?thesis using escrow_error_unchanged by blast
qed

text \<open>
  C31. Payout: a release succeeds only against a held record whose provider and consumer both
  signed the receipt; it credits the provider with exactly the held amount and touches no other
  balance; the hold is then gone, so the same receipt, or a refund, cannot pay again.
\<close>

theorem escrow_release_pays_once:
  assumes "escrow_release vrfy e r = (Ok (), e')"
  shows "\<exists>rec. bt_get (es_held e) (ur_match_ref r) = Some rec
    \<and> vrfy (hr_to rec) (receipt_bytes r) (ur_provider_sig r)
    \<and> vrfy (hr_from rec) (receipt_bytes r) (ur_consumer_sig r)
    \<and> unat (escrow_balance e' (hr_to rec)) = unat (escrow_balance e (hr_to rec)) + unat (hr_amount rec)
    \<and> (\<forall>a. a \<noteq> hr_to rec \<longrightarrow> escrow_balance e' a = escrow_balance e a)
    \<and> escrow_release vrfy e' r = (Err (EUnknownHold (ur_match_ref r)), e')
    \<and> escrow_refund e' (ur_match_ref r) now = (Err (EUnknownHold (ur_match_ref r)), e')"
  using assms
  by (auto simp: escrow_release_def escrow_refund_def receipt_is_valid_def escrow_balance_or0 Let_def
      split: option.splits if_splits dest!: checked_add_SomeD)

theorem escrow_release_pays_once_witness:
  "\<exists>e'. escrow_release ex_vrfy ex_escrow ex_receipt = (Ok (), e')
     \<and> fst (escrow_release ex_vrfy e' ex_receipt) = Err (EUnknownHold [9])"
proof -
  let ?e = "\<lparr>es_balances = [([1], 70), ([2], 30)], es_nonces = [([1], 1)], es_held = []\<rparr>"
  have r: "escrow_release ex_vrfy ex_escrow ex_receipt = (Ok (), ?e)"
    by (simp add: ex_escrow_eq ex_receipt_def escrow_release_def bt_get_def receipt_is_valid_def ex_vrfy_def
        escrow_balance_def checked_add_def bt_remove_def)
  have "ur_match_ref ex_receipt = [9]" by (simp add: ex_receipt_def)
  with r escrow_release_pays_once [OF r, of 0] show ?thesis by auto
qed

text \<open>
  The reconciliation sweep is complete while the supply fits 64 bits: it refunds exactly the
  expired holds, in ascending order, leaves every other hold alone, and a second sweep at the same
  time finds nothing.
\<close>

theorem refund_expired_complete:
  assumes "escrow_reachable vrfy g e" "bt_wf g" "total_supply g < 2 ^ 64"
  shows "fst (refund_expired e now) = expired_holds e now
    \<and> es_held (snd (refund_expired e now)) = filter (\<lambda>(m, rec). now < hr_expires_at rec) (es_held e)
    \<and> fst (refund_expired (snd (refund_expired e now)) now) = []"
proof -
  have e: "escrow_wf e" "escrow_value e < 2 ^ 64"
    using escrow_reachable_value [OF assms(1,2)] assms(3) by simp_all
  have each: "fst (refund_expired e now) = expired_holds e now"
    "es_held (snd (refund_expired e now)) = filter (\<lambda>p. fst p \<notin> set (expired_holds e now)) (es_held e)"
    using refund_each_all [OF e distinct_expired_holds [OF e(1)]] expired_holds_iff [OF e(1)]
    by (auto simp: refund_expired_def)
  have held: "es_held (snd (refund_expired e now)) = filter (\<lambda>(m, rec). now < hr_expires_at rec) (es_held e)"
  proof -
    have "bt_get (es_held e) m = Some rec" if "(m, rec) \<in> set (es_held e)" for m rec
      using e(1) that by (simp add: escrow_wf_def bt_get_iff)
    then show ?thesis
      unfolding each(2) by (intro filter_cong) (auto simp: expired_holds_iff [OF e(1)])
  qed
  then have "expired_holds (snd (refund_expired e now)) now = []"
    by (auto simp: expired_holds_def filter_empty_conv)
  then show ?thesis using each(1) held by (simp add: refund_expired_def [of "snd (refund_expired e now)"])
qed

theorem refund_expired_complete_witness: "fst (refund_expired ex_escrow 500) = [[9]]"
proof -
  have "expired_holds ex_escrow 500 = [[9]]" by (simp add: ex_escrow_eq expired_holds_def)
  then show ?thesis
    using refund_expired_complete [OF ex_escrow_reachable ex_genesis_wf(1)] by (simp add: ex_genesis_wf)
qed

text \<open>
  Bounded supply makes the overflow errors unreachable: while the genesis balances add up to
  less than \<open>2 ^ 64\<close>, no release and no refund of a reachable escrow answers \<open>BalanceOverflow\<close>.
\<close>

theorem escrow_overflow_unreachable:
  assumes "escrow_reachable vrfy g e" "bt_wf g" "total_supply g < 2 ^ 64"
  shows "fst (escrow_release vrfy e r) \<noteq> Err (EBalanceOverflow a b c)
    \<and> fst (escrow_refund e m now) \<noteq> Err (EBalanceOverflow a b c)"
proof -
  have e: "escrow_wf e" "escrow_value e < 2 ^ 64"
    using escrow_reachable_value [OF assms(1,2)] assms(3) by simp_all
  note fits = payout_fits [OF e]
  have "fst (escrow_release vrfy e r) \<noteq> Err (EBalanceOverflow a b c)"
  proof (cases "bt_get (es_held e) (ur_match_ref r)")
    case (Some rec)
    then show ?thesis using fits [OF Some, of "hr_to rec"] by (auto simp: escrow_release_def)
  qed (simp add: escrow_release_def)
  moreover have "fst (escrow_refund e m now) \<noteq> Err (EBalanceOverflow a b c)"
  proof (cases "bt_get (es_held e) m")
    case (Some rec)
    then show ?thesis using fits [OF Some, of "hr_from rec"] by (auto simp: escrow_refund_def)
  qed (simp add: escrow_refund_def)
  ultimately show ?thesis by blast
qed

theorem escrow_overflow_unreachable_witness:
  "fst (escrow_release ex_vrfy ex_escrow ex_receipt) \<noteq> Err (EBalanceOverflow [2] 0 30)"
  using escrow_overflow_unreachable [OF ex_escrow_reachable ex_genesis_wf(1)] by (simp add: ex_genesis_wf)

text \<open>
  A settlement operation survives the wire, and the wire form is unique: decoding inverts
  encoding for all four operations, and whatever decodes re-encodes to the same bytes.
\<close>

theorem settlement_op_roundtrip:
  "(sized_op op \<longrightarrow> op_decode (op_encode op) = Some op) \<and> (op_decode b = Some op \<longrightarrow> op_encode op = b)"
proof -
  have "op_decode (op_encode op) = Some op" if "sized_op op"
    using that by (cases op)
      (simp_all add: op_decode_def op_encode_def transfer_decode_encode hold_decode_encode receipt_decode_encode)
  moreover have "op_encode op = b" if "op_decode b = Some op"
    using that
    by (auto simp: op_decode_def op_encode_def transfer_encode_decode hold_encode_decode
        receipt_encode_decode split: list.splits if_splits)
  ultimately show ?thesis by blast
qed

theorem settlement_op_roundtrip_witness:
  "op_decode (op_encode (OpRefund (replicate 32 5))) = Some (OpRefund (replicate 32 5))"
  using settlement_op_roundtrip [of "OpRefund (replicate 32 5)"] by simp

end
