(* ===== verification/Election.thy ===== *)
theory Election
  imports Ledger
begin

text \<open>
  Leader election for the settlement chain (\<open>src/crates/common/src/settlement.rs\<close>, \<open>Vote\<close>,
  \<open>elect_leader\<close>, \<open>LeaderAttestation\<close>, \<open>authorize_leader_block\<close>). The two loops of
  \<open>elect_leader\<close> are folds over the ordered maps the code builds; the abstract specification is a
  majority of the members whose valid votes all name one candidate.
\<close>

definition VOTE_DOMAIN :: bytes where
  "VOTE_DOMAIN = map of_char ''ct-settlement-vote-v1''"

definition LEADER_BLOCK_DOMAIN :: bytes where
  "LEADER_BLOCK_DOMAIN = map of_char ''ct-settlement-leader-block-v1''"

record vote =
  vt_term :: u64
  vt_candidate :: account
  vt_voter :: account
  vt_signature :: bytes

definition vote_signing_bytes :: "u64 \<Rightarrow> account \<Rightarrow> account \<Rightarrow> bytes" where
  "vote_signing_bytes trm candidate voter =
     pre_finish (pre_fixed voter (pre_fixed candidate (pre_u64 trm (preimage_new VOTE_DOMAIN))))"

definition vote_sign_new ::
  "('sk \<Rightarrow> bytes) \<Rightarrow> ('sk \<Rightarrow> bytes \<Rightarrow> bytes) \<Rightarrow> 'sk \<Rightarrow> u64 \<Rightarrow> account \<Rightarrow> vote" where
  "vote_sign_new pubkey sign voter_key trm candidate =
     (let voter = pubkey voter_key;
          signature = sign voter_key (vote_signing_bytes trm candidate voter)
      in \<lparr>vt_term = trm, vt_candidate = candidate, vt_voter = voter, vt_signature = signature\<rparr>)"

definition vote_verify :: "verifier \<Rightarrow> vote \<Rightarrow> bool" where
  "vote_verify vrfy v =
     vrfy (vt_voter v) (vote_signing_bytes (vt_term v) (vt_candidate v) (vt_voter v)) (vt_signature v)"

section \<open>The tally\<close>

text \<open>One turn of the first loop: a vote that fails a guard is skipped, any other is entered.\<close>

definition enter_vote ::
  "verifier \<Rightarrow> account list \<Rightarrow> u64 \<Rightarrow> (account, account list) btmap \<Rightarrow> vote \<Rightarrow>
     (account, account list) btmap" where
  "enter_vote vrfy members trm choices v =
     (if vt_term v \<noteq> trm \<or> vt_voter v \<notin> set members \<or> vt_candidate v \<notin> set members
         \<or> \<not> vote_verify vrfy v
      then choices
      else bt_insert (vt_voter v)
             (bts_insert (vt_candidate v) (case bt_get choices (vt_voter v) of None \<Rightarrow> [] | Some cs \<Rightarrow> cs))
             choices)"

definition voter_choices ::
  "verifier \<Rightarrow> vote list \<Rightarrow> account list \<Rightarrow> u64 \<Rightarrow> (account, account list) btmap" where
  "voter_choices vrfy votes members trm = foldl (enter_vote vrfy members trm) bt_empty votes"

definition count_choice :: "(account, nat) btmap \<Rightarrow> account list \<Rightarrow> (account, nat) btmap" where
  "count_choice tally choices =
     (if length choices = 1
      then let candidate = hd choices in
           bt_insert candidate ((case bt_get tally candidate of None \<Rightarrow> 0 | Some n \<Rightarrow> n) + 1) tally
      else tally)"

definition elect_leader :: "verifier \<Rightarrow> vote list \<Rightarrow> account list \<Rightarrow> u64 \<Rightarrow> account option" where
  "elect_leader vrfy votes members trm =
     (let tally = foldl count_choice bt_empty (map snd (voter_choices vrfy votes members trm));
          needed = length members div 2 + 1
      in map_option fst (find (\<lambda>(candidate, count). needed \<le> count) tally))"

section \<open>Leader attestations\<close>

record leader_attestation =
  la_term :: u64
  la_leader :: account
  la_block_hash :: bytes
  la_signature :: bytes

definition attestation_signing_bytes :: "u64 \<Rightarrow> account \<Rightarrow> bytes \<Rightarrow> bytes" where
  "attestation_signing_bytes trm leader hash =
     pre_finish (pre_fixed hash (pre_fixed leader (pre_u64 trm (preimage_new LEADER_BLOCK_DOMAIN))))"

definition attestation_sign_new ::
  "('sk \<Rightarrow> bytes) \<Rightarrow> ('sk \<Rightarrow> bytes \<Rightarrow> bytes) \<Rightarrow> 'sk \<Rightarrow> u64 \<Rightarrow> bytes \<Rightarrow> leader_attestation" where
  "attestation_sign_new pubkey sign leader_key trm hash =
     (let leader = pubkey leader_key;
          signature = sign leader_key (attestation_signing_bytes trm leader hash)
      in \<lparr>la_term = trm, la_leader = leader, la_block_hash = hash, la_signature = signature\<rparr>)"

definition attestation_verify :: "verifier \<Rightarrow> leader_attestation \<Rightarrow> bool" where
  "attestation_verify vrfy att =
     vrfy (la_leader att) (attestation_signing_bytes (la_term att) (la_leader att) (la_block_hash att))
       (la_signature att)"

definition authorize_leader_block ::
  "verifier \<Rightarrow> leader_attestation \<Rightarrow> account \<Rightarrow> u64 \<Rightarrow> bytes \<Rightarrow> bool" where
  "authorize_leader_block vrfy att elected_leader trm hash \<longleftrightarrow>
     la_term att = trm \<and> la_leader att = elected_leader \<and> la_block_hash att = hash
     \<and> attestation_verify vrfy att"

section \<open>What the tally computes\<close>

text \<open>The candidates a voter validly chose in the term, and the members whose only choice is \<open>c\<close>.\<close>

definition chosen :: "verifier \<Rightarrow> vote list \<Rightarrow> account list \<Rightarrow> u64 \<Rightarrow> account \<Rightarrow> account set" where
  "chosen vrfy votes members trm a =
     {vt_candidate v | v. v \<in> set votes \<and> vt_voter v = a \<and> vt_term v = trm
        \<and> vt_voter v \<in> set members \<and> vt_candidate v \<in> set members \<and> vote_verify vrfy v}"

definition supporters :: "verifier \<Rightarrow> vote list \<Rightarrow> account list \<Rightarrow> u64 \<Rightarrow> account \<Rightarrow> account set" where
  "supporters vrfy votes members trm c = {a. chosen vrfy votes members trm a = {c}}"

definition holds_set :: "(account, account list) btmap \<Rightarrow> account \<Rightarrow> account set \<Rightarrow> bool" where
  "holds_set m a S \<longleftrightarrow> (case bt_get m a of None \<Rightarrow> S = {}
     | Some cs \<Rightarrow> cs \<noteq> [] \<and> sorted_wrt (<) cs \<and> set cs = S)"

lemma holds_set_unique: "holds_set m a S \<Longrightarrow> holds_set n a S \<Longrightarrow> bt_get m a = bt_get n a"
  by (auto simp: holds_set_def split: option.splits intro: strict_sorted_equal)

lemma chosen_snoc:
  "chosen vrfy (votes @ [v]) members trm a =
     (if vt_term v \<noteq> trm \<or> vt_voter v \<notin> set members \<or> vt_candidate v \<notin> set members
         \<or> \<not> vote_verify vrfy v \<or> vt_voter v \<noteq> a
      then chosen vrfy votes members trm a
      else insert (vt_candidate v) (chosen vrfy votes members trm a))"
  by (auto simp: chosen_def)

lemma enter_vote_holds:
  assumes "holds_set m a (chosen vrfy votes members trm a)"
  shows "holds_set (enter_vote vrfy members trm m v) a (chosen vrfy (votes @ [v]) members trm a)"
  using assms
  by (auto simp: holds_set_def enter_vote_def chosen_snoc sorted_bts_insert
      split: option.splits simp flip: set_empty)

lemma voter_choices_spec:
  "bt_wf (voter_choices vrfy votes members trm)
   \<and> holds_set (voter_choices vrfy votes members trm) a (chosen vrfy votes members trm a)"
proof (induction votes rule: rev_induct)
  case Nil
  show ?case by (simp add: voter_choices_def holds_set_def chosen_def)
next
  case (snoc v votes)
  have "voter_choices vrfy (votes @ [v]) members trm
      = enter_vote vrfy members trm (voter_choices vrfy votes members trm) v"
    by (simp add: voter_choices_def)
  with snoc show ?case by (simp add: enter_vote_holds) (simp add: enter_vote_def)
qed

lemma singleton_choice:
  "bt_get (voter_choices vrfy votes members trm) a = Some [c] \<longleftrightarrow> a \<in> supporters vrfy votes members trm c"
proof -
  let ?m = "voter_choices vrfy votes members trm"
  have h: "holds_set ?m a (chosen vrfy votes members trm a)" by (simp add: voter_choices_spec)
  show ?thesis
  proof
    assume "bt_get ?m a = Some [c]"
    with h show "a \<in> supporters vrfy votes members trm c" by (simp add: holds_set_def supporters_def)
  next
    assume "a \<in> supporters vrfy votes members trm c"
    then have "holds_set ?m a {c}" using h by (simp add: supporters_def)
    moreover have "holds_set [(a, [c])] a {c}" by (simp add: holds_set_def bt_get_def)
    ultimately have "bt_get ?m a = bt_get [(a, [c])] a" by (rule holds_set_unique)
    then show "bt_get ?m a = Some [c]" by (simp add: bt_get_def)
  qed
qed

lemma card_keys_with_value:
  assumes "bt_wf m"
  shows "length (filter (\<lambda>v. v = x) (map snd m)) = card {k. bt_get m k = Some x}"
proof -
  have d: "distinct (map fst m)" using assms by (rule bt_wf_distinct)
  have "{k. bt_get m k = Some x} = set (map fst (filter (\<lambda>p. snd p = x) m))"
    using d by (auto simp: bt_get_def image_iff dest!: map_of_SomeD)
  moreover have "distinct (map fst (filter (\<lambda>p. snd p = x) m))"
    using d by (simp add: distinct_map_filter)
  ultimately have "card {k. bt_get m k = Some x} = length (filter (\<lambda>p. snd p = x) m)"
    using distinct_card by fastforce
  then show ?thesis by (simp add: filter_map comp_def)
qed

lemma tally_spec:
  "bt_wf (foldl count_choice bt_empty css)
   \<and> bt_get (foldl count_choice bt_empty css) c =
      (let n = length (filter (\<lambda>cs. cs = [c]) css) in if n = 0 then None else Some n)"
proof (induction css rule: rev_induct)
  case (snoc cs css)
  then show ?case
    by (cases cs) (auto simp: count_choice_def Let_def split: if_splits)
qed simp

lemma card_supporters:
  "length (filter (\<lambda>cs. cs = [c]) (map snd (voter_choices vrfy votes members trm)))
   = card (supporters vrfy votes members trm c)"
  using card_keys_with_value [OF voter_choices_spec [THEN conjunct1], of "[c]" vrfy votes members trm]
  by (simp only: singleton_choice Collect_mem_eq)

lemma tally_count:
  "bt_get (foldl count_choice bt_empty (map snd (voter_choices vrfy votes members trm))) c =
     (let n = card (supporters vrfy votes members trm c) in if n = 0 then None else Some n)"
  by (simp only: tally_spec card_supporters)

text \<open>Supporters of two candidates are disjoint subsets of the members.\<close>

lemma supporters_members: "supporters vrfy votes members trm c \<subseteq> set members"
  by (auto simp: supporters_def chosen_def)

lemma majorities_meet:
  assumes "A \<subseteq> set members" "B \<subseteq> set members"
    and "length members div 2 + 1 \<le> card A" "length members div 2 + 1 \<le> card B"
  shows "A \<inter> B \<noteq> {}"
proof
  assume "A \<inter> B = {}"
  moreover have "finite A" "finite B" using assms(1,2) finite_subset by auto
  ultimately have "card (A \<union> B) = card A + card B" by (simp add: card_Un_disjoint)
  moreover have "card (A \<union> B) \<le> card (set members)" using assms(1,2) by (intro card_mono) auto
  moreover have "card (set members) \<le> length members" by (rule card_length)
  ultimately show False using assms(3,4) by linarith
qed

lemma find_in_map:
  assumes "bt_wf m" and "\<And>k k' v v'. bt_get m k = Some v \<Longrightarrow> bt_get m k' = Some v' \<Longrightarrow> P v \<Longrightarrow> P v' \<Longrightarrow> k = k'"
  shows "map_option fst (find (\<lambda>(k, v). P v) m) = Some k \<longleftrightarrow> (\<exists>v. bt_get m k = Some v \<and> P v)"
proof
  assume "map_option fst (find (\<lambda>(k, v). P v) m) = Some k"
  then obtain v where "(k, v) \<in> set m" "P v"
    by (auto simp: find_Some_iff) (metis nth_mem)
  with assms(1) show "\<exists>v. bt_get m k = Some v \<and> P v"
    by (auto simp: bt_get_def bt_wf_distinct)
next
  assume "\<exists>v. bt_get m k = Some v \<and> P v"
  then obtain v where v: "bt_get m k = Some v" "P v" by blast
  then have "(k, v) \<in> set m" by (simp add: bt_get_def map_of_SomeD)
  with v(2) have "find (\<lambda>(k, v). P v) m \<noteq> None" by (auto simp: find_None_iff)
  then obtain k' v' where f: "find (\<lambda>(k, v). P v) m = Some (k', v')" by auto
  then have "(k', v') \<in> set m" "P v'" by (auto simp: find_Some_iff) (metis nth_mem)
  with assms(1) have "bt_get m k' = Some v'" by (auto simp: bt_get_def bt_wf_distinct)
  with assms(2) v \<open>P v'\<close> f show "map_option fst (find (\<lambda>(k, v). P v) m) = Some k" by auto
qed

lemma elect_leader_majority:
  "elect_leader vrfy votes members trm = Some c \<longleftrightarrow>
     length members div 2 + 1 \<le> card (supporters vrfy votes members trm c)"
proof -
  let ?m = "foldl count_choice bt_empty (map snd (voter_choices vrfy votes members trm))"
  let ?P = "\<lambda>n. length members div 2 + 1 \<le> n"
  have "k = k'" if "bt_get ?m k = Some v" "bt_get ?m k' = Some v'" "?P v" "?P v'" for k k' v v'
  proof -
    have "supporters vrfy votes members trm k \<inter> supporters vrfy votes members trm k' \<noteq> {}"
      using that by (intro majorities_meet [of _ members] supporters_members)
        (auto simp: tally_count Let_def split: if_splits)
    then show ?thesis by (auto simp: supporters_def)
  qed
  then show ?thesis
    using find_in_map [of ?m ?P c] tally_spec [THEN conjunct1]
    by (auto simp: elect_leader_def tally_count Let_def)
qed


lemma disagreement:
  assumes "elect_leader vrfy votes1 members trm = Some c" "elect_leader vrfy votes2 members trm = Some d"
  shows "\<exists>v w. v \<in> set votes1 \<and> w \<in> set votes2 \<and> vt_voter v = vt_voter w \<and> vt_voter v \<in> set members
    \<and> vt_candidate v = c \<and> vt_candidate w = d \<and> vt_term v = trm \<and> vt_term w = trm
    \<and> vote_verify vrfy v \<and> vote_verify vrfy w"
proof -
  have "supporters vrfy votes1 members trm c \<inter> supporters vrfy votes2 members trm d \<noteq> {}"
    using assms(1,2) by (intro majorities_meet [of _ members] supporters_members)
      (simp_all add: elect_leader_majority)
  then obtain a where "chosen vrfy votes1 members trm a = {c}" "chosen vrfy votes2 members trm a = {d}"
    by (auto simp: supporters_def)
  then have "c \<in> chosen vrfy votes1 members trm a" "d \<in> chosen vrfy votes2 members trm a" by simp_all
  then obtain v w where "v \<in> set votes1" "w \<in> set votes2" "vt_voter v = a" "vt_voter w = a"
    "a \<in> set members" "vt_candidate v = c" "vt_candidate w = d" "vt_term v = trm" "vt_term w = trm"
    "vote_verify vrfy v" "vote_verify vrfy w"
    by (auto simp: chosen_def)
  then show ?thesis by (intro exI [of _ v] exI [of _ w]) simp
qed

lemma vote_fields_build: "vote_signing_bytes t c v = build VOTE_DOMAIN [U64 t, Fixed c, Fixed v]"
  by (simp add: vote_signing_bytes_def build_def)

lemma attestation_fields_build:
  "attestation_signing_bytes t l h = build LEADER_BLOCK_DOMAIN [U64 t, Fixed l, Fixed h]"
  by (simp add: attestation_signing_bytes_def build_def)

definition ex_vote :: "account \<Rightarrow> account \<Rightarrow> vote" where
  "ex_vote candidate voter =
     \<lparr>vt_term = 7, vt_candidate = candidate, vt_voter = voter, vt_signature = [1]\<rparr>"

definition ex_members :: "account list" where
  "ex_members = [[1], [2], [3]]"

lemmas ex_election_defs = elect_leader_def voter_choices_def enter_vote_def vote_verify_def
  count_choice_def ex_vote_def ex_members_def bts_insert_def bt_get_def bt_empty_def

section \<open>Properties\<close>



text \<open>
  No split brain without a provable culprit: if two nodes tally two vote lists for the same term
  and members and each elects a leader, some member validly signed a vote for the one and a vote for
  the other. So two different leaders convict that member of equivocation.
\<close>

theorem elections_disagree_only_by_equivocation:
  assumes "elect_leader vrfy votes1 members trm = Some c" "elect_leader vrfy votes2 members trm = Some d"
  shows "\<exists>v w. v \<in> set votes1 \<and> w \<in> set votes2 \<and> vt_voter v = vt_voter w \<and> vt_voter v \<in> set members
    \<and> vt_candidate v = c \<and> vt_candidate w = d \<and> vt_term v = trm \<and> vt_term w = trm
    \<and> vote_verify vrfy v \<and> vote_verify vrfy w"
  using disagreement [OF assms(1,2)] .

theorem elections_disagree_only_by_equivocation_witness:
  "\<exists>v w. v \<in> set [ex_vote [1] [1], ex_vote [1] [3]] \<and> w \<in> set [ex_vote [2] [2], ex_vote [2] [3]]
    \<and> vt_voter v = vt_voter w \<and> vt_candidate v = [1] \<and> vt_candidate w = [2]"
proof -
  have "elect_leader (\<lambda>_ _ _. True) [ex_vote [1] [1], ex_vote [1] [3]] ex_members 7 = Some [1]"
    "elect_leader (\<lambda>_ _ _. True) [ex_vote [2] [2], ex_vote [2] [3]] ex_members 7 = Some [2]"
    by (simp_all add: ex_election_defs)
  then show ?thesis using elections_disagree_only_by_equivocation by blast
qed

text \<open>
  C28. Single leader per term: when no member signs votes for two candidates of the term, any two
  blocks that followers authorize in that term (each against the leader of its own tally) carry valid
  attestations of one and the same leader; and an attestation's signed bytes fix the term, the leader
  and the block hash, so it cannot be moved to another block or term.
\<close>

theorem authorized_blocks_one_leader:
  assumes "elect_leader vrfy votes1 members trm = Some l1" "authorize_leader_block vrfy att1 l1 trm h1"
    and "elect_leader vrfy votes2 members trm = Some l2" "authorize_leader_block vrfy att2 l2 trm h2"
    and "\<And>v w. v \<in> set (votes1 @ votes2) \<Longrightarrow> w \<in> set (votes1 @ votes2) \<Longrightarrow> vt_voter v = vt_voter w \<Longrightarrow>
      vt_term v = trm \<Longrightarrow> vt_term w = trm \<Longrightarrow> vote_verify vrfy v \<Longrightarrow> vote_verify vrfy w \<Longrightarrow>
      vt_candidate v = vt_candidate w"
    and "length l1 = 32" "length h1 = 32" "length l = 32" "length h = 32"
  shows "la_leader att1 = la_leader att2 \<and> la_block_hash att1 = h1 \<and> la_block_hash att2 = h2
    \<and> vrfy l1 (attestation_signing_bytes trm l1 h1) (la_signature att1)
    \<and> (attestation_signing_bytes t l h = attestation_signing_bytes trm l1 h1 \<longrightarrow> t = trm \<and> l = l1 \<and> h = h1)"
proof -
  have "l1 = l2"
  proof (rule ccontr)
    assume "l1 \<noteq> l2"
    then obtain v w where "v \<in> set votes1" "w \<in> set votes2" "vt_voter v = vt_voter w"
      "vt_candidate v = l1" "vt_candidate w = l2" "vt_term v = trm" "vt_term w = trm"
      "vote_verify vrfy v" "vote_verify vrfy w"
      using disagreement [OF assms(1,3)] by blast
    with assms(5) [of v w] \<open>l1 \<noteq> l2\<close> show False by simp
  qed
  moreover have "t = trm \<and> l = l1 \<and> h = h1"
    if "attestation_signing_bytes t l h = attestation_signing_bytes trm l1 h1"
    using that assms(6-) build_inject [of LEADER_BLOCK_DOMAIN "[U64 t, Fixed l, Fixed h]"
        LEADER_BLOCK_DOMAIN "[U64 trm, Fixed l1, Fixed h1]"]
    by (simp add: attestation_fields_build LEADER_BLOCK_DOMAIN_def)
  ultimately show ?thesis
    using assms(2,4) by (auto simp: authorize_leader_block_def attestation_verify_def)
qed

theorem authorized_blocks_one_leader_witness:
  "\<exists>att. authorize_leader_block (\<lambda>_ _ _. True) att (replicate 32 2) 7 (replicate 32 9)
     \<and> la_leader att = replicate 32 2"
proof -
  let ?m = "[replicate 32 1, replicate 32 2] :: account list"
  let ?vs = "[ex_vote (replicate 32 2) (replicate 32 1), ex_vote (replicate 32 2) (replicate 32 2)]"
  let ?att = "\<lparr>la_term = 7, la_leader = replicate 32 2, la_block_hash = replicate 32 9, la_signature = []\<rparr>"
  have e: "elect_leader (\<lambda>_ _ _. True) ?vs ?m 7 = Some (replicate 32 2)"
    by (simp add: ex_election_defs)
  have a: "authorize_leader_block (\<lambda>_ _ _. True) ?att (replicate 32 2) 7 (replicate 32 9)"
    by (simp add: authorize_leader_block_def attestation_verify_def)
  have "la_leader ?att = replicate 32 2"
    using authorized_blocks_one_leader [OF e a e a, of "replicate 32 2" "replicate 32 9"]
    by (auto simp: ex_vote_def)
  with a show ?thesis by blast
qed

end
