(* ===== verification/Text.thy ===== *)
theory Text
  imports Wire Hex
begin

text \<open>
  The text the code formats: ASCII literals and \<open>u64\<close> in decimal (\<open>format!("{}")\<close>), with the
  facts that make a formatted signing message readable back.
\<close>

definition ascii :: "string \<Rightarrow> bytes" where
  "ascii s = map of_char s"

fun dec_digits :: "nat \<Rightarrow> bytes" where
  "dec_digits n = (if n < 10 then [word_of_nat (48 + n)]
                   else dec_digits (n div 10) @ [word_of_nat (48 + n mod 10)])"

declare dec_digits.simps [simp del]

definition dec_value :: "bytes \<Rightarrow> nat" where
  "dec_value bs = foldl (\<lambda>a b. a * 10 + (unat b - 48)) 0 bs"

lemma dec_value_digits: "dec_value (dec_digits n) = n"
proof (induction n rule: dec_digits.induct)
  case (1 n)
  have d: "unat (word_of_nat (48 + k) :: u8) - 48 = k" if "k < 10" for k
    using that by (simp add: unat_of_nat del: of_nat_add)
  show ?case
  proof (cases "n < 10")
    case True
    then show ?thesis using d by (simp add: dec_digits.simps dec_value_def)
  next
    case False
    then have "dec_value (dec_digits n) = dec_value (dec_digits (n div 10)) * 10 + n mod 10"
      using d [of "n mod 10"] by (subst dec_digits.simps) (simp add: dec_value_def)
    with 1 False show ?thesis by simp
  qed
qed

lemma dec_digits_inject [simp]: "dec_digits m = dec_digits n \<longleftrightarrow> m = n"
  by (metis dec_value_digits)

end
