(* ===== verification/Replay.thy ===== *)
theory Replay
  imports Prelude
begin

text \<open>
  The replay cache (\<open>src/crates/common/src/replay.rs\<close>): a set of seen identifiers, each kept until
  its token's expiry, with a sweep amortised over \<open>EVICT_INTERVAL_SECS\<close>. It is compared with a
  reference that keeps the whole history and never evicts.
\<close>

definition EVICT_INTERVAL_SECS :: u64 where
  "EVICT_INTERVAL_SECS = 5"

record replay_cache =
  rc_seen :: "(bytes, u64) hmap"
  rc_last_evict_at :: u64

definition replay_new :: replay_cache where
  "replay_new = \<lparr>rc_seen = hm_empty, rc_last_evict_at = 0\<rparr>"

definition evict_expired :: "replay_cache \<Rightarrow> u64 \<Rightarrow> replay_cache" where
  "evict_expired c now = c\<lparr>rc_seen := hm_retain (\<lambda>_ expires_at. now < expires_at) (rc_seen c)\<rparr>"

definition check_and_record :: "replay_cache \<Rightarrow> bytes \<Rightarrow> u64 \<Rightarrow> u64 \<Rightarrow> bool \<times> replay_cache" where
  "check_and_record c ident expires_at now =
     (let c = (if EVICT_INTERVAL_SECS \<le> saturating_sub now (rc_last_evict_at c)
               then (evict_expired c now)\<lparr>rc_last_evict_at := now\<rparr> else c) in
      if expires_at \<le> now then (False, c)
      else if (case hm_get (rc_seen c) ident of None \<Rightarrow> False | Some existing_expiry \<Rightarrow> now < existing_expiry)
      then (False, c)
      else (True, c\<lparr>rc_seen := hm_insert ident expires_at (rc_seen c)\<rparr>))"

definition replay_len :: "replay_cache \<Rightarrow> nat" where
  "replay_len c = hm_len (rc_seen c)"

definition replay_is_empty :: "replay_cache \<Rightarrow> bool" where
  "replay_is_empty c \<longleftrightarrow> replay_len c = 0"

section \<open>The reference: an unbounded history\<close>

definition live_in :: "(bytes \<times> u64) list \<Rightarrow> bytes \<Rightarrow> u64 \<Rightarrow> bool" where
  "live_in hist ident now \<longleftrightarrow> list_ex (\<lambda>(i, e). i = ident \<and> now < e) hist"

definition ref_check :: "(bytes \<times> u64) list \<Rightarrow> bytes \<Rightarrow> u64 \<Rightarrow> u64 \<Rightarrow> bool \<times> (bytes \<times> u64) list" where
  "ref_check hist ident expires_at now =
     (if expires_at \<le> now \<or> live_in hist ident now then (False, hist) else (True, (ident, expires_at) # hist))"

text \<open>A presentation is an identifier, its expiry and the time of the call.\<close>

type_synonym presentation = "bytes \<times> u64 \<times> u64"

definition present_id :: "replay_cache \<Rightarrow> presentation \<Rightarrow> bool \<times> replay_cache" where
  "present_id c call = (case call of (ident, e, now) \<Rightarrow> check_and_record c ident e now)"

definition ref_present :: "(bytes \<times> u64) list \<Rightarrow> presentation \<Rightarrow> bool \<times> (bytes \<times> u64) list" where
  "ref_present h call = (case call of (ident, e, now) \<Rightarrow> ref_check h ident e now)"

section \<open>Lemmas\<close>

definition cache_live :: "replay_cache \<Rightarrow> bytes \<Rightarrow> u64 \<Rightarrow> bool" where
  "cache_live c ident now \<longleftrightarrow> (\<exists>e. hm_get (rc_seen c) ident = Some e \<and> now < e)"

lemma live_in_simps [simp]:
  "\<not> live_in [] ident now"
  "live_in ((i, e) # h) ident now \<longleftrightarrow> i = ident \<and> now < e \<or> live_in h ident now"
  by (simp_all add: live_in_def)

lemma live_in_earlier: "live_in h ident t \<Longrightarrow> now \<le> t \<Longrightarrow> live_in h ident now"
  by (induction h) auto

lemma check_and_record_fresh:
  assumes "hm_wf (rc_seen c)"
  shows "fst (check_and_record c ident e now) \<longleftrightarrow> now < e \<and> \<not> cache_live c ident now"
  using assms
  by (auto simp: check_and_record_def cache_live_def evict_expired_def hm.get_retain Let_def
      split: option.splits)

lemma check_and_record_wf:
  "hm_wf (rc_seen c) \<Longrightarrow> hm_wf (rc_seen (snd (check_and_record c ident e now)))"
  by (auto simp: check_and_record_def evict_expired_def Let_def)

lemma check_and_record_live:
  assumes "hm_wf (rc_seen c)" "now \<le> t"
  shows "cache_live (snd (check_and_record c ident e now)) ident' t \<longleftrightarrow>
    (if fst (check_and_record c ident e now) \<and> ident' = ident then t < e else cache_live c ident' t)"
  using assms
  by (auto simp: check_and_record_def cache_live_def evict_expired_def hm.get_retain Let_def
      split: option.splits)

text \<open>An entry recorded with expiry \<open>e\<close> survives every call made before \<open>e\<close>.\<close>

lemma check_and_record_keeps:
  assumes "hm_wf (rc_seen c)" "hm_get (rc_seen c) ident = Some e" "now < e"
  shows "hm_get (rc_seen (snd (check_and_record c ident' e' now))) ident = Some e"
  using assms
  by (auto simp: check_and_record_def evict_expired_def hm.get_retain Let_def split: option.splits)

definition agree :: "replay_cache \<Rightarrow> (bytes \<times> u64) list \<Rightarrow> u64 \<Rightarrow> bool" where
  "agree c h t0 \<longleftrightarrow> hm_wf (rc_seen c) \<and> (\<forall>ident t. t0 \<le> t \<longrightarrow> cache_live c ident t = live_in h ident t)"

lemma agree_step:
  assumes "agree c h t0" "t0 \<le> now"
  shows "fst (check_and_record c ident e now) = fst (ref_check h ident e now)"
    and "agree (snd (check_and_record c ident e now)) (snd (ref_check h ident e now)) now"
proof -
  show eq: "fst (check_and_record c ident e now) = fst (ref_check h ident e now)"
    using assms by (auto simp: agree_def check_and_record_fresh ref_check_def)
  have "cache_live (snd (check_and_record c ident e now)) i t = live_in (snd (ref_check h ident e now)) i t"
    if "now \<le> t" for i t
    using assms that eq
    by (auto simp: agree_def check_and_record_live ref_check_def dest: live_in_earlier)
  then show "agree (snd (check_and_record c ident e now)) (snd (ref_check h ident e now)) now"
    using assms(1) by (simp add: agree_def check_and_record_wf)
qed

interpretation cache: timed_refinement present_id ref_present "snd \<circ> snd" agree
proof
  fix c h t0 and call :: presentation
  assume "agree c h t0" "t0 \<le> (snd \<circ> snd) call"
  with agree_step [of c h t0 "snd (snd call)" "fst call" "fst (snd call)"]
  show "fst (present_id c call) = fst (ref_present h call)"
    "agree (snd (present_id c call)) (snd (ref_present h call)) ((snd \<circ> snd) call)"
    by (simp_all add: present_id_def ref_present_def split_def)
qed

section \<open>Properties\<close>

text \<open>
  C36. Under a clock that does not go back, the amortised sweep is invisible: the cache answers every
  sequence of presentations exactly as the reference that keeps the whole history, that is, fresh
  iff the token is unexpired and no earlier fresh presentation of the identifier is still live.
\<close>

theorem replay_cache_exact:
  assumes "sorted (map (snd \<circ> snd) calls)"
  shows "outputs present_id replay_new calls = outputs ref_present [] calls"
proof (rule cache.outputs_agree)
  show "agree replay_new [] 0"
    by (auto simp: agree_def replay_new_def cache_live_def)
  show "sorted (0 # map (snd \<circ> snd) calls)" using assms by simp
qed

theorem replay_cache_exact_witness:
  "outputs present_id replay_new [([1], 20, 10), ([1], 20, 12), ([2], 90, 14), ([1], 40, 20)]
     = [True, False, True, True]"
  using replay_cache_exact [of "[([1], 20, 10), ([1], 20, 12), ([2], 90, 14), ([1], 40, 20)]"]
  by (simp add: ref_present_def ref_check_def)

end
