(* ===== verification/Admission.thy ===== *)
theory Admission
  imports Replay
begin

text \<open>
  The contract of an admission point that owns a replay cache: a stateless check, then the cache under
  the token's signature. Channel grants and credentials are both admitted this way.
\<close>

locale replay_admission =
  fixes stateless :: "'k \<Rightarrow> 's \<Rightarrow> u64 \<Rightarrow> 'e + unit"
    and fresh :: "'k \<Rightarrow> 's \<Rightarrow> u64 \<Rightarrow> replay_cache \<Rightarrow> ('e + unit) \<times> replay_cache"
    and ident :: "'s \<Rightarrow> bytes"
    and expiry :: "'s \<Rightarrow> u64"
    and replayed :: 'e
  assumes fresh_eq: "fresh k s now c =
      (case stateless k s now of
         Inl e \<Rightarrow> (Err e, c)
       | Inr _ \<Rightarrow> (case check_and_record c (ident s) (expiry s) now of (ok, c) \<Rightarrow> (if \<not> ok then Err replayed else Ok (), c)))"
    and unexpired: "stateless k s now = Ok () \<Longrightarrow> now < expiry s"
begin

lemma fresh_wf: "hm_wf (rc_seen c) \<Longrightarrow> hm_wf (rc_seen (snd (fresh k s now c)))"
  using check_and_record_wf [of c "ident s" "expiry s" now] by (auto simp: fresh_eq split: sum.splits prod.splits)

lemma fresh_keeps:
  assumes "hm_wf (rc_seen c)" "hm_get (rc_seen c) i = Some e" "now < e"
  shows "hm_get (rc_seen (snd (fresh k s now c))) i = Some e"
  using check_and_record_keeps [OF assms, of "ident s" "expiry s"] assms(2) by (auto simp: fresh_eq split: sum.splits prod.splits)

lemma run_keeps:
  assumes "hm_wf (rc_seen c)" "hm_get (rc_seen c) i = Some e" "list_all (\<lambda>(_, _, now). now < e) calls"
  shows "hm_wf (rc_seen (foldl (\<lambda>c (k, s, now). snd (fresh k s now c)) c calls))
    \<and> hm_get (rc_seen (foldl (\<lambda>c (k, s, now). snd (fresh k s now c)) c calls)) i = Some e"
  using assms by (induction calls arbitrary: c) (auto simp: fresh_wf fresh_keeps)

lemma fresh_Ok:
  assumes "fresh k s now c = (Ok (), c')" "hm_wf (rc_seen c)"
  shows "stateless k s now = Ok ()" "hm_wf (rc_seen c')" "hm_get (rc_seen c') (ident s) = Some (expiry s)"
  using assms fresh_wf [of c k s now]
  by (auto simp: fresh_eq check_and_record_def Let_def split: sum.splits prod.splits if_splits)

lemma fresh_seen:
  assumes "hm_wf (rc_seen c)" "hm_get (rc_seen c) (ident s) = Some e" "now < e"
  shows "fst (fresh k s now c) = (case stateless k s now of Inl e \<Rightarrow> Err e | Inr _ \<Rightarrow> Err replayed)"
  using check_and_record_fresh [OF assms(1), of "ident s" "expiry s" now] assms
  by (auto simp: fresh_eq cache_live_def split: sum.splits prod.splits)

text \<open>After an admission the same token fails, with the error of the stateless check or as a replay.\<close>

lemma admitted_once:
  assumes "fresh k s now c = (Ok (), c')" "hm_wf (rc_seen c)" "list_all (\<lambda>(_, _, t). t \<le> later) calls"
  shows "fst (fresh k s later (foldl (\<lambda>c (k, s, now). snd (fresh k s now c)) c' calls))
    = (case stateless k s later of Inl e \<Rightarrow> Err e | Inr _ \<Rightarrow> Err replayed)"
proof (cases "later < expiry s")
  case True
  note ok = fresh_Ok [OF assms(1,2)]
  have "list_all (\<lambda>(_, _, t). t < expiry s) calls" using assms(3) True by (auto simp: list_all_iff)
  with run_keeps [OF ok(2,3)] fresh_seen True show ?thesis by blast
next
  case False
  then have "stateless k s later \<noteq> Ok ()" using unexpired by blast
  then show ?thesis by (auto simp: fresh_eq split: sum.splits)
qed

end

end
