(* ===== verification/Grant.thy ===== *)
theory Grant
  imports Text Admission Collections
begin

text \<open>
  Channel addresses and trust-chain grants (\<open>src/crates/common/src/channel.rs\<close>): derived channel
  ids, \<open>Direction\<close>, \<open>Rights\<close>, \<open>ChannelGrant\<close>, \<open>SignedChannelGrant\<close>, \<open>verify_stateless\<close>,
  \<open>verify_fresh\<close>. \<open>sha\<close> is SHA-256, \<open>vrfy\<close> the ed25519 verifier and \<open>key_ok\<close> whether
  \<open>VerifyingKey::from_bytes\<close> parses a key.
\<close>

section \<open>Channel ids\<close>

definition LINK_CHANNEL_DOMAIN :: bytes where
  "LINK_CHANNEL_DOMAIN = ascii ''ct-link-channel-v1''"

definition link_preimage :: "bytes \<Rightarrow> bytes \<Rightarrow> bytes \<Rightarrow> bytes" where
  "link_preimage operator_pubkey holder_a holder_b =
     (let (lo, hi) = (if holder_a \<le> holder_b then (holder_a, holder_b) else (holder_b, holder_a))
      in LINK_CHANNEL_DOMAIN @ operator_pubkey @ lo @ hi)"

definition channel_id_for_link :: "digest \<Rightarrow> bytes \<Rightarrow> bytes \<Rightarrow> bytes \<Rightarrow> bytes" where
  "channel_id_for_link sha operator_pubkey holder_a holder_b =
     sha (link_preimage operator_pubkey holder_a holder_b)"

definition PIPELINE_ROLE_CHANNEL_DOMAIN :: bytes where
  "PIPELINE_ROLE_CHANNEL_DOMAIN = ascii ''ct-pipeline-role-channel-v1''"

definition channel_id_for_pipeline_role :: "digest \<Rightarrow> bytes \<Rightarrow> bytes \<Rightarrow> bytes \<Rightarrow> bytes" where
  "channel_id_for_pipeline_role sha operator_pubkey pipeline_id role =
     (let preimage = pre_finish (pre_var_bytes role (pre_var_bytes pipeline_id (pre_fixed operator_pubkey
            (preimage_new PIPELINE_ROLE_CHANNEL_DOMAIN))))
      in sha preimage)"

text \<open>The \<open>HashSet\<close> of channel ids is the set of the list's elements.\<close>

definition authorized_channels :: "digest \<Rightarrow> bytes \<Rightarrow> (bytes \<times> bytes) list \<Rightarrow> bytes set" where
  "authorized_channels sha operator_pubkey links =
     set (map (\<lambda>(a, b). channel_id_for_link sha operator_pubkey a b) links)"

definition overlay_authorizes_channel :: "digest \<Rightarrow> bytes \<Rightarrow> (bytes \<times> bytes) list \<Rightarrow> bytes \<Rightarrow> bool" where
  "overlay_authorizes_channel sha operator_pubkey links channel =
     list_ex (\<lambda>(a, b). channel_id_for_link sha operator_pubkey a b = channel) links"

section \<open>Direction and rights\<close>

datatype direction = Initiate | Accept | Both

fun direction_byte :: "direction \<Rightarrow> u8" where
  "direction_byte Initiate = 1"
| "direction_byte Accept = 2"
| "direction_byte Both = 3"

definition direction_from_byte :: "u8 \<Rightarrow> direction option" where
  "direction_from_byte b = (if b = 1 then Some Initiate else if b = 2 then Some Accept
     else if b = 3 then Some Both else None)"

fun direction_label :: "direction \<Rightarrow> bytes" where
  "direction_label Initiate = ascii ''initiate''"
| "direction_label Accept = ascii ''accept''"
| "direction_label Both = ascii ''both''"

definition permits :: "direction \<Rightarrow> direction \<Rightarrow> bool" where
  "permits self want \<longleftrightarrow> self = Both \<or> self = want"

datatype rights = Read | Write | ReadWrite

fun rights_byte :: "rights \<Rightarrow> u8" where
  "rights_byte Read = 1"
| "rights_byte Write = 2"
| "rights_byte ReadWrite = 3"

definition rights_from_byte :: "u8 \<Rightarrow> rights option" where
  "rights_from_byte b = (if b = 1 then Some Read else if b = 2 then Some Write
     else if b = 3 then Some ReadWrite else None)"

fun rights_label :: "rights \<Rightarrow> bytes" where
  "rights_label Read = ascii ''r''"
| "rights_label Write = ascii ''w''"
| "rights_label ReadWrite = ascii ''rw''"

definition can_read :: "rights \<Rightarrow> bool" where
  "can_read r = (r \<in> {Read, ReadWrite})"

definition can_write :: "rights \<Rightarrow> bool" where
  "can_write r = (r \<in> {Write, ReadWrite})"

section \<open>Grants\<close>

record channel_grant =
  cg_channel :: bytes
  cg_holder :: bytes
  cg_direction :: direction
  cg_rights :: rights
  cg_delegable :: bool
  cg_expires_at :: u64

text \<open>\<open>self.delegable as u8\<close>, formatted.\<close>

definition bool_digit :: "bool \<Rightarrow> bytes" where
  "bool_digit b = ascii (if b then ''1'' else ''0'')"

definition grant_signing_bytes :: "channel_grant \<Rightarrow> bytes" where
  "grant_signing_bytes g =
     ascii ''ct-grant:v1|'' @ hex_encode (cg_channel g) @ ascii ''|'' @ hex_encode (cg_holder g) @ ascii ''|''
     @ direction_label (cg_direction g) @ ascii ''|'' @ rights_label (cg_rights g) @ ascii ''|''
     @ bool_digit (cg_delegable g) @ ascii ''|'' @ dec_digits (unat (cg_expires_at g))"

record signed_channel_grant =
  sg_grant :: channel_grant
  sg_signature :: bytes

datatype grant_error = GBadSignature | GExpired | GBadKey | GMalformed | GReplayed

definition GRANT_WIRE_LEN :: nat where
  "GRANT_WIRE_LEN = 64 + 32 + 32 + 1 + 1 + 1 + 8"

definition grant_encode :: "signed_channel_grant \<Rightarrow> bytes" where
  "grant_encode s =
     (let g = sg_grant s in
      sg_signature s @ cg_channel g @ cg_holder g @ [direction_byte (cg_direction g)]
      @ [rights_byte (cg_rights g)] @ [if cg_delegable g then 1 else 0] @ to_le_bytes64 (cg_expires_at g))"

definition grant_digest :: "digest \<Rightarrow> signed_channel_grant \<Rightarrow> bytes" where
  "grant_digest sha s = sha (grant_encode s)"

text \<open>Every failure of the decoder is \<open>Malformed\<close>.\<close>

definition grant_fields_decode :: "bytes \<Rightarrow> signed_channel_grant option" where
  "grant_fields_decode bytes = do {
     (signature, cur) \<leftarrow> take_n 64 bytes;
     (channel, cur) \<leftarrow> take_n 32 cur;
     (holder, cur) \<leftarrow> take_n 32 cur;
     (d, cur) \<leftarrow> take_n 1 cur;
     direction \<leftarrow> direction_from_byte (d ! 0);
     (r, cur) \<leftarrow> take_n 1 cur;
     rights \<leftarrow> rights_from_byte (r ! 0);
     (b, cur) \<leftarrow> take_n 1 cur;
     delegable \<leftarrow> (if b ! 0 = 0 then Some False else if b ! 0 = 1 then Some True else None);
     (e, cur) \<leftarrow> take_n 8 cur;
     if cur \<noteq> [] then None
     else Some \<lparr>sg_grant = \<lparr>cg_channel = channel, cg_holder = holder, cg_direction = direction,
                 cg_rights = rights, cg_delegable = delegable, cg_expires_at = from_le_bytes64 e\<rparr>,
               sg_signature = signature\<rparr>
   }"

definition grant_decode :: "bytes \<Rightarrow> grant_error + signed_channel_grant" where
  "grant_decode bytes = (case grant_fields_decode bytes of None \<Rightarrow> Err GMalformed | Some s \<Rightarrow> Ok s)"

section \<open>Verification\<close>

definition verify_stateless ::
  "(bytes \<Rightarrow> bool) \<Rightarrow> verifier \<Rightarrow> bytes \<Rightarrow> signed_channel_grant \<Rightarrow> u64 \<Rightarrow> grant_error + unit" where
  "verify_stateless key_ok vrfy operator_pubkey s now =
     (if \<not> key_ok operator_pubkey then Err GBadKey
      else if \<not> vrfy operator_pubkey (grant_signing_bytes (sg_grant s)) (sg_signature s) then Err GBadSignature
      else if cg_expires_at (sg_grant s) \<le> now then Err GExpired
      else Ok ())"

definition verify_fresh ::
  "(bytes \<Rightarrow> bool) \<Rightarrow> verifier \<Rightarrow> bytes \<Rightarrow> signed_channel_grant \<Rightarrow> u64 \<Rightarrow> replay_cache
     \<Rightarrow> (grant_error + unit) \<times> replay_cache" where
  "verify_fresh key_ok vrfy operator_pubkey s now cache =
     (case verify_stateless key_ok vrfy operator_pubkey s now of
        Inl e \<Rightarrow> (Err e, cache)
      | Inr _ \<Rightarrow> (case check_and_record cache (sg_signature s) (cg_expires_at (sg_grant s)) now of
           (fresh, cache) \<Rightarrow> (if \<not> fresh then Err GReplayed else Ok (), cache)))"

definition verify_holder_possession :: "(bytes \<Rightarrow> bool) \<Rightarrow> verifier \<Rightarrow> bytes \<Rightarrow> bytes \<Rightarrow> bytes \<Rightarrow> bool" where
  "verify_holder_possession key_ok vrfy holder challenge signature \<longleftrightarrow>
     key_ok holder \<and> vrfy holder challenge signature"

section \<open>Lemmas\<close>

definition sized_grant :: "channel_grant \<Rightarrow> bool" where
  "sized_grant g \<longleftrightarrow> length (cg_channel g) = 32 \<and> length (cg_holder g) = 32"

lemma direction_from_byte_iff: "direction_from_byte b = Some d \<longleftrightarrow> b = direction_byte d"
  by (cases d) (auto simp: direction_from_byte_def)

lemma rights_from_byte_iff: "rights_from_byte b = Some r \<longleftrightarrow> b = rights_byte r"
  by (cases r) (auto simp: rights_from_byte_def)

lemma labels_read_back:
  "direction_label d @ ascii ''|'' @ xs = direction_label e @ ascii ''|'' @ ys \<longleftrightarrow> d = e \<and> xs = ys"
  "rights_label r @ ascii ''|'' @ xs = rights_label q @ ascii ''|'' @ ys \<longleftrightarrow> r = q \<and> xs = ys"
  "bool_digit b @ ascii ''|'' @ xs = bool_digit c @ ascii ''|'' @ ys \<longleftrightarrow> b = c \<and> xs = ys"
proof -
  show "direction_label d @ ascii ''|'' @ xs = direction_label e @ ascii ''|'' @ ys \<longleftrightarrow> d = e \<and> xs = ys"
    by (cases d; cases e; simp add: ascii_def)
  show "rights_label r @ ascii ''|'' @ xs = rights_label q @ ascii ''|'' @ ys \<longleftrightarrow> r = q \<and> xs = ys"
    by (cases r; cases q; simp add: ascii_def)
  show "bool_digit b @ ascii ''|'' @ xs = bool_digit c @ ascii ''|'' @ ys \<longleftrightarrow> b = c \<and> xs = ys"
    by (cases b; cases c; simp add: ascii_def bool_digit_def)
qed

lemma hex_encode_inject [simp]: "hex_encode a = hex_encode b \<longleftrightarrow> a = b"
  by (metis hex_pairs_encode option.inject)

lemma grant_signing_bytes_inject:
  assumes "sized_grant g" "sized_grant h" "grant_signing_bytes g = grant_signing_bytes h"
  shows "g = h"
  using assms
  by (intro channel_grant.equality)
    (simp_all add: grant_signing_bytes_def sized_grant_def labels_read_back append_eq_append_conv
      word_unat_eq_iff)

text \<open>A formatted message is never a message of the preimage builder: its first byte, \<open>c\<close>, would be
  the low byte of a domain length.\<close>

lemma nat_le_first: "nat_le 4 n = word_of_nat n # nat_le 3 (n div 256)"
  using nat_le.simps(2) [of 3 n] by simp

lemma ct_message_not_build:
  assumes "length d < 99"
  shows "99 # xs \<noteq> build d fs"
proof
  assume "99 # xs = build d fs"
  also have "\<dots> = word_of_nat (length d) # nat_le 3 (length d div 256) @ d @ concat (map field_bytes fs)"
    using assms by (simp add: build_bytes to_le_bytes32_def nat_le_first)
  finally have "unat (99 :: u8) = unat (word_of_nat (length d) :: u8)" by simp
  with assms show False by (simp add: unat_of_nat)
qed

lemma grant_decode_encode:
  assumes "sized_grant (sg_grant s)" "length (sg_signature s) = 64"
  shows "grant_decode (grant_encode s) = Ok s"
  using assms
  by (simp add: grant_decode_def grant_fields_decode_def grant_encode_def sized_grant_def Let_def
      direction_from_byte_iff [THEN iffD2] rights_from_byte_iff [THEN iffD2])

lemma grant_encode_decode:
  assumes "grant_decode b = Ok s"
  shows "grant_encode s = b \<and> sized_grant (sg_grant s) \<and> length (sg_signature s) = 64"
proof -
  have "grant_fields_decode b = Some s" using assms by (simp add: grant_decode_def split: option.splits)
  then show ?thesis
    by (auto simp: grant_fields_decode_def bind_eq_Some_conv take_n_iff direction_from_byte_iff
        rights_from_byte_iff grant_encode_def sized_grant_def to_le_from_le64 length_Suc_conv Let_def
        split: if_splits)
qed

lemma grant_encode_length:
  "sized_grant (sg_grant s) \<Longrightarrow> length (sg_signature s) = 64 \<Longrightarrow> length (grant_encode s) = GRANT_WIRE_LEN"
  by (simp add: grant_encode_def sized_grant_def GRANT_WIRE_LEN_def Let_def)

lemma link_preimage_eq:
  assumes "length p = 32" "length a = 32" "length b = 32" "length q = 32" "length c = 32" "length d = 32"
  shows "link_preimage p a b = link_preimage q c d \<longleftrightarrow> p = q \<and> {a, b} = {c, d}"
  using assms by (auto simp: link_preimage_def doubleton_eq_iff)

text \<open>Presentations at an admission point that owns the cache.\<close>

fun present ::
  "(bytes \<Rightarrow> bool) \<Rightarrow> verifier \<Rightarrow> replay_cache \<Rightarrow> (bytes \<times> signed_channel_grant \<times> u64) list \<Rightarrow> replay_cache" where
  "present key_ok vrfy cache [] = cache"
| "present key_ok vrfy cache ((operator, s, now) # rest) =
     present key_ok vrfy (snd (verify_fresh key_ok vrfy operator s now cache)) rest"

lemma present_foldl:
  "present key_ok vrfy cache calls = foldl (\<lambda>c (k, s, now). snd (verify_fresh key_ok vrfy k s now c)) cache calls"
  by (induction key_ok vrfy cache calls rule: present.induct) simp_all

interpretation grants: replay_admission "verify_stateless key_ok vrfy" "verify_fresh key_ok vrfy" sg_signature
  "\<lambda>s. cg_expires_at (sg_grant s)" GReplayed for key_ok vrfy
  by unfold_locales (auto simp: verify_fresh_def verify_stateless_def split: if_splits)

definition ex_grant :: signed_channel_grant where
  "ex_grant = \<lparr>sg_grant = \<lparr>cg_channel = replicate 32 1, cg_holder = replicate 32 2, cg_direction = Both,
     cg_rights = ReadWrite, cg_delegable = False, cg_expires_at = 100\<rparr>, sg_signature = replicate 64 7\<rparr>"

section \<open>Properties\<close>

text \<open>
  A grant is admitted at most once: after \<open>verify_fresh\<close> accepts it, and whatever other grants
  are presented meanwhile, presenting the same grant at any later time fails, on the replay cache
  while it is unexpired and on its expiry afterwards.
\<close>

theorem grant_admitted_once:
  assumes "verify_fresh key_ok vrfy operator s now cache = (Ok (), cache')" "hm_wf (rc_seen cache)"
    and "list_all (\<lambda>(_, _, t). t \<le> later) calls"
  shows "fst (verify_fresh key_ok vrfy operator s later (present key_ok vrfy cache' calls))
    \<in> {Err GReplayed, Err GExpired}"
proof -
  have "fst (verify_fresh key_ok vrfy operator s later (present key_ok vrfy cache' calls))
      = (case verify_stateless key_ok vrfy operator s later of Inl e \<Rightarrow> Err e | Inr _ \<Rightarrow> Err GReplayed)"
    unfolding present_foldl by (rule grants.admitted_once [OF assms])
  moreover have "verify_stateless key_ok vrfy operator s now = Ok ()" by (rule grants.fresh_Ok(1) [OF assms(1,2)])
  ultimately show ?thesis by (auto simp: verify_stateless_def split: if_splits)
qed

theorem grant_admitted_once_witness:
  "\<exists>cache'. verify_fresh (\<lambda>_. True) (\<lambda>_ _ _. True) [5] ex_grant 10 replay_new = (Ok (), cache')
     \<and> fst (verify_fresh (\<lambda>_. True) (\<lambda>_ _ _. True) [5] ex_grant 20 cache') \<in> {Err GReplayed, Err GExpired}"
proof -
  let ?c = "snd (verify_fresh (\<lambda>_. True) (\<lambda>_ _ _. True) [5] ex_grant 10 replay_new)"
  have "verify_fresh (\<lambda>_. True) (\<lambda>_ _ _. True) [5] ex_grant 10 replay_new = (Ok (), ?c)"
    by (simp add: verify_fresh_def verify_stateless_def ex_grant_def check_and_record_def replay_new_def
        evict_expired_def hm_empty_def hm_retain_def hm_get_def Let_def)
  from this grant_admitted_once [OF this, of 20 "[]"] show ?thesis
    by (auto simp: replay_new_def)
qed

text \<open>
  The signed message of a grant determines every field of the grant, and is never a message of
  the preimage builder (all of whose domain tags are shorter than 99 bytes): an operator signature
  on one grant authorizes no other grant and no other kind of object.
\<close>

theorem grant_message_injective:
  assumes "sized_grant g" "sized_grant h"
  shows "(grant_signing_bytes g = grant_signing_bytes h \<longleftrightarrow> g = h)
    \<and> (length d < 99 \<longrightarrow> grant_signing_bytes g \<noteq> build d fs)"
  using grant_signing_bytes_inject [OF assms] ct_message_not_build
  by (auto simp: grant_signing_bytes_def ascii_def)

theorem grant_message_injective_witness:
  "grant_signing_bytes (sg_grant ex_grant) \<noteq> grant_signing_bytes ((sg_grant ex_grant)\<lparr>cg_expires_at := 1000\<rparr>)
   \<and> grant_signing_bytes (sg_grant ex_grant) \<noteq> build [1] []"
  using grant_message_injective [of "sg_grant ex_grant" "(sg_grant ex_grant)\<lparr>cg_expires_at := 1000\<rparr>" "[1]" "[]"]
  by (simp add: sized_grant_def ex_grant_def)

text \<open>
  Grants survive the wire exactly: decoding inverts encoding, a decoded grant encodes back to
  the bytes it came from, so there is one wire form per grant, of \<open>WIRE_LEN\<close> bytes.
\<close>

theorem grant_wire_exact:
  "grant_decode b = Ok s \<longleftrightarrow>
     grant_encode s = b \<and> sized_grant (sg_grant s) \<and> length (sg_signature s) = 64 \<and> length b = GRANT_WIRE_LEN"
  using grant_decode_encode [of s] grant_encode_decode [of b s] grant_encode_length [of s] by auto

text \<open>
  Link channels are canonical and operator-bound: over 32-byte keys the hashed bytes agree exactly
  when the operator and the unordered pair of holders agree, the two endpoints derive the same id,
  and the enforcement test is membership in the set of authorized channels.
\<close>

theorem link_channel_canonical:
  assumes "list_all (\<lambda>k. length k = 32) [p, a, b, q, c, d]"
  shows "(link_preimage p a b = link_preimage q c d \<longleftrightarrow> p = q \<and> {a, b} = {c, d})
    \<and> channel_id_for_link sha p a b = channel_id_for_link sha p b a
    \<and> (overlay_authorizes_channel sha p links ch \<longleftrightarrow> ch \<in> authorized_channels sha p links)"
proof -
  have "channel_id_for_link sha p a b = channel_id_for_link sha p b a"
    by (auto simp: channel_id_for_link_def link_preimage_def)
  with assms show ?thesis
    by (auto simp: link_preimage_eq overlay_authorizes_channel_def authorized_channels_def list_ex_iff)
qed

theorem link_channel_canonical_witness:
  "link_preimage (replicate 32 0) (replicate 32 1) (replicate 32 2)
     = link_preimage (replicate 32 0) (replicate 32 2) (replicate 32 1)"
  using link_channel_canonical [of "replicate 32 0" "replicate 32 1" "replicate 32 2" "replicate 32 0"
      "replicate 32 2" "replicate 32 1"] by (simp add: insert_commute)

end
