(* ===== verification/Staple.thy ===== *)
theory Staple
  imports Grant
begin

text \<open>
  Holder and operator attestations, membership staples with their soft-state cache, and the billing
  and delivery records bound to a channel (\<open>src/crates/common/src/channel.rs\<close>). Each
  \<open>VerifyingKey::from_bytes\<close> followed by \<open>verify\<close> is one call of the parameter \<open>vrfy\<close>, false also
  for a key that does not parse.
\<close>

section \<open>Attestations\<close>

definition topology_operator_binding_bytes :: "bytes \<Rightarrow> bytes \<Rightarrow> bytes" where
  "topology_operator_binding_bytes topology_id operator_pubkey =
     pre_finish (pre_fixed operator_pubkey (pre_fixed topology_id (pre_u64 (word_of_nat (length topology_id))
       (preimage_new (ascii ''ct-topology-operator-v1'')))))"

definition verify_topology_operator_binding :: "verifier \<Rightarrow> bytes \<Rightarrow> bytes \<Rightarrow> bytes \<Rightarrow> bool" where
  "verify_topology_operator_binding vrfy topology_id operator_pubkey signature =
     vrfy operator_pubkey (topology_operator_binding_bytes topology_id operator_pubkey) signature"

definition member_noise_attest_bytes :: "bytes \<Rightarrow> bytes \<Rightarrow> bytes \<Rightarrow> bytes" where
  "member_noise_attest_bytes channel holder noise_pubkey =
     pre_finish (pre_fixed noise_pubkey (pre_fixed holder (pre_fixed channel
       (preimage_new (ascii ''ct-a2a-noise-attest-v1'')))))"

definition verify_member_noise_attestation :: "verifier \<Rightarrow> bytes \<Rightarrow> bytes \<Rightarrow> bytes \<Rightarrow> bytes \<Rightarrow> bool" where
  "verify_member_noise_attestation vrfy channel holder noise_pubkey signature =
     vrfy holder (member_noise_attest_bytes channel holder noise_pubkey) signature"

section \<open>Membership staples\<close>

definition MEMBERSHIP_STAPLE_DOMAIN :: bytes where
  "MEMBERSHIP_STAPLE_DOMAIN = ascii ''ct-membership-staple-v1''"

record membership_staple =
  st_channel :: bytes
  st_holder :: bytes
  st_stapled_at :: u64
  st_expires_at :: u64
  st_signature :: bytes

definition staple_signing_bytes :: "bytes \<Rightarrow> bytes \<Rightarrow> u64 \<Rightarrow> u64 \<Rightarrow> bytes" where
  "staple_signing_bytes channel holder stapled_at expires_at =
     pre_finish (pre_u64 expires_at (pre_u64 stapled_at (pre_fixed holder (pre_fixed channel
       (preimage_new MEMBERSHIP_STAPLE_DOMAIN)))))"

definition staple_is_valid :: "verifier \<Rightarrow> membership_staple \<Rightarrow> bytes \<Rightarrow> u64 \<Rightarrow> bool" where
  "staple_is_valid vrfy s operator_pubkey now =
     (if st_expires_at s \<le> now then False
      else vrfy operator_pubkey (staple_signing_bytes (st_channel s) (st_holder s) (st_stapled_at s)
             (st_expires_at s)) (st_signature s))"

definition STAPLE_WIRE_LEN :: nat where
  "STAPLE_WIRE_LEN = 64 + 32 + 32 + 8 + 8"

definition staple_encode :: "membership_staple \<Rightarrow> bytes" where
  "staple_encode s = st_signature s @ st_channel s @ st_holder s @ to_le_bytes64 (st_stapled_at s)
     @ to_le_bytes64 (st_expires_at s)"

definition staple_decode :: "bytes \<Rightarrow> grant_error + membership_staple" where
  "staple_decode bytes = (case do {
     (signature, cur) \<leftarrow> take_n 64 bytes;
     (channel, cur) \<leftarrow> take_n 32 cur;
     (holder, cur) \<leftarrow> take_n 32 cur;
     (stapled_at, cur) \<leftarrow> take_n 8 cur;
     (expires_at, cur) \<leftarrow> take_n 8 cur;
     if cur \<noteq> [] then None
     else Some \<lparr>st_channel = channel, st_holder = holder, st_stapled_at = from_le_bytes64 stapled_at,
                st_expires_at = from_le_bytes64 expires_at, st_signature = signature\<rparr>
   } of None \<Rightarrow> Err GMalformed | Some s \<Rightarrow> Ok s)"

datatype channel_admission_policy = Open | RequireStaple

record staple_cache =
  sc_fresh :: "(bytes \<times> bytes, membership_staple) hmap"

definition staple_cache_new :: staple_cache where
  "staple_cache_new = \<lparr>sc_fresh = hm_empty\<rparr>"

definition refresh :: "verifier \<Rightarrow> staple_cache \<Rightarrow> bytes \<Rightarrow> membership_staple \<Rightarrow> u64 \<Rightarrow> bool \<times> staple_cache" where
  "refresh vrfy c operator_pubkey staple now =
     (if \<not> staple_is_valid vrfy staple operator_pubkey now then (False, c)
      else let key = (st_channel staple, st_holder staple) in
        if (case hm_get (sc_fresh c) key of None \<Rightarrow> False
            | Some existing \<Rightarrow> st_expires_at staple \<le> st_expires_at existing)
        then (True, c)
        else (True, c\<lparr>sc_fresh := hm_insert key staple (sc_fresh c)\<rparr>))"

definition is_member :: "verifier \<Rightarrow> staple_cache \<Rightarrow> bytes \<Rightarrow> bytes \<Rightarrow> bytes \<Rightarrow> u64 \<Rightarrow> bool \<times> staple_cache" where
  "is_member vrfy c operator_pubkey channel holder now =
     (let key = (channel, holder) in
      case hm_get (sc_fresh c) key of
        Some s \<Rightarrow> if staple_is_valid vrfy s operator_pubkey now then (True, c)
                  else (False, c\<lparr>sc_fresh := hm_remove key (sc_fresh c)\<rparr>)
      | None \<Rightarrow> (False, c))"

definition admits_under_policy ::
  "verifier \<Rightarrow> staple_cache \<Rightarrow> channel_admission_policy \<Rightarrow> bytes \<Rightarrow> bytes \<Rightarrow> bytes \<Rightarrow> u64 \<Rightarrow> bool \<times> staple_cache" where
  "admits_under_policy vrfy c policy operator_pubkey channel holder now =
     (case policy of Open \<Rightarrow> (True, c)
      | RequireStaple \<Rightarrow> is_member vrfy c operator_pubkey channel holder now)"

section \<open>Billing commitments\<close>

definition BILLING_COMMITMENT_DOMAIN :: bytes where
  "BILLING_COMMITMENT_DOMAIN = ascii ''ct-billing-commitment-v1''"

record billing_commitment =
  bc_channel :: bytes
  bc_holder :: bytes
  bc_payee :: bytes
  bc_terms_hash :: bytes
  bc_max_amount :: u64
  bc_expires_at :: u64
  bc_signature :: bytes

definition billing_signing_bytes :: "bytes \<Rightarrow> bytes \<Rightarrow> bytes \<Rightarrow> bytes \<Rightarrow> u64 \<Rightarrow> u64 \<Rightarrow> bytes" where
  "billing_signing_bytes channel holder payee terms_hash max_amount expires_at =
     pre_finish (pre_u64 expires_at (pre_u64 max_amount (pre_fixed terms_hash (pre_fixed payee
       (pre_fixed holder (pre_fixed channel (preimage_new BILLING_COMMITMENT_DOMAIN)))))))"

definition billing_is_valid :: "verifier \<Rightarrow> billing_commitment \<Rightarrow> u64 \<Rightarrow> bool" where
  "billing_is_valid vrfy c now =
     (if bc_expires_at c \<le> now then False
      else vrfy (bc_holder c) (billing_signing_bytes (bc_channel c) (bc_holder c) (bc_payee c)
             (bc_terms_hash c) (bc_max_amount c) (bc_expires_at c)) (bc_signature c))"

definition satisfies :: "verifier \<Rightarrow> billing_commitment \<Rightarrow> u64 \<Rightarrow> bytes \<Rightarrow> bytes \<Rightarrow> u64 \<Rightarrow> bool" where
  "satisfies vrfy c now required_payee required_terms_hash min_amount \<longleftrightarrow>
     billing_is_valid vrfy c now \<and> bc_payee c = required_payee \<and> bc_terms_hash c = required_terms_hash
     \<and> min_amount \<le> bc_max_amount c"

datatype billing_policy = NoBilling | Require (rq_payee: bytes) (rq_terms_hash: bytes) (rq_min_amount: u64)

fun billing_admits :: "verifier \<Rightarrow> billing_policy \<Rightarrow> billing_commitment option \<Rightarrow> u64 \<Rightarrow> bool" where
  "billing_admits vrfy NoBilling commitment now = True"
| "billing_admits vrfy (Require payee terms_hash min_amount) commitment now =
     (case commitment of None \<Rightarrow> False | Some c \<Rightarrow> satisfies vrfy c now payee terms_hash min_amount)"

section \<open>Settle receipts\<close>

definition SETTLE_RECEIPT_DOMAIN :: bytes where
  "SETTLE_RECEIPT_DOMAIN = ascii ''ct-settle-receipt-v1''"

text \<open>The incremental hasher is the bytes fed to it; finalising it is \<open>sha\<close> of them.\<close>

record transfer_digest =
  td_hasher :: bytes
  td_bytes :: u64

definition digest_new :: transfer_digest where
  "digest_new = \<lparr>td_hasher = [], td_bytes = 0\<rparr>"

definition digest_update :: "transfer_digest \<Rightarrow> bytes \<Rightarrow> transfer_digest" where
  "digest_update d chunk = \<lparr>td_hasher = td_hasher d @ chunk, td_bytes = td_bytes d + word_of_nat (length chunk)\<rparr>"

definition digest_digest :: "digest \<Rightarrow> transfer_digest \<Rightarrow> bytes" where
  "digest_digest sha d = sha (td_hasher d)"

record settle_receipt =
  sr_channel :: bytes
  sr_receiver :: bytes
  sr_terms_hash :: bytes
  sr_session_nonce :: bytes
  sr_bytes_delivered :: u64
  sr_transfer_digest :: bytes
  sr_signature :: bytes

definition settle_signing_bytes :: "bytes \<Rightarrow> bytes \<Rightarrow> bytes \<Rightarrow> bytes \<Rightarrow> u64 \<Rightarrow> bytes \<Rightarrow> bytes" where
  "settle_signing_bytes channel receiver terms_hash session_nonce bytes_delivered dig =
     pre_finish (pre_fixed dig (pre_u64 bytes_delivered (pre_fixed session_nonce (pre_fixed terms_hash
       (pre_fixed receiver (pre_fixed channel (preimage_new SETTLE_RECEIPT_DOMAIN)))))))"

definition settle_is_valid :: "verifier \<Rightarrow> settle_receipt \<Rightarrow> bool" where
  "settle_is_valid vrfy r = vrfy (sr_receiver r) (settle_signing_bytes (sr_channel r) (sr_receiver r)
     (sr_terms_hash r) (sr_session_nonce r) (sr_bytes_delivered r) (sr_transfer_digest r)) (sr_signature r)"

definition confirms_delivery ::
  "verifier \<Rightarrow> settle_receipt \<Rightarrow> bytes \<Rightarrow> bytes \<Rightarrow> bytes \<Rightarrow> bytes \<Rightarrow> u64 \<Rightarrow> bytes \<Rightarrow> bool" where
  "confirms_delivery vrfy r expected_channel expected_receiver expected_terms_hash expected_session_nonce
     min_bytes sender_digest \<longleftrightarrow>
     settle_is_valid vrfy r \<and> sr_receiver r = expected_receiver \<and> sr_channel r = expected_channel
     \<and> sr_terms_hash r = expected_terms_hash \<and> sr_session_nonce r = expected_session_nonce
     \<and> min_bytes \<le> sr_bytes_delivered r \<and> sr_transfer_digest r = sender_digest"

section \<open>Runs of the staple cache\<close>

datatype staple_call =
    Refresh bytes membership_staple u64
  | Ask bytes bytes bytes u64

fun staple_step :: "verifier \<Rightarrow> staple_cache \<Rightarrow> staple_call \<Rightarrow> staple_cache" where
  "staple_step vrfy c (Refresh operator s now) = snd (refresh vrfy c operator s now)"
| "staple_step vrfy c (Ask operator channel holder now) = snd (is_member vrfy c operator channel holder now)"

definition staple_run :: "verifier \<Rightarrow> staple_cache \<Rightarrow> staple_call list \<Rightarrow> staple_cache" where
  "staple_run vrfy = foldl (staple_step vrfy)"

definition signed_by :: "verifier \<Rightarrow> bytes \<Rightarrow> membership_staple \<Rightarrow> bool" where
  "signed_by vrfy operator s \<longleftrightarrow> vrfy operator
     (staple_signing_bytes (st_channel s) (st_holder s) (st_stapled_at s) (st_expires_at s)) (st_signature s)"

text \<open>A call is harmless to the pair until \<open>t\<close>: it is about another pair, or it is made for the same
  operator before \<open>t\<close>.\<close>

fun harmless :: "bytes \<Rightarrow> bytes \<Rightarrow> bytes \<Rightarrow> u64 \<Rightarrow> staple_call \<Rightarrow> bool" where
  "harmless operator channel holder t (Refresh operator' s now) \<longleftrightarrow>
     (st_channel s, st_holder s) \<noteq> (channel, holder) \<or> operator' = operator"
| "harmless operator channel holder t (Ask operator' channel' holder' now) \<longleftrightarrow>
     (channel', holder') \<noteq> (channel, holder) \<or> (operator' = operator \<and> now < t)"

definition covered :: "verifier \<Rightarrow> bytes \<Rightarrow> bytes \<Rightarrow> bytes \<Rightarrow> u64 \<Rightarrow> staple_cache \<Rightarrow> bool" where
  "covered vrfy operator channel holder t c \<longleftrightarrow>
     (case hm_get (sc_fresh c) (channel, holder) of None \<Rightarrow> False
      | Some s \<Rightarrow> signed_by vrfy operator s \<and> t \<le> st_expires_at s)"

lemma staple_valid_iff: "staple_is_valid vrfy s operator now \<longleftrightarrow> now < st_expires_at s \<and> signed_by vrfy operator s"
  by (auto simp: staple_is_valid_def signed_by_def)

lemma covered_step:
  assumes "covered vrfy operator channel holder t c" "harmless operator channel holder t call"
  shows "covered vrfy operator channel holder t (staple_step vrfy c call)"
  using assms
  by (cases call) (auto simp: covered_def refresh_def is_member_def staple_valid_iff Let_def
      split: option.splits if_splits)

lemma covered_run:
  assumes "covered vrfy operator channel holder t c" "list_all (harmless operator channel holder t) calls"
  shows "covered vrfy operator channel holder t (staple_run vrfy c calls)"
  using assms by (induction calls arbitrary: c) (simp_all add: staple_run_def covered_step)

lemma refresh_covers:
  assumes "refresh vrfy c operator s now = (True, c')"
    and "\<And>s'. hm_get (sc_fresh c) (st_channel s, st_holder s) = Some s' \<Longrightarrow> signed_by vrfy operator s'"
  shows "covered vrfy operator (st_channel s) (st_holder s) (st_expires_at s) c'"
  using assms
  by (auto simp: covered_def refresh_def staple_valid_iff Let_def split: option.splits if_splits)

text \<open>Every cached staple is filed under its own pair and came in through a refresh that verified it.\<close>

definition fed :: "staple_call list \<Rightarrow> membership_staple \<Rightarrow> bool" where
  "fed calls s \<longleftrightarrow> (\<exists>operator now. Refresh operator s now \<in> set calls)"

lemma fed_intros: "fed calls s \<Longrightarrow> fed (calls @ [call]) s" "fed (calls @ [Refresh operator s now]) s"
  by (auto simp: fed_def)

definition backed :: "verifier \<Rightarrow> staple_call list \<Rightarrow> staple_cache \<Rightarrow> bool" where
  "backed vrfy calls c \<longleftrightarrow> (\<forall>k s. hm_get (sc_fresh c) k = Some s \<longrightarrow>
     k = (st_channel s, st_holder s) \<and> fed calls s)"

lemma backed_step: "backed vrfy calls c \<Longrightarrow> backed vrfy (calls @ [call]) (staple_step vrfy c call)"
  by (cases call) (auto simp: backed_def refresh_def is_member_def Let_def fed_intros
      split: option.splits if_splits)

lemma backed_run: "backed vrfy calls (staple_run vrfy staple_cache_new calls)"
proof (induction calls rule: rev_induct)
  case Nil
  show ?case by (simp add: backed_def staple_run_def staple_cache_new_def)
next
  case (snoc call calls)
  then show ?case using backed_step [OF snoc] by (simp add: staple_run_def)
qed

definition ex_staple :: membership_staple where
  "ex_staple = \<lparr>st_channel = [1], st_holder = [2], st_stapled_at = 10, st_expires_at = 100, st_signature = [3]\<rparr>"

section \<open>Properties\<close>

text \<open>
  Fail-static: once a refresh for a member succeeds, the member stays admitted until the staple's
  expiry with no further message from the operator, whatever the cache is asked or fed meanwhile for
  other members, and whatever it is asked or fed for this member under the same operator key before
  the expiry; in particular out-of-order gossip never shortens the admission.
\<close>

theorem staple_fail_static:
  assumes "refresh vrfy c operator s now = (True, c')"
    and "\<And>s'. hm_get (sc_fresh c) (st_channel s, st_holder s) = Some s' \<Longrightarrow> signed_by vrfy operator s'"
    and "list_all (harmless operator (st_channel s) (st_holder s) (st_expires_at s)) calls"
    and "later < st_expires_at s"
  shows "fst (admits_under_policy vrfy (staple_run vrfy c' calls) policy operator (st_channel s) (st_holder s) later)"
  using covered_run [OF refresh_covers [OF assms(1,2)] assms(3)] assms(4)
  by (cases policy) (auto simp: admits_under_policy_def is_member_def covered_def staple_valid_iff Let_def
      split: option.splits)

theorem staple_fail_static_witness:
  "fst (is_member (\<lambda>_ _ _. True) (snd (refresh (\<lambda>_ _ _. True) staple_cache_new [9] ex_staple 20)) [9] [1] [2] 99)"
proof -
  have "refresh (\<lambda>_ _ _. True) staple_cache_new [9] ex_staple 20
      = (True, snd (refresh (\<lambda>_ _ _. True) staple_cache_new [9] ex_staple 20))"
    by (simp add: refresh_def staple_is_valid_def ex_staple_def staple_cache_new_def Let_def)
  from staple_fail_static [OF this, of "[]" 99 RequireStaple] show ?thesis
    by (simp add: ex_staple_def staple_cache_new_def staple_run_def admits_under_policy_def)
qed

text \<open>
  Revocation within one TTL: from an empty cache, under the staple policy a member is admitted at
  \<open>now\<close> only on a staple for exactly this channel and holder that was handed to the cache, carries
  the operator's signature and has not expired. So once the operator stops stapling a member, its
  last staple's expiry ends the admission.
\<close>

theorem staple_admission_sound:
  assumes "fst (admits_under_policy vrfy (staple_run vrfy staple_cache_new calls) RequireStaple
    operator channel holder now)"
  shows "\<exists>operator' s t. Refresh operator' s t \<in> set calls \<and> st_channel s = channel \<and> st_holder s = holder
    \<and> now < st_expires_at s
    \<and> vrfy operator (staple_signing_bytes channel holder (st_stapled_at s) (st_expires_at s)) (st_signature s)"
  using assms backed_run [of vrfy calls]
  by (fastforce simp: admits_under_policy_def is_member_def backed_def staple_valid_iff signed_by_def Let_def
      fed_def split: option.splits if_splits)

theorem staple_admission_sound_witness:
  "\<exists>s. Refresh [9] s 20 \<in> set [Refresh [9] ex_staple 20] \<and> 50 < st_expires_at s"
proof -
  have "fst (admits_under_policy (\<lambda>_ _ _. True) (staple_run (\<lambda>_ _ _. True) staple_cache_new
      [Refresh [9] ex_staple 20]) RequireStaple [9] [1] [2] 50)"
    by (simp add: admits_under_policy_def is_member_def staple_run_def refresh_def staple_is_valid_def
        ex_staple_def staple_cache_new_def Let_def)
  from staple_admission_sound [OF this] show ?thesis by auto
qed

end
