(* ===== verification/Market.thy ===== *)
theory Market
  imports Usage Text Collections
begin

text \<open>
  Agent cards, capacity offers, proposal acceptances, capacity bids and matches, and the per-offer
  commitment tally (\<open>src/crates/common/src/channel.rs\<close>). Signature checks are the parameter \<open>vrfy\<close>,
  SHA-256 is \<open>sha\<close>, a signing key's public key and signature are \<open>pubkey\<close> and \<open>sign\<close>.
\<close>

section \<open>Agent cards\<close>

definition AGENT_CARD_DOMAIN :: bytes where
  "AGENT_CARD_DOMAIN = ascii ''ct-agent-card-v1''"

record skill =
  sk_id :: bytes
  sk_description :: bytes
  sk_examples :: "bytes list"

record agent_card =
  ac_holder_pubkey :: bytes
  ac_role_tags :: "bytes list"
  ac_skills :: "skill list"
  ac_cells :: "bytes list"
  ac_channels :: "bytes list"
  ac_issued_at :: u64
  ac_expires_at :: u64
  ac_signature :: bytes

definition u32_len :: "'a list \<Rightarrow> u32" where
  "u32_len xs = word_of_nat (length xs)"

definition push_strings :: "bytes list \<Rightarrow> preimage \<Rightarrow> preimage" where
  "push_strings xs p = foldl (\<lambda>p s. pre_var_bytes s p) p xs"

definition push_ids :: "bytes list \<Rightarrow> preimage \<Rightarrow> preimage" where
  "push_ids xs p = foldl (\<lambda>p s. pre_fixed s p) p xs"

definition push_skill :: "preimage \<Rightarrow> skill \<Rightarrow> preimage" where
  "push_skill p s = push_strings (sk_examples s) (pre_u32 (u32_len (sk_examples s))
     (pre_var_bytes (sk_description s) (pre_var_bytes (sk_id s) p)))"

definition card_signing_bytes ::
  "bytes \<Rightarrow> bytes list \<Rightarrow> skill list \<Rightarrow> bytes list \<Rightarrow> bytes list \<Rightarrow> u64 \<Rightarrow> u64 \<Rightarrow> bytes" where
  "card_signing_bytes holder_pubkey role_tags skills cells channels issued_at expires_at =
     (let p = pre_u32 (u32_len role_tags) (pre_fixed holder_pubkey (preimage_new AGENT_CARD_DOMAIN));
          p = push_strings role_tags p;
          p = pre_u32 (u32_len skills) p;
          p = foldl push_skill p skills;
          p = push_ids cells (pre_u32 (u32_len cells) p);
          p = push_ids channels (pre_u32 (u32_len channels) p)
      in pre_finish (pre_u64 expires_at (pre_u64 issued_at p)))"

definition card_is_valid :: "verifier \<Rightarrow> agent_card \<Rightarrow> u64 \<Rightarrow> bool" where
  "card_is_valid vrfy c now =
     (if ac_expires_at c \<le> now then False
      else vrfy (ac_holder_pubkey c) (card_signing_bytes (ac_holder_pubkey c) (ac_role_tags c) (ac_skills c)
             (ac_cells c) (ac_channels c) (ac_issued_at c) (ac_expires_at c)) (ac_signature c))"

definition card_sign_new ::
  "('sk \<Rightarrow> bytes) \<Rightarrow> ('sk \<Rightarrow> bytes \<Rightarrow> bytes) \<Rightarrow> 'sk \<Rightarrow> bytes list \<Rightarrow> skill list \<Rightarrow> bytes list \<Rightarrow> bytes list
     \<Rightarrow> u64 \<Rightarrow> u64 \<Rightarrow> agent_card" where
  "card_sign_new pubkey sign key role_tags skills cells channels issued_at expires_at =
     (let holder_pubkey = pubkey key;
          signature = sign key (card_signing_bytes holder_pubkey role_tags skills cells channels issued_at expires_at)
      in \<lparr>ac_holder_pubkey = holder_pubkey, ac_role_tags = role_tags, ac_skills = skills, ac_cells = cells,
          ac_channels = channels, ac_issued_at = issued_at, ac_expires_at = expires_at, ac_signature = signature\<rparr>)"

section \<open>Capacity offers\<close>

definition CAPACITY_OFFER_DOMAIN :: bytes where
  "CAPACITY_OFFER_DOMAIN = ascii ''ct-capacity-offer-v1''"

datatype service_type = CodeGeneration | SecurityReview | SafetyCheck | TextGeneration | Custom bytes

fun service_tag :: "service_type \<Rightarrow> u8" where
  "service_tag CodeGeneration = 0"
| "service_tag SecurityReview = 1"
| "service_tag SafetyCheck = 2"
| "service_tag TextGeneration = 3"
| "service_tag (Custom _) = 4"

fun push_service :: "preimage \<Rightarrow> service_type \<Rightarrow> preimage" where
  "push_service p (Custom name) = pre_var_bytes name (pre_tag (service_tag (Custom name)) p)"
| "push_service p s = pre_tag (service_tag s) p"

record capacity_offer =
  co_holder_pubkey :: bytes
  co_kind :: capacity_kind
  co_models :: "bytes list"
  co_units_available :: u64
  co_min_price :: u64
  co_currency_id :: bytes
  co_issued_at :: u64
  co_expires_at :: u64
  co_services :: "service_type list"
  co_signature :: bytes

definition offer_signing_bytes ::
  "bytes \<Rightarrow> capacity_kind \<Rightarrow> bytes list \<Rightarrow> u64 \<Rightarrow> u64 \<Rightarrow> bytes \<Rightarrow> u64 \<Rightarrow> u64 \<Rightarrow> service_type list \<Rightarrow> bytes" where
  "offer_signing_bytes holder_pubkey kind models units_available min_price currency_id issued_at expires_at services =
     (let p = pre_u32 (u32_len models) (pre_tag (kind_tag kind) (pre_fixed holder_pubkey
            (preimage_new CAPACITY_OFFER_DOMAIN)));
          p = push_strings models p;
          p = pre_u32 (u32_len services) (pre_u64 expires_at (pre_u64 issued_at (pre_var_bytes currency_id
            (pre_u64 min_price (pre_u64 units_available p)))));
          p = foldl push_service p services
      in pre_finish p)"

definition offer_is_valid :: "verifier \<Rightarrow> capacity_offer \<Rightarrow> u64 \<Rightarrow> bool" where
  "offer_is_valid vrfy c now =
     (if co_expires_at c \<le> now then False
      else vrfy (co_holder_pubkey c) (offer_signing_bytes (co_holder_pubkey c) (co_kind c) (co_models c)
             (co_units_available c) (co_min_price c) (co_currency_id c) (co_issued_at c) (co_expires_at c)
             (co_services c)) (co_signature c))"

definition offer_sign_new_with_services ::
  "('sk \<Rightarrow> bytes) \<Rightarrow> ('sk \<Rightarrow> bytes \<Rightarrow> bytes) \<Rightarrow> 'sk \<Rightarrow> capacity_kind \<Rightarrow> bytes list \<Rightarrow> u64 \<Rightarrow> u64 \<Rightarrow> bytes
     \<Rightarrow> u64 \<Rightarrow> u64 \<Rightarrow> service_type list \<Rightarrow> capacity_offer" where
  "offer_sign_new_with_services pubkey sign key kind models units_available min_price currency_id issued_at
     expires_at services =
     (let holder_pubkey = pubkey key;
          signature = sign key (offer_signing_bytes holder_pubkey kind models units_available min_price
            currency_id issued_at expires_at services)
      in \<lparr>co_holder_pubkey = holder_pubkey, co_kind = kind, co_models = models,
          co_units_available = units_available, co_min_price = min_price, co_currency_id = currency_id,
          co_issued_at = issued_at, co_expires_at = expires_at, co_services = services, co_signature = signature\<rparr>)"

definition offer_sign_new ::
  "('sk \<Rightarrow> bytes) \<Rightarrow> ('sk \<Rightarrow> bytes \<Rightarrow> bytes) \<Rightarrow> 'sk \<Rightarrow> capacity_kind \<Rightarrow> bytes list \<Rightarrow> u64 \<Rightarrow> u64 \<Rightarrow> bytes
     \<Rightarrow> u64 \<Rightarrow> u64 \<Rightarrow> capacity_offer" where
  "offer_sign_new pubkey sign key kind models units_available min_price currency_id issued_at expires_at =
     offer_sign_new_with_services pubkey sign key kind models units_available min_price currency_id issued_at
       expires_at []"

section \<open>Proposal acceptances\<close>

definition PROPOSAL_ACCEPTANCE_DOMAIN :: bytes where
  "PROPOSAL_ACCEPTANCE_DOMAIN = ascii ''ct-proposal-acceptance-v1''"

datatype proposal_decision = DAccept | DReject | DCounter

fun decision_tag :: "proposal_decision \<Rightarrow> u8" where
  "decision_tag DAccept = 0"
| "decision_tag DReject = 1"
| "decision_tag DCounter = 2"

record signed_acceptance =
  sa_accepter :: bytes
  sa_proposer :: bytes
  sa_decision :: proposal_decision
  sa_proposal_hash :: bytes
  sa_requires_response_by :: u64
  sa_accepter_sig :: bytes

definition acceptance_signing_bytes :: "bytes \<Rightarrow> bytes \<Rightarrow> proposal_decision \<Rightarrow> bytes \<Rightarrow> u64 \<Rightarrow> bytes" where
  "acceptance_signing_bytes accepter proposer decision proposal_hash requires_response_by =
     pre_finish (pre_u64 requires_response_by (pre_fixed proposal_hash (pre_tag (decision_tag decision)
       (pre_fixed proposer (pre_fixed accepter (preimage_new PROPOSAL_ACCEPTANCE_DOMAIN))))))"

definition hash_proposal :: "digest \<Rightarrow> bytes \<Rightarrow> bytes" where
  "hash_proposal sha proposal = sha proposal"

definition acceptance_sign_new ::
  "('sk \<Rightarrow> bytes) \<Rightarrow> ('sk \<Rightarrow> bytes \<Rightarrow> bytes) \<Rightarrow> digest \<Rightarrow> 'sk \<Rightarrow> bytes \<Rightarrow> proposal_decision \<Rightarrow> bytes \<Rightarrow> u64
     \<Rightarrow> signed_acceptance" where
  "acceptance_sign_new pubkey sign sha accepter_key proposer decision proposal requires_response_by =
     (let accepter = pubkey accepter_key;
          proposal_hash = hash_proposal sha proposal;
          bytes = acceptance_signing_bytes accepter proposer decision proposal_hash requires_response_by
      in \<lparr>sa_accepter = accepter, sa_proposer = proposer, sa_decision = decision,
          sa_proposal_hash = proposal_hash, sa_requires_response_by = requires_response_by,
          sa_accepter_sig = sign accepter_key bytes\<rparr>)"

definition acceptance_is_valid :: "verifier \<Rightarrow> signed_acceptance \<Rightarrow> bool" where
  "acceptance_is_valid vrfy a =
     (let bytes = acceptance_signing_bytes (sa_accepter a) (sa_proposer a) (sa_decision a)
            (sa_proposal_hash a) (sa_requires_response_by a)
      in vrfy (sa_accepter a) bytes (sa_accepter_sig a))"

definition acceptance_verify_for :: "verifier \<Rightarrow> digest \<Rightarrow> signed_acceptance \<Rightarrow> bytes \<Rightarrow> bytes \<Rightarrow> bool" where
  "acceptance_verify_for vrfy sha a proposer proposal \<longleftrightarrow>
     acceptance_is_valid vrfy a \<and> sa_proposer a = proposer \<and> sa_proposal_hash a = hash_proposal sha proposal"

section \<open>Bids and matches\<close>

definition CAPACITY_BID_DOMAIN :: bytes where
  "CAPACITY_BID_DOMAIN = ascii ''ct-capacity-bid-v1''"

definition CAPACITY_MATCH_DOMAIN :: bytes where
  "CAPACITY_MATCH_DOMAIN = ascii ''ct-capacity-match-v1''"

record capacity_bid =
  cb_bidder :: bytes
  cb_kind :: capacity_kind
  cb_model :: bytes
  cb_units :: u64
  cb_total_price :: u64
  cb_issued_at :: u64
  cb_expires_at :: u64
  cb_terms_ack :: bytes
  cb_service :: "service_type option"
  cb_signature :: bytes

definition bid_signing_bytes ::
  "bytes \<Rightarrow> capacity_kind \<Rightarrow> bytes \<Rightarrow> u64 \<Rightarrow> u64 \<Rightarrow> u64 \<Rightarrow> u64 \<Rightarrow> bytes \<Rightarrow> service_type option \<Rightarrow> bytes" where
  "bid_signing_bytes bidder kind model units total_price issued_at expires_at terms_ack service =
     (let p = pre_fixed terms_ack (pre_u64 expires_at (pre_u64 issued_at (pre_u64 total_price (pre_u64 units
            (pre_var_bytes model (pre_tag (kind_tag kind) (pre_fixed bidder (preimage_new CAPACITY_BID_DOMAIN))))))))
      in case service of
           Some s \<Rightarrow>
             (let p = pre_tag (service_tag s) (pre_tag 1 p) in
              case s of Custom name \<Rightarrow> pre_finish (pre_var_bytes name p) | _ \<Rightarrow> pre_finish p)
         | None \<Rightarrow> pre_finish (pre_tag 0 p))"

definition bid_is_valid :: "verifier \<Rightarrow> capacity_bid \<Rightarrow> u64 \<Rightarrow> bool" where
  "bid_is_valid vrfy b now =
     (if cb_expires_at b \<le> now then False
      else vrfy (cb_bidder b) (bid_signing_bytes (cb_bidder b) (cb_kind b) (cb_model b) (cb_units b)
             (cb_total_price b) (cb_issued_at b) (cb_expires_at b) (cb_terms_ack b) (cb_service b)) (cb_signature b))"

definition bid_sign_new_full ::
  "('sk \<Rightarrow> bytes) \<Rightarrow> ('sk \<Rightarrow> bytes \<Rightarrow> bytes) \<Rightarrow> 'sk \<Rightarrow> capacity_kind \<Rightarrow> bytes \<Rightarrow> u64 \<Rightarrow> u64 \<Rightarrow> u64 \<Rightarrow> u64
     \<Rightarrow> bytes \<Rightarrow> service_type option \<Rightarrow> capacity_bid" where
  "bid_sign_new_full pubkey sign key kind model units total_price issued_at expires_at terms_ack service =
     (let bidder = pubkey key;
          signature = sign key (bid_signing_bytes bidder kind model units total_price issued_at expires_at
            terms_ack service)
      in \<lparr>cb_bidder = bidder, cb_kind = kind, cb_model = model, cb_units = units, cb_total_price = total_price,
          cb_issued_at = issued_at, cb_expires_at = expires_at, cb_terms_ack = terms_ack, cb_service = service,
          cb_signature = signature\<rparr>)"

definition bid_sign_new_with_terms ::
  "('sk \<Rightarrow> bytes) \<Rightarrow> ('sk \<Rightarrow> bytes \<Rightarrow> bytes) \<Rightarrow> 'sk \<Rightarrow> capacity_kind \<Rightarrow> bytes \<Rightarrow> u64 \<Rightarrow> u64 \<Rightarrow> u64 \<Rightarrow> u64
     \<Rightarrow> bytes \<Rightarrow> capacity_bid" where
  "bid_sign_new_with_terms pubkey sign key kind model units total_price issued_at expires_at terms_ack =
     bid_sign_new_full pubkey sign key kind model units total_price issued_at expires_at terms_ack None"

definition bid_sign_new ::
  "('sk \<Rightarrow> bytes) \<Rightarrow> ('sk \<Rightarrow> bytes \<Rightarrow> bytes) \<Rightarrow> 'sk \<Rightarrow> capacity_kind \<Rightarrow> bytes \<Rightarrow> u64 \<Rightarrow> u64 \<Rightarrow> u64 \<Rightarrow> u64 \<Rightarrow> capacity_bid" where
  "bid_sign_new pubkey sign key kind model units total_price issued_at expires_at =
     bid_sign_new_full pubkey sign key kind model units total_price issued_at expires_at (replicate 32 0) None"

record capacity_match =
  cm_provider :: bytes
  cm_consumer :: bytes
  cm_kind :: capacity_kind
  cm_model :: bytes
  cm_units :: u64
  cm_total_price :: u64
  cm_match_ref :: bytes

definition match_preimage :: "bytes \<Rightarrow> bytes \<Rightarrow> capacity_kind \<Rightarrow> bytes \<Rightarrow> u64 \<Rightarrow> u64 \<Rightarrow> u64 \<Rightarrow> u64 \<Rightarrow> bytes" where
  "match_preimage provider consumer kind model units total_price bid_issued_at offer_issued_at =
     CAPACITY_MATCH_DOMAIN @ provider @ consumer @ [kind_tag kind] @ to_le_bytes32 (word_of_nat (length model))
     @ model @ to_le_bytes64 units @ to_le_bytes64 total_price @ to_le_bytes64 bid_issued_at
     @ to_le_bytes64 offer_issued_at"

definition compute_match_ref ::
  "digest \<Rightarrow> bytes \<Rightarrow> bytes \<Rightarrow> capacity_kind \<Rightarrow> bytes \<Rightarrow> u64 \<Rightarrow> u64 \<Rightarrow> u64 \<Rightarrow> u64 \<Rightarrow> bytes" where
  "compute_match_ref sha provider consumer kind model units total_price bid_issued_at offer_issued_at =
     sha (match_preimage provider consumer kind model units total_price bid_issued_at offer_issued_at)"

definition match_offer :: "verifier \<Rightarrow> digest \<Rightarrow> capacity_offer \<Rightarrow> capacity_bid \<Rightarrow> u64 \<Rightarrow> capacity_match option" where
  "match_offer vrfy sha offer bid now =
     (if \<not> offer_is_valid vrfy offer now \<or> \<not> bid_is_valid vrfy bid now then None
      else if co_kind offer \<noteq> cb_kind bid then None
      else if \<not> list_ex (\<lambda>m. m = cb_model bid) (co_models offer) then None
      else if (case cb_service bid of None \<Rightarrow> False | Some service \<Rightarrow> service \<notin> set (co_services offer)) then None
      else if co_units_available offer < cb_units bid then None
      else if cb_total_price bid < co_min_price offer then None
      else Some \<lparr>cm_provider = co_holder_pubkey offer, cm_consumer = cb_bidder bid, cm_kind = cb_kind bid,
             cm_model = cb_model bid, cm_units = cb_units bid, cm_total_price = cb_total_price bid,
             cm_match_ref = compute_match_ref sha (co_holder_pubkey offer) (cb_bidder bid) (cb_kind bid)
               (cb_model bid) (cb_units bid) (cb_total_price bid) (cb_issued_at bid) (co_issued_at offer)\<rparr>)"

section \<open>Commitments\<close>

record offer_commitments =
  oc_committed :: "(bytes, u64) btmap"

definition commitments_new :: offer_commitments where
  "commitments_new = \<lparr>oc_committed = bt_empty\<rparr>"

definition committed :: "offer_commitments \<Rightarrow> capacity_offer \<Rightarrow> u64" where
  "committed c offer = (case bt_get (oc_committed c) (co_signature offer) of None \<Rightarrow> 0 | Some n \<Rightarrow> n)"

definition remaining :: "offer_commitments \<Rightarrow> capacity_offer \<Rightarrow> u64" where
  "remaining c offer = saturating_sub (co_units_available offer) (committed c offer)"

definition commit :: "offer_commitments \<Rightarrow> capacity_offer \<Rightarrow> u64 \<Rightarrow> bool \<times> offer_commitments" where
  "commit c offer units =
     (let already = committed c offer in
      case checked_add already units of
        Some n \<Rightarrow> if n \<le> co_units_available offer
                  then (True, c\<lparr>oc_committed := bt_insert (co_signature offer) n (oc_committed c)\<rparr>)
                  else (False, c)
      | None \<Rightarrow> (False, c))"

section \<open>Lemmas\<close>

fun run_commits :: "offer_commitments \<Rightarrow> (capacity_offer \<times> u64) list \<Rightarrow> bool list \<times> offer_commitments" where
  "run_commits c [] = ([], c)"
| "run_commits c ((offer, units) # calls) =
     (let (ok, c) = commit c offer units; (oks, c) = run_commits c calls in (ok # oks, c))"

text \<open>Units the accepted calls booked on the offer with this signature.\<close>

definition booked :: "bytes \<Rightarrow> (capacity_offer \<times> u64) list \<Rightarrow> bool list \<Rightarrow> nat" where
  "booked sig calls oks =
     sum_list (map (\<lambda>((offer, units), ok). if ok \<and> co_signature offer = sig then unat units else 0) (zip calls oks))"

definition committed_to :: "offer_commitments \<Rightarrow> bytes \<Rightarrow> nat" where
  "committed_to c sig = (case bt_get (oc_committed c) sig of None \<Rightarrow> 0 | Some n \<Rightarrow> unat n)"

lemma commit_exact:
  "fst (commit c offer units) \<longleftrightarrow> unat (committed c offer) + unat units \<le> unat (co_units_available offer)"
proof (cases "checked_add (committed c offer) units")
  case None
  then show ?thesis
    using unat_bound [of "co_units_available offer"]
    by (auto simp: commit_def checked_add_def Let_def split: if_splits)
next
  case (Some n)
  from checked_add_SomeD [OF Some] Some show ?thesis
    by (auto simp: commit_def word_le_nat_alt Let_def)
qed

lemma commit_books:
  "committed_to (snd (commit c offer units)) sig = committed_to c sig
     + (if fst (commit c offer units) \<and> co_signature offer = sig then unat units else 0)"
  by (auto simp: commit_def committed_def committed_to_def Let_def split: option.splits if_splits
      dest!: checked_add_SomeD)

lemma run_commits_books:
  "committed_to (snd (run_commits c calls)) sig
     = committed_to c sig + booked sig calls (fst (run_commits c calls))
   \<and> length (fst (run_commits c calls)) = length calls"
proof (induction calls arbitrary: c)
  case (Cons call calls)
  obtain offer units where call: "call = (offer, units)" by (cases call)
  show ?case
    using Cons [of "snd (commit c offer units)"] commit_books [of c offer units sig]
    by (auto simp: call booked_def split: prod.splits)
qed (simp add: booked_def)

lemma commit_within:
  assumes "committed_to c sig \<le> cap" "co_signature offer = sig \<Longrightarrow> unat (co_units_available offer) \<le> cap"
  shows "committed_to (snd (commit c offer units)) sig \<le> cap"
  using assms commit_books [of c offer units sig] commit_exact [of c offer units]
  by (auto simp: committed_to_def committed_def split: if_splits option.splits)

lemma run_commits_within:
  assumes "committed_to c sig \<le> cap"
    and "list_all (\<lambda>(offer, _). co_signature offer = sig \<longrightarrow> unat (co_units_available offer) \<le> cap) calls"
  shows "committed_to (snd (run_commits c calls)) sig \<le> cap"
  using assms
proof (induction calls arbitrary: c)
  case (Cons call calls)
  obtain offer units where call: "call = (offer, units)" by (cases call)
  have "committed_to (snd (commit c offer units)) sig \<le> cap"
    using Cons.prems by (intro commit_within) (auto simp: call)
  from Cons.IH [OF this] Cons.prems(2) show ?case
    by (auto simp: call split: prod.splits)
qed simp

lemma match_preimage_inject:
  assumes "match_preimage p c k m u t bi oi = match_preimage p' c' k' m' u' t' bi' oi'"
    and "length p = 32" "length c = 32" "length p' = 32" "length c' = 32"
    and "length m < 2 ^ 32" "length m' < 2 ^ 32"
  shows "p = p' \<and> c = c' \<and> k = k' \<and> m = m' \<and> u = u' \<and> t = t' \<and> bi = bi' \<and> oi = oi'"
proof -
  have k: "kind_tag k = kind_tag k'" and l: "(word_of_nat (length m) :: u32) = word_of_nat (length m')"
    and pc: "p = p'" "c = c'"
    using assms(1-5) by (simp_all add: match_preimage_def append_eq_append_conv)
  from l have "length m = length m'" using assms(6,7) by (simp only: le32_length_inject)
  with assms(1-5) have "m = m'" "u = u'" "t = t'" "bi = bi'" "oi = oi'"
    by (simp_all add: match_preimage_def append_eq_append_conv)
  moreover have "k = k'" using k by (metis kind_from_tag_tag option.inject)
  ultimately show ?thesis using pc by simp
qed

definition ex_offer :: capacity_offer where
  "ex_offer = \<lparr>co_holder_pubkey = replicate 32 2, co_kind = LocalHardware, co_models = [[109]], co_units_available = 100,
     co_min_price = 5, co_currency_id = [], co_issued_at = 1, co_expires_at = 50, co_services = [SafetyCheck],
     co_signature = [7]\<rparr>"

definition ex_bid :: capacity_bid where
  "ex_bid = \<lparr>cb_bidder = replicate 32 1, cb_kind = LocalHardware, cb_model = [109], cb_units = 60, cb_total_price = 30,
     cb_issued_at = 2, cb_expires_at = 50, cb_terms_ack = replicate 32 0, cb_service = Some SafetyCheck,
     cb_signature = [8]\<rparr>"

section \<open>Properties\<close>

text \<open>
  Clearing is sound and complete: a bid clears against an offer exactly when both carry their
  signers' valid signatures and are unexpired, the kinds agree, the offer lists the model and, if one
  is asked for, the service, has the units, and the price meets the floor. The match reference hashes
  bytes that two matches share only if provider, consumer, kind, model, units, price and both issue
  times agree; it does not cover the acknowledged terms, the service or the expiry of the bid, so two
  bids that differ only there clear to the same reference.
\<close>

theorem match_offer_exact:
  assumes "length (co_holder_pubkey offer) = 32" "length (cb_bidder bid) = 32" "length (cb_model bid) < 2 ^ 32"
    and "length p = 32" "length c = 32" "length m < 2 ^ 32"
  shows "(match_offer vrfy sha offer bid now \<noteq> None \<longleftrightarrow>
      offer_is_valid vrfy offer now \<and> bid_is_valid vrfy bid now \<and> co_kind offer = cb_kind bid
      \<and> cb_model bid \<in> set (co_models offer) \<and> set_option (cb_service bid) \<subseteq> set (co_services offer)
      \<and> cb_units bid \<le> co_units_available offer \<and> co_min_price offer \<le> cb_total_price bid)
    \<and> (match_offer vrfy sha offer bid now = Some mt \<longrightarrow>
      cm_provider mt = co_holder_pubkey offer \<and> cm_consumer mt = cb_bidder bid
      \<and> cm_total_price mt = cb_total_price bid \<and> cm_units mt = cb_units bid
      \<and> (\<exists>x. cm_match_ref mt = sha x \<and> (\<forall>k u t bi oi. x = match_preimage p c k m u t bi oi \<longrightarrow>
           p = cm_provider mt \<and> c = cm_consumer mt \<and> k = cm_kind mt \<and> m = cm_model mt \<and> u = cm_units mt
           \<and> t = cm_total_price mt \<and> bi = cb_issued_at bid \<and> oi = co_issued_at offer))
      \<and> (match_offer vrfy sha offer (bid\<lparr>cb_terms_ack := terms, cb_service := service, cb_expires_at := expiry,
           cb_signature := sig\<rparr>) now = Some mt' \<longrightarrow> mt' = mt))"
proof
  show "match_offer vrfy sha offer bid now \<noteq> None \<longleftrightarrow>
      offer_is_valid vrfy offer now \<and> bid_is_valid vrfy bid now \<and> co_kind offer = cb_kind bid
      \<and> cb_model bid \<in> set (co_models offer) \<and> set_option (cb_service bid) \<subseteq> set (co_services offer)
      \<and> cb_units bid \<le> co_units_available offer \<and> co_min_price offer \<le> cb_total_price bid"
    by (auto simp: match_offer_def list_ex_iff not_less split: option.splits)
  let ?x = "match_preimage (co_holder_pubkey offer) (cb_bidder bid) (cb_kind bid) (cb_model bid) (cb_units bid)
      (cb_total_price bid) (cb_issued_at bid) (co_issued_at offer)"
  have u: "\<forall>k u t bi oi. ?x = match_preimage p c k m u t bi oi \<longrightarrow>
      p = co_holder_pubkey offer \<and> c = cb_bidder bid \<and> k = cb_kind bid \<and> m = cb_model bid \<and> u = cb_units bid
      \<and> t = cb_total_price bid \<and> bi = cb_issued_at bid \<and> oi = co_issued_at offer"
    using match_preimage_inject [where p = "co_holder_pubkey offer" and c = "cb_bidder bid" and m = "cb_model bid"
        and p' = p and c' = c and m' = m] assms by blast
  show "match_offer vrfy sha offer bid now = Some mt \<longrightarrow>
      cm_provider mt = co_holder_pubkey offer \<and> cm_consumer mt = cb_bidder bid
      \<and> cm_total_price mt = cb_total_price bid \<and> cm_units mt = cb_units bid
      \<and> (\<exists>x. cm_match_ref mt = sha x \<and> (\<forall>k u t bi oi. x = match_preimage p c k m u t bi oi \<longrightarrow>
           p = cm_provider mt \<and> c = cm_consumer mt \<and> k = cm_kind mt \<and> m = cm_model mt \<and> u = cm_units mt
           \<and> t = cm_total_price mt \<and> bi = cb_issued_at bid \<and> oi = co_issued_at offer))
      \<and> (match_offer vrfy sha offer (bid\<lparr>cb_terms_ack := terms, cb_service := service, cb_expires_at := expiry,
           cb_signature := sig\<rparr>) now = Some mt' \<longrightarrow> mt' = mt)"
    using u by (auto simp: match_offer_def compute_match_ref_def split: if_splits)
qed

theorem match_offer_exact_witness:
  "match_offer (\<lambda>_ _ _. True) (\<lambda>x. x) ex_offer ex_bid 10 \<noteq> None"
proof -
  have "length (co_holder_pubkey ex_offer) = 32" "length (cb_bidder ex_bid) = 32" "length (cb_model ex_bid) < 2 ^ 32"
    by (simp_all add: ex_offer_def ex_bid_def)
  note match_offer_exact [OF this, of "replicate 32 0" "replicate 32 0" "[]", THEN conjunct1]
  moreover have "offer_is_valid (\<lambda>_ _ _. True) ex_offer 10" "bid_is_valid (\<lambda>_ _ _. True) ex_bid 10"
    by (simp_all add: offer_is_valid_def bid_is_valid_def ex_offer_def ex_bid_def)
  moreover have "co_kind ex_offer = cb_kind ex_bid" "cb_model ex_bid \<in> set (co_models ex_offer)"
    "set_option (cb_service ex_bid) \<subseteq> set (co_services ex_offer)"
    "cb_units ex_bid \<le> co_units_available ex_offer" "co_min_price ex_offer \<le> cb_total_price ex_bid"
    by (simp_all add: ex_offer_def ex_bid_def)
  ultimately show ?thesis by simp
qed

text \<open>
  An offer is never oversold: over any sequence of commits, the units booked on the offers with one
  signature are exactly the tally, and stay within the units that offer advertises; and a commit
  succeeds exactly when the tally plus its units fit.
\<close>

theorem commitments_never_oversell:
  assumes "run_commits commitments_new calls = (oks, c)"
    and "list_all (\<lambda>(offer, _). co_signature offer = co_signature o1 \<longrightarrow>
      co_units_available offer = co_units_available o1) calls"
  shows "booked (co_signature o1) calls oks = unat (committed c o1)
    \<and> booked (co_signature o1) calls oks \<le> unat (co_units_available o1)
    \<and> (fst (commit c o1 units) \<longleftrightarrow>
       booked (co_signature o1) calls oks + unat units \<le> unat (co_units_available o1))"
proof -
  have new: "committed_to commitments_new (co_signature o1) = 0"
    by (simp add: committed_to_def commitments_new_def)
  have b: "booked (co_signature o1) calls oks = unat (committed c o1)"
    using run_commits_books [of commitments_new calls "co_signature o1"] assms(1) new
    by (simp add: committed_to_def committed_def split: option.splits)
  have "committed_to (snd (run_commits commitments_new calls)) (co_signature o1) \<le> unat (co_units_available o1)"
    using assms(2) new by (intro run_commits_within) (auto simp: list_all_iff)
  then have "unat (committed c o1) \<le> unat (co_units_available o1)"
    by (simp add: assms(1) committed_to_def committed_def split: option.splits)
  with b show ?thesis by (simp add: commit_exact)
qed

theorem commitments_never_oversell_witness:
  "\<exists>c. run_commits commitments_new [(ex_offer, 60), (ex_offer, 60), (ex_offer, 40)] = ([True, False, True], c)
     \<and> booked (co_signature ex_offer) [(ex_offer, 60), (ex_offer, 60), (ex_offer, 40)] [True, False, True] \<le> 100"
proof -
  have r: "run_commits commitments_new [(ex_offer, 60), (ex_offer, 60), (ex_offer, 40)]
      = ([True, False, True], \<lparr>oc_committed = [([7], 100)]\<rparr>)"
    by (simp add: commit_def committed_def commitments_new_def checked_add_def ex_offer_def bt_empty_def bt_get_def)
  have "booked (co_signature ex_offer) [(ex_offer, 60), (ex_offer, 60), (ex_offer, 40)] [True, False, True]
      \<le> unat (co_units_available ex_offer)"
    using commitments_never_oversell [OF r, of ex_offer 0] by simp
  with r show ?thesis by (auto simp: ex_offer_def)
qed

end
