(* ===== verification/Invitation.thy ===== *)
theory Invitation
  imports Grant
begin

text \<open>
  Cross-user channel invitations and their redemption, and the signed messages of grant revocation,
  channel leave and grant status (\<open>src/crates/common/src/channel.rs\<close>).
\<close>

record channel_invitation =
  ci_channel :: bytes
  ci_invitee_identity :: bytes
  ci_direction :: direction
  ci_rights :: rights
  ci_delegable :: bool
  ci_expires_at :: u64

definition invitation_signing_bytes :: "channel_invitation \<Rightarrow> bytes" where
  "invitation_signing_bytes i =
     ascii ''ct-chan-invite:v1|'' @ hex_encode (ci_channel i) @ ascii ''|'' @ hex_encode (ci_invitee_identity i)
     @ ascii ''|'' @ direction_label (ci_direction i) @ ascii ''|'' @ rights_label (ci_rights i) @ ascii ''|''
     @ bool_digit (ci_delegable i) @ ascii ''|'' @ dec_digits (unat (ci_expires_at i))"

record signed_channel_invitation =
  si_invitation :: channel_invitation
  si_signature :: bytes

definition INVITATION_WIRE_LEN :: nat where
  "INVITATION_WIRE_LEN = 64 + 32 + 32 + 1 + 1 + 1 + 8"

definition invitation_encode :: "signed_channel_invitation \<Rightarrow> bytes" where
  "invitation_encode s =
     (let i = si_invitation s in
      si_signature s @ ci_channel i @ ci_invitee_identity i @ [direction_byte (ci_direction i)]
      @ [rights_byte (ci_rights i)] @ [if ci_delegable i then 1 else 0] @ to_le_bytes64 (ci_expires_at i))"

definition invitation_decode :: "bytes \<Rightarrow> grant_error + signed_channel_invitation" where
  "invitation_decode bytes = (case do {
     (signature, cur) \<leftarrow> take_n 64 bytes;
     (channel, cur) \<leftarrow> take_n 32 cur;
     (invitee_identity, cur) \<leftarrow> take_n 32 cur;
     (d, cur) \<leftarrow> take_n 1 cur;
     direction \<leftarrow> direction_from_byte (d ! 0);
     (r, cur) \<leftarrow> take_n 1 cur;
     rights \<leftarrow> rights_from_byte (r ! 0);
     (b, cur) \<leftarrow> take_n 1 cur;
     delegable \<leftarrow> (if b ! 0 = 0 then Some False else if b ! 0 = 1 then Some True else None);
     (e, cur) \<leftarrow> take_n 8 cur;
     if cur \<noteq> [] then None
     else Some \<lparr>si_invitation = \<lparr>ci_channel = channel, ci_invitee_identity = invitee_identity,
                 ci_direction = direction, ci_rights = rights, ci_delegable = delegable,
                 ci_expires_at = from_le_bytes64 e\<rparr>, si_signature = signature\<rparr>
   } of None \<Rightarrow> Err GMalformed | Some s \<Rightarrow> Ok s)"

definition verify_invitation ::
  "(bytes \<Rightarrow> bool) \<Rightarrow> verifier \<Rightarrow> bytes \<Rightarrow> signed_channel_invitation \<Rightarrow> u64 \<Rightarrow> grant_error + unit" where
  "verify_invitation key_ok vrfy operator_pubkey s now =
     (if \<not> key_ok operator_pubkey then Err GBadKey
      else if \<not> vrfy operator_pubkey (invitation_signing_bytes (si_invitation s)) (si_signature s) then Err GBadSignature
      else if ci_expires_at (si_invitation s) \<le> now then Err GExpired
      else Ok ())"

definition invitation_redeem_bytes :: "bytes \<Rightarrow> bytes \<Rightarrow> bytes \<Rightarrow> bytes" where
  "invitation_redeem_bytes channel invitee_identity holder =
     ascii ''ct-chan-invite-redeem-v1'' @ channel @ invitee_identity @ holder"

definition verify_invitation_redemption ::
  "(bytes \<Rightarrow> bool) \<Rightarrow> verifier \<Rightarrow> bytes \<Rightarrow> bytes \<Rightarrow> bytes \<Rightarrow> bytes \<Rightarrow> bool" where
  "verify_invitation_redemption key_ok vrfy channel invitee_identity holder signature \<longleftrightarrow>
     key_ok invitee_identity
     \<and> vrfy invitee_identity (invitation_redeem_bytes channel invitee_identity holder) signature"

definition invitation_redeem_challenge_bytes :: "bytes \<Rightarrow> bytes \<Rightarrow> bytes \<Rightarrow> bytes \<Rightarrow> bytes" where
  "invitation_redeem_challenge_bytes channel invitee_identity holder challenge =
     ascii ''ct-chan-invite-redeem-v2-chal'' @ channel @ invitee_identity @ holder @ challenge"

definition verify_invitation_redemption_challenge ::
  "(bytes \<Rightarrow> bool) \<Rightarrow> verifier \<Rightarrow> bytes \<Rightarrow> bytes \<Rightarrow> bytes \<Rightarrow> bytes \<Rightarrow> bytes \<Rightarrow> bool" where
  "verify_invitation_redemption_challenge key_ok vrfy channel invitee_identity holder challenge signature \<longleftrightarrow>
     key_ok invitee_identity
     \<and> vrfy invitee_identity (invitation_redeem_challenge_bytes channel invitee_identity holder challenge) signature"

definition redeem_invitation ::
  "(bytes \<Rightarrow> bool) \<Rightarrow> verifier \<Rightarrow> bytes \<Rightarrow> signed_channel_invitation \<Rightarrow> bytes \<Rightarrow> bytes \<Rightarrow> u64
     \<Rightarrow> grant_error + channel_grant" where
  "redeem_invitation key_ok vrfy operator_pubkey s redeem_signature holder now =
     (case verify_invitation key_ok vrfy operator_pubkey s now of
        Inl e \<Rightarrow> Err e
      | Inr _ \<Rightarrow>
         (let inv = si_invitation s in
          if \<not> verify_invitation_redemption key_ok vrfy (ci_channel inv) (ci_invitee_identity inv) holder redeem_signature
          then Err GBadSignature
          else Ok \<lparr>cg_channel = ci_channel inv, cg_holder = holder, cg_direction = ci_direction inv,
                   cg_rights = ci_rights inv, cg_delegable = ci_delegable inv, cg_expires_at = ci_expires_at inv\<rparr>))"

definition grant_revoke_signing_bytes :: "bytes \<Rightarrow> bytes \<Rightarrow> u64 \<Rightarrow> bytes" where
  "grant_revoke_signing_bytes channel dig expires_at =
     ascii ''ct-grant-revoke:v1|'' @ channel @ ascii ''|'' @ dig @ ascii ''|'' @ to_le_bytes64 expires_at"

definition channel_leave_signing_bytes :: "bytes \<Rightarrow> bytes \<Rightarrow> u64 \<Rightarrow> bytes" where
  "channel_leave_signing_bytes channel holder ts =
     ascii ''ct-channel-leave:v1|'' @ channel @ ascii ''|'' @ holder @ ascii ''|'' @ to_le_bytes64 ts"

definition grant_status_signing_bytes :: "bytes \<Rightarrow> bytes \<Rightarrow> bytes \<Rightarrow> u64 \<Rightarrow> bytes" where
  "grant_status_signing_bytes channel peer dig ts =
     ascii ''ct-grant-status:v1|'' @ channel @ ascii ''|'' @ peer @ ascii ''|'' @ dig @ ascii ''|'' @ to_le_bytes64 ts"

section \<open>Lemmas\<close>

definition sized_invitation :: "channel_invitation \<Rightarrow> bool" where
  "sized_invitation i \<longleftrightarrow> length (ci_channel i) = 32 \<and> length (ci_invitee_identity i) = 32"

lemma invitation_signing_bytes_inject:
  assumes "sized_invitation i" "sized_invitation j" "invitation_signing_bytes i = invitation_signing_bytes j"
  shows "i = j"
  using assms
  by (intro channel_invitation.equality)
    (simp_all add: invitation_signing_bytes_def sized_invitation_def labels_read_back append_eq_append_conv
      word_unat_eq_iff)

lemma redeem_bytes_inject:
  assumes "length c = 32" "length i = 32" "length c' = 32" "length i' = 32"
    and "invitation_redeem_bytes c i h = invitation_redeem_bytes c' i' h'"
  shows "c = c' \<and> i = i' \<and> h = h'"
  using assms by (simp add: invitation_redeem_bytes_def append_eq_append_conv)

lemma invitation_not_grant: "invitation_signing_bytes i \<noteq> grant_signing_bytes g"
  by (simp add: invitation_signing_bytes_def grant_signing_bytes_def ascii_def)

lemma invitation_decode_encode:
  assumes "sized_invitation (si_invitation s)" "length (si_signature s) = 64"
  shows "invitation_decode (invitation_encode s) = Ok s"
  using assms
  by (simp add: invitation_decode_def invitation_encode_def sized_invitation_def Let_def
      direction_from_byte_iff [THEN iffD2] rights_from_byte_iff [THEN iffD2])

definition ex_invitation :: signed_channel_invitation where
  "ex_invitation = \<lparr>si_invitation = \<lparr>ci_channel = replicate 32 1, ci_invitee_identity = replicate 32 2,
     ci_direction = Initiate, ci_rights = Read, ci_delegable = False, ci_expires_at = 100\<rparr>,
     si_signature = replicate 64 5\<rparr>"

section \<open>Properties\<close>

text \<open>
  The two-proof gate: redemption yields membership claims exactly when the operator's signature
  covers the invitation, the invitation is unexpired, and the invitee's own signature covers this
  channel, this invitee and this holder; the claims are the invitation's, bound to that holder. The
  signed bytes fix every claim, so no other invitation and no other holder is covered by the same
  two messages, and the operator's message is never that of a grant.
\<close>

theorem redeem_invitation_exact:
  assumes "sized_invitation (si_invitation s)" "sized_invitation j" "length holder = 32" "length holder' = 32"
  shows "(redeem_invitation key_ok vrfy operator s sig holder now = Ok g \<longleftrightarrow>
      key_ok operator \<and> vrfy operator (invitation_signing_bytes (si_invitation s)) (si_signature s)
      \<and> now < ci_expires_at (si_invitation s) \<and> key_ok (ci_invitee_identity (si_invitation s))
      \<and> vrfy (ci_invitee_identity (si_invitation s)) (invitation_redeem_bytes (ci_channel (si_invitation s))
          (ci_invitee_identity (si_invitation s)) holder) sig
      \<and> g = \<lparr>cg_channel = ci_channel (si_invitation s), cg_holder = holder,
             cg_direction = ci_direction (si_invitation s), cg_rights = ci_rights (si_invitation s),
             cg_delegable = ci_delegable (si_invitation s), cg_expires_at = ci_expires_at (si_invitation s)\<rparr>)
    \<and> (invitation_signing_bytes (si_invitation s) = invitation_signing_bytes j
       \<and> invitation_redeem_bytes (ci_channel (si_invitation s)) (ci_invitee_identity (si_invitation s)) holder
         = invitation_redeem_bytes (ci_channel j) (ci_invitee_identity j) holder'
       \<longrightarrow> si_invitation s = j \<and> holder = holder')
    \<and> invitation_signing_bytes (si_invitation s) \<noteq> grant_signing_bytes h"
proof (intro conjI)
  show "redeem_invitation key_ok vrfy operator s sig holder now = Ok g \<longleftrightarrow>
      key_ok operator \<and> vrfy operator (invitation_signing_bytes (si_invitation s)) (si_signature s)
      \<and> now < ci_expires_at (si_invitation s) \<and> key_ok (ci_invitee_identity (si_invitation s))
      \<and> vrfy (ci_invitee_identity (si_invitation s)) (invitation_redeem_bytes (ci_channel (si_invitation s))
          (ci_invitee_identity (si_invitation s)) holder) sig
      \<and> g = \<lparr>cg_channel = ci_channel (si_invitation s), cg_holder = holder,
             cg_direction = ci_direction (si_invitation s), cg_rights = ci_rights (si_invitation s),
             cg_delegable = ci_delegable (si_invitation s), cg_expires_at = ci_expires_at (si_invitation s)\<rparr>"
    by (auto simp: redeem_invitation_def verify_invitation_def verify_invitation_redemption_def Let_def
        split: sum.splits if_splits)
  show "invitation_signing_bytes (si_invitation s) = invitation_signing_bytes j
       \<and> invitation_redeem_bytes (ci_channel (si_invitation s)) (ci_invitee_identity (si_invitation s)) holder
         = invitation_redeem_bytes (ci_channel j) (ci_invitee_identity j) holder'
       \<longrightarrow> si_invitation s = j \<and> holder = holder'"
  proof (intro impI)
    assume eq: "invitation_signing_bytes (si_invitation s) = invitation_signing_bytes j
       \<and> invitation_redeem_bytes (ci_channel (si_invitation s)) (ci_invitee_identity (si_invitation s)) holder
         = invitation_redeem_bytes (ci_channel j) (ci_invitee_identity j) holder'"
    then have "si_invitation s = j" using invitation_signing_bytes_inject [OF assms(1,2)] by simp
    moreover have "holder = holder'"
      using assms(1,2) eq redeem_bytes_inject [of "ci_channel (si_invitation s)" "ci_invitee_identity (si_invitation s)"
          "ci_channel j" "ci_invitee_identity j" holder holder'] by (simp add: sized_invitation_def)
    ultimately show "si_invitation s = j \<and> holder = holder'" by simp
  qed
qed (rule invitation_not_grant)

theorem redeem_invitation_exact_witness:
  "\<exists>g. redeem_invitation (\<lambda>_. True) (\<lambda>_ _ _. True) [9] ex_invitation [4] (replicate 32 3) 10 = Ok g
     \<and> cg_holder g = replicate 32 3"
  using redeem_invitation_exact [of ex_invitation "si_invitation ex_invitation" "replicate 32 3" "replicate 32 3"
      "\<lambda>_. True" "\<lambda>_ _ _. True" "[9]" "[4]" 10, THEN conjunct1]
  by (auto simp: ex_invitation_def sized_invitation_def)

end
