(* ===== verification/Messages.thy ===== *)
theory Messages
  imports Escrow Election Staple Market Invitation "HOL-Library.Sublist"
begin




section \<open>Every message starts with its tag\<close>














section \<open>Tags are told apart\<close>














section \<open>Properties\<close>



end
