(* ===== verification/Join.thy ===== *)
theory Join
  imports Grant
begin

text \<open>
  The channel-plane join exchange (\<open>src/crates/common/src/channel.rs\<close>): refusal frames and their
  category tokens, and the join request. \<open>debug\<close> is whether the build keeps \<open>debug_assert!\<close>;
  \<open>None\<close> is its panic.
\<close>

definition CHANNEL_ENDPOINT_RELAY_ONLY :: bytes where
  "CHANNEL_ENDPOINT_RELAY_ONLY = ascii ''relay-only''"

definition CHANNEL_REFUSAL_SENTINEL :: bytes where
  "CHANNEL_REFUSAL_SENTINEL = ascii ''NO''"

definition CHANNEL_REFUSAL_CATEGORIES :: "bytes list" where
  "CHANNEL_REFUSAL_CATEGORIES = map ascii
     [''len-oob'', ''malformed'', ''endpoint'', ''not-member'', ''grant-verify'', ''possession'',
      ''grant-revoked'', ''grant-status'', ''pairing'']"

definition CHANNEL_REFUSAL_CATEGORY_MAX_LEN :: nat where
  "CHANNEL_REFUSAL_CATEGORY_MAX_LEN = 24"

definition is_channel_refusal_token_shape :: "bytes \<Rightarrow> bool" where
  "is_channel_refusal_token_shape token \<longleftrightarrow>
     token \<noteq> [] \<and> length token \<le> CHANNEL_REFUSAL_CATEGORY_MAX_LEN
     \<and> list_all (\<lambda>b. (0x61 \<le> b \<and> b \<le> 0x7A) \<or> (0x30 \<le> b \<and> b \<le> 0x39) \<or> b = 0x2D) token"

definition encode_channel_refusal :: "bool \<Rightarrow> bytes \<Rightarrow> bytes option" where
  "encode_channel_refusal debug category =
     (if debug \<and> category \<notin> set CHANNEL_REFUSAL_CATEGORIES then None
      else Some (CHANNEL_REFUSAL_SENTINEL
        @ (if is_channel_refusal_token_shape category
           then [word_of_nat (length category)] @ category else [])))"

fun decode_channel_refusal_category :: "bytes \<Rightarrow> bytes option" where
  "decode_channel_refusal_category [] = None"
| "decode_channel_refusal_category (len # tail) =
     (if length tail < unat len then None
      else let token = take (unat len) tail in
        if \<not> is_channel_refusal_token_shape token then None else from_utf8 token)"

section \<open>Join requests\<close>

record channel_join_request =
  jr_grant :: signed_channel_grant
  jr_endpoint :: bytes

definition is_relay_only :: "channel_join_request \<Rightarrow> bool" where
  "is_relay_only r \<longleftrightarrow> jr_endpoint r = CHANNEL_ENDPOINT_RELAY_ONLY"

definition join_encode :: "channel_join_request \<Rightarrow> bytes" where
  "join_encode r = grant_encode (jr_grant r) @ jr_endpoint r"

definition join_decode :: "bytes \<Rightarrow> grant_error + channel_join_request" where
  "join_decode bytes =
     (if length bytes \<le> GRANT_WIRE_LEN then Err GMalformed
      else case grant_decode (take GRANT_WIRE_LEN bytes) of Inl e \<Rightarrow> Err e | Inr grant \<Rightarrow>
      case from_utf8 (drop GRANT_WIRE_LEN bytes) of None \<Rightarrow> Err GMalformed | Some endpoint \<Rightarrow>
      if endpoint = [] then Err GMalformed
      else Ok \<lparr>jr_grant = grant, jr_endpoint = endpoint\<rparr>)"

section \<open>Lemmas\<close>

lemma utf8_valid_ascii: "list_all (\<lambda>b. b \<le> 0x7F) bs \<Longrightarrow> utf8_valid bs"
  by (induction bs) auto

lemma token_utf8:
  assumes "is_channel_refusal_token_shape token"
  shows "utf8_valid token"
proof (rule utf8_valid_ascii)
  have "b \<le> 0x7F" if "(0x61 \<le> b \<and> b \<le> 0x7A) \<or> (0x30 \<le> b \<and> b \<le> 0x39) \<or> b = 0x2D" for b :: u8
    using that by (auto simp: word_le_nat_alt)
  with assms show "list_all (\<lambda>b. b \<le> 0x7F) token"
    by (auto simp: is_channel_refusal_token_shape_def list_all_iff)
qed

lemma categories_shaped: "list_all is_channel_refusal_token_shape CHANNEL_REFUSAL_CATEGORIES"
  by (simp add: CHANNEL_REFUSAL_CATEGORIES_def is_channel_refusal_token_shape_def ascii_def
      CHANNEL_REFUSAL_CATEGORY_MAX_LEN_def)

lemma decode_refusal_token:
  assumes "is_channel_refusal_token_shape token"
  shows "decode_channel_refusal_category (word_of_nat (length token) # token @ rest) = Some token"
proof -
  have "length token mod 256 = length token"
    using assms by (simp add: is_channel_refusal_token_shape_def CHANNEL_REFUSAL_CATEGORY_MAX_LEN_def)
  with assms show ?thesis by (simp add: token_utf8 from_utf8_def unat_of_nat)
qed

section \<open>Properties\<close>

text \<open>
  Refusal frames: every category of the closed vocabulary is framed, without a panic in any
  build, as \<open>NO\<close> followed by a token that the reader gets back whatever bytes follow; the frame is
  shorter than 32 bytes, so it is never taken for the 32-byte possession challenge; and whatever the
  bytes, a decoded category is wire-shaped and was sent as such.
\<close>

theorem refusal_frame_roundtrip:
  "(category \<in> set CHANNEL_REFUSAL_CATEGORIES \<longrightarrow>
      (\<exists>frame. encode_channel_refusal debug category = Some (CHANNEL_REFUSAL_SENTINEL @ frame)
         \<and> length (CHANNEL_REFUSAL_SENTINEL @ frame) < 32
         \<and> decode_channel_refusal_category (frame @ rest) = Some category))
   \<and> (decode_channel_refusal_category bs = Some token \<longrightarrow>
      is_channel_refusal_token_shape token
      \<and> (\<exists>tail. bs = word_of_nat (length token) # token @ tail))"
proof (intro conjI impI)
  assume cat: "category \<in> set CHANNEL_REFUSAL_CATEGORIES"
  then have shape: "is_channel_refusal_token_shape category"
    using categories_shaped by (simp add: list_all_iff)
  let ?frame = "word_of_nat (length category) # category"
  have "length (CHANNEL_REFUSAL_SENTINEL @ ?frame) < 32"
    using shape by (simp add: is_channel_refusal_token_shape_def CHANNEL_REFUSAL_CATEGORY_MAX_LEN_def
        CHANNEL_REFUSAL_SENTINEL_def ascii_def)
  then show "\<exists>frame. encode_channel_refusal debug category = Some (CHANNEL_REFUSAL_SENTINEL @ frame)
         \<and> length (CHANNEL_REFUSAL_SENTINEL @ frame) < 32
         \<and> decode_channel_refusal_category (frame @ rest) = Some category"
    using cat shape decode_refusal_token [OF shape, of rest]
    by (intro exI [of _ ?frame]) (simp add: encode_channel_refusal_def)
next
  assume d: "decode_channel_refusal_category bs = Some token"
  then obtain len tail where bs: "bs = len # tail" "unat len \<le> length tail" "token = take (unat len) tail"
    by (cases bs) (auto simp: Let_def split: if_splits)
  show "is_channel_refusal_token_shape token"
    using d by (cases bs) (auto simp: Let_def split: if_splits)
  show "\<exists>tail. bs = word_of_nat (length token) # token @ tail"
    using bs by (intro exI [of _ "drop (unat len) tail"]) (simp add: min_absorb2)
qed

theorem refusal_frame_roundtrip_witness:
  "\<exists>frame. encode_channel_refusal True (ascii ''pairing'') = Some (CHANNEL_REFUSAL_SENTINEL @ frame)
     \<and> decode_channel_refusal_category (frame @ [1, 2]) = Some (ascii ''pairing'')"
proof -
  have "ascii ''pairing'' \<in> set CHANNEL_REFUSAL_CATEGORIES" by (simp add: CHANNEL_REFUSAL_CATEGORIES_def)
  then show ?thesis
    using refusal_frame_roundtrip [of "ascii ''pairing''" True "[1, 2]" "[]" "[]"] by blast
qed

text \<open>
  The join request is exact on the wire: it decodes exactly from the encoding of a sized grant
  followed by a nonempty UTF-8 endpoint, and every other byte string is \<open>Malformed\<close>.
\<close>

theorem join_wire_exact:
  "(join_decode b = Ok r \<longleftrightarrow> join_encode r = b \<and> sized_grant (sg_grant (jr_grant r))
      \<and> length (sg_signature (jr_grant r)) = 64 \<and> utf8_valid (jr_endpoint r) \<and> jr_endpoint r \<noteq> [])
   \<and> join_decode b \<in> insert (Err GMalformed) (range Inr)"
proof -
  have "join_decode b = Ok r" if "join_encode r = b" "sized_grant (sg_grant (jr_grant r))"
    "length (sg_signature (jr_grant r)) = 64" "utf8_valid (jr_endpoint r)" "jr_endpoint r \<noteq> []"
    using that grant_encode_length [OF that(2,3)] grant_decode_encode [OF that(2,3)]
    by (auto simp: join_decode_def join_encode_def from_utf8_def)
  moreover have "join_encode r = b \<and> sized_grant (sg_grant (jr_grant r))
      \<and> length (sg_signature (jr_grant r)) = 64 \<and> utf8_valid (jr_endpoint r) \<and> jr_endpoint r \<noteq> []"
    if "join_decode b = Ok r"
  proof -
    from that have "grant_decode (take GRANT_WIRE_LEN b) = Ok (jr_grant r)"
      "jr_endpoint r = drop GRANT_WIRE_LEN b" "utf8_valid (jr_endpoint r)" "jr_endpoint r \<noteq> []"
      by (auto simp: join_decode_def from_utf8_def split: if_splits sum.splits)
    with grant_encode_decode [OF this(1)] show ?thesis by (simp add: join_encode_def)
  qed
  moreover have "join_decode b \<in> insert (Err GMalformed) (range Inr)"
    by (auto simp: join_decode_def grant_decode_def split: option.splits sum.splits if_splits)
  ultimately show ?thesis by blast
qed

end
