(* ===== verification/Reach.thy ===== *)
theory Reach
  imports Text Collections
begin

text \<open>
  Reachability (\<open>src/crates/common/src/channel.rs\<close>): the address classification behind the edge's
  SSRF filter, the same-subnet gate of the LAN path, the reachability class of a member, and the
  superpeer election. The predicates of \<open>std::net\<close> that the code calls are written out. Parsing a
  socket address from text is the parameter \<open>parse_addr\<close>; the results hold for every such parser.
\<close>

datatype ip_addr = V4 u8 u8 u8 u8 | V6 u16 u16 u16 u16 u16 u16 u16 u16

record socket_addr =
  sa_ip :: ip_addr
  sa_port :: u16
  sa_flowinfo :: u32
  sa_scope_id :: u32

fun v4_is_private :: "u8 \<Rightarrow> u8 \<Rightarrow> bool" where
  "v4_is_private a b \<longleftrightarrow> a = 10 \<or> (a = 172 \<and> 16 \<le> b \<and> b \<le> 31) \<or> (a = 192 \<and> b = 168)"

fun is_loopback :: "ip_addr \<Rightarrow> bool" where
  "is_loopback (V4 a b c d) \<longleftrightarrow> a = 127"
| "is_loopback (V6 a b c d e f g h) \<longleftrightarrow>
     a = 0 \<and> b = 0 \<and> c = 0 \<and> d = 0 \<and> e = 0 \<and> f = 0 \<and> g = 0 \<and> h = 1"

fun is_unspecified :: "ip_addr \<Rightarrow> bool" where
  "is_unspecified (V4 a b c d) \<longleftrightarrow> a = 0 \<and> b = 0 \<and> c = 0 \<and> d = 0"
| "is_unspecified (V6 a b c d e f g h) \<longleftrightarrow>
     a = 0 \<and> b = 0 \<and> c = 0 \<and> d = 0 \<and> e = 0 \<and> f = 0 \<and> g = 0 \<and> h = 0"

fun is_multicast :: "ip_addr \<Rightarrow> bool" where
  "is_multicast (V4 a b c d) \<longleftrightarrow> 224 \<le> a \<and> a \<le> 239"
| "is_multicast (V6 a b c d e f g h) \<longleftrightarrow> a AND 0xff00 = 0xff00"

definition is_global_unicast_v4 :: "u8 \<Rightarrow> u8 \<Rightarrow> u8 \<Rightarrow> u8 \<Rightarrow> bool" where
  "is_global_unicast_v4 a b c d =
     (if is_loopback (V4 a b c d) \<or> is_unspecified (V4 a b c d) \<or> is_multicast (V4 a b c d) then False
      else if v4_is_private a b \<or> (a = 169 \<and> b = 254) then False
      else if a = 100 \<and> 64 \<le> b \<and> b \<le> 127 then False
      else True)"

text \<open>\<open>to_ipv4_mapped().or_else(to_ipv4)\<close>: the four octets of \<open>::ffff:a.b.c.d\<close> or \<open>::a.b.c.d\<close>.\<close>

fun embedded_v4 :: "ip_addr \<Rightarrow> (u8 \<times> u8 \<times> u8 \<times> u8) option" where
  "embedded_v4 (V6 a b c d e f g h) =
     (if a = 0 \<and> b = 0 \<and> c = 0 \<and> d = 0 \<and> e = 0 \<and> (f = 0xffff \<or> f = 0)
      then Some (ucast (drop_bit 8 g), ucast g, ucast (drop_bit 8 h), ucast h) else None)"
| "embedded_v4 (V4 a b c d) = None"

definition is_global_unicast :: "socket_addr \<Rightarrow> bool" where
  "is_global_unicast addr =
     (let ip = sa_ip addr in
      if is_loopback ip \<or> is_unspecified ip \<or> is_multicast ip then False
      else case ip of
        V4 a b c d \<Rightarrow> is_global_unicast_v4 a b c d
      | V6 s0 _ _ _ _ _ _ _ \<Rightarrow>
          (case embedded_v4 ip of
             Some (a, b, c, d) \<Rightarrow> is_global_unicast_v4 a b c d
           | None \<Rightarrow> if s0 AND 0xfe00 = 0xfc00 then False
                     else if s0 AND 0xffc0 = 0xfe80 then False else True))"

fun same_local_subnet :: "ip_addr \<Rightarrow> ip_addr \<Rightarrow> bool" where
  "same_local_subnet (V4 a b c d) (V4 a' b' c' d') =
     (if \<not> (v4_is_private a' b' \<or> (a' = 169 \<and> b' = 254)) then False
      else a = a' \<and> b = b' \<and> c = c')"
| "same_local_subnet (V6 a b c d e f g h) (V6 a' b' c' d' e' f' g' h') =
     (if \<not> (a' AND 0xfe00 = 0xfc00 \<or> a' AND 0xffc0 = 0xfe80) then False
      else a = a' \<and> b = b' \<and> c = c' \<and> d = d')"
| "same_local_subnet _ _ = False"

section \<open>Reachability and superpeers\<close>

datatype reachability = Public | Nat socket_addr | RelayOnly

definition reachability_class :: "(bytes \<Rightarrow> socket_addr option) \<Rightarrow> bytes \<Rightarrow> socket_addr \<Rightarrow> reachability" where
  "reachability_class parse_addr advertised reflexive =
     (if \<not> is_global_unicast reflexive then RelayOnly
      else if (case parse_addr advertised of None \<Rightarrow> None
               | Some a \<Rightarrow> if is_global_unicast a then Some a else None) = Some reflexive then Public
      else Nat reflexive)"

definition should_attempt_direct_upgrade :: "reachability \<Rightarrow> reachability \<Rightarrow> bool" where
  "should_attempt_direct_upgrade own peer = (let punchable = (\<lambda>r. r \<noteq> RelayOnly) in punchable own \<and> punchable peer)"

record member_reachability =
  mr_holder :: bytes
  mr_reachability :: reachability

text \<open>\<open>dedup\<close> drops consecutive repeats.\<close>

fun dedup :: "'a list \<Rightarrow> 'a list" where
  "dedup (x # y # xs) = (if x = y then dedup (y # xs) else x # dedup (y # xs))"
| "dedup xs = xs"

definition elect_superpeers :: "member_reachability list \<Rightarrow> bytes list \<Rightarrow> nat \<Rightarrow> bytes list" where
  "elect_superpeers members veto count =
     (let eligible = filter (\<lambda>h. h \<notin> set veto)
            (map mr_holder (filter (\<lambda>m. mr_reachability m = Public) members))
      in take count (dedup (sort eligible)))"

section \<open>Address blocks\<close>

text \<open>A CIDR block over 32-bit addresses, as a number and a prefix length.\<close>

definition v4_num :: "u8 \<Rightarrow> u8 \<Rightarrow> u8 \<Rightarrow> u8 \<Rightarrow> nat" where
  "v4_num a b c d = unat a * 2 ^ 24 + unat b * 2 ^ 16 + unat c * 2 ^ 8 + unat d"

definition in_block :: "nat \<Rightarrow> nat \<times> nat \<Rightarrow> bool" where
  "in_block n blk = (case blk of (base, len) \<Rightarrow> n div 2 ^ (32 - len) = base div 2 ^ (32 - len))"

definition refused_blocks :: "(nat \<times> nat) list" where
  "refused_blocks =
     [(v4_num 127 0 0 0, 8), (v4_num 0 0 0 0, 32), (v4_num 224 0 0 0, 4), (v4_num 10 0 0 0, 8),
      (v4_num 172 16 0 0, 12), (v4_num 192 168 0 0, 16), (v4_num 169 254 0 0, 16), (v4_num 100 64 0 0, 10)]"

lemma unat8: "unat (a :: u8) < 256"
  using unat_bound [of a] by simp

lemma eq_unat8: "a = b \<longleftrightarrow> unat a = unat (b :: u8)"
  by (simp add: word_unat_eq_iff)

lemma div_unique_split: "r < m \<Longrightarrow> (q * m + r) div m = (q :: nat)"
  by simp

lemma v4_num_div:
  "v4_num a b c d div 2 ^ 24 = unat a"
  "v4_num a b c d div 2 ^ 16 = unat a * 256 + unat b"
  "v4_num a b c d div 2 ^ 28 = unat a div 16"
  "v4_num a b c d div 2 ^ 20 = unat a * 16 + unat b div 16"
  "v4_num a b c d div 2 ^ 22 = unat a * 4 + unat b div 64"
proof -
  note bounds = unat8 [of a] unat8 [of b] unat8 [of c] unat8 [of d]
  show 24: "v4_num a b c d div 2 ^ 24 = unat a"
    using div_unique_split [of "unat b * 2 ^ 16 + unat c * 2 ^ 8 + unat d" "2 ^ 24" "unat a"] bounds
    by (simp add: v4_num_def algebra_simps)
  show 16: "v4_num a b c d div 2 ^ 16 = unat a * 256 + unat b"
    using div_unique_split [of "unat c * 2 ^ 8 + unat d" "2 ^ 16" "unat a * 256 + unat b"] bounds
    by (simp add: v4_num_def algebra_simps)
  have "v4_num a b c d div 2 ^ 28 = v4_num a b c d div 2 ^ 24 div 16"
    "v4_num a b c d div 2 ^ 20 = v4_num a b c d div 2 ^ 16 div 16"
    "v4_num a b c d div 2 ^ 22 = v4_num a b c d div 2 ^ 16 div 64"
    by (simp_all add: div_mult2_eq [symmetric])
  then show "v4_num a b c d div 2 ^ 28 = unat a div 16"
    "v4_num a b c d div 2 ^ 20 = unat a * 16 + unat b div 16"
    "v4_num a b c d div 2 ^ 22 = unat a * 4 + unat b div 64"
    unfolding 24 16 by simp_all
qed

lemma two_digits:
  assumes "q < m" "r < (m :: nat)"
  shows "a * m + q = b * m + r \<longleftrightarrow> a = b \<and> q = r"
proof
  assume eq: "a * m + q = b * m + r"
  then have "(a * m + q) div m = (b * m + r) div m" by simp
  with assms have "a = b" by simp
  with eq show "a = b \<and> q = r" by simp
qed simp

lemma in_refused_blocks:
  "in_block (v4_num a b c d) (v4_num 127 0 0 0, 8) \<longleftrightarrow> a = 127"
  "in_block (v4_num a b c d) (v4_num 0 0 0 0, 32) \<longleftrightarrow> a = 0 \<and> b = 0 \<and> c = 0 \<and> d = 0"
  "in_block (v4_num a b c d) (v4_num 224 0 0 0, 4) \<longleftrightarrow> 224 \<le> a \<and> a \<le> 239"
  "in_block (v4_num a b c d) (v4_num 10 0 0 0, 8) \<longleftrightarrow> a = 10"
  "in_block (v4_num a b c d) (v4_num 172 16 0 0, 12) \<longleftrightarrow> a = 172 \<and> 16 \<le> b \<and> b \<le> 31"
  "in_block (v4_num a b c d) (v4_num 192 168 0 0, 16) \<longleftrightarrow> a = 192 \<and> b = 168"
  "in_block (v4_num a b c d) (v4_num 169 254 0 0, 16) \<longleftrightarrow> a = 169 \<and> b = 254"
  "in_block (v4_num a b c d) (v4_num 100 64 0 0, 10) \<longleftrightarrow> a = 100 \<and> 64 \<le> b \<and> b \<le> 127"
proof -
  note b = unat8 [of a] unat8 [of b]
  have p: "(32 :: nat) - 8 = 24" "(32 :: nat) - 4 = 28" "(32 :: nat) - 12 = 20" "(32 :: nat) - 16 = 16"
    "(32 :: nat) - 10 = 22" by simp_all
  note d = in_block_def prod.case p v4_num_div eq_unat8 word_le_nat_alt
  show "in_block (v4_num a b c d) (v4_num 127 0 0 0, 8) \<longleftrightarrow> a = 127"
    "in_block (v4_num a b c d) (v4_num 10 0 0 0, 8) \<longleftrightarrow> a = 10"
    unfolding d by simp_all
  show "in_block (v4_num a b c d) (v4_num 0 0 0 0, 32) \<longleftrightarrow> a = 0 \<and> b = 0 \<and> c = 0 \<and> d = 0"
    unfolding in_block_def by (auto simp: v4_num_def eq_unat8)
  show "in_block (v4_num a b c d) (v4_num 224 0 0 0, 4) \<longleftrightarrow> 224 \<le> a \<and> a \<le> 239"
    unfolding d by simp arith
  have q: "unat b div 16 < 16" "unat b div 64 < 4" using b by linarith+
  show "in_block (v4_num a b c d) (v4_num 172 16 0 0, 12) \<longleftrightarrow> a = 172 \<and> 16 \<le> b \<and> b \<le> 31"
    unfolding d by (subst two_digits) (use q in simp_all, linarith)
  show "in_block (v4_num a b c d) (v4_num 192 168 0 0, 16) \<longleftrightarrow> a = 192 \<and> b = 168"
    "in_block (v4_num a b c d) (v4_num 169 254 0 0, 16) \<longleftrightarrow> a = 169 \<and> b = 254"
    unfolding d by (subst two_digits; use b in simp)+
  show "in_block (v4_num a b c d) (v4_num 100 64 0 0, 10) \<longleftrightarrow> a = 100 \<and> 64 \<le> b \<and> b \<le> 127"
    unfolding d by (subst two_digits) (use q in simp_all, linarith)
qed

lemma global_unicast_v4_blocks:
  "is_global_unicast_v4 a b c d \<longleftrightarrow> \<not> list_ex (in_block (v4_num a b c d)) refused_blocks"
  by (auto simp: refused_blocks_def in_refused_blocks is_global_unicast_v4_def)

text \<open>Blocks of IPv6 addresses given by a prefix of the first segment.\<close>

definition in_block16 :: "u16 \<Rightarrow> nat \<times> nat \<Rightarrow> bool" where
  "in_block16 s blk = (case blk of (base, len) \<Rightarrow> unat s div 2 ^ (16 - len) = base div 2 ^ (16 - len))"

definition refused_v6_blocks :: "(nat \<times> nat) list" where
  "refused_v6_blocks = [(0xff00, 8), (0xfc00, 7), (0xfe80, 10)]"

lemma mask_prefix:
  fixes s k :: "'a::len word"
  assumes "drop_bit n (push_bit n k) = k"
  shows "s AND NOT (mask n) = push_bit n k \<longleftrightarrow> drop_bit n s = k"
proof
  assume "s AND NOT (mask n) = push_bit n k"
  then have "drop_bit n (s AND NOT (mask n)) = k" using assms by simp
  moreover have "drop_bit n (s AND NOT (mask n)) = drop_bit n s"
    by (rule bit_word_eqI) (auto simp: bit_simps dest: bit_imp_le_length)
  ultimately show "drop_bit n s = k" by simp
next
  assume "drop_bit n s = k"
  then show "s AND NOT (mask n) = push_bit n k"
    by (auto intro!: bit_word_eqI simp: bit_simps)
qed

lemma refused_v6_masks:
  "(s :: u16) AND 0xff00 = 0xff00 \<longleftrightarrow> in_block16 s (0xff00, 8)"
  "s AND 0xfe00 = 0xfc00 \<longleftrightarrow> in_block16 s (0xfc00, 7)"
  "s AND 0xffc0 = 0xfe80 \<longleftrightarrow> in_block16 s (0xfe80, 10)"
proof -
  have d: "drop_bit n s = k \<longleftrightarrow> unat s div 2 ^ n = unat k" for n k
    by (simp add: word_unat_eq_iff unat_drop_bit_eq drop_bit_eq_div [of n "unat s"])
  have m: "NOT (mask 8) = (0xff00 :: u16)" "NOT (mask 9) = (0xfe00 :: u16)" "NOT (mask 6) = (0xffc0 :: u16)"
    by (simp_all add: mask_eq_exp_minus_1)
  show "s AND 0xff00 = 0xff00 \<longleftrightarrow> in_block16 s (0xff00, 8)"
    using mask_prefix [where n = 8 and k = "0xff :: u16" and s = s, unfolded m] d [where n = 8 and k = "0xff"]
    by (simp add: in_block16_def)
  show "s AND 0xfe00 = 0xfc00 \<longleftrightarrow> in_block16 s (0xfc00, 7)"
    using mask_prefix [where n = 9 and k = "0x7e :: u16" and s = s, unfolded m] d [where n = 9 and k = "0x7e"]
    by (simp add: in_block16_def)
  show "s AND 0xffc0 = 0xfe80 \<longleftrightarrow> in_block16 s (0xfe80, 10)"
    using mask_prefix [where n = 6 and k = "0x3fa :: u16" and s = s, unfolded m] d [where n = 6 and k = "0x3fa"]
    by (simp add: in_block16_def)
qed

lemma embedded_not_multicast: "embedded_v4 ip = Some q \<Longrightarrow> \<not> is_multicast ip"
  by (cases ip) (auto split: if_splits)

lemma embedded_first_zero: "embedded_v4 (V6 s0 b c d e f g h) = Some q \<Longrightarrow> s0 = 0"
  by (auto split: if_splits)

lemma dedup_sorted:
  "sorted xs \<Longrightarrow> set (dedup xs) = set xs \<and> sorted_wrt (<) (dedup xs)"
  by (induction xs rule: dedup.induct) auto

lemma elect_superpeers_list:
  "elect_superpeers members veto count = take count (sorted_list_of_set
     {mr_holder m | m. m \<in> set members \<and> mr_reachability m = Public \<and> mr_holder m \<notin> set veto})"
proof -
  let ?xs = "filter (\<lambda>h. h \<notin> set veto) (map mr_holder (filter (\<lambda>m. mr_reachability m = Public) members))"
  have "dedup (sort ?xs) = sorted_list_of_set (set ?xs)"
    using dedup_sorted [of "sort ?xs"] by (intro strict_sorted_equal) auto
  also have "set ?xs = {mr_holder m | m. m \<in> set members \<and> mr_reachability m = Public \<and> mr_holder m \<notin> set veto}"
    by auto
  finally show ?thesis by (simp add: elect_superpeers_def Let_def)
qed

section \<open>Properties\<close>

text \<open>
  The endpoint filter is exactly its table of address blocks. An IPv4 address, native or
  embedded in an IPv6 address as \<open>::ffff:a.b.c.d\<close> or \<open>::a.b.c.d\<close>, passes iff it lies in none of
  127/8, 0.0.0.0/32, 224/4, 10/8, 172.16/12, 192.168/16, 169.254/16, 100.64/10 (and the IPv6 form is
  not \<open>::1\<close>); any other IPv6 address passes iff it lies in none of ff00::/8, fc00::/7, fe80::/10. The
  table has no entry for 255.255.255.255 or 240/4, which pass.
\<close>

theorem global_unicast_exact:
  "is_global_unicast addr \<longleftrightarrow>
     (case sa_ip addr of
        V4 a b c d \<Rightarrow> \<not> list_ex (in_block (v4_num a b c d)) refused_blocks
      | V6 s0 _ _ _ _ _ _ _ \<Rightarrow>
          (case embedded_v4 (sa_ip addr) of
             Some (a, b, c, d) \<Rightarrow> \<not> is_loopback (sa_ip addr) \<and> \<not> is_unspecified (sa_ip addr)
               \<and> \<not> list_ex (in_block (v4_num a b c d)) refused_blocks
           | None \<Rightarrow> \<not> list_ex (in_block16 s0) refused_v6_blocks))"
proof (cases "sa_ip addr")
  case (V4 a b c d)
  then show ?thesis
    by (auto simp: is_global_unicast_def Let_def is_global_unicast_v4_def simp flip: global_unicast_v4_blocks)
next
  case (V6 s0 b c d e f g h)
  show ?thesis
  proof (cases "embedded_v4 (sa_ip addr)")
    case None
    then have "\<not> is_loopback (sa_ip addr)" "\<not> is_unspecified (sa_ip addr)"
      by (auto simp: V6 split: if_splits)
    with None show ?thesis
      by (auto simp: is_global_unicast_def Let_def V6 refused_v6_blocks_def refused_v6_masks
          simp del: embedded_v4.simps is_loopback.simps is_unspecified.simps)
  next
    case (Some q)
    from embedded_not_multicast [OF this] Some show ?thesis
      by (cases q) (auto simp: is_global_unicast_def Let_def V6 global_unicast_v4_blocks
          simp del: embedded_v4.simps is_loopback.simps is_unspecified.simps is_multicast.simps)
  qed
qed

text \<open>
  The two direct paths never overlap and the NAT verdict is sound: an address the LAN gate lets
  through is never one the public filter lets through; a direct upgrade is attempted iff both
  reflexive addresses are global unicast, and a member classed public advertised exactly its
  global-unicast reflexive address, whatever the address parser.
\<close>

theorem direct_paths_sound:
  "(same_local_subnet local (sa_ip candidate) \<longrightarrow> \<not> is_global_unicast candidate)
   \<and> (should_attempt_direct_upgrade (reachability_class parse_addr own own_reflexive)
        (reachability_class parse_addr peer peer_reflexive) \<longleftrightarrow>
      is_global_unicast own_reflexive \<and> is_global_unicast peer_reflexive)
   \<and> (reachability_class parse_addr own own_reflexive = Public \<longleftrightarrow>
      is_global_unicast own_reflexive \<and> parse_addr own = Some own_reflexive)"
proof (intro conjI impI)
  assume s: "same_local_subnet local (sa_ip candidate)"
  show "\<not> is_global_unicast candidate"
  proof (cases "sa_ip candidate")
    case (V4 a b c d)
    with s show ?thesis
      by (cases local) (auto simp: is_global_unicast_def Let_def is_global_unicast_v4_def split: if_splits)
  next
    case (V6 s0 b c d e f g h)
    with s have m: "s0 AND 0xfe00 = 0xfc00 \<or> s0 AND 0xffc0 = 0xfe80"
      by (cases local) (auto split: if_splits)
    then have "embedded_v4 (sa_ip candidate) = None"
      by (auto simp: V6)
    with m show ?thesis
      by (auto simp: is_global_unicast_def Let_def V6 simp del: embedded_v4.simps)
  qed
qed (auto simp: should_attempt_direct_upgrade_def reachability_class_def Let_def split: option.splits if_splits)

theorem direct_paths_sound_witness:
  "same_local_subnet (V4 192 168 1 2) (V4 192 168 1 7)
   \<and> \<not> is_global_unicast \<lparr>sa_ip = V4 192 168 1 7, sa_port = 80, sa_flowinfo = 0, sa_scope_id = 0\<rparr>"
  using direct_paths_sound [of "V4 192 168 1 2"
      "\<lparr>sa_ip = V4 192 168 1 7, sa_port = 80, sa_flowinfo = 0, sa_scope_id = 0\<rparr>"] by simp

text \<open>
  C37. Superpeer election is coordinator-free: the result is the \<open>count\<close> smallest distinct holder keys
  among the public, unvetoed members, so it depends only on the set of members and of vetoes, and
  every node with the same view elects the same superpeers in the same order.
\<close>

theorem elect_superpeers_exact:
  "elect_superpeers members veto count = take count (sorted_list_of_set
     {mr_holder m | m. m \<in> set members \<and> mr_reachability m = Public \<and> mr_holder m \<notin> set veto})"
  by (rule elect_superpeers_list)

end
