(* ===== verification/AccessWindow.thy ===== *)
theory AccessWindow
  imports Text
begin

text \<open>
  Access windows (\<open>src/crates/common/src/access_window.rs\<close>): weekly slots at a fixed UTC offset, an
  optional expiry, and the next instant at which the answer changes. Times are \<open>i64\<close> Unix seconds,
  modelled as \<open>int\<close>; \<open>saturating_add\<close> is written out, and the other sums stay inside \<open>i64\<close> for the
  times of the properties. \<open>div_euclid\<close> and \<open>rem_euclid\<close> by a positive number are \<open>div\<close> and \<open>mod\<close>.
\<close>

definition MINUTES_PER_DAY :: u16 where
  "MINUTES_PER_DAY = 1440"

definition MIN_TZ_OFFSET_MINUTES :: int where
  "MIN_TZ_OFFSET_MINUTES = -12 * 60"

definition MAX_TZ_OFFSET_MINUTES :: int where
  "MAX_TZ_OFFSET_MINUTES = 14 * 60"

definition SECS_PER_MINUTE :: int where
  "SECS_PER_MINUTE = 60"

definition SECS_PER_DAY :: int where
  "SECS_PER_DAY = 86400"

definition SECS_PER_WEEK :: int where
  "SECS_PER_WEEK = 7 * SECS_PER_DAY"

definition EPOCH_WEEKDAY :: int where
  "EPOCH_WEEKDAY = 3"

record slot =
  sl_day :: u8
  sl_start_minute :: u16
  sl_end_minute :: u16

datatype window_error = BadDay | BadStart | BadEnd | EmptySlot | BadOffset

definition slot_validate :: "slot \<Rightarrow> window_error + unit" where
  "slot_validate s =
     (if 6 < sl_day s then Err BadDay
      else if MINUTES_PER_DAY \<le> sl_start_minute s then Err BadStart
      else if sl_end_minute s = 0 \<or> MINUTES_PER_DAY < sl_end_minute s then Err BadEnd
      else if sl_end_minute s = sl_start_minute s then Err EmptySlot
      else Ok ())"

definition slot_is_valid :: "slot \<Rightarrow> bool" where
  "slot_is_valid s \<longleftrightarrow> slot_validate s = Ok ()"

definition wraps_midnight :: "slot \<Rightarrow> bool" where
  "wraps_midnight s \<longleftrightarrow> sl_end_minute s \<le> sl_start_minute s"

definition slot_contains :: "slot \<Rightarrow> u8 \<Rightarrow> u16 \<Rightarrow> bool" where
  "slot_contains s weekday minute_of_day =
     (if \<not> slot_is_valid s then False
      else if wraps_midnight s then
        (weekday = sl_day s \<and> sl_start_minute s \<le> minute_of_day)
        \<or> (weekday = (sl_day s + 1) mod 7 \<and> minute_of_day < sl_end_minute s)
      else weekday = sl_day s \<and> sl_start_minute s \<le> minute_of_day \<and> minute_of_day < sl_end_minute s)"

definition week_offsets :: "slot \<Rightarrow> int \<times> int" where
  "week_offsets s =
     (let start = (uint (sl_day s) * uint MINUTES_PER_DAY + uint (sl_start_minute s)) * SECS_PER_MINUTE;
          end_day = (if wraps_midnight s then uint (sl_day s) + 1 else uint (sl_day s));
          end_secs = (end_day * uint MINUTES_PER_DAY + uint (sl_end_minute s)) * SECS_PER_MINUTE
      in (start, end_secs))"

section \<open>Weekly schedules\<close>

record weekly_schedule =
  ws_tz_offset_minutes :: "32 word"
  ws_slots :: "slot list"

fun validate_slots :: "slot list \<Rightarrow> window_error + unit" where
  "validate_slots [] = Ok ()"
| "validate_slots (s # ss) = (case slot_validate s of Inl e \<Rightarrow> Err e | Inr _ \<Rightarrow> validate_slots ss)"

definition schedule_validate :: "weekly_schedule \<Rightarrow> window_error + unit" where
  "schedule_validate w =
     (if \<not> (MIN_TZ_OFFSET_MINUTES \<le> sint (ws_tz_offset_minutes w)
            \<and> sint (ws_tz_offset_minutes w) \<le> MAX_TZ_OFFSET_MINUTES) then Err BadOffset
      else validate_slots (ws_slots w))"

definition saturating_add_i64 :: "int \<Rightarrow> int \<Rightarrow> int" where
  "saturating_add_i64 a b = max (-(2 ^ 63)) (min (2 ^ 63 - 1) (a + b))"

definition local_secs :: "weekly_schedule \<Rightarrow> int \<Rightarrow> int" where
  "local_secs w now = saturating_add_i64 now (sint (ws_tz_offset_minutes w) * SECS_PER_MINUTE)"

definition civil :: "int \<Rightarrow> u8 \<times> u16" where
  "civil lcl =
     (let days = lcl div SECS_PER_DAY;
          weekday = word_of_int ((days + EPOCH_WEEKDAY) mod 7);
          minute_of_day = word_of_int (lcl mod SECS_PER_DAY div SECS_PER_MINUTE)
      in (weekday, minute_of_day))"

definition schedule_is_open :: "weekly_schedule \<Rightarrow> int \<Rightarrow> bool" where
  "schedule_is_open w now =
     (let (weekday, minute) = civil (local_secs w now)
      in list_ex (\<lambda>s. slot_contains s weekday minute) (ws_slots w))"

text \<open>The two \<open>while\<close> loops that move a boundary to its first occurrence after \<open>lcl\<close>.\<close>

function (sequential) later_week :: "int \<Rightarrow> int \<Rightarrow> int" where
  "later_week lcl at = (if at \<le> lcl then later_week lcl (at + SECS_PER_WEEK) else at)"
  by auto

termination
  by (relation "measure (\<lambda>(lcl, at). nat (lcl + 1 - at))") (auto simp: SECS_PER_WEEK_def SECS_PER_DAY_def)

function (sequential) earlier_week :: "int \<Rightarrow> int \<Rightarrow> int" where
  "earlier_week lcl at = (if lcl < at - SECS_PER_WEEK then earlier_week lcl (at - SECS_PER_WEEK) else at)"
  by auto

termination
  by (relation "measure (\<lambda>(lcl, at). nat (at - lcl))") (auto simp: SECS_PER_WEEK_def SECS_PER_DAY_def)

declare later_week.simps [simp del] earlier_week.simps [simp del]

text \<open>The candidate instants: for each valid slot, the first start and the first end after \<open>now\<close>.\<close>

definition change_candidates :: "weekly_schedule \<Rightarrow> int \<Rightarrow> int list" where
  "change_candidates w now =
     (let valid = filter slot_is_valid (ws_slots w);
          lcl = local_secs w now;
          (weekday, minute) = civil lcl;
          secs_into_week = (uint weekday * uint MINUTES_PER_DAY + uint minute) * SECS_PER_MINUTE
            + lcl mod SECS_PER_MINUTE;
          week_start = lcl - secs_into_week
      in concat (map (\<lambda>slot. let (start, end_secs) = week_offsets slot in
           map (\<lambda>boundary. earlier_week lcl (later_week lcl (week_start + boundary))
                  - sint (ws_tz_offset_minutes w) * SECS_PER_MINUTE) [start, end_secs]) valid))"

definition schedule_next_change :: "weekly_schedule \<Rightarrow> int \<Rightarrow> int option" where
  "schedule_next_change w now =
     (let valid = filter slot_is_valid (ws_slots w) in
      if valid = [] then None
      else let open_now = schedule_is_open w now in
        find (\<lambda>t. schedule_is_open w t \<noteq> open_now) (sort (change_candidates w now)))"

section \<open>Access policies\<close>

record access_policy =
  ap_expires_at :: "int option"
  ap_schedule :: "weekly_schedule option"

definition is_unrestricted :: "access_policy \<Rightarrow> bool" where
  "is_unrestricted p \<longleftrightarrow> ap_expires_at p = None \<and> ap_schedule p = None"

definition policy_validate :: "access_policy \<Rightarrow> window_error + unit" where
  "policy_validate p = (case ap_schedule p of Some s \<Rightarrow> schedule_validate s | None \<Rightarrow> Ok ())"

definition is_expired :: "access_policy \<Rightarrow> int \<Rightarrow> bool" where
  "is_expired p now = (case ap_expires_at p of Some e \<Rightarrow> e \<le> now | None \<Rightarrow> False)"

definition policy_is_open :: "access_policy \<Rightarrow> int \<Rightarrow> bool" where
  "policy_is_open p now =
     (if is_expired p now then False
      else case ap_schedule p of Some s \<Rightarrow> schedule_is_open s now | None \<Rightarrow> True)"

definition policy_next_change :: "access_policy \<Rightarrow> int \<Rightarrow> int option" where
  "policy_next_change p now =
     (if is_expired p now then None
      else let scheduled = (case ap_schedule p of None \<Rightarrow> None | Some s \<Rightarrow> schedule_next_change s now) in
        if policy_is_open p now
        then (case scheduled of
                Some s \<Rightarrow> (case ap_expires_at p of Some e \<Rightarrow> Some (min s e) | None \<Rightarrow> Some s)
              | None \<Rightarrow> ap_expires_at p)
        else (case scheduled of
                Some s \<Rightarrow> (case ap_expires_at p of Some e \<Rightarrow> if s < e then Some s else None | None \<Rightarrow> Some s)
              | None \<Rightarrow> None))"

section \<open>Slots as intervals that repeat every week\<close>

text \<open>Seconds since a Monday midnight; 1970-01-01 was a Thursday.\<close>

definition since_monday :: "int \<Rightarrow> int" where
  "since_monday lcl = lcl + 3 * 86400"

definition slot_at :: "slot \<Rightarrow> int \<Rightarrow> bool" where
  "slot_at s lcl \<longleftrightarrow> (\<exists>k. fst (week_offsets s) + k * 604800 \<le> since_monday lcl
     \<and> since_monday lcl < snd (week_offsets s) + k * 604800)"

lemmas window_consts = MINUTES_PER_DAY_def SECS_PER_MINUTE_def SECS_PER_DAY_def SECS_PER_WEEK_def EPOCH_WEEKDAY_def

lemma civil_uint:
  "uint (fst (civil lcl)) = since_monday lcl div 86400 mod 7"
  "uint (snd (civil lcl)) = since_monday lcl mod 86400 div 60"
proof -
  have d: "lcl div 86400 + 3 = since_monday lcl div 86400" by (simp add: since_monday_def)
  have m: "lcl mod 86400 = since_monday lcl mod 86400"
    unfolding since_monday_def by (rule mod_mult_self1 [symmetric])
  have "0 \<le> since_monday lcl mod 86400 div 60" "since_monday lcl mod 86400 div 60 < 1440"
    by (auto simp: pos_imp_zdiv_nonneg_iff)
  then show "uint (fst (civil lcl)) = since_monday lcl div 86400 mod 7"
    "uint (snd (civil lcl)) = since_monday lcl mod 86400 div 60"
    by (simp_all add: civil_def Let_def window_consts d m uint_word_of_int_eq take_bit_eq_mod)
qed

lemma slot_valid_uint:
  "slot_is_valid s \<longleftrightarrow> uint (sl_day s) \<le> 6 \<and> uint (sl_start_minute s) < 1440 \<and> 0 < uint (sl_end_minute s)
     \<and> uint (sl_end_minute s) \<le> 1440 \<and> uint (sl_end_minute s) \<noteq> uint (sl_start_minute s)"
proof -
  have "sl_end_minute s \<noteq> 0 \<longleftrightarrow> 0 < uint (sl_end_minute s)"
    using uint_ge_0 [of "sl_end_minute s"] by (auto simp: less_le word_uint_eq_iff)
  then show ?thesis
    by (auto simp: slot_is_valid_def slot_validate_def word_less_def word_le_def word_uint_eq_iff window_consts
        split: if_splits)
qed

lemma repeats_weekly:
  assumes "0 \<le> b" "b < 604800" "b < e" "e \<le> 604800 + (86400 :: int)" "0 \<le> x" "x < 604800"
  shows "(\<exists>k. b + k * 604800 \<le> w * 604800 + x \<and> w * 604800 + x < e + k * 604800)
    \<longleftrightarrow> (b \<le> x \<and> x < e) \<or> x + 604800 < e"
proof
  assume "\<exists>k. b + k * 604800 \<le> w * 604800 + x \<and> w * 604800 + x < e + k * 604800"
  then obtain k where k: "b + k * 604800 \<le> w * 604800 + x" "w * 604800 + x < e + k * 604800" by blast
  have "k \<le> w" "w - 1 \<le> k" using k assms by linarith+
  then have "k = w \<or> k = w - 1" by linarith
  then show "(b \<le> x \<and> x < e) \<or> x + 604800 < e" using k by auto
next
  assume "(b \<le> x \<and> x < e) \<or> x + 604800 < e"
  then show "\<exists>k. b + k * 604800 \<le> w * 604800 + x \<and> w * 604800 + x < e + k * 604800"
  proof
    assume "b \<le> x \<and> x < e"
    then show ?thesis by (intro exI [of _ w]) simp
  next
    assume "x + 604800 < e"
    then show ?thesis using assms by (intro exI [of _ "w - 1"]) simp
  qed
qed

lemma within_day:
  fixes R a b :: int
  shows "a \<le> R div 60 \<longleftrightarrow> 60 * a \<le> R" "R div 60 < b \<longleftrightarrow> R < 60 * b"
  by linarith+

lemma slot_contains_at:
  "slot_contains s (fst (civil lcl)) (snd (civil lcl)) \<longleftrightarrow> slot_is_valid s \<and> slot_at s lcl"
proof (cases "slot_is_valid s")
  case True
  define P where "P = since_monday lcl"
  define d where "d = uint (sl_day s)"
  define a where "a = uint (sl_start_minute s)"
  define b where "b = uint (sl_end_minute s)"
  define D where "D = P div 86400 mod 7"
  define R where "R = P mod 86400"
  define e where "e = ((if b \<le> a then d + 1 else d) * 1440 + b) * 60"
  have v: "0 \<le> d" "d \<le> 6" "0 \<le> a" "a < 1440" "0 < b" "b \<le> 1440" "b \<noteq> a"
    using True by (auto simp: slot_valid_uint d_def a_def b_def)
  have r: "0 \<le> D" "D < 7" "0 \<le> R" "R < 86400" by (simp_all add: D_def R_def)
  have P: "P = (P div 604800) * 604800 + (D * 86400 + R)"
  proof -
    have "P = P div 86400 * 86400 + R" by (simp add: R_def)
    moreover have "P div 86400 = P div 86400 div 7 * 7 + D" by (simp add: D_def)
    moreover have "P div 86400 div 7 = P div 604800" by (simp add: zdiv_zmult2_eq [symmetric])
    ultimately show ?thesis by linarith
  qed
  have off: "week_offsets s = ((d * 1440 + a) * 60, e)"
    by (simp add: week_offsets_def Let_def window_consts d_def a_def b_def e_def wraps_midnight_def word_le_def)
  have "slot_at s lcl \<longleftrightarrow> (\<exists>k. (d * 1440 + a) * 60 + k * 604800 \<le> P div 604800 * 604800 + (D * 86400 + R)
      \<and> P div 604800 * 604800 + (D * 86400 + R) < e + k * 604800)"
    unfolding slot_at_def off P_def [symmetric] P [symmetric] by simp
  also have "\<dots> \<longleftrightarrow> ((d * 1440 + a) * 60 \<le> D * 86400 + R \<and> D * 86400 + R < e) \<or> D * 86400 + R + 604800 < e"
    using v r by (intro repeats_weekly) (auto simp: e_def)
  finally have at: "slot_at s lcl \<longleftrightarrow>
      ((d * 1440 + a) * 60 \<le> D * 86400 + R \<and> D * 86400 + R < e) \<or> D * 86400 + R + 604800 < e" .
  have next_day: "uint ((sl_day s + 1) mod 7) = (d + 1) mod 7"
    using v by (simp add: uint_mod uint_word_ariths d_def)
  have "slot_contains s (fst (civil lcl)) (snd (civil lcl)) \<longleftrightarrow>
      (if b \<le> a then (D = d \<and> 60 * a \<le> R) \<or> (D = (d + 1) mod 7 \<and> R < 60 * b)
       else D = d \<and> 60 * a \<le> R \<and> R < 60 * b)"
    using True next_day
    by (simp add: slot_contains_def wraps_midnight_def word_le_def word_less_def word_uint_eq_iff civil_uint
        within_day flip: P_def d_def a_def b_def) (simp add: D_def R_def)
  also have "\<dots> \<longleftrightarrow> slot_at s lcl"
  proof (cases "b \<le> a")
    case False
    moreover have "D < d \<or> D = d \<or> d < D" by linarith
    ultimately show ?thesis unfolding at using v r by (elim disjE) (auto simp: e_def)
  next
    case True
    have D: "D < d \<or> D = d \<or> D = d + 1 \<or> d + 1 < D" by linarith
    have "d = 6 \<or> d < 6 \<and> (d + 1) mod 7 = d + 1" using v by auto
    then show ?thesis
    proof
      assume "d = 6"
      with True show ?thesis unfolding at using v r by (cases "D = 0"; cases "D = 6") (auto simp: e_def)
    next
      assume "d < 6 \<and> (d + 1) mod 7 = d + 1"
      with True D show ?thesis unfolding at using v r by (elim disjE) (auto simp: e_def)
    qed
  qed
  finally show ?thesis using True by simp
qed (simp add: slot_contains_def)

section \<open>Boundaries\<close>

text \<open>A slot changes state only at a boundary: an instant congruent to its start or end modulo a week.\<close>

definition boundary_at :: "slot \<Rightarrow> int \<Rightarrow> bool" where
  "boundary_at s t \<longleftrightarrow> (\<exists>k. since_monday t = fst (week_offsets s) + k * 604800
     \<or> since_monday t = snd (week_offsets s) + k * 604800)"

lemma slot_at_constant:
  assumes "u \<le> v" "\<And>t. u < t \<Longrightarrow> t \<le> v \<Longrightarrow> \<not> boundary_at s t"
  shows "slot_at s u = slot_at s v"
proof
  assume "slot_at s u"
  then obtain k where k: "fst (week_offsets s) + k * 604800 \<le> since_monday u"
    "since_monday u < snd (week_offsets s) + k * 604800" by (auto simp: slot_at_def)
  have "since_monday v < snd (week_offsets s) + k * 604800"
  proof (rule ccontr)
    assume "\<not> ?thesis"
    then show False using k assms(2) [of "snd (week_offsets s) + k * 604800 - 3 * 86400"]
      by (auto simp: boundary_at_def since_monday_def)
  qed
  then show "slot_at s v" using k assms(1) by (auto simp: slot_at_def since_monday_def intro!: exI [of _ k])
next
  assume "slot_at s v"
  then obtain k where k: "fst (week_offsets s) + k * 604800 \<le> since_monday v"
    "since_monday v < snd (week_offsets s) + k * 604800" by (auto simp: slot_at_def)
  have "fst (week_offsets s) + k * 604800 \<le> since_monday u"
  proof (rule ccontr)
    assume "\<not> ?thesis"
    then show False using k assms(2) [of "fst (week_offsets s) + k * 604800 - 3 * 86400"]
      by (auto simp: boundary_at_def since_monday_def)
  qed
  then show "slot_at s u" using k assms(1) by (auto simp: slot_at_def since_monday_def intro!: exI [of _ k])
qed

lemma slot_at_weekly: "slot_at s (t + 604800 * n) = slot_at s t"
proof -
  have "(\<exists>k. P (k + n)) \<longleftrightarrow> (\<exists>k. P k)" for P :: "int \<Rightarrow> bool"
    by (metis diff_add_cancel)
  from this [of "\<lambda>k. fst (week_offsets s) + k * 604800 \<le> since_monday (t + 604800 * n)
     \<and> since_monday (t + 604800 * n) < snd (week_offsets s) + k * 604800"]
  show ?thesis by (simp add: slot_at_def since_monday_def algebra_simps)
qed

lemma later_week_spec: "\<exists>n. later_week lcl at = at + 604800 * int n \<and> lcl < later_week lcl at"
proof (induction lcl at rule: later_week.induct)
  case (1 lcl at)
  show ?case
  proof (cases "at \<le> lcl")
    case True
    with 1 obtain n where "later_week lcl (at + SECS_PER_WEEK) = at + SECS_PER_WEEK + 604800 * int n"
      "lcl < later_week lcl (at + SECS_PER_WEEK)" by auto
    with True show ?thesis
      by (subst later_week.simps, subst later_week.simps) (auto intro!: exI [of _ "Suc n"] simp: window_consts)
  next
    case False
    then show ?thesis by (intro exI [of _ 0]) (simp add: later_week.simps)
  qed
qed

lemma earlier_week_spec:
  "lcl < at \<Longrightarrow> \<exists>n. earlier_week lcl at = at - 604800 * int n \<and> lcl < earlier_week lcl at
     \<and> earlier_week lcl at \<le> lcl + 604800"
proof (induction lcl at rule: earlier_week.induct)
  case (1 lcl at)
  show ?case
  proof (cases "lcl < at - SECS_PER_WEEK")
    case True
    with 1 obtain n where "earlier_week lcl (at - SECS_PER_WEEK) = at - SECS_PER_WEEK - 604800 * int n"
      "lcl < earlier_week lcl (at - SECS_PER_WEEK)" "earlier_week lcl (at - SECS_PER_WEEK) \<le> lcl + 604800" by auto
    moreover have "earlier_week lcl at = earlier_week lcl (at - SECS_PER_WEEK)"
      using True by (subst earlier_week.simps) simp
    ultimately show ?thesis by (intro exI [of _ "Suc n"]) (simp add: window_consts)
  next
    case False
    then have "earlier_week lcl at = at" by (simp add: earlier_week.simps)
    with False 1 show ?thesis by (intro exI [of _ 0]) (simp add: window_consts)
  qed
qed

text \<open>So the two loops find the one congruent instant in the week after \<open>lcl\<close>.\<close>

lemma first_after:
  "\<exists>n. earlier_week lcl (later_week lcl at) = at + 604800 * n \<and> lcl < earlier_week lcl (later_week lcl at)
     \<and> earlier_week lcl (later_week lcl at) \<le> lcl + 604800"
proof -
  obtain m where m: "later_week lcl at = at + 604800 * int m" "lcl < later_week lcl at"
    using later_week_spec by blast
  obtain n where "earlier_week lcl (later_week lcl at) = later_week lcl at - 604800 * int n"
    "lcl < earlier_week lcl (later_week lcl at)" "earlier_week lcl (later_week lcl at) \<le> lcl + 604800"
    using earlier_week_spec [OF m(2)] by blast
  with m(1) show ?thesis by (intro exI [of _ "int m - int n"]) (simp add: algebra_simps)
qed

section \<open>Schedules\<close>

definition tz_secs :: "weekly_schedule \<Rightarrow> int" where
  "tz_secs w = sint (ws_tz_offset_minutes w) * 60"

lemma local_secs_plain: "\<bar>u\<bar> \<le> 2 ^ 62 \<Longrightarrow> local_secs w u = u + tz_secs w"
  using sint_greater_eq [of "ws_tz_offset_minutes w"] sint_less [of "ws_tz_offset_minutes w"]
  by (simp add: local_secs_def saturating_add_i64_def tz_secs_def window_consts)

lemma schedule_open_at:
  "schedule_is_open w u \<longleftrightarrow> list_ex (\<lambda>s. slot_is_valid s \<and> slot_at s (local_secs w u)) (ws_slots w)"
  using slot_contains_at [of _ "local_secs w u"]
  by (simp add: schedule_is_open_def case_prod_beta)

lemma secs_into_week:
  "(uint (fst (civil lcl)) * 1440 + uint (snd (civil lcl))) * 60 + lcl mod 60 = since_monday lcl mod 604800"
proof -
  define P where "P = since_monday lcl"
  define A where "A = P div 86400 mod 7"
  define B where "B = P mod 86400 div 60"
  define C where "C = P mod 86400 mod 60"
  have "lcl mod 60 = P mod 60" unfolding P_def since_monday_def
    using mod_mult_self1 [of lcl "4320" 60] by simp
  also have "\<dots> = C" by (simp add: C_def mod_mod_cancel)
  finally have c: "lcl mod 60 = C" .
  have "P mod 86400 = B * 60 + C" by (simp add: B_def C_def)
  moreover have "P mod 604800 = 86400 * A + P mod 86400"
    using zmod_zmult2_eq [of 7 P 86400] by (simp add: A_def)
  moreover have "uint (fst (civil lcl)) = A" "uint (snd (civil lcl)) = B"
    by (simp_all only: civil_uint A_def B_def P_def)
  ultimately show ?thesis by (simp add: c flip: P_def)
qed

lemma change_candidates_iff:
  assumes "\<bar>now\<bar> \<le> 2 ^ 62"
  shows "t \<in> set (change_candidates w now) \<longleftrightarrow>
    now < t \<and> t \<le> now + 604800 \<and> list_ex (\<lambda>s. slot_is_valid s \<and> boundary_at s (t + tz_secs w)) (ws_slots w)"
proof -
  let ?lcl = "now + tz_secs w"
  define ws where "ws = ?lcl - since_monday ?lcl mod 604800"
  define q where "q = since_monday ?lcl div 604800"
  have "since_monday ws = since_monday ?lcl - since_monday ?lcl mod 604800"
    by (simp only: since_monday_def ws_def)
  then have ws: "since_monday ws = q * 604800" by (simp only: minus_mod_eq_div_mult q_def)
  define hit where "hit b \<longleftrightarrow> earlier_week ?lcl (later_week ?lcl (ws + b)) - tz_secs w = t" for b
  have hit: "hit b \<longleftrightarrow> now < t \<and> t \<le> now + 604800 \<and> (\<exists>k. since_monday (t + tz_secs w) = b + k * 604800)" for b
  proof -
    obtain n where n: "earlier_week ?lcl (later_week ?lcl (ws + b)) = ws + b + 604800 * n"
      "?lcl < ws + b + 604800 * n" "ws + b + 604800 * n \<le> ?lcl + 604800"
      using first_after [of ?lcl "ws + b"] by auto
    show ?thesis
    proof
      assume "hit b"
      then have t: "t + tz_secs w = ws + b + 604800 * n" using n(1) by (simp add: hit_def)
      then have "since_monday (t + tz_secs w) = b + (q + n) * 604800"
        using ws by (simp add: since_monday_def algebra_simps)
      then have "\<exists>k. since_monday (t + tz_secs w) = b + k * 604800" by blast
      moreover have "now < t" "t \<le> now + 604800" using t n(2,3) by linarith+
      ultimately show "now < t \<and> t \<le> now + 604800 \<and> (\<exists>k. since_monday (t + tz_secs w) = b + k * 604800)"
        by blast
    next
      assume *: "now < t \<and> t \<le> now + 604800 \<and> (\<exists>k. since_monday (t + tz_secs w) = b + k * 604800)"
      then obtain k where "since_monday (t + tz_secs w) = b + k * 604800" by blast
      then have k: "t + tz_secs w = ws + b + 604800 * (k - q)"
        using ws by (simp add: since_monday_def algebra_simps)
      have "now < t" "t \<le> now + 604800" using * by blast+
      then have "604800 * (k - q) < 604800 * (n + 1)" "604800 * n < 604800 * (k - q + 1)"
        using k n(2,3) by (simp_all add: algebra_simps)
      then have "k - q < n + 1" "n < k - q + 1" by (simp_all only: mult_less_cancel_left_pos zero_less_numeral)
      then have "k - q = n" by simp
      with k n(1) show "hit b" by (simp add: hit_def)
    qed
  qed
  have "t \<in> set (change_candidates w now) \<longleftrightarrow>
      list_ex (\<lambda>s. slot_is_valid s \<and> (hit (fst (week_offsets s)) \<or> hit (snd (week_offsets s)))) (ws_slots w)"
    using assms secs_into_week [of ?lcl]
    by (auto simp: change_candidates_def Let_def case_prod_beta local_secs_plain hit_def list_ex_iff
        window_consts ws_def tz_secs_def)
  also have "\<dots> \<longleftrightarrow> now < t \<and> t \<le> now + 604800
      \<and> list_ex (\<lambda>s. slot_is_valid s \<and> boundary_at s (t + tz_secs w)) (ws_slots w)"
    unfolding hit by (auto simp: list_ex_iff boundary_at_def)
  finally show ?thesis .
qed

text \<open>Between two instants with no boundary the schedule keeps its answer, and it repeats every week.\<close>

lemma schedule_constant:
  assumes "\<bar>u\<bar> \<le> 2 ^ 62" "\<bar>v\<bar> \<le> 2 ^ 62" "u \<le> v"
    and "\<And>t. u < t \<Longrightarrow> t \<le> v \<Longrightarrow>
      \<not> list_ex (\<lambda>s. slot_is_valid s \<and> boundary_at s (t + tz_secs w)) (ws_slots w)"
  shows "schedule_is_open w u = schedule_is_open w v"
proof -
  have "slot_at s (u + tz_secs w) = slot_at s (v + tz_secs w)" if "s \<in> set (ws_slots w)" "slot_is_valid s" for s
  proof (rule slot_at_constant)
    show "u + tz_secs w \<le> v + tz_secs w" using assms(3) by simp
    show "\<not> boundary_at s t" if "u + tz_secs w < t" "t \<le> v + tz_secs w" for t
      using assms(4) [of "t - tz_secs w"] that \<open>s \<in> set (ws_slots w)\<close> \<open>slot_is_valid s\<close>
      by (auto simp: list_ex_iff)
  qed
  then show ?thesis
    using assms(1,2) by (auto simp: schedule_open_at local_secs_plain list_ex_iff)
qed

lemma schedule_weekly:
  assumes "\<bar>u\<bar> \<le> 2 ^ 62" "\<bar>u + 604800 * n\<bar> \<le> 2 ^ 62"
  shows "schedule_is_open w (u + 604800 * n) = schedule_is_open w u"
  using assms slot_at_weekly [of _ "u + tz_secs w" n]
  by (simp add: schedule_open_at local_secs_plain algebra_simps)

text \<open>Until the first candidate that flips, and within the week, nothing changes.\<close>

lemma quiet_until:
  assumes now: "\<bar>now\<bar> \<le> 2 ^ 61" and u: "now \<le> u" "u \<le> now + 604800"
    and quiet: "\<And>t. t \<in> set (change_candidates w now) \<Longrightarrow> t \<le> u \<Longrightarrow> schedule_is_open w t = schedule_is_open w now"
  shows "schedule_is_open w u = schedule_is_open w now"
proof -
  have n62: "\<bar>now\<bar> \<le> 2 ^ 62" using now by simp
  define c where "c = Max (insert now {t \<in> set (change_candidates w now). t \<le> u})"
  have "c \<in> insert now {t \<in> set (change_candidates w now). t \<le> u}"
    unfolding c_def by (intro Max_in) auto
  then have c: "schedule_is_open w c = schedule_is_open w now" "now \<le> c" "c \<le> u"
    using quiet u(1) change_candidates_iff [OF n62, of c w] by auto
  have "schedule_is_open w c = schedule_is_open w u"
  proof (rule schedule_constant)
    show "\<bar>c\<bar> \<le> 2 ^ 62" "\<bar>u\<bar> \<le> 2 ^ 62" "c \<le> u" using now u c by simp_all
    fix t assume t: "c < t" "t \<le> u"
    show "\<not> list_ex (\<lambda>s. slot_is_valid s \<and> boundary_at s (t + tz_secs w)) (ws_slots w)"
    proof
      assume "list_ex (\<lambda>s. slot_is_valid s \<and> boundary_at s (t + tz_secs w)) (ws_slots w)"
      then have "t \<in> set (change_candidates w now)"
        using t c u by (auto simp: change_candidates_iff [OF n62])
      with t have "t \<le> c" unfolding c_def by (intro Max_ge) auto
      with t show False by simp
    qed
  qed
  with c(1) show ?thesis by simp
qed

lemma find_sorted_Some:
  assumes "sorted xs" "find P xs = Some t"
  shows "t \<in> set xs \<and> P t \<and> (\<forall>x \<in> set xs. x < t \<longrightarrow> \<not> P x)"
  using assms by (induction xs) (auto split: if_splits)

lemma schedule_next_Some:
  assumes "\<bar>now\<bar> \<le> 2 ^ 61" "schedule_next_change w now = Some t"
  shows "now < t \<and> schedule_is_open w t \<noteq> schedule_is_open w now
    \<and> (\<forall>u. now \<le> u \<and> u < t \<longrightarrow> schedule_is_open w u = schedule_is_open w now)"
proof -
  have n62: "\<bar>now\<bar> \<le> 2 ^ 62" using assms(1) by simp
  have "find (\<lambda>t. schedule_is_open w t \<noteq> schedule_is_open w now) (sort (change_candidates w now)) = Some t"
    using assms(2) by (auto simp: schedule_next_change_def Let_def split: if_splits)
  from find_sorted_Some [OF _ this] have t: "t \<in> set (change_candidates w now)"
    "schedule_is_open w t \<noteq> schedule_is_open w now"
    "\<forall>x \<in> set (change_candidates w now). x < t \<longrightarrow> schedule_is_open w x = schedule_is_open w now"
    by simp_all
  then have "now < t" "t \<le> now + 604800" by (simp_all add: change_candidates_iff [OF n62])
  moreover have "schedule_is_open w u = schedule_is_open w now" if "now \<le> u" "u < t" for u
  proof (rule quiet_until [OF assms(1) that(1)])
    show "u \<le> now + 604800" using that \<open>t \<le> now + 604800\<close> by linarith
    show "schedule_is_open w x = schedule_is_open w now" if "x \<in> set (change_candidates w now)" "x \<le> u" for x
      using t(3) that \<open>u < t\<close> by force
  qed
  ultimately show ?thesis using t by blast
qed

lemma schedule_next_None:
  assumes "\<bar>now\<bar> \<le> 2 ^ 61" "schedule_next_change w now = None" "now \<le> u" "u \<le> 2 ^ 61"
  shows "schedule_is_open w u = schedule_is_open w now"
proof (cases "filter slot_is_valid (ws_slots w) = []")
  case True
  then show ?thesis by (auto simp: schedule_open_at list_ex_iff filter_empty_conv)
next
  case False
  then have still: "\<forall>t \<in> set (change_candidates w now). schedule_is_open w t = schedule_is_open w now"
    using assms(2) by (auto simp: schedule_next_change_def Let_def find_None_iff)
  define r where "r = now + (u - now) mod 604800"
  have r: "now \<le> r" "r < now + 604800" by (simp_all add: r_def)
  have "schedule_is_open w r = schedule_is_open w now"
  proof (rule quiet_until [OF assms(1) r(1)])
    show "r \<le> now + 604800" using r by simp
    show "schedule_is_open w x = schedule_is_open w now" if "x \<in> set (change_candidates w now)" "x \<le> r" for x
      using still that by blast
  qed
  moreover have u: "u = r + 604800 * ((u - now) div 604800)"
    using mult_div_mod_eq [of 604800 "u - now"] unfolding r_def by linarith
  moreover have "\<bar>r\<bar> \<le> 2 ^ 62" "\<bar>u\<bar> \<le> 2 ^ 62" using assms(1,3,4) r by auto
  ultimately show ?thesis
    using schedule_weekly [of r "(u - now) div 604800" w, folded u] by simp
qed

text \<open>An expiry, if there is one, is a time the schedule lemmas cover.\<close>

definition sane_expiry :: "access_policy \<Rightarrow> bool" where
  "sane_expiry p = (case ap_expires_at p of None \<Rightarrow> True | Some e \<Rightarrow> e \<le> 2 ^ 61)"

lemma policy_with_schedule:
  assumes "ap_schedule p = Some w" "schedule_next_change w now = Some t"
    and "now < t" "schedule_is_open w t \<noteq> schedule_is_open w now"
    and quiet: "\<forall>u. now \<le> u \<and> u < t \<longrightarrow> schedule_is_open w u = schedule_is_open w now"
  shows "case policy_next_change p now of
      Some t \<Rightarrow> now < t \<and> policy_is_open p t \<noteq> policy_is_open p now
        \<and> (\<forall>u. now \<le> u \<and> u < t \<longrightarrow> policy_is_open p u = policy_is_open p now)
    | None \<Rightarrow> (\<forall>u. now \<le> u \<and> u \<le> 2 ^ 61 \<longrightarrow> policy_is_open p u = policy_is_open p now)"
proof (cases "ap_expires_at p")
  case None
  then have op: "policy_is_open p u = schedule_is_open w u" and nx: "policy_next_change p now = Some t" for u
    using assms(1,2) by (simp_all add: policy_is_open_def is_expired_def policy_next_change_def Let_def)
  show ?thesis unfolding nx op option.case using assms(3,4) quiet by blast
next
  case (Some e)
  then have op: "policy_is_open p u \<longleftrightarrow> u < e \<and> schedule_is_open w u" for u
    using assms(1) by (simp add: policy_is_open_def is_expired_def not_le)
  have nx: "policy_next_change p now = (if e \<le> now then None
      else if schedule_is_open w now then Some (min t e) else if t < e then Some t else None)"
    using assms(1,2) Some op by (simp add: policy_next_change_def is_expired_def Let_def)
  consider "e \<le> now" | "now < e" "schedule_is_open w now" | "now < e" "\<not> schedule_is_open w now" by linarith
  then show ?thesis
  proof cases
    case 1
    then show ?thesis by (simp add: nx op)
  next
    case 2
    with assms(3,4) quiet show ?thesis by (simp add: nx op min_def)
  next
    case 3
    with assms(3,4) quiet show ?thesis by (auto simp add: nx op)
  qed
qed

definition ex_policy :: access_policy where
  "ex_policy = \<lparr>ap_expires_at = Some 1000000, ap_schedule = Some \<lparr>ws_tz_offset_minutes = 0,
     ws_slots = [\<lparr>sl_day = 3, sl_start_minute = 540, sl_end_minute = 1020\<rparr>]\<rparr>\<rparr>"

section \<open>Properties\<close>

text \<open>
  C38. The countdown is exact: when \<open>next_change\<close> names an instant, it lies in the future, the policy
  answers differently there and answers as now at every instant before it; when it names none, the
  policy never changes its answer again. This holds for overlapping, adjacent and wrapping slots,
  any offset and any expiry, at every time and expiry within 2^61 seconds of the epoch.
\<close>

theorem access_next_change_exact:
  assumes "\<bar>now\<bar> \<le> 2 ^ 61" "sane_expiry p"
  shows "case policy_next_change p now of
      Some t \<Rightarrow> now < t \<and> policy_is_open p t \<noteq> policy_is_open p now
        \<and> (\<forall>u. now \<le> u \<and> u < t \<longrightarrow> policy_is_open p u = policy_is_open p now)
    | None \<Rightarrow> (\<forall>u. now \<le> u \<and> u \<le> 2 ^ 61 \<longrightarrow> policy_is_open p u = policy_is_open p now)"
proof (cases "ap_schedule p")
  case None
  then show ?thesis
    by (auto simp: policy_next_change_def policy_is_open_def is_expired_def split: option.splits)
next
  case (Some w)
  note some = schedule_next_Some [OF assms(1), of w] and none = schedule_next_None [OF assms(1), of w]
  show ?thesis
  proof (cases "schedule_next_change w now")
    case None
    with Some none assms(2) show ?thesis
      by (auto simp: sane_expiry_def policy_next_change_def policy_is_open_def is_expired_def split: option.splits)
  next
    case t: (Some t)
    from some [OF t] have "now < t" "schedule_is_open w t \<noteq> schedule_is_open w now"
      "\<forall>u. now \<le> u \<and> u < t \<longrightarrow> schedule_is_open w u = schedule_is_open w now" by blast+
    then show ?thesis by (rule policy_with_schedule [OF Some t])
  qed
qed

theorem access_next_change_exact_witness:
  "policy_next_change ex_policy 0 \<noteq> None"
proof
  assume none: "policy_next_change ex_policy 0 = None"
  have w: "ap_schedule ex_policy = Some \<lparr>ws_tz_offset_minutes = 0,
     ws_slots = [\<lparr>sl_day = 3, sl_start_minute = 540, sl_end_minute = 1020\<rparr>]\<rparr>" by (simp add: ex_policy_def)
  have c: "civil 0 = (3, 0)" "civil 32400 = (3, 540)" by (simp_all add: civil_def window_consts)
  have "\<not> policy_is_open ex_policy 0" "policy_is_open ex_policy 32400"
    unfolding policy_is_open_def w
    by (simp_all add: is_expired_def ex_policy_def schedule_is_open_def local_secs_plain tz_secs_def c
        slot_contains_def slot_is_valid_def slot_validate_def MINUTES_PER_DAY_def wraps_midnight_def)
  then show False
    using access_next_change_exact [of 0 ex_policy] none by (auto simp: sane_expiry_def ex_policy_def)
qed

end
