(* ===== verification/Calendar.thy ===== *)
theory Calendar
  imports AccessWindow
begin

text \<open>
  The two calendar routines of the access-window module
  (\<open>src/crates/common/src/access_window.rs\<close>, \<open>format_utc_ymd_hm\<close> and \<open>days_from_civil\<close>): the display of
  a Unix time as a UTC date, and the day number of a date. All quantities are \<open>i64\<close> far from its
  bounds, so they are unbounded integers here; the divisions are of non-negative numbers, or the
  euclidean ones of the source.
\<close>

text \<open>The arithmetic of \<open>format_utc_ymd_hm\<close>: year, month and day of a day number.\<close>

definition civil_from_days :: "int \<Rightarrow> int \<times> int \<times> int" where
  "civil_from_days days =
     (let z = days + 719468;
          era = z div 146097;
          doe = z mod 146097;
          yoe = (doe - doe div 1460 + doe div 36524 - doe div 146096) div 365;
          doy = doe - (365 * yoe + yoe div 4 - yoe div 100);
          mp = (5 * doy + 2) div 153;
          day = doy - (153 * mp + 2) div 5 + 1;
          month = if mp < 10 then mp + 3 else mp - 9;
          year = yoe + era * 400 + (if month \<le> 2 then 1 else 0)
      in (year, month, day))"

text \<open>A number formatted with \<open>{:0w}\<close>: decimal digits, padded with zeros on the left to the width.\<close>

definition padded :: "nat \<Rightarrow> int \<Rightarrow> bytes" where
  "padded w n = (let ds = dec_digits (nat n) in replicate (w - length ds) (of_char CHR ''0'') @ ds)"

definition format_utc_ymd_hm :: "int \<Rightarrow> bytes" where
  "format_utc_ymd_hm secs =
     (let s = max secs 0;
          days = s div SECS_PER_DAY;
          rem = s mod SECS_PER_DAY;
          hour = rem div 3600;
          minute = (rem mod 3600) div 60;
          (year, month, day) = civil_from_days days
      in padded 4 year @ ascii ''-'' @ padded 2 month @ ascii ''-'' @ padded 2 day @ ascii '' ''
         @ padded 2 hour @ ascii '':'' @ padded 2 minute)"

definition days_from_civil :: "int \<Rightarrow> int \<Rightarrow> int \<Rightarrow> int" where
  "days_from_civil year month day =
     (let y = if month \<le> 2 then year - 1 else year;
          era = y div 400;
          yoe = y mod 400;
          mp = if 2 < month then month - 3 else month + 9;
          doy = (153 * mp + 2) div 5 + day - 1;
          doe = yoe * 365 + yoe div 4 - yoe div 100 + doy
      in era * 146097 + doe - 719468)"

section \<open>The day within its era\<close>

definition year_of_era :: "int \<Rightarrow> int" where
  "year_of_era doe = (doe - doe div 1460 + doe div 36524 - doe div 146096) div 365"

definition year_start :: "int \<Rightarrow> int" where
  "year_start yoe = 365 * yoe + yoe div 4 - yoe div 100"

lemma year_of_era_step: "0 \<le> doe \<Longrightarrow> doe < 146096 \<Longrightarrow> year_of_era doe \<le> year_of_era (doe + 1)"
proof -
  assume d: "0 \<le> doe" "doe < 146096"
  have "(doe + 1) div 1460 \<le> doe div 1460 + 1" "doe div 36524 \<le> (doe + 1) div 36524" by linarith+
  moreover have "(doe + 1) div 146096 \<le> (doe + 1) div 36524 - doe div 36524 + doe div 146096"
  proof (cases "doe = 146095")
    case False
    with d have "(doe + 1) div 146096 = 0" by simp
    then show ?thesis using d \<open>doe div 36524 \<le> (doe + 1) div 36524\<close> by simp
  qed simp
  ultimately have "doe - doe div 1460 + doe div 36524 - doe div 146096
      \<le> doe + 1 - (doe + 1) div 1460 + (doe + 1) div 36524 - (doe + 1) div 146096" by linarith
  then show ?thesis unfolding year_of_era_def by (rule zdiv_mono1) simp
qed

lemma year_of_era_mono:
  assumes "0 \<le> a" "a \<le> b" "b < 146097"
  shows "year_of_era a \<le> year_of_era b"
  using assms(2,1,3)
proof (induction b rule: int_ge_induct)
  case (step b)
  then show ?case using year_of_era_step [of b] by simp
qed simp

lemma year_of_era_starts:
  "list_all (\<lambda>y. year_of_era (year_start y) = y \<and> (0 < y \<longrightarrow> year_of_era (year_start y - 1) = y - 1)) [0..399]"
  by code_simp

lemma year_of_era_start:
  assumes "0 \<le> y" "y < 400"
  shows "year_of_era (year_start y) = y" "0 < y \<Longrightarrow> year_of_era (year_start y - 1) = y - 1"
  using year_of_era_starts assms unfolding list_all_iff by auto

lemma year_start_bounds: "0 \<le> y \<Longrightarrow> y < 400 \<Longrightarrow> 0 \<le> year_start y \<and> year_start y \<le> 145731"
  unfolding year_start_def by linarith

definition year_length :: "int \<Rightarrow> int" where
  "year_length y = (if y = 399 \<or> (y + 1) mod 4 = 0 \<and> (y + 1) mod 100 \<noteq> 0 then 366 else 365)"

lemma div_next:
  assumes "0 < k"
  shows "(y + 1) div k = y div k + (if (y + 1) mod k = 0 then 1 else (0 :: int))"
proof (cases "(y + 1) mod k = 0")
  case True
  then have "y = k * ((y + 1) div k - 1) + (k - 1)"
    using mult_div_mod_eq [of k "y + 1"] by (simp add: right_diff_distrib)
  then have "y div k = (y + 1) div k - 1" using assms by (intro int_div_pos_eq [of y k _ "k - 1"]) auto
  with True show ?thesis by simp
next
  case False
  then have "y = k * ((y + 1) div k) + ((y + 1) mod k - 1)" using mult_div_mod_eq [of k "y + 1"] by linarith
  moreover have "0 \<le> (y + 1) mod k - 1" "(y + 1) mod k - 1 < k"
    using False assms pos_mod_bound [of k "y + 1"] pos_mod_sign [of k "y + 1"] by linarith+
  ultimately have "y div k = (y + 1) div k" by (intro int_div_pos_eq)
  with False show ?thesis by simp
qed

lemma leap_count:
  "a' = a + (if p then 1 else 0) \<Longrightarrow> b' = b + (if q then 1 else 0) \<Longrightarrow> (q \<Longrightarrow> p) \<Longrightarrow>
     365 * (y + 1) + a' - b' = 365 * y + a - b + (if p \<and> \<not> q then 366 else (365 :: int))"
  by (auto split: if_splits)

lemma year_start_next: "0 \<le> y \<Longrightarrow> y < 399 \<Longrightarrow> year_start (y + 1) = year_start y + year_length y"
proof -
  assume "0 \<le> y" "y < 399"
  have "(y + 1) mod 100 = 0 \<Longrightarrow> (y + 1) mod 4 = 0"
    using dvd_trans [of 4 100 "y + 1"] by (simp add: dvd_eq_mod_eq_0)
  then have "365 * (y + 1) + (y + 1) div 4 - (y + 1) div 100
      = 365 * y + y div 4 - y div 100 + (if (y + 1) mod 4 = 0 \<and> (y + 1) mod 100 \<noteq> 0 then 366 else 365)"
    by (intro leap_count div_next) simp_all
  moreover have "y \<noteq> 399" using \<open>y < 399\<close> by simp
  ultimately show ?thesis by (simp only: year_start_def year_length_def simp_thms)
qed

text \<open>The year of a day of the era is the one whose days contain it.\<close>

lemma year_of_era_iff:
  assumes "0 \<le> doe" "doe < 146097" "0 \<le> y" "y < 400"
  shows "year_of_era doe = y \<longleftrightarrow> year_start y \<le> doe \<and> doe < year_start y + year_length y"
proof -
  have below: "year_of_era doe < y" if "doe < year_start y" "0 < y"
    using year_of_era_mono [of doe "year_start y - 1"] year_of_era_start(2) [OF assms(3,4) that(2)] that assms(1)
      year_start_bounds [OF assms(3,4)] by simp
  have from_start: "y \<le> year_of_era doe" if "year_start y \<le> doe"
    using year_of_era_mono [of "year_start y" doe] year_of_era_start(1) [OF assms(3,4)] that assms(2)
      year_start_bounds [OF assms(3,4)] by simp
  show ?thesis
  proof (cases "y = 399")
    case True
    have "year_of_era doe \<le> year_of_era 146096" using year_of_era_mono [of doe 146096] assms by simp
    also have "\<dots> = 399" by (simp add: year_of_era_def)
    finally show ?thesis using below from_start True assms
      by (cases "doe < year_start y") (simp_all add: year_start_def year_length_def)
  next
    case False
    have "year_of_era doe < y + 1" if "doe < year_start (y + 1)"
      using year_of_era_mono [of doe "year_start (y + 1) - 1"] year_of_era_start(2) [of "y + 1"] that assms False
        year_start_bounds [of "y + 1"] by simp
    moreover have "y + 1 \<le> year_of_era doe" if "year_start (y + 1) \<le> doe"
      using year_of_era_mono [of "year_start (y + 1)" doe] year_of_era_start(1) [of "y + 1"] that assms False
        year_start_bounds [of "y + 1"] by simp
    moreover have "year_start (y + 1) = year_start y + year_length y" using year_start_next False assms by simp
    moreover have "0 \<le> doe \<and> (y = 0 \<longrightarrow> year_start y = 0)" using assms by (simp add: year_start_def)
    ultimately show ?thesis using below from_start assms(1,3)
      by (cases "y = 0"; cases "doe < year_start y"; cases "doe < year_start (y + 1)") auto
  qed
qed

lemma year_of_era_bounds:
  assumes "0 \<le> doe" "doe < 146097"
  shows "0 \<le> year_of_era doe \<and> year_of_era doe < 400"
proof -
  have "year_of_era 0 \<le> year_of_era doe" "year_of_era doe \<le> year_of_era 146096"
    using assms by (auto intro: year_of_era_mono)
  then show ?thesis by (simp add: year_of_era_def)
qed

section \<open>The calendar\<close>

definition leap_year :: "int \<Rightarrow> bool" where
  "leap_year y \<longleftrightarrow> y mod 4 = 0 \<and> y mod 100 \<noteq> 0 \<or> y mod 400 = 0"

definition days_in_month :: "bool \<Rightarrow> int \<Rightarrow> int" where
  "days_in_month leap m =
     (if m = 2 then (if leap then 29 else 28) else if m = 4 \<or> m = 6 \<or> m = 9 \<or> m = 11 then 30 else 31)"

definition valid_date :: "int \<Rightarrow> int \<Rightarrow> int \<Rightarrow> bool" where
  "valid_date y m d \<longleftrightarrow> 1 \<le> m \<and> m \<le> 12 \<and> 1 \<le> d \<and> d \<le> days_in_month (leap_year y) m"

definition next_date :: "int \<Rightarrow> int \<Rightarrow> int \<Rightarrow> int \<times> int \<times> int" where
  "next_date y m d =
     (if d < days_in_month (leap_year y) m then (y, m, d + 1) else if m < 12 then (y, m + 1, 1) else (y + 1, 1, 1))"

text \<open>Months counted from March, and the day of such a year on which each starts.\<close>

definition march_month :: "int \<Rightarrow> int" where
  "march_month m = (if 2 < m then m - 3 else m + 9)"

definition month_of_march :: "int \<Rightarrow> int" where
  "month_of_march mp = (if mp < 10 then mp + 3 else mp - 9)"

definition month_start :: "int \<Rightarrow> int" where
  "month_start mp = (153 * mp + 2) div 5"

lemma day_of_year_table:
  "list_all (\<lambda>doy. let mp = (5 * doy + 2) div 153; m = month_of_march mp; d = doy - month_start mp + 1 in
     1 \<le> m \<and> m \<le> 12 \<and> 1 \<le> d \<and> d \<le> days_in_month True m \<and> march_month m = mp
     \<and> (doy < 365 \<longrightarrow> d \<le> days_in_month False m)) [0..365]"
  by code_simp

lemma month_table:
  "list_all (\<lambda>m. month_of_march (march_month m) = m \<and> list_all (\<lambda>d. let doy = month_start (march_month m) + d - 1 in
     0 \<le> doy \<and> doy \<le> 365 \<and> (5 * doy + 2) div 153 = march_month m
     \<and> (d \<le> days_in_month False m \<longrightarrow> doy < 365)) [1..days_in_month True m]) [1..12]"
  by code_simp

lemma leap_year_length:
  assumes "0 \<le> y" "y < 400"
  shows "leap_year (y + era * 400 + 1) \<longleftrightarrow> year_length y = 366"
proof -
  have "(y + era * 400 + 1) mod 4 = (y + 1) mod 4" "(y + era * 400 + 1) mod 100 = (y + 1) mod 100"
    "(y + era * 400 + 1) mod 400 = (y + 1) mod 400"
    using mod_mult_self1 [of "y + 1" "era * 100" 4] mod_mult_self1 [of "y + 1" "era * 4" 100]
      mod_mult_self1 [of "y + 1" era 400] by (simp_all add: algebra_simps)
  moreover have "(y + 1) mod 400 = 0 \<longleftrightarrow> y = 399"
    using assms by (cases "y = 399") (auto simp: mod_pos_pos_trivial)
  ultimately show ?thesis unfolding leap_year_def year_length_def by simp
qed

lemma days_in_month_leap: "days_in_month False m \<le> days_in_month b m" "days_in_month b m \<le> days_in_month True m"
  by (auto simp: days_in_month_def)

lemma days_in_month_other: "m \<noteq> 2 \<Longrightarrow> days_in_month b m = days_in_month c m"
  by (simp add: days_in_month_def)

text \<open>Days of an era year as dates, in both directions.\<close>

lemma date_of_day:
  assumes "0 \<le> y" "y < 400" "0 \<le> doy" "doy < year_length y"
    and "mp = (5 * doy + 2) div 153" "m = month_of_march mp" "d = doy - month_start mp + 1"
  shows "valid_date (y + era * 400 + (if m \<le> 2 then 1 else 0)) m d \<and> march_month m = mp"
proof -
  have "doy \<in> set [0..365]" using assms(3,4) by (auto simp: year_length_def split: if_splits)
  then have t: "1 \<le> m" "m \<le> 12" "1 \<le> d" "d \<le> days_in_month True m" "march_month m = mp"
    "doy < 365 \<Longrightarrow> d \<le> days_in_month False m"
    using day_of_year_table unfolding list_all_iff Let_def assms(5-7) by blast+
  have "d \<le> days_in_month (leap_year (y + era * 400 + (if m \<le> 2 then 1 else 0))) m"
  proof (cases "m = 2 \<and> doy = 365")
    case True
    then have "year_length y = 366" using assms(4) by (auto simp: year_length_def split: if_splits)
    then show ?thesis using True t(4) leap_year_length [OF assms(1,2)] by simp
  next
    case False
    show ?thesis
    proof (cases "m = 2")
      case True
      with False \<open>doy \<in> set [0..365]\<close> have "doy < 365" by auto
      then show ?thesis using t(6) days_in_month_leap(1) order_trans by blast
    next
      case False
      with t(4) days_in_month_other [OF False, of True] show ?thesis by metis
    qed
  qed
  with t show ?thesis by (simp add: valid_date_def)
qed

lemma day_of_date:
  assumes "valid_date (y + era * 400 + (if m \<le> 2 then 1 else 0)) m d" "0 \<le> y" "y < 400"
    and "doy = month_start (march_month m) + d - 1"
  shows "0 \<le> doy \<and> doy < year_length y \<and> (5 * doy + 2) div 153 = march_month m
    \<and> month_of_march (march_month m) = m"
proof -
  let ?leap = "leap_year (y + era * 400 + (if m \<le> 2 then 1 else 0))"
  have v: "1 \<le> m" "m \<le> 12" "1 \<le> d" "d \<le> days_in_month ?leap m" using assms(1) by (simp_all add: valid_date_def)
  have "m \<in> set [1..12]" "d \<in> set [1..days_in_month True m]"
    using v days_in_month_leap(2) [of ?leap m] by auto
  then have t: "month_of_march (march_month m) = m" "0 \<le> doy" "doy \<le> 365" "(5 * doy + 2) div 153 = march_month m"
    "d \<le> days_in_month False m \<Longrightarrow> doy < 365"
    using month_table unfolding list_all_iff Let_def assms(4) by blast+
  have "doy < year_length y"
  proof (cases "year_length y = 366")
    case False
    then have "m = 2 \<Longrightarrow> \<not> ?leap" using leap_year_length [OF assms(2,3)] by simp
    then have "d \<le> days_in_month False m" using v(4) days_in_month_other [of m ?leap False] by (cases "m = 2") auto
    with False t(5) show ?thesis by (simp add: year_length_def split: if_splits)
  qed (use t(3) in simp)
  with t show ?thesis by simp
qed

lemma civil_from_days_parts:
  assumes "era = (z + 719468) div 146097" "doe = (z + 719468) mod 146097" "y = year_of_era doe"
    and "mp = (5 * (doe - year_start y) + 2) div 153" "m = month_of_march mp"
  shows "civil_from_days z = (y + era * 400 + (if m \<le> 2 then 1 else 0), m, doe - year_start y - month_start mp + 1)"
  unfolding assms civil_from_days_def Let_def year_of_era_def year_start_def month_of_march_def month_start_def
  by (rule refl)

lemma days_from_civil_parts:
  assumes "0 \<le> y" "y < 400"
  shows "days_from_civil (y + era * 400 + (if m \<le> 2 then 1 else 0)) m d
    = era * 146097 + year_start y + (month_start (march_month m) + d - 1) - 719468"
proof -
  have "(y + era * 400) div 400 = era" "(y + era * 400) mod 400 = y" using assms by simp_all
  then show ?thesis
    unfolding days_from_civil_def Let_def march_month_def month_start_def year_start_def by simp
qed

lemma year_parts:
  obtains y era where "0 \<le> y" "y < 400" "year = y + era * 400 + (if m \<le> (2 :: int) then 1 else (0 :: int))"
proof (rule that)
  let ?y = "year - (if m \<le> 2 then 1 else 0)"
  show "0 \<le> ?y mod 400" "?y mod 400 < 400" by simp_all
  show "year = ?y mod 400 + ?y div 400 * 400 + (if m \<le> 2 then 1 else 0)" by simp
qed

lemma civil_days_roundtrip:
  assumes "valid_date year m d"
  shows "civil_from_days (days_from_civil year m d) = (year, m, d)"
proof -
  obtain y era where y: "0 \<le> y" "y < 400" "year = y + era * 400 + (if m \<le> 2 then 1 else 0)" by (rule year_parts)
  define doy where "doy = month_start (march_month m) + d - 1"
  define z where "z = days_from_civil year m d"
  have day: "0 \<le> doy" "doy < year_length y" "(5 * doy + 2) div 153 = march_month m" "month_of_march (march_month m) = m"
    using day_of_date [OF assms [unfolded y(3)] y(1,2) doy_def] by simp_all
  have b: "0 \<le> year_start y" "year_start y \<le> 145731" using year_start_bounds y by simp_all
  have len: "year_start y + year_length y \<le> 146097"
    using year_start_next [of y] year_start_bounds [of "y + 1"] y(1,2)
    by (cases "y = 399") (simp_all add: year_start_def [of 399] year_length_def [of 399])
  have e: "z + 719468 = (year_start y + doy) + era * 146097"
    using days_from_civil_parts [OF y(1,2), of era m d] unfolding z_def y(3) doy_def by linarith
  have era: "era = (z + 719468) div 146097" and doe: "year_start y + doy = (z + 719468) mod 146097"
    unfolding e using b(1) day(1,2) len by (simp_all add: div_pos_pos_trivial mod_pos_pos_trivial)
  have yoe: "y = year_of_era (year_start y + doy)"
    using year_of_era_iff [of "year_start y + doy" y] y(1,2) b(1) day(1,2) len by simp
  have "march_month m = (5 * (year_start y + doy - year_start y) + 2) div 153" using day(3) by simp
  from civil_from_days_parts [OF era doe yoe this day(4) [symmetric]]
  have "civil_from_days z = (year, m, d)" unfolding y(3) by (simp add: doy_def)
  then show ?thesis by (simp only: z_def)
qed

lemma days_civil_roundtrip:
  obtains year m d where "civil_from_days z = (year, m, d)" "valid_date year m d" "days_from_civil year m d = z"
proof -
  define era where "era = (z + 719468) div 146097"
  define doe where "doe = (z + 719468) mod 146097"
  define y where "y = year_of_era doe"
  define mp where "mp = (5 * (doe - year_start y) + 2) div 153"
  define m where "m = month_of_march mp"
  define d where "d = doe - year_start y - month_start mp + 1"
  have bounds: "0 \<le> doe" "doe < 146097" by (simp_all add: doe_def)
  have y: "0 \<le> y" "y < 400" using year_of_era_bounds [OF bounds] by (simp_all add: y_def)
  have doy: "0 \<le> doe - year_start y" "doe - year_start y < year_length y"
    using year_of_era_iff [OF bounds y] by (simp_all add: y_def)
  have v: "valid_date (y + era * 400 + (if m \<le> 2 then 1 else 0)) m d" "march_month m = mp"
    using date_of_day [OF y doy mp_def m_def d_def] by simp_all
  have "era * 146097 + doe = z + 719468" by (simp add: era_def doe_def)
  then have "days_from_civil (y + era * 400 + (if m \<le> 2 then 1 else 0)) m d = z"
    unfolding days_from_civil_parts [OF y] v(2) by (simp add: d_def)
  with that v(1) civil_from_days_parts [OF era_def doe_def y_def mp_def m_def, folded d_def] show thesis by blast
qed

text \<open>The day numbers count the calendar.\<close>

lemma era_year_unique:
  assumes "0 \<le> a" "a < 400" "0 \<le> b" "b < 400" "a + e * 400 = b + f * (400 :: int)"
  shows "a = b" "e = f"
proof -
  have "(a + e * 400) mod 400 = a" "(b + f * 400) mod 400 = b" using assms(1-4) by simp_all
  then show "a = b" using assms(5) by simp
  then show "e = f" using assms(5) by simp
qed

lemma leap_day_arith:
  "year_start y' + era' * 146097 = year_start y + era * 146097 + year_length y"
  if "0 \<le> y" "y < 400" "0 \<le> y'" "y' < 400" "y' + era' * 400 = y + era * 400 + 1"
proof (cases "y = 399")
  case True
  then have "y' + era' * 400 = 0 + (era + 1) * 400" using that(5) by simp
  from era_year_unique [OF that(3,4) _ _ this] have "y' = 0" "era' = era + 1" by simp_all
  with True show ?thesis by (simp add: year_start_def year_length_def)
next
  case False
  have "y' + era' * 400 = (y + 1) + era * 400" using that(5) by simp
  from era_year_unique [OF that(3,4) _ _ this] have "y' = y + 1" "era' = era" using False that(1,2) by simp_all
  then show ?thesis using year_start_next [of y] False that(1,2) by simp
qed

lemma month_start_next:
  assumes "1 \<le> m" "m \<le> 12" "m \<noteq> 2"
  shows "month_start (march_month (if m < 12 then m + 1 else 1)) = month_start (march_month m) + days_in_month b m"
proof -
  have "m = 1 \<or> m = 3 \<or> m = 4 \<or> m = 5 \<or> m = 6 \<or> m = 7 \<or> m = 8 \<or> m = 9 \<or> m = 10 \<or> m = 11 \<or> m = 12"
    using assms by presburger
  then show ?thesis by (elim disjE) (simp_all add: march_month_def month_start_def days_in_month_def)
qed

lemma next_date_counts:
  assumes "valid_date year m d" "next_date year m d = (year', m', d')"
  shows "days_from_civil year' m' d' = days_from_civil year m d + 1"
proof (cases "m = 2 \<and> m' = 3")
  case False
  have v: "1 \<le> m" "m \<le> 12" "d \<le> days_in_month (leap_year year) m" using assms(1) by (simp_all add: valid_date_def)
  obtain y era where y: "0 \<le> y" "y < 400" "year = y + era * 400 + (if m \<le> 2 then 1 else 0)" by (rule year_parts)
  note parts = days_from_civil_parts [OF y(1,2), of era]
  show ?thesis
  proof (cases "d < days_in_month (leap_year year) m")
    case True
    with assms(2) have "year' = year" "m' = m" "d' = d + 1" by (simp_all add: next_date_def)
    then show ?thesis using parts [of m d] parts [of m "d + 1"] by (simp only: y(3))
  next
    case last: False
    with assms(2) have n: "m' = (if m < 12 then m + 1 else 1)" "d' = 1" "year' = (if m < 12 then year else year + 1)"
      by (auto simp: next_date_def split: if_splits)
    with False have "m \<noteq> 2" by auto
    with n(1,3) v(1,2) have "year' = y + era * 400 + (if m' \<le> 2 then 1 else 0)" by (auto simp: y(3))
    moreover have "d = days_in_month (leap_year year) m" using last v(3) by simp
    ultimately show ?thesis
      using month_start_next [OF v(1,2) \<open>m \<noteq> 2\<close>, of "leap_year year"] parts [of m d] parts [of m' 1] n(1,2)
      by (simp only: y(3))
  qed
next
  case True
  then have m: "m = 2" "m' = 3" "d' = 1" "year' = year" "d = days_in_month (leap_year year) 2"
    using assms by (auto simp: next_date_def valid_date_def split: if_splits)
  obtain y era where y: "0 \<le> y" "y < 400" "year = y + era * 400 + (if (2 :: int) \<le> 2 then 1 else 0)" by (rule year_parts)
  obtain y' era' where y': "0 \<le> y'" "y' < 400" "year = y' + era' * 400 + (if (3 :: int) \<le> 2 then 1 else 0)" by (rule year_parts)
  have "year_start y' + era' * 146097 = year_start y + era * 146097 + year_length y"
    using leap_day_arith [OF y(1,2) y'(1,2)] y(3) y'(3) by simp
  moreover have "d = year_length y - 337"
    using leap_year_length [OF y(1,2), of era] y(3) m(5) by (auto simp: days_in_month_def year_length_def)
  ultimately show ?thesis
    using days_from_civil_parts [OF y(1,2), of era 2 d] days_from_civil_parts [OF y'(1,2), of era' 3 1] y(3) y'(3)
    by (simp add: m(1-4) march_month_def month_start_def)
qed

section \<open>Properties\<close>

text \<open>
  The date arithmetic is the Gregorian calendar: every day number is displayed as the date that
  \<open>days_from_civil\<close> maps back to it, that date exists, leap days included, every existing date is
  displayed as itself, the next date has the next day number, and day 0 is 1970-01-01.
\<close>

theorem calendar_exact:
  "(\<exists>year month day. civil_from_days z = (year, month, day) \<and> valid_date year month day
      \<and> days_from_civil year month day = z)
   \<and> (valid_date y m d \<longrightarrow> civil_from_days (days_from_civil y m d) = (y, m, d)
      \<and> (\<forall>y' m' d'. next_date y m d = (y', m', d') \<longrightarrow> days_from_civil y' m' d' = days_from_civil y m d + 1))
   \<and> days_from_civil 1970 1 1 = 0"
proof (intro conjI impI)
  show "\<exists>year month day. civil_from_days z = (year, month, day) \<and> valid_date year month day
      \<and> days_from_civil year month day = z"
    using days_civil_roundtrip [of z] by metis
  show "days_from_civil 1970 1 1 = 0" by (simp add: days_from_civil_def)
qed (use civil_days_roundtrip next_date_counts in blast)+

theorem calendar_exact_witness:
  "civil_from_days (days_from_civil 2024 2 29) = (2024, 2, 29) \<and> days_from_civil 2024 3 1 = days_from_civil 2024 2 29 + 1"
proof -
  have "valid_date 2024 2 29" "next_date 2024 2 29 = (2024, 3, 1)"
    by (simp_all add: valid_date_def next_date_def days_in_month_def leap_year_def)
  with calendar_exact [of 0 2024 2 29] show ?thesis by blast
qed

end
