(* ===== verification/RateLimit.thy ===== *)
theory RateLimit
  imports Prelude
begin

text \<open>
  The fixed-window rate limiter (\<open>src/crates/common/src/ratelimit.rs\<close>), with its window sweep and its
  optional FIFO bound on tracked keys. Without the bound it is compared with a reference that counts
  over the whole history.
\<close>

record 'k keyed_rate_limiter =
  rl_max_per_window :: u32
  rl_counters :: "('k, u64 \<times> u32) hmap"
  rl_last_swept_window :: u64
  rl_max_tracked_keys :: "nat option"
  rl_insertion_order :: "'k list"

definition limiter_new :: "u32 \<Rightarrow> 'k keyed_rate_limiter" where
  "limiter_new max_per_window =
     \<lparr>rl_max_per_window = max_per_window, rl_counters = hm_empty, rl_last_swept_window = 0,
      rl_max_tracked_keys = None, rl_insertion_order = []\<rparr>"

definition with_max_tracked_keys :: "u32 \<Rightarrow> nat \<Rightarrow> 'k keyed_rate_limiter" where
  "with_max_tracked_keys max_per_window cap =
     \<lparr>rl_max_per_window = max_per_window, rl_counters = hm_empty, rl_last_swept_window = 0,
      rl_max_tracked_keys = Some cap, rl_insertion_order = []\<rparr>"

text \<open>The sweep at a window transition.\<close>

definition sweep :: "'k keyed_rate_limiter \<Rightarrow> u64 \<Rightarrow> 'k keyed_rate_limiter" where
  "sweep l window =
     (if rl_last_swept_window l < window then
        let counters = hm_retain (\<lambda>_ (w, _). window \<le> w) (rl_counters l) in
        l\<lparr>rl_counters := counters,
          rl_insertion_order := (if rl_max_tracked_keys l \<noteq> None
             then filter (hm_contains counters) (rl_insertion_order l) else rl_insertion_order l),
          rl_last_swept_window := window\<rparr>
      else l)"

text \<open>The \<open>while let Some(oldest) = pop_front()\<close> loop.\<close>

fun evict_oldest :: "'k list \<Rightarrow> ('k, 'v) hmap \<Rightarrow> 'k list \<times> ('k, 'v) hmap" where
  "evict_oldest [] m = ([], m)"
| "evict_oldest (oldest # order) m =
     (if hm_get m oldest \<noteq> None then (order, hm_remove oldest m) else evict_oldest order m)"

text \<open>Room for a new key, and its place in the eviction order.\<close>

definition make_room :: "'k keyed_rate_limiter \<Rightarrow> 'k \<Rightarrow> 'k keyed_rate_limiter" where
  "make_room l key =
     (if hm_contains (rl_counters l) key then l
      else case rl_max_tracked_keys l of
        None \<Rightarrow> l
      | Some cap \<Rightarrow>
          (let (order, counters) = (if cap \<le> hm_len (rl_counters l)
                 then evict_oldest (rl_insertion_order l) (rl_counters l)
                 else (rl_insertion_order l, rl_counters l))
           in l\<lparr>rl_insertion_order := order @ [key], rl_counters := counters\<rparr>))"

definition allow :: "'k keyed_rate_limiter \<Rightarrow> 'k \<Rightarrow> u64 \<Rightarrow> bool \<times> 'k keyed_rate_limiter" where
  "allow l key window =
     (let l = make_room (sweep l window) key;
          entry = (case hm_get (rl_counters l) key of None \<Rightarrow> (window, 0) | Some e \<Rightarrow> e);
          entry = (if fst entry \<noteq> window then (window, 0) else entry)
      in if rl_max_per_window l \<le> snd entry
         then (False, l\<lparr>rl_counters := hm_insert key entry (rl_counters l)\<rparr>)
         else (True, l\<lparr>rl_counters := hm_insert key (window, snd entry + 1) (rl_counters l)\<rparr>))"

definition tracked_keys :: "'k keyed_rate_limiter \<Rightarrow> nat" where
  "tracked_keys l = hm_len (rl_counters l)"

definition over_limit :: "'k keyed_rate_limiter \<Rightarrow> 'k \<Rightarrow> u64 \<Rightarrow> bool" where
  "over_limit l key window =
     (case hm_get (rl_counters l) key of
        Some (w, count) \<Rightarrow> w = window \<and> rl_max_per_window l \<le> count
      | None \<Rightarrow> False)"

section \<open>The reference: counting over the history of admitted calls\<close>

definition attempt :: "'k keyed_rate_limiter \<Rightarrow> 'k \<times> u64 \<Rightarrow> bool \<times> 'k keyed_rate_limiter" where
  "attempt l call = allow l (fst call) (snd call)"

definition count_attempt :: "u32 \<Rightarrow> ('k \<times> u64) list \<Rightarrow> 'k \<times> u64 \<Rightarrow> bool \<times> ('k \<times> u64) list" where
  "count_attempt m h call =
     (if count_list h call < unat m then (True, call # h) else (False, h))"

section \<open>Exactness without the bound\<close>

definition counted :: "'k keyed_rate_limiter \<Rightarrow> 'k \<Rightarrow> u64 \<Rightarrow> nat" where
  "counted l k w = (case hm_get (rl_counters l) k of None \<Rightarrow> 0 | Some (w', c) \<Rightarrow> if w' = w then unat c else 0)"

definition follows :: "'k keyed_rate_limiter \<Rightarrow> ('k \<times> u64) list \<Rightarrow> u64 \<Rightarrow> bool" where
  "follows l h t \<longleftrightarrow> hm_wf (rl_counters l) \<and> rl_max_tracked_keys l = None
     \<and> (\<forall>k w' c. hm_get (rl_counters l) k = Some (w', c) \<longrightarrow> w' \<le> t)
     \<and> (\<forall>k w. t \<le> w \<longrightarrow> count_list h (k, w) = counted l k w)"

lemma sweep_get:
  assumes "hm_wf (rl_counters l)" "rl_last_swept_window l < window"
  shows "hm_get (rl_counters (sweep l window)) k =
    (case hm_get (rl_counters l) k of None \<Rightarrow> None | Some (w, c) \<Rightarrow> if window \<le> w then Some (w, c) else None)"
  using assms by (auto simp: sweep_def hm.get_retain Let_def split: option.splits)

lemma sweep_wf [simp]: "hm_wf (rl_counters l) \<Longrightarrow> hm_wf (rl_counters (sweep l window))"
  by (simp add: sweep_def Let_def)

lemma sweep_fields [simp]:
  "rl_max_tracked_keys (sweep l window) = rl_max_tracked_keys l"
  "rl_max_per_window (sweep l window) = rl_max_per_window l"
  by (simp_all add: sweep_def Let_def)

lemma follows_sweep:
  assumes "follows l h t" "t \<le> window"
  shows "follows (sweep l window) h window"
proof (cases "rl_last_swept_window l < window")
  case True
  have wf: "hm_wf (rl_counters l)" using assms(1) by (simp add: follows_def)
  have "counted (sweep l window) k w = counted l k w" if "window \<le> w" for k w
    using that by (auto simp: counted_def sweep_get [OF wf True] split: option.splits)
  with assms wf show ?thesis
    by (fastforce simp: follows_def sweep_get [OF wf True] split: option.splits if_splits)
next
  case False
  then have "sweep l window = l" by (simp add: sweep_def)
  with assms show ?thesis by (fastforce simp: follows_def)
qed

lemma make_room_unbounded: "rl_max_tracked_keys l = None \<Longrightarrow> make_room l key = l"
  by (simp add: make_room_def)

lemma unat_suc: "c < m \<Longrightarrow> unat (c + 1) = Suc (unat (c :: u32))"
  using unat_bound [of m] by (simp add: word_less_nat_alt unat_word_ariths)

lemma counted_future: "follows l h t \<Longrightarrow> t < w \<Longrightarrow> counted l k w = 0"
  by (fastforce simp: follows_def counted_def split: option.splits)

lemma follows_set:
  assumes f: "follows l h window" and key: "count_list h' (key, window) = unat c"
    and other: "\<And>k w. (k, w) \<noteq> (key, window) \<Longrightarrow> count_list h' (k, w) = count_list h (k, w)"
  shows "follows (l\<lparr>rl_counters := hm_insert key (window, c) (rl_counters l)\<rparr>) h' window"
proof -
  let ?l = "l\<lparr>rl_counters := hm_insert key (window, c) (rl_counters l)\<rparr>"
  have "count_list h' (k, w) = counted ?l k w" if "window \<le> w" for k w
  proof (cases "k = key")
    case True
    then show ?thesis
      using that key other [of key w] f counted_future [OF f, of w key]
      by (cases "w = window") (auto simp: counted_def [of ?l] follows_def)
  next
    case False
    then have "counted ?l k w = counted l k w" by (simp add: counted_def)
    with False that other [of k w] f show ?thesis by (simp add: follows_def)
  qed
  with f show ?thesis by (auto simp: follows_def split: if_splits)
qed

lemma allow_follows:
  assumes "follows l h t" "t \<le> window"
  shows "fst (allow l key window) \<longleftrightarrow> count_list h (key, window) < unat (rl_max_per_window l)"
    and "follows (snd (allow l key window))
      (if fst (allow l key window) then (key, window) # h else h) window"
    and "rl_max_per_window (snd (allow l key window)) = rl_max_per_window l"
proof -
  let ?l = "sweep l window"
  have f: "follows ?l h window" by (rule follows_sweep [OF assms])
  then have room: "make_room ?l key = ?l" by (simp add: make_room_unbounded follows_def)
  let ?e = "case hm_get (rl_counters ?l) key of None \<Rightarrow> (window, 0) | Some e \<Rightarrow> e"
  let ?c = "if fst ?e \<noteq> window then 0 else snd ?e"
  have c: "counted ?l key window = unat ?c" by (auto simp: counted_def split: option.splits)
  have eq: "(if fst ?e \<noteq> window then (window, 0) else ?e) = (window, ?c)" by (cases ?e) simp
  have allow: "allow l key window =
      (if rl_max_per_window l \<le> ?c then (False, ?l\<lparr>rl_counters := hm_insert key (window, ?c) (rl_counters ?l)\<rparr>)
       else (True, ?l\<lparr>rl_counters := hm_insert key (window, ?c + 1) (rl_counters ?l)\<rparr>))"
    unfolding allow_def room Let_def eq by simp
  have n: "count_list h (key, window) = unat ?c" using f c by (simp add: follows_def)
  then show ok: "fst (allow l key window) \<longleftrightarrow> count_list h (key, window) < unat (rl_max_per_window l)"
    unfolding allow by (simp add: word_le_nat_alt not_le)
  show "rl_max_per_window (snd (allow l key window)) = rl_max_per_window l"
    unfolding allow by simp
  show "follows (snd (allow l key window)) (if fst (allow l key window) then (key, window) # h else h) window"
  proof (cases "rl_max_per_window l \<le> ?c")
    case True
    with follows_set [OF f n] show ?thesis unfolding allow by simp
  next
    case False
    then have "unat (?c + 1) = Suc (unat ?c)" by (intro unat_suc [of _ "rl_max_per_window l"]) simp
    then have "follows (?l\<lparr>rl_counters := hm_insert key (window, ?c + 1) (rl_counters ?l)\<rparr>) ((key, window) # h) window"
      using n by (intro follows_set [OF f]) auto
    with False show ?thesis unfolding allow by simp
  qed
qed

definition limiter_follows :: "u32 \<Rightarrow> 'k keyed_rate_limiter \<Rightarrow> ('k \<times> u64) list \<Rightarrow> u64 \<Rightarrow> bool" where
  "limiter_follows m l h t \<longleftrightarrow> follows l h t \<and> rl_max_per_window l = m"

lemma limiter_step:
  assumes "limiter_follows m l h t" "t \<le> snd call"
  shows "fst (attempt l call) = fst (count_attempt m h call)"
    and "limiter_follows m (snd (attempt l call)) (snd (count_attempt m h call)) (snd call)"
  using assms allow_follows [of l h t "snd call" "fst call"]
  by (auto simp: attempt_def count_attempt_def limiter_follows_def split: if_splits)

interpretation limiter: timed_refinement attempt "count_attempt m" snd "limiter_follows m" for m
  by unfold_locales (fact limiter_step)+

section \<open>The bound on tracked keys\<close>

definition bounded :: "'k keyed_rate_limiter \<Rightarrow> nat \<Rightarrow> bool" where
  "bounded l cap \<longleftrightarrow> hm_wf (rl_counters l) \<and> rl_max_tracked_keys l = Some cap
     \<and> dom (hm_get (rl_counters l)) \<subseteq> set (rl_insertion_order l) \<and> hm_len (rl_counters l) \<le> max 1 cap"

lemma dom_subD: "dom m \<subseteq> A \<Longrightarrow> m x = Some y \<Longrightarrow> x \<in> A"
  by auto

lemma bounded_sweep: "bounded l cap \<Longrightarrow> bounded (sweep l window) cap"
proof -
  assume b: "bounded l cap"
  let ?c = "hm_retain (\<lambda>_ (w, _). window \<le> w) (rl_counters l)"
  have "hm_len ?c \<le> hm_len (rl_counters l)" "dom (hm_get ?c) \<subseteq> dom (hm_get (rl_counters l))"
    using b hm.len_retain_le hm.dom_retain unfolding bounded_def by blast+
  with b show ?thesis
    by (auto simp: bounded_def sweep_def Let_def hm_contains_iff)
qed

lemma evict_oldest_spec:
  assumes "hm_wf m" "dom (hm_get m) \<subseteq> set order"
  shows "hm_wf (snd (evict_oldest order m)) \<and> dom (hm_get (snd (evict_oldest order m))) \<subseteq> set (fst (evict_oldest order m))
    \<and> hm_len (snd (evict_oldest order m)) = hm_len m - 1"
  using assms
proof (induction order m rule: evict_oldest.induct)
  case (1 m)
  then show ?case by (simp add: hm.len_card)
next
  case (2 oldest order m)
  show ?case
  proof (cases "hm_get m oldest")
    case None
    then have "dom (hm_get m) \<subseteq> set order" using 2(3) by auto
    with 2(1,2) None show ?thesis by simp
  next
    case (Some v)
    with 2(2,3) hm.len_rem_old [of m oldest] show ?thesis
      by (auto dest: dom_subD split: if_splits)
  qed
qed

lemma make_room_bounded:
  assumes "bounded l cap"
  shows "hm_wf (rl_counters (make_room l key)) \<and> rl_max_tracked_keys (make_room l key) = Some cap
    \<and> insert key (dom (hm_get (rl_counters (make_room l key)))) \<subseteq> set (rl_insertion_order (make_room l key))
    \<and> hm_len (hm_insert key e (rl_counters (make_room l key))) \<le> max 1 cap"
proof (cases "hm_get (rl_counters l) key")
  case None
  have b: "hm_wf (rl_counters l)" "dom (hm_get (rl_counters l)) \<subseteq> set (rl_insertion_order l)"
    "hm_len (rl_counters l) \<le> max 1 cap" "rl_max_tracked_keys l = Some cap"
    using assms by (simp_all add: bounded_def)
  note ev = evict_oldest_spec [OF b(1,2)]
  show ?thesis
  proof (cases "cap \<le> hm_len (rl_counters l)")
    case True
    with None b ev hm.len_ins_le [of "snd (evict_oldest (rl_insertion_order l) (rl_counters l))" key e]
    show ?thesis by (auto simp: make_room_def hm_contains_def split: prod.splits dest: dom_subD)
  next
    case False
    with None b hm.len_ins_le [of "rl_counters l" key e] show ?thesis
      by (auto simp: make_room_def hm_contains_def)
  qed
next
  case (Some v)
  with assms hm.len_ins_old [of "rl_counters l" key e] show ?thesis
    by (auto simp: make_room_def hm_contains_def bounded_def)
qed

lemma bounded_allow:
  assumes "bounded l cap"
  shows "bounded (snd (allow l key window)) cap"
proof -
  note room = make_room_bounded [OF bounded_sweep [OF assms], of window key]
  show ?thesis
    using room by (auto simp: bounded_def allow_def Let_def hm.dom_ins)
qed

fun after_calls :: "'k keyed_rate_limiter \<Rightarrow> ('k \<times> u64) list \<Rightarrow> 'k keyed_rate_limiter" where
  "after_calls l [] = l"
| "after_calls l ((key, window) # calls) = after_calls (snd (allow l key window)) calls"

lemma bounded_after: "bounded l cap \<Longrightarrow> bounded (after_calls l calls) cap"
  by (induction l calls rule: after_calls.induct) (auto simp: bounded_allow)

section \<open>Properties\<close>

text \<open>
  Without a key bound and with windows that never go back, the sweep is invisible: an attempt is
  admitted exactly when fewer than \<open>max_per_window\<close> attempts of that key were admitted in that
  window before.
\<close>

theorem rate_limiter_exact:
  assumes "sorted (map snd calls)"
  shows "outputs attempt (limiter_new m) calls = outputs (count_attempt m) [] calls"
proof (rule limiter.outputs_agree)
  show "limiter_follows m (limiter_new m) [] 0"
    by (simp add: limiter_follows_def follows_def limiter_new_def counted_def)
  show "sorted (0 # map snd calls)" using assms by simp
qed

theorem rate_limiter_exact_witness:
  "outputs attempt (limiter_new 2) [(1 :: nat, 5), (1, 5), (2, 5), (1, 5), (1, 6)]
     = [True, True, True, False, True]"
  using rate_limiter_exact [of "[(1 :: nat, 5), (1, 5), (2, 5), (1, 5), (1, 6)]" 2]
  by (simp add: count_attempt_def)

text \<open>
  With a key bound, memory stays bounded whatever keys and windows an attacker chooses, in any
  order: no more than the cap (at least one) keys are ever tracked.
\<close>

theorem rate_limiter_bounded:
  "tracked_keys (after_calls (with_max_tracked_keys m cap) calls) \<le> max 1 cap"
proof -
  have "bounded (with_max_tracked_keys m cap :: 'a keyed_rate_limiter) cap"
    by (auto simp: bounded_def with_max_tracked_keys_def hm_empty_def hm_len_def hm_get_def hm_wf_def)
  from bounded_after [OF this, of calls] show ?thesis by (simp add: bounded_def tracked_keys_def)
qed

end
