(* ===== verification/Policy.thy ===== *)
theory Policy
  imports Text Collections "HOL-Library.Product_Lexorder"
begin

text \<open>
  The mesh policy engine (\<open>src/crates/common/src/policy.rs\<close>): default-deny allow-rules, mandatory
  no-write-down over ordered levels, the desired channels of a declared network and their
  reconciliation with the live ones. Strings are their UTF-8 bytes.
\<close>

record agent =
  ag_id :: bytes
  ag_group :: bytes
  ag_label :: bytes

type_synonym levels = "bytes list"

fun position_from :: "nat \<Rightarrow> bytes \<Rightarrow> bytes list \<Rightarrow> nat option" where
  "position_from i label [] = None"
| "position_from i label (l # ls) = (if l = label then Some i else position_from (Suc i) label ls)"

definition rank :: "levels \<Rightarrow> bytes \<Rightarrow> nat option" where
  "rank order label = position_from 0 label order"

record selector =
  se_group :: "bytes option"
  se_label :: "bytes option"

definition selector_any :: selector where
  "selector_any = \<lparr>se_group = None, se_label = None\<rparr>"

definition selector_group :: "bytes \<Rightarrow> selector" where
  "selector_group g = \<lparr>se_group = Some g, se_label = None\<rparr>"

definition selector_matches :: "selector \<Rightarrow> agent \<Rightarrow> bool" where
  "selector_matches s a \<longleftrightarrow>
     (case se_group s of None \<Rightarrow> True | Some g \<Rightarrow> g = ag_group a)
     \<and> (case se_label s of None \<Rightarrow> True | Some l \<Rightarrow> l = ag_label a)"

record allow_rule =
  ru_from :: selector
  ru_to :: selector

record mesh_policy =
  po_levels :: levels
  po_rules :: "allow_rule list"
  po_mac_flow_control :: bool

record decision =
  de_allowed :: bool
  de_reason :: bytes

definition decision_deny :: "bytes \<Rightarrow> decision" where
  "decision_deny reason = \<lparr>de_allowed = False, de_reason = reason\<rparr>"

definition decision_allow :: "bytes \<Rightarrow> decision" where
  "decision_allow reason = \<lparr>de_allowed = True, de_reason = reason\<rparr>"

datatype verdict = MacWriteDown | MacUnknownLevel | RuleAllowed | DefaultDeny

definition verdict_allowed :: "verdict \<Rightarrow> bool" where
  "verdict_allowed v \<longleftrightarrow> v = RuleAllowed"

definition rule_verdict :: "mesh_policy \<Rightarrow> agent \<Rightarrow> agent \<Rightarrow> verdict" where
  "rule_verdict p frm to =
     (if list_ex (\<lambda>r. selector_matches (ru_from r) frm \<and> selector_matches (ru_to r) to) (po_rules p)
      then RuleAllowed else DefaultDeny)"

definition decide :: "mesh_policy \<Rightarrow> agent \<Rightarrow> agent \<Rightarrow> verdict" where
  "decide p frm to =
     (if po_mac_flow_control p then
        (case (rank (po_levels p) (ag_label frm), rank (po_levels p) (ag_label to)) of
           (Some rf, Some rt) \<Rightarrow> if rt < rf then MacWriteDown else rule_verdict p frm to
         | _ \<Rightarrow> MacUnknownLevel)
      else rule_verdict p frm to)"

text \<open>\<open>{} ({}/{})\<close> of an agent.\<close>

definition agent_text :: "agent \<Rightarrow> bytes" where
  "agent_text a = ag_id a @ ascii '' ('' @ ag_group a @ ascii ''/'' @ ag_label a @ ascii '')''"

definition evaluate :: "mesh_policy \<Rightarrow> agent \<Rightarrow> agent \<Rightarrow> decision" where
  "evaluate p frm to =
     (case decide p frm to of
        MacWriteDown \<Rightarrow> decision_deny (ascii ''MAC write-down blocked: '' @ ag_id frm @ ascii '' ('' @ ag_label frm
          @ ascii '') may not initiate a flow to lower level '' @ ag_id to @ ascii '' ('' @ ag_label to @ ascii '')'')
      | MacUnknownLevel \<Rightarrow> decision_deny (ascii ''MAC enabled but a label is not a known level (from=''
          @ ag_label frm @ ascii '', to='' @ ag_label to @ ascii '')'')
      | RuleAllowed \<Rightarrow> decision_allow (ascii ''allowed: an allow-rule permits '' @ agent_text frm @ ascii '' -> ''
          @ agent_text to)
      | DefaultDeny \<Rightarrow> decision_deny (ascii ''default-deny: no allow-rule permits '' @ agent_text frm
          @ ascii '' -> '' @ agent_text to))"

definition allows :: "mesh_policy \<Rightarrow> agent \<Rightarrow> agent \<Rightarrow> bool" where
  "allows p frm to = verdict_allowed (decide p frm to)"

definition may_establish_channel :: "mesh_policy \<Rightarrow> agent \<Rightarrow> agent \<Rightarrow> decision" where
  "may_establish_channel p a b =
     (let ab = evaluate p a b in
      if \<not> de_allowed ab then ab
      else let ba = evaluate p b a in
        if \<not> de_allowed ba then ba
        else decision_allow (ascii ''allowed: '' @ ag_id a @ ascii '' and '' @ ag_id b
          @ ascii '' may establish a channel (both directions permitted)''))"

definition may_establish_channel_allows :: "mesh_policy \<Rightarrow> agent \<Rightarrow> agent \<Rightarrow> bool" where
  "may_establish_channel_allows p a b \<longleftrightarrow> allows p a b \<and> allows p b a"

section \<open>Networks\<close>

type_synonym id_pair = "bytes \<times> bytes"

definition pair_new :: "bytes \<Rightarrow> bytes \<Rightarrow> id_pair" where
  "pair_new a b = (if a \<le> b then (a, b) else (b, a))"

record network =
  nw_agents :: "agent list"
  nw_policy :: mesh_policy

text \<open>The error carries the repeated id.\<close>

fun first_duplicate :: "bytes list \<Rightarrow> agent list \<Rightarrow> bytes option" where
  "first_duplicate seen [] = None"
| "first_duplicate seen (a # as) =
     (if ag_id a \<in> set seen then Some (ag_id a) else first_duplicate (ag_id a # seen) as)"

definition network_validate :: "network \<Rightarrow> bytes + unit" where
  "network_validate n = (case first_duplicate [] (nw_agents n) of Some i \<Rightarrow> Err i | None \<Rightarrow> Ok ())"

definition explain :: "network \<Rightarrow> bytes \<Rightarrow> bytes \<Rightarrow> decision" where
  "explain n a_id b_id =
     (case (find (\<lambda>x. ag_id x = a_id) (nw_agents n), find (\<lambda>x. ag_id x = b_id) (nw_agents n)) of
        (Some a, Some b) \<Rightarrow> may_establish_channel (nw_policy n) a b
      | _ \<Rightarrow> decision_deny (ascii ''not both members of the network: '' @ a_id @ ascii '' / '' @ b_id))"

fun channels_from :: "mesh_policy \<Rightarrow> agent list \<Rightarrow> id_pair list \<Rightarrow> id_pair list" where
  "channels_from p [] out = out"
| "channels_from p (a # rest) out =
     channels_from p rest (foldl (\<lambda>out b.
        if ag_id a = ag_id b then out
        else if may_establish_channel_allows p a b then bts_insert (pair_new (ag_id a) (ag_id b)) out
        else out) out rest)"

definition desired_channels :: "network \<Rightarrow> id_pair list" where
  "desired_channels n = channels_from (nw_policy n) (nw_agents n) []"

record reconciliation =
  re_to_establish :: "id_pair list"
  re_to_revoke :: "id_pair list"

definition reconciliation_is_empty :: "reconciliation \<Rightarrow> bool" where
  "reconciliation_is_empty r \<longleftrightarrow> re_to_establish r = [] \<and> re_to_revoke r = []"

definition reconcile :: "id_pair list \<Rightarrow> id_pair list \<Rightarrow> reconciliation" where
  "reconcile desired current =
     \<lparr>re_to_establish = filter (\<lambda>p. p \<notin> set current) desired,
      re_to_revoke = filter (\<lambda>p. p \<notin> set desired) current\<rparr>"

section \<open>Lemmas\<close>

lemma evaluate_allowed: "de_allowed (evaluate p a b) \<longleftrightarrow> allows p a b"
  by (simp add: evaluate_def allows_def verdict_allowed_def decision_deny_def decision_allow_def split: verdict.split)

lemma may_establish_allowed: "de_allowed (may_establish_channel p a b) \<longleftrightarrow> may_establish_channel_allows p a b"
  by (auto simp: may_establish_channel_def may_establish_channel_allows_def evaluate_allowed Let_def decision_allow_def)

lemma allows_iff:
  "allows p a b \<longleftrightarrow>
     list_ex (\<lambda>r. selector_matches (ru_from r) a \<and> selector_matches (ru_to r) b) (po_rules p)
     \<and> (po_mac_flow_control p \<longrightarrow> (\<exists>i j. rank (po_levels p) (ag_label a) = Some i
          \<and> rank (po_levels p) (ag_label b) = Some j \<and> i \<le> j))"
  by (auto simp: allows_def decide_def rule_verdict_def verdict_allowed_def split: option.splits)

lemma position_from_bound: "position_from i l ls = Some j \<Longrightarrow> i \<le> j \<and> j - i < length ls \<and> ls ! (j - i) = l"
  by (induction i l ls rule: position_from.induct) (auto simp: nth_Cons' split: if_splits)

lemma rank_label: "rank ls l = Some i \<Longrightarrow> ls ! i = l"
  using position_from_bound [of 0 l ls i] by (simp add: rank_def)

lemma pair_new_eq: "pair_new a b = pair_new c d \<longleftrightarrow> {a, b} = {c, d}"
  by (auto simp: pair_new_def doubleton_eq_iff)

lemma channels_fold:
  "set (foldl (\<lambda>out b. if ag_id a = ag_id b then out
        else if may_establish_channel_allows p a b then bts_insert (pair_new (ag_id a) (ag_id b)) out
        else out) out rest)
   = set out \<union> {pair_new (ag_id a) (ag_id b) | b. b \<in> set rest \<and> ag_id a \<noteq> ag_id b \<and> may_establish_channel_allows p a b}"
  by (induction rest arbitrary: out) auto

lemma channels_sorted: "sorted_wrt (<) out \<Longrightarrow> sorted_wrt (<) (channels_from p as out)"
proof (induction p as out rule: channels_from.induct)
  case (2 p a rest out)
  have "sorted_wrt (<) out \<Longrightarrow> sorted_wrt (<) (foldl (\<lambda>out b. if ag_id a = ag_id b then out
        else if may_establish_channel_allows p a b then bts_insert (pair_new (ag_id a) (ag_id b)) out
        else out) out rest)"
    by (induction rest arbitrary: out) (auto simp: sorted_bts_insert)
  with 2 show ?case by simp
qed simp

definition linked :: "mesh_policy \<Rightarrow> agent list \<Rightarrow> id_pair set" where
  "linked p as = {pair_new (ag_id a) (ag_id b) | a b. a \<in> set as \<and> b \<in> set as \<and> ag_id a \<noteq> ag_id b
     \<and> may_establish_channel_allows p a b}"

lemma may_establish_sym: "may_establish_channel_allows p a b = may_establish_channel_allows p b a"
  by (auto simp: may_establish_channel_allows_def)

lemma linked_Cons:
  "linked p (a # as) = {pair_new (ag_id a) (ag_id b) | b. b \<in> set as \<and> ag_id a \<noteq> ag_id b
     \<and> may_establish_channel_allows p a b} \<union> linked p as"
proof -
  have "pair_new x y = pair_new y x" for x y by (auto simp: pair_new_def)
  then show ?thesis by (auto simp: linked_def) (metis may_establish_sym)+
qed

lemma channels_from_set: "set (channels_from p as out) = set out \<union> linked p as"
proof (induction p as out rule: channels_from.induct)
  case (2 p a rest out)
  then show ?case by (simp only: channels_from.simps linked_Cons channels_fold) blast
qed (simp add: linked_def)

lemma first_duplicate_None:
  "first_duplicate seen as = None \<longleftrightarrow> distinct (map ag_id as) \<and> set seen \<inter> ag_id ` set as = {}"
  by (induction seen as rule: first_duplicate.induct) auto

lemma find_id:
  assumes "distinct (map ag_id as)"
  shows "find (\<lambda>x. ag_id x = i) as = Some a \<longleftrightarrow> a \<in> set as \<and> ag_id a = i"
  using assms by (induction as) (auto split: if_splits)

lemma allows_mac_rank:
  assumes "po_mac_flow_control p" "allows p a b"
  shows "\<exists>i j. rank (po_levels p) (ag_label a) = Some i \<and> rank (po_levels p) (ag_label b) = Some j \<and> i \<le> j"
  using assms by (simp add: allows_iff)

definition ex_mesh :: mesh_policy where
  "ex_mesh = \<lparr>po_levels = [[1], [2]], po_rules = [\<lparr>ru_from = selector_any, ru_to = selector_any\<rparr>],
     po_mac_flow_control = True\<rparr>"

definition ex_network :: network where
  "ex_network = \<lparr>nw_agents = [\<lparr>ag_id = [10], ag_group = [], ag_label = [1]\<rparr>,
     \<lparr>ag_id = [11], ag_group = [], ag_label = [1]\<rparr>, \<lparr>ag_id = [12], ag_group = [], ag_label = [2]\<rparr>],
     nw_policy = ex_mesh\<rparr>"

lemmas ex_mesh_defs = ex_mesh_def allows_def decide_def rank_def rule_verdict_def selector_any_def
  selector_matches_def verdict_allowed_def

section \<open>Properties\<close>

text \<open>
  C39. Mandatory flow control holds along every path, not only for one hop: with it on, a chain of
  permitted flows, through any intermediaries and whatever the allow-rules say, never ends at a lower
  level than it started; and a channel, which needs both directions, only joins agents of one label.
\<close>

theorem mac_no_write_down:
  assumes "po_mac_flow_control p"
  shows "(successively (allows p) (a # path) \<and> path \<noteq> [] \<longrightarrow>
      (\<exists>i j. rank (po_levels p) (ag_label a) = Some i \<and> rank (po_levels p) (ag_label (last path)) = Some j \<and> i \<le> j))
    \<and> (de_allowed (may_establish_channel p a b) \<longrightarrow> ag_label a = ag_label b)"
proof
  show "successively (allows p) (a # path) \<and> path \<noteq> [] \<longrightarrow>
      (\<exists>i j. rank (po_levels p) (ag_label a) = Some i \<and> rank (po_levels p) (ag_label (last path)) = Some j \<and> i \<le> j)"
  proof (induction path arbitrary: a)
    case (Cons b path)
    show ?case
    proof (intro impI)
      assume s: "successively (allows p) (a # b # path) \<and> b # path \<noteq> []"
      then obtain i j where ij: "rank (po_levels p) (ag_label a) = Some i" "rank (po_levels p) (ag_label b) = Some j" "i \<le> j"
        using allows_mac_rank [OF assms, of a b] by auto
      show "\<exists>i j. rank (po_levels p) (ag_label a) = Some i \<and> rank (po_levels p) (ag_label (last (b # path))) = Some j \<and> i \<le> j"
      proof (cases "path = []")
        case True
        with ij show ?thesis by simp
      next
        case False
        with Cons.IH [of b] s obtain k where "rank (po_levels p) (ag_label (last path)) = Some k" "j \<le> k"
          using ij(2) by auto
        with ij False show ?thesis by (intro exI [of _ i] exI [of _ k]) simp
      qed
    qed
  qed simp
  show "de_allowed (may_establish_channel p a b) \<longrightarrow> ag_label a = ag_label b"
  proof
    assume "de_allowed (may_establish_channel p a b)"
    then have "allows p a b" "allows p b a"
      by (simp_all add: may_establish_allowed may_establish_channel_allows_def)
    from allows_mac_rank [OF assms this(1)] allows_mac_rank [OF assms this(2)]
    obtain i where "rank (po_levels p) (ag_label a) = Some i" "rank (po_levels p) (ag_label b) = Some i" by auto
    then show "ag_label a = ag_label b" by (auto dest!: rank_label)
  qed
qed

theorem mac_no_write_down_witness:
  "ag_label (nw_agents ex_network ! 0) = ag_label (nw_agents ex_network ! 1)
   \<and> \<not> de_allowed (may_establish_channel ex_mesh (nw_agents ex_network ! 0) (nw_agents ex_network ! 2))"
  using mac_no_write_down [of ex_mesh "nw_agents ex_network ! 0" "[]" "nw_agents ex_network ! 2", THEN conjunct2]
  by (auto simp: ex_mesh_def ex_network_def)

text \<open>
  C40. The controller converges: for a network without repeated ids, the desired channels are exactly
  the pairs of distinct members that \<open>explain\<close> allows, each once and in order; tearing down and
  bringing up what \<open>reconcile\<close> lists turns any live set into the desired one, touches nothing twice,
  and lists nothing exactly when the two agree.
\<close>

theorem reconcile_converges:
  assumes "network_validate n = Ok ()"
  shows "(pair_new x y \<in> set (desired_channels n) \<longleftrightarrow> x \<noteq> y \<and> de_allowed (explain n x y))
    \<and> sorted_wrt (<) (desired_channels n)
    \<and> set (filter (\<lambda>c. c \<notin> set (re_to_revoke (reconcile (desired_channels n) current))) current
         @ re_to_establish (reconcile (desired_channels n) current)) = set (desired_channels n)
    \<and> set (re_to_establish (reconcile (desired_channels n) current))
        \<inter> set (re_to_revoke (reconcile (desired_channels n) current)) = {}
    \<and> (reconciliation_is_empty (reconcile (desired_channels n) current) \<longleftrightarrow> set current = set (desired_channels n))"
proof (intro conjI)
  have d: "distinct (map ag_id (nw_agents n))"
    using assms by (auto simp: network_validate_def first_duplicate_None split: option.splits)
  have "de_allowed (explain n x y) \<longleftrightarrow> (\<exists>a b. find (\<lambda>z. ag_id z = x) (nw_agents n) = Some a
      \<and> find (\<lambda>z. ag_id z = y) (nw_agents n) = Some b \<and> may_establish_channel_allows (nw_policy n) a b)"
    by (auto simp: explain_def may_establish_allowed decision_deny_def split: option.splits)
  then have ex: "de_allowed (explain n x y) \<longleftrightarrow> (\<exists>a b. (a \<in> set (nw_agents n) \<and> ag_id a = x)
      \<and> (b \<in> set (nw_agents n) \<and> ag_id b = y) \<and> may_establish_channel_allows (nw_policy n) a b)"
    by (simp only: find_id [OF d])
  have "pair_new x y \<in> linked (nw_policy n) (nw_agents n) \<longleftrightarrow> x \<noteq> y \<and> de_allowed (explain n x y)"
    unfolding ex linked_def using may_establish_sym
    by (fastforce simp: pair_new_eq doubleton_eq_iff)
  then show "pair_new x y \<in> set (desired_channels n) \<longleftrightarrow> x \<noteq> y \<and> de_allowed (explain n x y)"
    by (simp add: desired_channels_def channels_from_set)
  show "sorted_wrt (<) (desired_channels n)"
    unfolding desired_channels_def by (rule channels_sorted) simp
qed (auto simp: reconcile_def reconciliation_is_empty_def filter_empty_conv)

theorem reconcile_converges_witness:
  "pair_new [10] [11] \<in> set (desired_channels ex_network) \<and> pair_new [10] [12] \<notin> set (desired_channels ex_network)"
proof -
  have "network_validate ex_network = Ok ()" by (simp add: network_validate_def ex_network_def)
  from reconcile_converges [OF this, THEN conjunct1] show ?thesis
    by (simp add: ex_network_def explain_def may_establish_allowed may_establish_channel_allows_def ex_mesh_defs)
qed

end
