(* ===== verification/Hostname.thy ===== *)
theory Hostname
  imports Text
begin

text \<open>
  Hostnames of the browser plane (\<open>normalize_hostname\<close> in \<open>src/crates/common/src/lib.rs\<close>). The input
  is a Rust \<open>&str\<close>, here the sequence of its Unicode scalar values, because \<open>trim\<close> works on
  characters; lengths and character classes are those of its UTF-8 bytes, as in the source.
\<close>

type_synonym ustring = "nat list"

section \<open>Rust string operations\<close>

text \<open>The characters with the Unicode property White_Space.\<close>

definition char_is_whitespace :: "nat \<Rightarrow> bool" where
  "char_is_whitespace c \<longleftrightarrow> (9 \<le> c \<and> c \<le> 13) \<or> c = 0x20 \<or> c = 0x85 \<or> c = 0xA0 \<or> c = 0x1680
     \<or> (0x2000 \<le> c \<and> c \<le> 0x200A) \<or> c = 0x2028 \<or> c = 0x2029 \<or> c = 0x202F \<or> c = 0x205F \<or> c = 0x3000"

definition trim_end_by :: "(nat \<Rightarrow> bool) \<Rightarrow> ustring \<Rightarrow> ustring" where
  "trim_end_by P s = rev (dropWhile P (rev s))"

definition str_trim :: "ustring \<Rightarrow> ustring" where
  "str_trim s = trim_end_by char_is_whitespace (dropWhile char_is_whitespace s)"

definition char_to_ascii_lowercase :: "nat \<Rightarrow> nat" where
  "char_to_ascii_lowercase c = (if 0x41 \<le> c \<and> c \<le> 0x5A then c + 32 else c)"

definition utf8_char :: "nat \<Rightarrow> bytes" where
  "utf8_char c =
     (if c < 0x80 then [word_of_nat c]
      else if c < 0x800 then [word_of_nat (0xC0 + c div 64), word_of_nat (0x80 + c mod 64)]
      else if c < 0x10000 then
        [word_of_nat (0xE0 + c div 4096), word_of_nat (0x80 + c div 64 mod 64), word_of_nat (0x80 + c mod 64)]
      else [word_of_nat (0xF0 + c div 262144), word_of_nat (0x80 + c div 4096 mod 64),
        word_of_nat (0x80 + c div 64 mod 64), word_of_nat (0x80 + c mod 64)])"

definition utf8 :: "ustring \<Rightarrow> bytes" where
  "utf8 s = concat (map utf8_char s)"

text \<open>\<open>str::split\<close> on a character: an empty piece at either end where the separator stands there.\<close>

fun split_on :: "'a \<Rightarrow> 'a list \<Rightarrow> 'a list list" where
  "split_on d [] = [[]]"
| "split_on d (c # s) =
     (if c = d then [] # split_on d s
      else case split_on d s of [] \<Rightarrow> [[c]] | p # ps \<Rightarrow> (c # p) # ps)"

section \<open>Normalization\<close>

definition byte_is_ascii_alphanumeric :: "u8 \<Rightarrow> bool" where
  "byte_is_ascii_alphanumeric b \<longleftrightarrow> (0x30 \<le> b \<and> b \<le> 0x39) \<or> (0x41 \<le> b \<and> b \<le> 0x5A) \<or> (0x61 \<le> b \<and> b \<le> 0x7A)"

definition label_ok :: "ustring \<Rightarrow> bool" where
  "label_ok label \<longleftrightarrow> \<not> (label = [] \<or> 63 < length (utf8 label) \<or> take 1 label = [0x2D]
     \<or> take 1 (rev label) = [0x2D] \<or> \<not> list_all (\<lambda>b. byte_is_ascii_alphanumeric b \<or> b = 0x2D) (utf8 label))"

definition normalize_hostname :: "ustring \<Rightarrow> ustring option" where
  "normalize_hostname s =
     (let s = map char_to_ascii_lowercase (trim_end_by (\<lambda>c. c = 0x2E) (str_trim s)) in
      if s = [] \<or> 253 < length (utf8 s) then None
      else if list_all label_ok (split_on 0x2E s) then Some s else None)"

section \<open>Lemmas\<close>

lemma split_on_concat: "concat (map (\<lambda>p. d # p) (split_on d s)) = d # s"
  by (induction s) (auto split: list.splits)

lemma split_on_not_Nil [simp]: "split_on d s \<noteq> []"
  by (cases s) (auto split: list.splits)

lemma split_on_mem:
  assumes "c \<in> set s" "c \<noteq> d"
  obtains p where "p \<in> set (split_on d s)" "c \<in> set p"
proof -
  have "c \<in> set (concat (map (\<lambda>p. d # p) (split_on d s)))" using assms by (simp add: split_on_concat)
  with assms(2) that show thesis by auto
qed

lemma split_on_last:
  assumes "s \<noteq> []" "last s \<noteq> d"
  shows "\<exists>p. last (split_on d s) = p @ [last s]"
  using assms
proof (induction s)
  case (Cons c s)
  then show ?case by (cases "s = []") (auto split: list.splits)
qed simp

lemma split_on_single: "split_on d s = [p] \<Longrightarrow> s = p"
  using split_on_concat [of d s] by simp

lemma split_on_dot_last: "s \<noteq> [] \<Longrightarrow> last s = d \<Longrightarrow> last (split_on d s) = []"
proof (induction s)
  case (Cons c s)
  then show ?case
    using split_on_single [of d s "[]"] by (cases "s = []") (auto split: list.splits)
qed simp

definition dns_char :: "nat \<Rightarrow> bool" where
  "dns_char c \<longleftrightarrow> (0x30 \<le> c \<and> c \<le> 0x39) \<or> (0x61 \<le> c \<and> c \<le> 0x7A) \<or> c = 0x2D"

lemma utf8_ascii: "list_all (\<lambda>c. c < 0x80) s \<Longrightarrow> utf8 s = map word_of_nat s"
  by (induction s) (simp_all add: utf8_def utf8_char_def)

lemma continuation_byte:
  "\<not> byte_is_ascii_alphanumeric (word_of_nat (0x80 + c mod 64)) \<and> (word_of_nat (0x80 + c mod 64) :: u8) \<noteq> 0x2D"
proof -
  have "0x80 + c mod 64 < 256" by simp
  then have "unat (word_of_nat (0x80 + c mod 64) :: u8) = 0x80 + c mod 64"
    by (simp add: unat_of_nat del: of_nat_add)
  then have "128 \<le> unat (word_of_nat (0x80 + c mod 64) :: u8)" by simp
  then show ?thesis by (auto simp: byte_is_ascii_alphanumeric_def word_le_nat_alt word_unat_eq_iff simp del: of_nat_add)
qed

lemma label_char:
  assumes "list_all (\<lambda>b. byte_is_ascii_alphanumeric b \<or> b = 0x2D) (utf8 label)" "c \<in> set label"
  shows "dns_char (char_to_ascii_lowercase c) \<and> c < 0x80"
proof -
  have b: "\<forall>b \<in> set (utf8_char c). byte_is_ascii_alphanumeric b \<or> b = 0x2D"
    using assms by (auto simp: list_all_iff utf8_def)
  have "c < 0x80" using b continuation_byte [of c] by (auto simp: utf8_char_def split: if_splits)
  moreover from this b have "byte_is_ascii_alphanumeric (word_of_nat c) \<or> (word_of_nat c :: u8) = 0x2D"
    by (simp add: utf8_char_def)
  moreover have "unat (word_of_nat c :: u8) = c" using \<open>c < 0x80\<close> by (simp add: unat_of_nat)
  ultimately show ?thesis
    by (auto simp: byte_is_ascii_alphanumeric_def word_le_nat_alt dns_char_def char_to_ascii_lowercase_def
        word_unat_eq_iff)
qed

text \<open>A canonical hostname: what normalization returns.\<close>

definition dns_name :: "ustring \<Rightarrow> bool" where
  "dns_name h \<longleftrightarrow> h \<noteq> [] \<and> length h \<le> 253 \<and> list_all (\<lambda>l. l \<noteq> [] \<and> length l \<le> 63 \<and> hd l \<noteq> 0x2D \<and> last l \<noteq> 0x2D
     \<and> list_all dns_char l) (split_on 0x2E h)"

lemma lowercase_dns: "dns_char c \<or> c = 0x2E \<Longrightarrow> char_to_ascii_lowercase c = c"
  by (auto simp: dns_char_def char_to_ascii_lowercase_def)

lemma dns_char_ascii: "dns_char c \<Longrightarrow> c < 0x80" "dns_char c \<Longrightarrow> \<not> char_is_whitespace c" "\<not> dns_char 0x2E"
  by (auto simp: dns_char_def char_is_whitespace_def)

lemma dns_char_byte: "dns_char c \<Longrightarrow> byte_is_ascii_alphanumeric (word_of_nat c) \<or> (word_of_nat c :: u8) = 0x2D"
proof -
  assume c: "dns_char c"
  then have "unat (word_of_nat c :: u8) = c" using dns_char_ascii(1) [OF c] by (simp add: unat_of_nat)
  with c show ?thesis
    by (auto simp: dns_char_def byte_is_ascii_alphanumeric_def word_le_nat_alt word_unat_eq_iff)
qed

lemma label_ok_iff:
  assumes "list_all (\<lambda>c. char_to_ascii_lowercase c = c) l"
  shows "label_ok l \<longleftrightarrow> l \<noteq> [] \<and> length l \<le> 63 \<and> hd l \<noteq> 0x2D \<and> last l \<noteq> 0x2D \<and> list_all dns_char l"
proof -
  have ends: "take 1 l = [x] \<longleftrightarrow> hd l = x" "take 1 (rev l) = [x] \<longleftrightarrow> last l = x" if "l \<noteq> []" for x :: nat
  proof -
    have "take 1 m = [hd m]" if "m \<noteq> []" for m :: ustring using that by (cases m) auto
    from this [of l] this [of "rev l"] that
    show "take 1 l = [x] \<longleftrightarrow> hd l = x" "take 1 (rev l) = [x] \<longleftrightarrow> last l = x" by (simp_all add: hd_rev)
  qed
  have "list_all (\<lambda>b. byte_is_ascii_alphanumeric b \<or> b = 0x2D) (utf8 l) \<longleftrightarrow> list_all dns_char l"
  proof
    assume "list_all (\<lambda>b. byte_is_ascii_alphanumeric b \<or> b = 0x2D) (utf8 l)"
    from label_char [OF this] assms show "list_all dns_char l" by (auto simp: list_all_iff)
  next
    assume d: "list_all dns_char l"
    then have "utf8 l = map word_of_nat l" using dns_char_ascii(1) by (intro utf8_ascii) (auto simp: list_all_iff)
    with d dns_char_byte show "list_all (\<lambda>b. byte_is_ascii_alphanumeric b \<or> b = 0x2D) (utf8 l)"
      by (auto simp: list_all_iff)
  qed
  moreover have "list_all dns_char l \<Longrightarrow> length (utf8 l) = length l"
    using dns_char_ascii(1) by (subst utf8_ascii) (auto simp: list_all_iff)
  ultimately show ?thesis using ends by (auto simp: label_ok_def)
qed

lemma lowercase_idem: "char_to_ascii_lowercase (char_to_ascii_lowercase c) = char_to_ascii_lowercase c"
  by (simp add: char_to_ascii_lowercase_def)

lemma dns_name_chars: "dns_name h \<Longrightarrow> c \<in> set h \<Longrightarrow> dns_char c \<or> c = 0x2E"
  using split_on_mem [of c h "0x2E"] by (fastforce simp: dns_name_def list_all_iff)

lemma dns_name_last: "dns_name h \<Longrightarrow> last h \<noteq> 0x2E"
  using split_on_dot_last [of h "0x2E"] last_in_set [of "split_on 0x2E h"]
  by (auto simp: dns_name_def list_all_iff)

lemma normalize_lowered:
  assumes "s = map char_to_ascii_lowercase t"
  shows "s \<noteq> [] \<and> length (utf8 s) \<le> 253 \<and> list_all label_ok (split_on 0x2E s) \<longleftrightarrow> dns_name s"
proof -
  have low: "list_all (\<lambda>c. char_to_ascii_lowercase c = c) l" if "l \<in> set (split_on 0x2E s)" for l
  proof -
    have "set l \<subseteq> set (concat (map (\<lambda>p. 0x2E # p) (split_on 0x2E s)))" using that by auto
    then have "set l \<subseteq> insert 0x2E (set s)" by (simp only: split_on_concat) simp
    then show ?thesis using assms lowercase_idem by (auto simp: list_all_iff char_to_ascii_lowercase_def)
  qed
  then have labels: "list_all label_ok (split_on 0x2E s) \<longleftrightarrow> list_all (\<lambda>l. l \<noteq> [] \<and> length l \<le> 63 \<and> hd l \<noteq> 0x2D
      \<and> last l \<noteq> 0x2D \<and> list_all dns_char l) (split_on 0x2E s)"
    by (auto simp: list_all_iff label_ok_iff)
  have "length (utf8 s) = length s" if "list_all (\<lambda>l. list_all dns_char l) (split_on 0x2E s)"
  proof -
    have "c < 0x80" if c: "c \<in> set s" for c
    proof (cases "c = 0x2E")
      case False
      then obtain l where "l \<in> set (split_on 0x2E s)" "c \<in> set l" using split_on_mem [OF c] by blast
      with \<open>list_all (\<lambda>l. list_all dns_char l) (split_on 0x2E s)\<close> show ?thesis
        using dns_char_ascii(1) by (auto simp: list_all_iff)
    qed simp
    then show ?thesis by (subst utf8_ascii) (auto simp: list_all_iff)
  qed
  with labels show ?thesis by (auto simp: dns_name_def list_all_iff)
qed

lemma normalize_hostname_Some:
  "normalize_hostname s = Some h \<longleftrightarrow>
     dns_name h \<and> map char_to_ascii_lowercase (trim_end_by (\<lambda>c. c = 0x2E) (str_trim s)) = h"
  using normalize_lowered [where t = "trim_end_by (\<lambda>c. c = 0x2E) (str_trim s)", OF refl]
  by (auto simp: normalize_hostname_def Let_def)

text \<open>Trimming a decorated string.\<close>

lemma dropWhile_pre: "list_all P ws \<Longrightarrow> s \<noteq> [] \<Longrightarrow> \<not> P (hd s) \<Longrightarrow> dropWhile P (ws @ s) = s"
  by (induction ws) (auto simp: neq_Nil_conv)

lemma trim_end_post: "list_all P ws \<Longrightarrow> s \<noteq> [] \<Longrightarrow> \<not> P (last s) \<Longrightarrow> trim_end_by P (s @ ws) = s"
  using dropWhile_pre [of P "rev ws" "rev s"] by (simp add: trim_end_by_def hd_rev)

lemma trim_end_split: "\<exists>ws. s = trim_end_by P s @ ws \<and> list_all P ws"
proof (intro exI conjI)
  show "s = trim_end_by P s @ rev (takeWhile P (rev s))"
    unfolding trim_end_by_def by (metis rev_append rev_rev_ident takeWhile_dropWhile_id)
  show "list_all P (rev (takeWhile P (rev s)))" by (auto simp: list_all_iff dest: set_takeWhileD)
qed

lemma str_trim_split:
  "\<exists>ws ws'. s = ws @ str_trim s @ ws' \<and> list_all char_is_whitespace ws \<and> list_all char_is_whitespace ws'"
proof -
  obtain ws' where "dropWhile char_is_whitespace s = str_trim s @ ws'" "list_all char_is_whitespace ws'"
    unfolding str_trim_def using trim_end_split by blast
  moreover have "s = takeWhile char_is_whitespace s @ dropWhile char_is_whitespace s" by simp
  moreover have "list_all char_is_whitespace (takeWhile char_is_whitespace s)"
    by (auto simp: list_all_iff dest: set_takeWhileD)
  ultimately show ?thesis by metis
qed

lemma trim_decorated:
  assumes "dns_name (map char_to_ascii_lowercase t)" "list_all char_is_whitespace ws" "list_all char_is_whitespace ws'"
  shows "trim_end_by (\<lambda>c. c = 0x2E) (str_trim (ws @ t @ replicate n 0x2E @ ws')) = t"
proof -
  let ?d = "t @ replicate n 0x2E"
  have t: "t \<noteq> []" using assms(1) by (auto simp: dns_name_def)
  have c: "dns_char (char_to_ascii_lowercase c) \<or> c = 0x2E" if "c \<in> set t" for c
    using dns_name_chars [OF assms(1), of "char_to_ascii_lowercase c"] that
    by (auto simp: char_to_ascii_lowercase_def split: if_splits)
  have w: "\<not> char_is_whitespace c" if "c \<in> set t" for c
    using c [OF that] by (auto simp: char_to_ascii_lowercase_def dns_char_def char_is_whitespace_def split: if_splits)
  have "last t \<noteq> 0x2E"
    using dns_name_last [OF assms(1)] t by (auto simp: last_map char_to_ascii_lowercase_def)
  moreover have "hd ?d \<in> set t" "last ?d \<in> insert 0x2E (set t)" using t by (auto simp: last_append)
  then have "\<not> char_is_whitespace (hd (?d @ ws'))" "\<not> char_is_whitespace (last ?d)"
    using w t by (auto simp: char_is_whitespace_def)
  then have "str_trim (ws @ ?d @ ws') = ?d"
    using t assms(2) trim_end_post [OF assms(3), of ?d] by (simp add: str_trim_def dropWhile_pre)
  ultimately show ?thesis using trim_end_post [of "\<lambda>c. c = 0x2E" "replicate n 0x2E" t] t
    by (simp add: list_all_iff)
qed

section \<open>Properties\<close>

text \<open>
  The routing key of a hostname is canonical and its spellings are known exactly: a string
  normalizes to \<open>h\<close> iff \<open>h\<close> is a lower-case DNS name within the RFC 1123 limits and the string is
  some casing of it, followed by any number of dots and surrounded by any white space. So a key is
  its own normal form, and two spellings meet in one key only if they differ in these ways. Any
  number of trailing dots is dropped, not a single one.
\<close>

theorem normalize_hostname_exact:
  "(normalize_hostname s = Some h \<longleftrightarrow> dns_name h \<and> (\<exists>ws t n ws'. s = ws @ t @ replicate n 0x2E @ ws'
      \<and> list_all char_is_whitespace ws \<and> list_all char_is_whitespace ws' \<and> map char_to_ascii_lowercase t = h))
   \<and> (normalize_hostname s = Some h \<longrightarrow> normalize_hostname h = Some h)"
proof -
  have spell: "dns_name h \<and> (\<exists>ws t n ws'. s = ws @ t @ replicate n 0x2E @ ws'
      \<and> list_all char_is_whitespace ws \<and> list_all char_is_whitespace ws' \<and> map char_to_ascii_lowercase t = h)"
    if norm: "normalize_hostname s = Some h" for s
  proof -
    obtain ws ws' where s: "s = ws @ str_trim s @ ws'" "list_all char_is_whitespace ws" "list_all char_is_whitespace ws'"
      using str_trim_split by blast
    obtain ds where ds: "str_trim s = trim_end_by (\<lambda>c. c = 0x2E) (str_trim s) @ ds" "list_all (\<lambda>c. c = 0x2E) ds"
      using trim_end_split by blast
    then have "ds = replicate (length ds) 0x2E" by (simp add: list_all_iff replicate_length_same)
    with s ds norm show ?thesis unfolding normalize_hostname_Some by (metis append_assoc)
  qed
  have spelled: "normalize_hostname (ws @ t @ replicate n 0x2E @ ws') = Some h"
    if "dns_name h" "list_all char_is_whitespace ws" "list_all char_is_whitespace ws'" "map char_to_ascii_lowercase t = h"
    for ws t n ws'
    using that trim_decorated [of t ws ws' n] by (simp add: normalize_hostname_Some)
  have "normalize_hostname h = Some h" if "dns_name h"
    using spelled [of "[]" "[]" h 0] that dns_name_chars [OF that] lowercase_dns by (simp add: map_idI)
  with spell spelled show ?thesis by blast
qed

theorem normalize_hostname_exact_witness:
  "normalize_hostname [0x20, 0x41, 0x2E, 0x62, 0x2E, 0x2E] = Some [0x61, 0x2E, 0x62]
   \<and> normalize_hostname [0x61, 0x2E, 0x62] = Some [0x61, 0x2E, 0x62]"
proof -
  have "normalize_hostname [0x20, 0x41, 0x2E, 0x62, 0x2E, 0x2E] = Some [0x61, 0x2E, 0x62]" by code_simp
  with normalize_hostname_exact [of "[0x20, 0x41, 0x2E, 0x62, 0x2E, 0x2E]" "[0x61, 0x2E, 0x62]"]
  show ?thesis by blast
qed

end
