(* ===== verification/LogThrottle.thy ===== *)
theory LogThrottle
  imports Prelude "HOL-Library.Product_Lexorder"
begin

text \<open>
  The windowed log throttle of the edge (\<open>src/crates/edge/src/log_throttle.rs\<close>). The caller passes
  the time and prints; a hash map is its association list, so the summary sorts what the iteration
  yields.
\<close>

datatype log_decision = LogFull | Suppress

record 'k window_summary =
  ws_total :: u64
  ws_distinct_keys :: nat
  ws_untracked :: u64
  ws_top :: "('k \<times> u64) list"

record 'k window_log_throttle =
  wt_window_secs :: u64
  wt_max_tracked :: nat
  wt_top_n :: nat
  wt_window_start :: u64
  wt_keys :: "('k, u64) hmap"
  wt_total :: u64
  wt_suppressed :: u64
  wt_untracked :: u64

definition throttle_new :: "u64 \<Rightarrow> nat \<Rightarrow> nat \<Rightarrow> 'k window_log_throttle" where
  "throttle_new window_secs max_tracked top_n =
     \<lparr>wt_window_secs = window_secs, wt_max_tracked = max_tracked, wt_top_n = top_n, wt_window_start = 0,
      wt_keys = hm_empty, wt_total = 0, wt_suppressed = 0, wt_untracked = 0\<rparr>"

definition throttle_note :: "'k window_log_throttle \<Rightarrow> u64 \<Rightarrow> 'k \<Rightarrow> log_decision \<times> 'k window_log_throttle" where
  "throttle_note t now key =
     (let t = (if wt_window_start t = 0 then t\<lparr>wt_window_start := now\<rparr> else t);
          t = t\<lparr>wt_total := saturating_add (wt_total t) 1\<rparr>
      in case hm_get (wt_keys t) key of
           Some count \<Rightarrow> (Suppress, t\<lparr>wt_keys := hm_insert key (saturating_add count 1) (wt_keys t),
             wt_suppressed := saturating_add (wt_suppressed t) 1\<rparr>)
         | None \<Rightarrow>
             if wt_max_tracked t \<le> hm_len (wt_keys t)
             then (Suppress, t\<lparr>wt_untracked := saturating_add (wt_untracked t) 1,
               wt_suppressed := saturating_add (wt_suppressed t) 1\<rparr>)
             else (LogFull, t\<lparr>wt_keys := hm_insert key 1 (wt_keys t)\<rparr>))"

text \<open>\<open>top.sort_by\<close>: count descending, then the key.\<close>

definition busiest :: "('k::linorder, u64) hmap \<Rightarrow> ('k \<times> u64) list" where
  "busiest m = sort_key (\<lambda>(k, n). (- int (unat n), k)) m"

definition window_summary_at ::
  "('k::linorder) window_log_throttle \<Rightarrow> u64 \<Rightarrow> 'k window_summary option \<times> 'k window_log_throttle" where
  "window_summary_at t now =
     (if wt_window_start t = 0 \<or> saturating_sub now (wt_window_start t) < wt_window_secs t then (None, t)
      else (if 0 < wt_suppressed t
            then Some \<lparr>ws_total = wt_total t, ws_distinct_keys = hm_len (wt_keys t), ws_untracked = wt_untracked t,
                       ws_top = take (wt_top_n t) (busiest (wt_keys t))\<rparr>
            else None,
            t\<lparr>wt_window_start := 0, wt_keys := hm_empty, wt_total := 0, wt_suppressed := 0, wt_untracked := 0\<rparr>))"

section \<open>One window\<close>

text \<open>The distinct elements of a list, in the order of their first occurrence.\<close>

definition firsts :: "'a list \<Rightarrow> 'a list" where
  "firsts xs = rev (remdups (rev xs))"

lemma firsts_Nil [simp]: "firsts [] = []"
  by (simp add: firsts_def)

lemma firsts_snoc: "firsts (xs @ [x]) = (if x \<in> set xs then firsts xs else firsts xs @ [x])"
  by (simp add: firsts_def)

lemma set_firsts [simp]: "set (firsts xs) = set xs"
  by (simp add: firsts_def)

lemma distinct_firsts [simp]: "distinct (firsts xs)"
  by (simp add: firsts_def)

definition tracked :: "nat \<Rightarrow> 'k list \<Rightarrow> 'k list" where
  "tracked cap ks = take cap (firsts ks)"

lemma tracked_Nil [simp]: "tracked cap [] = []"
  by (simp add: tracked_def)

lemma tracked_snoc:
  "tracked cap (ks @ [k]) =
     (if k \<in> set (tracked cap ks) \<or> cap \<le> length (tracked cap ks) then tracked cap ks else tracked cap ks @ [k])"
proof (cases "k \<in> set ks")
  case True
  then have "k \<in> set (take cap (firsts ks)) \<or> cap \<le> length (firsts ks)"
    by (metis linorder_not_le nat_less_le set_firsts take_all)
  with True show ?thesis by (auto simp: tracked_def firsts_snoc)
next
  case False
  then have "k \<notin> set (take cap (firsts ks))" by (metis in_set_takeD set_firsts)
  with False show ?thesis by (auto simp: tracked_def firsts_snoc)
qed

text \<open>The window after a sequence of occurrences.\<close>

fun note_all :: "'k window_log_throttle \<Rightarrow> ('k \<times> u64) list \<Rightarrow> log_decision list \<times> 'k window_log_throttle" where
  "note_all t [] = ([], t)"
| "note_all t ((k, now) # calls) =
     (let (d, t') = throttle_note t now k; (ds, t'') = note_all t' calls in (d # ds, t''))"

lemma note_all_snoc:
  "note_all t (calls @ [(k, now)]) =
     (fst (note_all t calls) @ [fst (throttle_note (snd (note_all t calls)) now k)],
      snd (throttle_note (snd (note_all t calls)) now k))"
  by (induction calls arbitrary: t) (auto simp: Let_def split_def)

definition full_lines :: "('k \<times> u64) list \<Rightarrow> log_decision list \<Rightarrow> 'k list" where
  "full_lines calls ds = map (fst \<circ> fst) (filter (\<lambda>(_, d). d = LogFull) (zip calls ds))"

definition window_of :: "nat \<Rightarrow> 'k window_log_throttle \<Rightarrow> 'k list \<Rightarrow> bool" where
  "window_of cap t ks \<longleftrightarrow> hm_wf (wt_keys t) \<and> wt_max_tracked t = cap \<and> map fst (wt_keys t) = tracked cap ks
     \<and> (\<forall>k. hm_get (wt_keys t) k = (if k \<in> set (tracked cap ks) then Some (word_of_nat (count_list ks k)) else None))
     \<and> unat (wt_total t) = length ks \<and> unat (wt_suppressed t) = length ks - length (tracked cap ks)
     \<and> unat (wt_untracked t) = length (filter (\<lambda>k. k \<notin> set (tracked cap ks)) ks)"

lemma fst_hm_insert: "map fst (hm_insert k v m) = (if k \<in> fst ` set m then map fst m else map fst m @ [k])"
  by (induction k v m rule: hm_insert.induct) auto

lemma saturating_succ: "unat w = n \<Longrightarrow> n < 2 ^ 64 - 1 \<Longrightarrow> unat (saturating_add (w :: u64) 1) = Suc n"
  by (simp add: unat_saturating_add)

lemma saturating_succ_nat: "n < 2 ^ 64 - 1 \<Longrightarrow> saturating_add (word_of_nat n :: u64) 1 = word_of_nat (Suc n)"
  by (rule eq_word_of_nat) (simp add: unat_saturating_add unat_of_nat)

lemma count_snoc: "count_list (ks @ [k]) x = count_list ks x + (if k = x then 1 else 0)"
  by simp

lemma tracked_le: "length (tracked cap ks) \<le> length ks"
proof -
  have "length (firsts ks) \<le> length ks" using length_remdups_leq [of "rev ks"] by (simp add: firsts_def)
  then show ?thesis by (simp add: tracked_def)
qed

lemma window_step:
  assumes w: "window_of cap t ks" and len: "length ks < 2 ^ 64 - 1"
  shows "window_of cap (snd (throttle_note t now k)) (ks @ [k])
    \<and> (fst (throttle_note t now k) = LogFull \<longleftrightarrow> tracked cap (ks @ [k]) = tracked cap ks @ [k])"
proof -
  let ?T = "tracked cap ks"
  have keys: "fst ` set (wt_keys t) = set ?T" "hm_len (wt_keys t) = length ?T"
  proof -
    have m: "map fst (wt_keys t) = ?T" using w by (simp add: window_of_def)
    show "fst ` set (wt_keys t) = set ?T" unfolding m [symmetric] by simp
    show "hm_len (wt_keys t) = length ?T" unfolding m [symmetric] by (simp add: hm_len_def)
  qed
  have total: "unat (saturating_add (wt_total t) 1) = Suc (length ks)"
    using w len by (intro saturating_succ) (simp_all add: window_of_def)
  have supp: "unat (saturating_add (wt_suppressed t) 1) = Suc (length ks - length ?T)"
    using w len by (intro saturating_succ) (simp_all add: window_of_def)
  have unt: "unat (saturating_add (wt_untracked t) 1) = Suc (length (filter (\<lambda>k. k \<notin> set ?T) ks))"
  proof (rule saturating_succ)
    show "unat (wt_untracked t) = length (filter (\<lambda>k. k \<notin> set ?T) ks)" using w by (simp add: window_of_def)
    show "length (filter (\<lambda>k. k \<notin> set ?T) ks) < 2 ^ 64 - 1"
      by (rule le_less_trans [OF length_filter_le len])
  qed
  have le: "length ?T \<le> length ks" by (rule tracked_le)
  have count: "count_list ks k < 2 ^ 64 - 1" using count_le_length [of ks k] len by linarith
  consider (old) "k \<in> set ?T" | (full) "k \<notin> set ?T" "cap \<le> length ?T" | (new) "k \<notin> set ?T" "length ?T < cap"
    by linarith
  then show ?thesis
  proof cases
    case old
    then have T: "tracked cap (ks @ [k]) = ?T" by (simp add: tracked_snoc)
    from old w have "hm_get (wt_keys t) k = Some (word_of_nat (count_list ks k))" by (simp add: window_of_def)
    then show ?thesis using w old total supp le saturating_succ_nat [OF count] keys
      by (auto simp: window_of_def throttle_note_def Let_def T fst_hm_insert Suc_diff_le)
  next
    case full
    then have T: "tracked cap (ks @ [k]) = ?T" by (simp add: tracked_snoc)
    from full w have "hm_get (wt_keys t) k = None" by (simp add: window_of_def)
    then show ?thesis using w full total supp unt le keys
      by (auto simp: window_of_def throttle_note_def Let_def T Suc_diff_le)
  next
    case new
    then have T: "tracked cap (ks @ [k]) = ?T @ [k]" by (simp add: tracked_snoc)
    have "k \<notin> set ks"
    proof
      assume "k \<in> set ks"
      then have "k \<in> set (take cap (firsts ks)) \<or> cap < length (firsts ks)"
        by (metis linorder_not_le set_firsts take_all)
      with new show False by (auto simp: tracked_def)
    qed
    then have c: "count_list ks k = 0" "filter (\<lambda>x. x \<noteq> k \<and> x \<notin> set ?T) ks = filter (\<lambda>x. x \<notin> set ?T) ks"
      by (auto intro: filter_cong)
    from new w have "hm_get (wt_keys t) k = None" by (simp add: window_of_def)
    then show ?thesis using w new total le keys c
      by (auto simp: window_of_def throttle_note_def Let_def T fst_hm_insert)
  qed
qed

lemma note_all_window:
  assumes "length calls < 2 ^ 64"
  shows "window_of cap (snd (note_all (throttle_new w cap n) calls)) (map fst calls)
    \<and> full_lines calls (fst (note_all (throttle_new w cap n) calls)) = tracked cap (map fst calls)
    \<and> length (fst (note_all (throttle_new w cap n) calls)) = length calls"
  using assms
proof (induction calls rule: rev_induct)
  case Nil
  show ?case by (simp add: window_of_def throttle_new_def full_lines_def hm_empty_def hm_get_def) (simp add: hm_wf_def)
next
  case (snoc c calls)
  obtain k now where c: "c = (k, now)" by fastforce
  let ?t = "snd (note_all (throttle_new w cap n) calls)"
  have IH: "window_of cap ?t (map fst calls)"
    "full_lines calls (fst (note_all (throttle_new w cap n) calls)) = tracked cap (map fst calls)"
    "length (fst (note_all (throttle_new w cap n) calls)) = length calls"
    using snoc by simp_all
  have st: "window_of cap (snd (throttle_note ?t now k)) (map fst calls @ [k])"
    "fst (throttle_note ?t now k) = LogFull \<longleftrightarrow> tracked cap (map fst calls @ [k]) = tracked cap (map fst calls) @ [k]"
    using window_step [OF IH(1), of now k] snoc.prems by simp_all
  have "full_lines (calls @ [(k, now)]) (fst (note_all (throttle_new w cap n) calls) @ [fst (throttle_note ?t now k)])
      = tracked cap (map fst calls) @ (if fst (throttle_note ?t now k) = LogFull then [k] else [])"
    using IH(2,3) by (simp add: full_lines_def)
  also have "\<dots> = tracked cap (map fst calls @ [k])" using st(2) by (auto simp: tracked_snoc split: if_splits)
  finally show ?case using st(1) IH(3) by (simp add: c note_all_snoc)
qed

lemma note_keeps_start:
  "wt_window_start t = s \<Longrightarrow> s \<noteq> 0 \<Longrightarrow> wt_window_start (snd (note_all t calls)) = s"
proof (induction calls arbitrary: t)
  case (Cons c calls)
  obtain k now where "c = (k, now)" by fastforce
  with Cons show ?case by (auto simp: throttle_note_def Let_def split_def split: option.splits)
qed simp

lemma note_keeps_config:
  "wt_window_secs (snd (note_all t calls)) = wt_window_secs t \<and> wt_top_n (snd (note_all t calls)) = wt_top_n t
   \<and> wt_max_tracked (snd (note_all t calls)) = wt_max_tracked t"
proof (induction calls arbitrary: t)
  case (Cons c calls)
  obtain k now where "c = (k, now)" by fastforce
  with Cons [of "snd (throttle_note t now k)"] show ?case
    by (auto simp: throttle_note_def Let_def split_def split: option.splits)
qed simp

section \<open>Properties\<close>

text \<open>
  One window of the throttle: of any sequence of occurrences, the lines logged in full are the
  first occurrences of the first \<open>max_tracked\<close> distinct keys, in order, and nothing else, so at most
  \<open>max_tracked\<close> lines and as many keys are held. The rollover, which only \<open>window_summary\<close> performs,
  reports the exact total, the number of tracked keys, the exact number of occurrences of untracked
  ones and the busiest keys with their exact counts, whenever something was suppressed, and leaves
  the throttle as new. Without that call the window never ends: a key logged once is never logged
  again, however much time passes.
\<close>

theorem log_throttle_exact:
  fixes calls :: "('k::linorder \<times> u64) list"
  assumes "note_all (throttle_new window_secs cap top_n) calls = (ds, t)" "length calls < 2 ^ 64"
  shows "full_lines calls ds = take cap (firsts (map fst calls))
    \<and> hm_len (wt_keys t) \<le> cap
    \<and> (k \<in> set (take cap (firsts (map fst calls))) \<longrightarrow> fst (throttle_note t now k) = Suppress)
    \<and> (calls \<noteq> [] \<and> snd (hd calls) \<noteq> 0 \<and> window_secs \<le> saturating_sub now (snd (hd calls)) \<longrightarrow>
        snd (window_summary_at t now) = throttle_new window_secs cap top_n
        \<and> (case fst (window_summary_at t now) of
             None \<Rightarrow> full_lines calls ds = map fst calls
           | Some s \<Rightarrow> unat (ws_total s) = length calls \<and> ws_distinct_keys s = length (full_lines calls ds)
               \<and> unat (ws_untracked s) = length (filter (\<lambda>k. k \<notin> set (full_lines calls ds)) (map fst calls))
               \<and> ws_top s = take top_n (sort_key (\<lambda>(k, n). (- int (unat n), k))
                   (map (\<lambda>k. (k, word_of_nat (count_list (map fst calls) k))) (full_lines calls ds)))))"
proof -
  let ?ks = "map fst calls" and ?T = "tracked cap (map fst calls)"
  have w: "window_of cap t ?ks" and full: "full_lines calls ds = ?T"
    using note_all_window [OF assms(2), of cap window_secs top_n] assms(1) by simp_all
  have m: "map fst (wt_keys t) = ?T" "hm_wf (wt_keys t)" "wt_max_tracked t = cap"
    and get: "hm_get (wt_keys t) k = (if k \<in> set ?T then Some (word_of_nat (count_list ?ks k)) else None)" for k
    using w by (auto simp: window_of_def)
  have len: "hm_len (wt_keys t) = length ?T" unfolding m(1) [symmetric] by (simp add: hm_len_def)
  have cap: "hm_len (wt_keys t) \<le> cap" unfolding len by (simp add: tracked_def)
  have old: "fst (throttle_note t now k) = Suppress" if "k \<in> set ?T"
    using get [of k] that by (simp add: throttle_note_def Let_def)
  have keys: "wt_keys t = map (\<lambda>k. (k, word_of_nat (count_list ?ks k))) ?T"
  proof (rule nth_equalityI)
    show "length (wt_keys t) = length (map (\<lambda>k. (k, word_of_nat (count_list ?ks k) :: u64)) ?T)"
      using len by (simp add: hm_len_def)
    fix i assume i: "i < length (wt_keys t)"
    obtain a v where av: "wt_keys t ! i = (a, v)" by fastforce
    then have "hm_get (wt_keys t) a = Some v"
      using i m(2) by (auto simp: hm_get_def hm_wf_def intro!: map_of_is_SomeI) (metis nth_mem)
    moreover have "?T ! i = a" using i av unfolding m(1) [symmetric] by simp
    ultimately show "wt_keys t ! i = map (\<lambda>k. (k, word_of_nat (count_list ?ks k))) ?T ! i"
      using i av get [of a] len by (simp add: hm_len_def split: if_splits)
  qed
  have cfg: "wt_window_secs t = window_secs" "wt_top_n t = top_n"
    using note_keeps_config [of "throttle_new window_secs cap top_n" calls] assms(1) by (simp_all add: throttle_new_def)
  have start: "wt_window_start t = snd (hd calls)" if ne: "calls \<noteq> []" and s0: "snd (hd calls) \<noteq> 0"
  proof -
    obtain k s rest where c: "calls = (k, s) # rest" using ne by (cases calls) auto
    have "wt_window_start (snd (throttle_note (throttle_new window_secs cap top_n) s k)) = s"
      by (simp add: throttle_note_def throttle_new_def Let_def)
    from note_keeps_start [OF this, of rest] s0 assms(1) show ?thesis by (auto simp: c Let_def split_def)
  qed
  have none: "full_lines calls ds = map fst calls" if "wt_suppressed t = 0"
  proof -
    have "length ?ks \<le> length ?T" using w that tracked_le [of cap ?ks] by (simp add: window_of_def)
    then have l: "length (remdups (rev ?ks)) = length (rev ?ks)" "length (firsts ?ks) \<le> cap"
      using length_remdups_leq [of "rev ?ks"] by (auto simp: tracked_def firsts_def)
    then have "remdups (rev ?ks) = rev ?ks" using distinct_remdups_id length_remdups_eq by blast
    with l(2) full show ?thesis by (simp add: tracked_def firsts_def)
  qed
  have sum: "unat (wt_total t) = length calls" "unat (wt_untracked t) = length (filter (\<lambda>k. k \<notin> set ?T) ?ks)"
    using w by (simp_all add: window_of_def)
  show ?thesis
    using full cap old start cfg m(3) none sum len keys
    by (auto simp: tracked_def window_summary_at_def throttle_new_def busiest_def not_less word_neq_0_conv
        split: option.splits)
qed

theorem log_throttle_exact_witness:
  "\<exists>ds t. note_all (throttle_new 300 2 5) [(7 :: nat, 10), (7, 20), (8, 30), (9, 40)] = (ds, t)
     \<and> full_lines [(7 :: nat, 10), (7, 20), (8, 30), (9, 40)] ds = [7, 8]
     \<and> snd (window_summary_at t 400) = throttle_new 300 2 5"
proof -
  obtain ds t where r: "note_all (throttle_new 300 2 5) [(7 :: nat, 10), (7, 20), (8, 30), (9, 40)] = (ds, t)"
    by fastforce
  have "300 \<le> saturating_sub 400 (10 :: u64)" by (simp add: saturating_sub_def)
  then show ?thesis using log_throttle_exact [OF r, of 0 400] r by (simp add: firsts_def)
qed

end
