(* ===== verification/AgentKey.thy ===== *)
theory AgentKey
  imports Hostname LogThrottle Collections
begin

text \<open>
  Agent-key observation and policy of the edge (\<open>src/crates/edge/src/state.rs\<close>): the modes, reasons
  and actions, the per-tunnel counters with their bound and their throttled log line, the key pin of a
  tunnel, the policy with its enforce list. SHA-256 is a parameter; the printed remote address is a
  parameter of the line, as its text; the line printed on standard error is kept in the state.
\<close>

datatype agent_key_mode = ModeLog | ModeEnforce

definition mode_as_str :: "agent_key_mode \<Rightarrow> bytes" where
  "mode_as_str m = (case m of ModeLog \<Rightarrow> ascii ''log'' | ModeEnforce \<Rightarrow> ascii ''enforce'')"

datatype agent_key_reason =
    Unproven | UnprovenBesideProven | SecondUnproven | UnprovenTcp | ForeignKey | StaleBinding | BindingToken
  | BadBinding | BadProof | Expired | Timeout | Oversize | EvictedOnEnforce | RevokedToken

definition reason_as_str :: "agent_key_reason \<Rightarrow> bytes" where
  "reason_as_str r = (case r of
       Unproven \<Rightarrow> ascii ''unproven''
     | UnprovenBesideProven \<Rightarrow> ascii ''unproven_beside_proven''
     | SecondUnproven \<Rightarrow> ascii ''second_unproven''
     | UnprovenTcp \<Rightarrow> ascii ''unproven_tcp''
     | ForeignKey \<Rightarrow> ascii ''foreign_key''
     | StaleBinding \<Rightarrow> ascii ''stale_binding''
     | BindingToken \<Rightarrow> ascii ''binding_token''
     | BadBinding \<Rightarrow> ascii ''bad_binding''
     | BadProof \<Rightarrow> ascii ''bad_proof''
     | Expired \<Rightarrow> ascii ''expired''
     | Timeout \<Rightarrow> ascii ''timeout''
     | Oversize \<Rightarrow> ascii ''oversize''
     | EvictedOnEnforce \<Rightarrow> ascii ''evicted_on_enforce''
     | RevokedToken \<Rightarrow> ascii ''revoked'')"

datatype agent_key_action = Admitted | Refused | Evicted | Repinned

definition action_as_str :: "agent_key_action \<Rightarrow> bytes" where
  "action_as_str a = (case a of Admitted \<Rightarrow> ascii ''admitted'' | Refused \<Rightarrow> ascii ''refused''
     | Evicted \<Rightarrow> ascii ''evicted'' | Repinned \<Rightarrow> ascii ''repinned'')"

type_synonym token = bytes

definition agent_key_token_hash :: "digest \<Rightarrow> token \<Rightarrow> bytes" where
  "agent_key_token_hash sha token = sha token"

definition agent_key_hash_prefix :: "bytes \<Rightarrow> bytes" where
  "agent_key_hash_prefix token_hash = hex_encode (take 4 token_hash)"

definition agent_key_violation_line ::
  "bytes \<Rightarrow> agent_key_reason \<Rightarrow> agent_key_action \<Rightarrow> agent_key_mode \<Rightarrow> bytes option \<Rightarrow> bytes" where
  "agent_key_violation_line token_hash reason action mode remote =
     ascii ''ct-edge: agent_key_violation mode='' @ mode_as_str mode @ ascii '' action='' @ action_as_str action
     @ ascii '' reason='' @ reason_as_str reason @ ascii '' tunnel='' @ agent_key_hash_prefix token_hash
     @ ascii '' remote='' @ (case remote of None \<Rightarrow> ascii ''-'' | Some ip \<Rightarrow> ip)"

section \<open>Counters\<close>

definition AGENT_KEY_MAX_TRACKED :: nat where
  "AGENT_KEY_MAX_TRACKED = 1024"

definition AGENT_KEY_LOG_WINDOW_SECS :: u64 where
  "AGENT_KEY_LOG_WINDOW_SECS = 300"

definition AGENT_KEY_LOG_TOP_N :: nat where
  "AGENT_KEY_LOG_TOP_N = 5"

record tunnel_counts =
  tc_reasons :: "(agent_key_reason, u64) hmap"
  tc_proofs_admitted :: u64

definition tunnel_counts_default :: tunnel_counts where
  "tunnel_counts_default = \<lparr>tc_reasons = hm_empty, tc_proofs_admitted = 0\<rparr>"

definition agent_key_only_tolerated :: "tunnel_counts \<Rightarrow> bool" where
  "agent_key_only_tolerated entry = list_all (\<lambda>(reason, count). count = 0 \<or> reason = SecondUnproven) (tc_reasons entry)"

text \<open>The fields of \<open>EdgeState\<close> that only observe, with the lines printed so far.\<close>

record agent_key_obs =
  ob_counts :: "(bytes, tunnel_counts) hmap"
  ob_observed_since :: u64
  ob_log_throttle :: "(bytes \<times> agent_key_reason) window_log_throttle"
  ob_log_lines :: u64
  ob_untracked :: u64
  ob_stderr :: "bytes list"

definition obs_new :: "u64 \<Rightarrow> agent_key_obs" where
  "obs_new now = \<lparr>ob_counts = hm_empty, ob_observed_since = now,
     ob_log_throttle = throttle_new AGENT_KEY_LOG_WINDOW_SECS AGENT_KEY_MAX_TRACKED AGENT_KEY_LOG_TOP_N,
     ob_log_lines = 0, ob_untracked = 0, ob_stderr = []\<rparr>"

definition counts_entry :: "(bytes, tunnel_counts) hmap \<Rightarrow> bytes \<Rightarrow> tunnel_counts" where
  "counts_entry m h = (case hm_get m h of None \<Rightarrow> tunnel_counts_default | Some e \<Rightarrow> e)"

definition obs_violation ::
  "digest \<Rightarrow> u64 \<Rightarrow> agent_key_obs \<Rightarrow> token \<Rightarrow> agent_key_reason \<Rightarrow> agent_key_action \<Rightarrow> agent_key_mode \<Rightarrow> bytes option
     \<Rightarrow> agent_key_obs" where
  "obs_violation sha now ob token reason action mode remote =
     (let hash = agent_key_token_hash sha token;
          counts = ob_counts ob;
          ob = (if AGENT_KEY_MAX_TRACKED \<le> hm_len counts \<and> \<not> hm_contains counts hash
               then ob\<lparr>ob_untracked := ob_untracked ob + 1\<rparr>
               else let entry = counts_entry counts hash;
                        slot = (case hm_get (tc_reasons entry) reason of None \<Rightarrow> 0 | Some n \<Rightarrow> n)
                    in ob\<lparr>ob_counts := hm_insert hash
                         (entry\<lparr>tc_reasons := hm_insert reason (saturating_add slot 1) (tc_reasons entry)\<rparr>) counts\<rparr>);
          (decision, throttle) = throttle_note (ob_log_throttle ob) now (hash, reason);
          ob = ob\<lparr>ob_log_throttle := throttle\<rparr>
      in if decision = LogFull
         then ob\<lparr>ob_log_lines := ob_log_lines ob + 1,
                ob_stderr := ob_stderr ob @ [agent_key_violation_line hash reason action mode remote]\<rparr>
         else ob)"

definition obs_proven :: "digest \<Rightarrow> agent_key_obs \<Rightarrow> token \<Rightarrow> agent_key_obs" where
  "obs_proven sha ob token =
     (let hash = agent_key_token_hash sha token; counts = ob_counts ob in
      if AGENT_KEY_MAX_TRACKED \<le> hm_len counts \<and> \<not> hm_contains counts hash
      then ob\<lparr>ob_untracked := ob_untracked ob + 1\<rparr>
      else let entry = counts_entry counts hash
           in ob\<lparr>ob_counts := hm_insert hash
                (entry\<lparr>tc_proofs_admitted := saturating_add (tc_proofs_admitted entry) 1\<rparr>) counts\<rparr>)"

definition agent_key_violations_for :: "agent_key_obs \<Rightarrow> bytes \<Rightarrow> agent_key_reason \<Rightarrow> u64" where
  "agent_key_violations_for ob token_hash reason =
     (case hm_get (ob_counts ob) token_hash of None \<Rightarrow> 0
      | Some c \<Rightarrow> (case hm_get (tc_reasons c) reason of None \<Rightarrow> 0 | Some n \<Rightarrow> n))"

definition agent_key_proofs_admitted_for :: "agent_key_obs \<Rightarrow> bytes \<Rightarrow> u64" where
  "agent_key_proofs_admitted_for ob token_hash =
     (case hm_get (ob_counts ob) token_hash of None \<Rightarrow> 0 | Some c \<Rightarrow> tc_proofs_admitted c)"

definition agent_key_violations_by_reason :: "agent_key_obs \<Rightarrow> agent_key_reason \<Rightarrow> u64" where
  "agent_key_violations_by_reason ob reason =
     sum_list (map (\<lambda>(_, c). case hm_get (tc_reasons c) reason of None \<Rightarrow> 0 | Some n \<Rightarrow> n) (ob_counts ob))"

definition agent_key_violations_total :: "agent_key_obs \<Rightarrow> u64" where
  "agent_key_violations_total ob = sum_list (map (\<lambda>(_, c). sum_list (map snd (tc_reasons c))) (ob_counts ob))"

definition agent_key_proofs_admitted_total :: "agent_key_obs \<Rightarrow> u64" where
  "agent_key_proofs_admitted_total ob = sum_list (map (\<lambda>(_, c). tc_proofs_admitted c) (ob_counts ob))"

definition agent_key_ready_for_enforce :: "agent_key_obs \<Rightarrow> bytes \<Rightarrow> bool" where
  "agent_key_ready_for_enforce ob token_hash =
     (case hm_get (ob_counts ob) token_hash of None \<Rightarrow> False
      | Some entry \<Rightarrow> 0 < tc_proofs_admitted entry \<and> agent_key_only_tolerated entry)"

section \<open>Key pins\<close>

record proven_key =
  pk_key :: bytes
  pk_issued_at :: u64

record agent_key_pin =
  kp_pin :: "proven_key option"
  kp_proven_ids :: "u64 set"

definition pin_default :: agent_key_pin where
  "pin_default = \<lparr>kp_pin = None, kp_proven_ids = {}\<rparr>"

datatype pin_outcome = PinAccepted | PinRepinned | PinRejected agent_key_reason

definition pin_entry :: "(token, agent_key_pin) hmap \<Rightarrow> token \<Rightarrow> agent_key_pin" where
  "pin_entry pins token = (case hm_get pins token of None \<Rightarrow> pin_default | Some e \<Rightarrow> e)"

definition pin_proven ::
  "(token, agent_key_pin) hmap \<Rightarrow> token \<Rightarrow> proven_key \<Rightarrow> pin_outcome \<times> (token, agent_key_pin) hmap" where
  "pin_proven pins token proof =
     (let entry = pin_entry pins token; pins = hm_insert token entry pins in
      case kp_pin entry of
        None \<Rightarrow> (PinAccepted, hm_insert token (entry\<lparr>kp_pin := Some proof\<rparr>) pins)
      | Some current \<Rightarrow>
          if pk_key current = pk_key proof then
            (PinAccepted, if pk_issued_at current < pk_issued_at proof
                          then hm_insert token (entry\<lparr>kp_pin := Some proof\<rparr>) pins else pins)
          else if pk_issued_at current < pk_issued_at proof then
            (PinRepinned, hm_insert token \<lparr>kp_pin = Some proof, kp_proven_ids = {}\<rparr> pins)
          else if pk_issued_at proof < pk_issued_at current then (PinRejected StaleBinding, pins)
          else (PinRejected ForeignKey, pins))"

section \<open>Policy\<close>

datatype reload_error = Unreadable bytes | Invalid nat

text \<open>\<open>str::lines\<close>: pieces between newlines, without a final empty one, each without a trailing carriage return.\<close>

definition strip_cr :: "ustring \<Rightarrow> ustring" where
  "strip_cr l = (if l \<noteq> [] \<and> last l = 13 then butlast l else l)"

definition str_lines :: "ustring \<Rightarrow> ustring list" where
  "str_lines s = (let ps = split_on 10 s in map strip_cr (if last ps = [] then butlast ps else ps))"

fun parse_lines :: "nat \<Rightarrow> ustring list \<Rightarrow> reload_error + bytes set" where
  "parse_lines idx [] = Ok {}"
| "parse_lines idx (line # rest) =
     (let trimmed = str_trim line in
      if trimmed = [] then parse_lines (idx + 1) rest
      else case hex_decode_32 (utf8 trimmed) of
             None \<Rightarrow> Err (Invalid (idx + 1))
           | Some hash \<Rightarrow> (case parse_lines (idx + 1) rest of Err e \<Rightarrow> Err e | Ok hs \<Rightarrow> Ok (insert hash hs)))"

definition parse_enforce_list :: "ustring \<Rightarrow> reload_error + bytes set" where
  "parse_enforce_list text = parse_lines 0 (str_lines text)"

record agent_key_policy =
  ap_default :: agent_key_mode
  ap_enforce_set :: "bytes set"
  ap_enforce_file :: "bytes option"
  ap_issuers :: "bytes list"

definition policy_default :: agent_key_policy where
  "policy_default = \<lparr>ap_default = ModeLog, ap_enforce_set = {}, ap_enforce_file = None, ap_issuers = []\<rparr>"

definition mode_for :: "agent_key_policy \<Rightarrow> bytes \<Rightarrow> agent_key_mode" where
  "mode_for p token_hash =
     (if ap_default p = ModeEnforce \<or> token_hash \<in> ap_enforce_set p then ModeEnforce else ModeLog)"

definition agent_key_snapshot ::
  "agent_key_obs \<Rightarrow> agent_key_policy \<Rightarrow> (bytes \<times> agent_key_mode \<times> (agent_key_reason, u64) hmap \<times> u64 \<times> bool) list \<times> u64" where
  "agent_key_snapshot ob p =
     (sort_key fst (map (\<lambda>(hash, entry). (agent_key_hash_prefix hash, mode_for p hash, tc_reasons entry,
        tc_proofs_admitted entry, 0 < tc_proofs_admitted entry \<and> agent_key_only_tolerated entry)) (ob_counts ob)),
      ob_observed_since ob)"

end
