(* ===== verification/EdgeState.thy ===== *)
theory EdgeState
  imports AgentKey RateLimit AccessWindow Reach
begin

text \<open>
  The routing state of the edge (\<open>src/crates/edge/src/state.rs\<close>, \<open>EdgeState\<close>). A method is a function
  on the record of the fields behind its locks: methods that take \<open>registration_lock\<close> are one step
  each, and so is each short critical section of the others. The wall clock is an argument. A parked
  fallback agent is the number of its oneshot channel; whether its receiver still exists is the
  predicate \<open>alive\<close> of the caller. Atomic counters wrap around at 64 bits. The session store of
  \<open>tunnel_history.rs\<close> is an SQL database; the state here is that of an edge without one, where the calls
  to it do nothing. \<open>H\<close>, the connection handle, is a type variable.
\<close>

section \<open>State\<close>

record edge_counters =
  ec_registrations :: u64
  ec_relays :: u64
  ec_relay_bytes :: u64
  ec_failovers :: u64
  ec_tcp_parks :: u64
  ec_tcp_deliveries :: u64
  ec_tcp_reaped :: u64
  ec_last_reap_tick :: u64
  ec_access_window_refused :: u64
  ec_relay_bytes_browser :: u64
  ec_relay_bytes_dataplane :: u64
  ec_relay_bytes_tcp_fallback :: u64

record 'h edge_state =
  ed_agents :: "(token, (u64 \<times> 'h) list) hmap"
  ed_next_reg :: u64
  ed_candidates :: "(token, socket_addr) hmap"
  ed_direct :: "(token, socket_addr \<times> bytes) hmap"
  ed_direct_eviction_cursor :: u64
  ed_tcp_agents :: "(token, nat list) hmap"
  ed_hosts :: "(ustring, token) hmap"
  ed_hosts_by_token :: "(token, ustring set) hmap"
  ed_revoked :: "token set"
  ed_admin_token :: "bytes option"
  ed_host_auth :: "(ustring, token) hmap option"
  ed_gelb_hosts :: "ustring set"
  ed_access_policies :: "(token, access_policy) hmap"
  ed_rendezvous_limiter :: "token keyed_rate_limiter option"
  ed_revocation_tick :: u64
  ed_counters :: edge_counters
  ed_tcp_parked_gauge :: u64
  ed_active_tunnels_gauge :: u64
  ed_total_registrations_gauge :: u64
  ed_tunnel_bytes :: "(token, u64 \<times> u64) hmap"
  ed_connected_since :: "(token, u64) hmap"
  ed_last_seen :: "(token, u64) hmap"
  ed_obs :: agent_key_obs
  ed_pins :: "(token, agent_key_pin) hmap"
  ed_policy :: agent_key_policy

definition edge_new :: "u64 \<Rightarrow> 'h edge_state" where
  "edge_new now =
     \<lparr>ed_agents = hm_empty, ed_next_reg = 1, ed_candidates = hm_empty, ed_direct = hm_empty,
      ed_direct_eviction_cursor = 0, ed_tcp_agents = hm_empty, ed_hosts = hm_empty, ed_hosts_by_token = hm_empty,
      ed_revoked = {}, ed_admin_token = None, ed_host_auth = None, ed_gelb_hosts = {},
      ed_access_policies = hm_empty, ed_rendezvous_limiter = None, ed_revocation_tick = 0,
      ed_counters = \<lparr>ec_registrations = 0, ec_relays = 0, ec_relay_bytes = 0, ec_failovers = 0, ec_tcp_parks = 0,
        ec_tcp_deliveries = 0, ec_tcp_reaped = 0, ec_last_reap_tick = 0, ec_access_window_refused = 0,
        ec_relay_bytes_browser = 0, ec_relay_bytes_dataplane = 0, ec_relay_bytes_tcp_fallback = 0\<rparr>,
      ed_tcp_parked_gauge = 0, ed_active_tunnels_gauge = 0, ed_total_registrations_gauge = 0,
      ed_tunnel_bytes = hm_empty, ed_connected_since = hm_empty, ed_last_seen = hm_empty,
      ed_obs = obs_new now, ed_pins = hm_empty, ed_policy = policy_default\<rparr>"

section \<open>Revocation and admin secret\<close>

definition is_revoked :: "'h edge_state \<Rightarrow> token \<Rightarrow> bool" where
  "is_revoked st token \<longleftrightarrow> token \<in> ed_revoked st"

definition seed_revoked_tokens :: "'h edge_state \<Rightarrow> token list \<Rightarrow> 'h edge_state" where
  "seed_revoked_tokens st tokens = st\<lparr>ed_revoked := ed_revoked st \<union> set tokens\<rparr>"

definition set_admin_token :: "'h edge_state \<Rightarrow> bytes \<Rightarrow> 'h edge_state" where
  "set_admin_token st token = st\<lparr>ed_admin_token := Some token\<rparr>"

definition admin_revoke_ok :: "'h edge_state \<Rightarrow> bytes \<Rightarrow> bool" where
  "admin_revoke_ok st auth = (case ed_admin_token st of Some expected \<Rightarrow> ct_eq auth expected | None \<Rightarrow> False)"

section \<open>Hostnames\<close>

datatype host_bind_refusal = MalformedHostname | RevokedBind | BoundToDifferentToken

definition hosts_of :: "'h edge_state \<Rightarrow> token \<Rightarrow> ustring set" where
  "hosts_of st token = (case hm_get (ed_hosts_by_token st) token of None \<Rightarrow> {} | Some hs \<Rightarrow> hs)"

definition register_host :: "'h edge_state \<Rightarrow> ustring \<Rightarrow> token \<Rightarrow> (host_bind_refusal + unit) \<times> 'h edge_state" where
  "register_host st host token =
     (case normalize_hostname host of
        None \<Rightarrow> (Err MalformedHostname, st)
      | Some key \<Rightarrow>
          if is_revoked st token then (Err RevokedBind, st)
          else if (case hm_get (ed_hosts st) key of None \<Rightarrow> False | Some existing \<Rightarrow> existing \<noteq> token)
          then (Err BoundToDifferentToken, st)
          else (Ok (), st\<lparr>ed_hosts_by_token :=
                            hm_insert token (insert key (hosts_of st token)) (ed_hosts_by_token st),
                          ed_hosts := hm_insert key token (ed_hosts st)\<rparr>))"

definition clear_hosts_for :: "'h edge_state \<Rightarrow> token \<Rightarrow> 'h edge_state" where
  "clear_hosts_for st token =
     (case hm_get (ed_hosts_by_token st) token of
        None \<Rightarrow> st
      | Some owned \<Rightarrow>
          st\<lparr>ed_hosts_by_token := hm_remove token (ed_hosts_by_token st),
             ed_hosts := hm_retain (\<lambda>host _. host \<notin> owned) (ed_hosts st),
             ed_gelb_hosts := ed_gelb_hosts st - owned\<rparr>)"

definition route_host :: "'h edge_state \<Rightarrow> ustring \<Rightarrow> token option" where
  "route_host st host =
     (case normalize_hostname host of None \<Rightarrow> None | Some key \<Rightarrow> hm_get (ed_hosts st) key)"

definition dump_host_auth :: "'h edge_state \<Rightarrow> (ustring \<times> token) list option" where
  "dump_host_auth st = ed_host_auth st"

definition require_host_auth :: "'h edge_state \<Rightarrow> 'h edge_state" where
  "require_host_auth st = (case ed_host_auth st of None \<Rightarrow> st\<lparr>ed_host_auth := Some hm_empty\<rparr> | Some _ \<Rightarrow> st)"

definition authorize_host :: "'h edge_state \<Rightarrow> ustring \<Rightarrow> token \<Rightarrow> 'h edge_state" where
  "authorize_host st host token =
     (case normalize_hostname host of
        None \<Rightarrow> st
      | Some key \<Rightarrow> st\<lparr>ed_host_auth := Some (hm_insert key token
          (case ed_host_auth st of None \<Rightarrow> hm_empty | Some m \<Rightarrow> m))\<rparr>)"

definition unauthorize_host :: "'h edge_state \<Rightarrow> ustring \<Rightarrow> 'h edge_state" where
  "unauthorize_host st host =
     (case normalize_hostname host of
        None \<Rightarrow> st
      | Some key \<Rightarrow> st\<lparr>ed_host_auth := map_option (hm_remove key) (ed_host_auth st)\<rparr>)"

definition clear_host_auth_for :: "'h edge_state \<Rightarrow> token \<Rightarrow> 'h edge_state" where
  "clear_host_auth_for st token =
     st\<lparr>ed_host_auth := map_option (hm_retain (\<lambda>_ t. t \<noteq> token)) (ed_host_auth st)\<rparr>"

definition host_bind_allowed :: "'h edge_state \<Rightarrow> ustring \<Rightarrow> token \<Rightarrow> bool" where
  "host_bind_allowed st host token =
     (case normalize_hostname host of
        None \<Rightarrow> False
      | Some key \<Rightarrow> (case ed_host_auth st of None \<Rightarrow> True | Some m \<Rightarrow> hm_get m key = Some token))"

definition authorized_token_for :: "'h edge_state \<Rightarrow> ustring \<Rightarrow> token option" where
  "authorized_token_for st host =
     (case normalize_hostname host of
        None \<Rightarrow> None
      | Some key \<Rightarrow> (case ed_host_auth st of None \<Rightarrow> None | Some m \<Rightarrow> hm_get m key))"

definition set_cert_tier :: "'h edge_state \<Rightarrow> ustring \<Rightarrow> bool \<Rightarrow> 'h edge_state" where
  "set_cert_tier st host gelb =
     (case normalize_hostname host of
        None \<Rightarrow> st
      | Some key \<Rightarrow> st\<lparr>ed_gelb_hosts := (if gelb then insert key (ed_gelb_hosts st) else ed_gelb_hosts st - {key})\<rparr>)"

definition is_gelb :: "'h edge_state \<Rightarrow> ustring \<Rightarrow> bool" where
  "is_gelb st host = (case normalize_hostname host of Some key \<Rightarrow> key \<in> ed_gelb_hosts st | None \<Rightarrow> False)"

section \<open>Access windows and the rendezvous limit\<close>

definition set_access_policy :: "'h edge_state \<Rightarrow> token \<Rightarrow> access_policy option \<Rightarrow> 'h edge_state" where
  "set_access_policy st token policy =
     (case policy of
        Some p \<Rightarrow> if \<not> is_unrestricted p
                  then st\<lparr>ed_access_policies := hm_insert token p (ed_access_policies st)\<rparr>
                  else st\<lparr>ed_access_policies := hm_remove token (ed_access_policies st)\<rparr>
      | None \<Rightarrow> st\<lparr>ed_access_policies := hm_remove token (ed_access_policies st)\<rparr>)"

definition access_window_open :: "'h edge_state \<Rightarrow> token \<Rightarrow> int \<Rightarrow> bool" where
  "access_window_open st token now_unix =
     (case hm_get (ed_access_policies st) token of Some p \<Rightarrow> policy_is_open p now_unix | None \<Rightarrow> True)"

definition note_access_window_refused :: "'h edge_state \<Rightarrow> u64 \<times> 'h edge_state" where
  "note_access_window_refused st =
     (let n = ec_access_window_refused (ed_counters st) + 1
      in (n, st\<lparr>ed_counters := (ed_counters st)\<lparr>ec_access_window_refused := n\<rparr>\<rparr>))"

definition set_rendezvous_limit :: "'h edge_state \<Rightarrow> u32 \<Rightarrow> 'h edge_state" where
  "set_rendezvous_limit st max_per_window = st\<lparr>ed_rendezvous_limiter := Some (limiter_new max_per_window)\<rparr>"

definition rendezvous_tracked_keys :: "'h edge_state \<Rightarrow> nat" where
  "rendezvous_tracked_keys st = (case ed_rendezvous_limiter st of None \<Rightarrow> 0 | Some rl \<Rightarrow> tracked_keys rl)"

definition rendezvous_allowed :: "'h edge_state \<Rightarrow> token \<Rightarrow> u64 \<Rightarrow> bool \<times> 'h edge_state" where
  "rendezvous_allowed st token window =
     (case ed_rendezvous_limiter st of
        None \<Rightarrow> (True, st)
      | Some rl \<Rightarrow> (case allow rl token window of (ok, rl') \<Rightarrow> (ok, st\<lparr>ed_rendezvous_limiter := Some rl'\<rparr>)))"

section \<open>Relay accounting\<close>

datatype relay_kind = Browser | DataPlane | TcpFallback

definition count_kind :: "relay_kind \<Rightarrow> u64 \<Rightarrow> edge_counters \<Rightarrow> edge_counters" where
  "count_kind kind n c = (case kind of
       Browser \<Rightarrow> c\<lparr>ec_relay_bytes_browser := ec_relay_bytes_browser c + n\<rparr>
     | DataPlane \<Rightarrow> c\<lparr>ec_relay_bytes_dataplane := ec_relay_bytes_dataplane c + n\<rparr>
     | TcpFallback \<Rightarrow> c\<lparr>ec_relay_bytes_tcp_fallback := ec_relay_bytes_tcp_fallback c + n\<rparr>)"

definition tunnel_bytes :: "'h edge_state \<Rightarrow> token \<Rightarrow> u64 \<times> u64" where
  "tunnel_bytes st token = (case hm_get (ed_tunnel_bytes st) token of None \<Rightarrow> (0, 0) | Some b \<Rightarrow> b)"

definition note_relay :: "u64 \<Rightarrow> 'h edge_state \<Rightarrow> token \<Rightarrow> u64 \<Rightarrow> u64 \<Rightarrow> relay_kind \<Rightarrow> 'h edge_state" where
  "note_relay now st token client_to_agent agent_to_client kind =
     (let summed = saturating_add client_to_agent agent_to_client;
          c = count_kind kind summed (ed_counters st);
          c = c\<lparr>ec_relays := ec_relays c + 1, ec_relay_bytes := ec_relay_bytes c + (client_to_agent + agent_to_client)\<rparr>;
          (a, b) = tunnel_bytes st token
      in st\<lparr>ed_counters := c,
            ed_tunnel_bytes := hm_insert token (a + client_to_agent, b + agent_to_client) (ed_tunnel_bytes st),
            ed_last_seen := hm_insert token now (ed_last_seen st)\<rparr>)"

definition relay_bytes_by_kind :: "'h edge_state \<Rightarrow> u64 \<times> u64 \<times> u64" where
  "relay_bytes_by_kind st = (ec_relay_bytes_browser (ed_counters st), ec_relay_bytes_dataplane (ed_counters st),
     ec_relay_bytes_tcp_fallback (ed_counters st))"

definition connection_timing :: "'h edge_state \<Rightarrow> token \<Rightarrow> u64 option \<times> u64 option" where
  "connection_timing st token = (hm_get (ed_connected_since st) token, hm_get (ed_last_seen st) token)"

definition note_failover :: "'h edge_state \<Rightarrow> 'h edge_state" where
  "note_failover st = st\<lparr>ed_counters := (ed_counters st)\<lparr>ec_failovers := ec_failovers (ed_counters st) + 1\<rparr>\<rparr>"

definition note_connected :: "u64 \<Rightarrow> 'h edge_state \<Rightarrow> token \<Rightarrow> 'h edge_state" where
  "note_connected now st token =
     st\<lparr>ed_connected_since := (case hm_get (ed_connected_since st) token of
          None \<Rightarrow> hm_insert token now (ed_connected_since st) | Some _ \<Rightarrow> ed_connected_since st),
        ed_last_seen := hm_insert token now (ed_last_seen st)\<rparr>"

section \<open>The fallback pool\<close>

definition saturating_dec :: "u64 \<Rightarrow> u64" where
  "saturating_dec gauge = (if gauge \<noteq> 0 then gauge - 1 else gauge)"

definition parked_queue :: "'h edge_state \<Rightarrow> token \<Rightarrow> nat list" where
  "parked_queue st token = (case hm_get (ed_tcp_agents st) token of None \<Rightarrow> [] | Some q \<Rightarrow> q)"

definition tcp_parked_for :: "'h edge_state \<Rightarrow> token \<Rightarrow> nat" where
  "tcp_parked_for st token = (case hm_get (ed_tcp_agents st) token of None \<Rightarrow> 0 | Some q \<Rightarrow> length q)"

definition has_tcp_agent :: "'h edge_state \<Rightarrow> token \<Rightarrow> bool" where
  "has_tcp_agent st token = (case hm_get (ed_tcp_agents st) token of None \<Rightarrow> False | Some q \<Rightarrow> q \<noteq> [])"

definition park_tcp_agent :: "u64 \<Rightarrow> 'h edge_state \<Rightarrow> token \<Rightarrow> nat \<Rightarrow> 'h edge_state" where
  "park_tcp_agent now st token tx =
     (let st = st\<lparr>ed_tcp_agents := hm_insert token (parked_queue st token @ [tx]) (ed_tcp_agents st)\<rparr>;
          st = note_connected now st token
      in st\<lparr>ed_counters := (ed_counters st)\<lparr>ec_tcp_parks := ec_tcp_parks (ed_counters st) + 1\<rparr>,
            ed_tcp_parked_gauge := ed_tcp_parked_gauge st + 1\<rparr>)"

text \<open>
  One delivery attempt: \<open>Ok tx\<close> when the stream went to the channel \<open>tx\<close>, else the stream back.
\<close>

definition deliver_to_tcp_agent :: "(nat \<Rightarrow> bool) \<Rightarrow> 'h edge_state \<Rightarrow> token \<Rightarrow> 's \<Rightarrow> ('s + nat) \<times> 'h edge_state" where
  "deliver_to_tcp_agent alive st token stream =
     (case hm_get (ed_tcp_agents st) token of
        None \<Rightarrow> (Err stream, st)
      | Some [] \<Rightarrow> (Err stream, st)
      | Some (tx # queue) \<Rightarrow>
          let st = st\<lparr>ed_tcp_agents := (if queue = [] then hm_remove token (ed_tcp_agents st)
                        else hm_insert token queue (ed_tcp_agents st)),
                      ed_tcp_parked_gauge := saturating_dec (ed_tcp_parked_gauge st)\<rparr>
          in if alive tx
             then (Ok tx, st\<lparr>ed_counters := (ed_counters st)\<lparr>ec_tcp_deliveries := ec_tcp_deliveries (ed_counters st) + 1\<rparr>\<rparr>)
             else (Err stream, st))"

lemma deliver_consumes:
  "has_tcp_agent st token \<Longrightarrow> deliver_to_tcp_agent alive st token stream = (r, st') \<Longrightarrow>
     Suc (tcp_parked_for st' token) = tcp_parked_for st token"
  by (auto simp: has_tcp_agent_def deliver_to_tcp_agent_def tcp_parked_for_def Let_def
      split: option.splits list.splits if_splits)

function deliver_to_tcp_agent_draining ::
  "(nat \<Rightarrow> bool) \<Rightarrow> 'h edge_state \<Rightarrow> token \<Rightarrow> 's \<Rightarrow> ('s + nat) \<times> 'h edge_state" where
  "deliver_to_tcp_agent_draining alive st token stream =
     (if has_tcp_agent st token then
        (case deliver_to_tcp_agent alive st token stream of
           (Inr tx, st') \<Rightarrow> (Ok tx, st')
         | (Inl back, st') \<Rightarrow> deliver_to_tcp_agent_draining alive st' token back)
      else (Err stream, st))"
  by pat_completeness auto
termination
  by (relation "measure (\<lambda>(alive, st, token, stream). tcp_parked_for st token)") (auto dest!: deliver_consumes [OF _ sym])

declare deliver_to_tcp_agent_draining.simps [simp del]

definition reap_queues :: "(nat \<Rightarrow> bool) \<Rightarrow> (token, nat list) hmap \<Rightarrow> (token, nat list) hmap" where
  "reap_queues alive m = filter (\<lambda>(_, q). q \<noteq> []) (map (\<lambda>(t, q). (t, filter alive q)) m)"

definition reap_dead_tcp_parks :: "(nat \<Rightarrow> bool) \<Rightarrow> 'h edge_state \<Rightarrow> u64 \<times> 'h edge_state" where
  "reap_dead_tcp_parks alive st =
     (let reaped = sum_list (map (\<lambda>(_, q). length q - length (filter alive q)) (ed_tcp_agents st))
      in (word_of_nat reaped,
          st\<lparr>ed_tcp_agents := reap_queues alive (ed_tcp_agents st),
             ed_counters := (ed_counters st)\<lparr>ec_tcp_reaped := ec_tcp_reaped (ed_counters st) + word_of_nat reaped\<rparr>,
             ed_tcp_parked_gauge := (saturating_dec ^^ reaped) (ed_tcp_parked_gauge st)\<rparr>))"

definition note_reap_tick :: "'h edge_state \<Rightarrow> u64 \<Rightarrow> 'h edge_state" where
  "note_reap_tick st now = st\<lparr>ed_counters := (ed_counters st)\<lparr>ec_last_reap_tick := now\<rparr>\<rparr>"

definition reap_tick_secs_ago :: "'h edge_state \<Rightarrow> u64 \<Rightarrow> u64 option" where
  "reap_tick_secs_ago st now =
     (let last = ec_last_reap_tick (ed_counters st) in if last = 0 then None else Some (saturating_sub now last))"

section \<open>Registrations\<close>

definition registrations_of :: "'h edge_state \<Rightarrow> token \<Rightarrow> (u64 \<times> 'h) list" where
  "registrations_of st token = (case hm_get (ed_agents st) token of None \<Rightarrow> [] | Some v \<Rightarrow> v)"

definition register_locked :: "u64 \<Rightarrow> 'h edge_state \<Rightarrow> token \<Rightarrow> 'h \<Rightarrow> u64 \<times> 'h edge_state" where
  "register_locked now st token handle =
     (let reg_id = ed_next_reg st;
          entry = registrations_of st token;
          st = st\<lparr>ed_next_reg := reg_id + 1,
                  ed_active_tunnels_gauge := ed_active_tunnels_gauge st + (if entry = [] then 1 else 0),
                  ed_agents := hm_insert token (entry @ [(reg_id, handle)]) (ed_agents st)\<rparr>;
          st = note_connected now st token
      in (reg_id, st\<lparr>ed_total_registrations_gauge := ed_total_registrations_gauge st + 1,
            ed_counters := (ed_counters st)\<lparr>ec_registrations := ec_registrations (ed_counters st) + 1\<rparr>\<rparr>))"

definition register :: "u64 \<Rightarrow> 'h edge_state \<Rightarrow> token \<Rightarrow> 'h \<Rightarrow> u64 \<times> 'h edge_state" where
  "register now st token handle = register_locked now st token handle"

definition set_candidate :: "'h edge_state \<Rightarrow> token \<Rightarrow> socket_addr \<Rightarrow> 'h edge_state" where
  "set_candidate st token addr = st\<lparr>ed_candidates := hm_insert token addr (ed_candidates st)\<rparr>"

definition register_with_candidate :: "u64 \<Rightarrow> 'h edge_state \<Rightarrow> token \<Rightarrow> 'h \<Rightarrow> socket_addr \<Rightarrow> u64 \<times> 'h edge_state" where
  "register_with_candidate now st token handle addr =
     (let (reg_id, st) = register_locked now st token handle in (reg_id, set_candidate st token addr))"

definition register_unless_revoked :: "u64 \<Rightarrow> 'h edge_state \<Rightarrow> token \<Rightarrow> 'h \<Rightarrow> u64 option \<times> 'h edge_state" where
  "register_unless_revoked now st token handle =
     (if is_revoked st token then (None, st)
      else let (reg_id, st) = register_locked now st token handle in (Some reg_id, st))"

definition register_with_candidate_unless_revoked ::
  "u64 \<Rightarrow> 'h edge_state \<Rightarrow> token \<Rightarrow> 'h \<Rightarrow> socket_addr \<Rightarrow> u64 option \<times> 'h edge_state" where
  "register_with_candidate_unless_revoked now st token handle addr =
     (if is_revoked st token then (None, st)
      else let (reg_id, st) = register_locked now st token handle in (Some reg_id, set_candidate st token addr))"

definition park_tcp_agent_unless_revoked :: "u64 \<Rightarrow> 'h edge_state \<Rightarrow> token \<Rightarrow> nat \<Rightarrow> nat option \<times> 'h edge_state" where
  "park_tcp_agent_unless_revoked now st token tx =
     (if is_revoked st token then (None, st) else (Some tx, park_tcp_agent now st token tx))"

definition candidate :: "'h edge_state \<Rightarrow> token \<Rightarrow> socket_addr option" where
  "candidate st token = hm_get (ed_candidates st) token"

definition route :: "'h edge_state \<Rightarrow> token \<Rightarrow> 'h option" where
  "route st token =
     (case hm_get (ed_agents st) token of None \<Rightarrow> None | Some v \<Rightarrow> if v = [] then None else Some (snd (last v)))"

definition routes :: "'h edge_state \<Rightarrow> token \<Rightarrow> 'h list" where
  "routes st token = (case hm_get (ed_agents st) token of None \<Rightarrow> [] | Some v \<Rightarrow> map snd (rev v))"

definition registration_count :: "'h edge_state \<Rightarrow> token \<Rightarrow> nat" where
  "registration_count st token = (case hm_get (ed_agents st) token of None \<Rightarrow> 0 | Some v \<Rightarrow> length v)"

definition tunnel_status :: "'h edge_state \<Rightarrow> token \<Rightarrow> bool" where
  "tunnel_status st token \<longleftrightarrow> 0 < registration_count st token"

definition is_known :: "'h edge_state \<Rightarrow> token \<Rightarrow> bool" where
  "is_known st token = (case hm_get (ed_agents st) token of None \<Rightarrow> False | Some v \<Rightarrow> v \<noteq> [])"

definition active_tunnels :: "'h edge_state \<Rightarrow> u64" where
  "active_tunnels st = ed_active_tunnels_gauge st"

definition total_registrations :: "'h edge_state \<Rightarrow> u64" where
  "total_registrations st = ed_total_registrations_gauge st"

definition TCP_FALLBACK_RESOLVABLE_GRACE_SECS :: u64 where
  "TCP_FALLBACK_RESOLVABLE_GRACE_SECS = 2"

definition is_resolvable :: "u64 \<Rightarrow> 'h edge_state \<Rightarrow> token \<Rightarrow> bool" where
  "is_resolvable now st token \<longleftrightarrow> is_known st token \<or> has_tcp_agent st token
     \<or> (case hm_get (ed_last_seen st) token of None \<Rightarrow> False
        | Some last_seen \<Rightarrow> saturating_sub now last_seen \<le> TCP_FALLBACK_RESOLVABLE_GRACE_SECS)"

definition stale_tokens :: "'h edge_state \<Rightarrow> u64 \<Rightarrow> u64 \<Rightarrow> token list" where
  "stale_tokens st now max_age_secs =
     map fst (filter (\<lambda>(token, seen). max_age_secs < saturating_sub now seen \<and> \<not> is_known st token
       \<and> \<not> has_tcp_agent st token) (ed_last_seen st))"

definition age_out_stale_history :: "'h edge_state \<Rightarrow> u64 \<Rightarrow> u64 \<Rightarrow> u64 \<times> 'h edge_state" where
  "age_out_stale_history st now max_age_secs =
     (let stale = stale_tokens st now max_age_secs
      in (word_of_nat (length stale),
          st\<lparr>ed_last_seen := fold hm_remove stale (ed_last_seen st),
             ed_tunnel_bytes := fold hm_remove stale (ed_tunnel_bytes st)\<rparr>))"

section \<open>Direct endpoints\<close>

definition DIRECT_ENDPOINTS_MAX :: nat where
  "DIRECT_ENDPOINTS_MAX = 4096"

definition DIRECT_CERT_MAX_LEN :: nat where
  "DIRECT_CERT_MAX_LEN = 8 * 1024"

definition DIRECT_EVICTION_SAMPLE :: nat where
  "DIRECT_EVICTION_SAMPLE = 64"

text \<open>\<open>keys().cycle().skip(start).take(DIRECT_EVICTION_SAMPLE)\<close> of a nonempty map.\<close>

definition eviction_sample :: "token list \<Rightarrow> nat \<Rightarrow> token list" where
  "eviction_sample ks start = map (\<lambda>i. ks ! ((start + i) mod length ks)) [0..<DIRECT_EVICTION_SAMPLE]"

definition advertise_direct :: "'h edge_state \<Rightarrow> token \<Rightarrow> socket_addr \<Rightarrow> bytes \<Rightarrow> bool \<times> 'h edge_state" where
  "advertise_direct st token addr cert =
     (if is_revoked st token \<or> DIRECT_CERT_MAX_LEN < length cert then (False, st)
      else let direct = ed_direct st in
        if hm_len direct < DIRECT_ENDPOINTS_MAX \<or> hm_contains direct token
        then (True, st\<lparr>ed_direct := hm_insert token (addr, cert) direct\<rparr>)
        else let start = unat (ed_direct_eviction_cursor st) mod hm_len direct;
                 st = st\<lparr>ed_direct_eviction_cursor := ed_direct_eviction_cursor st + word_of_nat DIRECT_EVICTION_SAMPLE\<rparr>
             in case find (\<lambda>t. registration_count st t = 0 \<and> \<not> has_tcp_agent st t)
                       (eviction_sample (map fst direct) start) of
                  None \<Rightarrow> (False, st)
                | Some victim \<Rightarrow> (True, st\<lparr>ed_direct := hm_insert token (addr, cert) (hm_remove victim direct)\<rparr>))"

definition direct_endpoint :: "'h edge_state \<Rightarrow> token \<Rightarrow> (socket_addr \<times> bytes) option" where
  "direct_endpoint st token = (if is_revoked st token then None else hm_get (ed_direct st) token)"

section \<open>Teardown\<close>

definition remove_registration :: "'h edge_state \<Rightarrow> token \<Rightarrow> u64 \<Rightarrow> 'h edge_state" where
  "remove_registration st token reg_id =
     (let st = (case hm_get (ed_pins st) token of
                  None \<Rightarrow> st
                | Some pin \<Rightarrow> st\<lparr>ed_pins := hm_insert token (pin\<lparr>kp_proven_ids := kp_proven_ids pin - {reg_id}\<rparr>) (ed_pins st)\<rparr>)
      in case hm_get (ed_agents st) token of
           None \<Rightarrow> st
         | Some v \<Rightarrow>
             let kept = filter (\<lambda>(rid, _). rid \<noteq> reg_id) v;
                 removed = length v - length kept;
                 st = st\<lparr>ed_total_registrations_gauge := ed_total_registrations_gauge st - word_of_nat removed\<rparr>
             in if kept \<noteq> [] then st\<lparr>ed_agents := hm_insert token kept (ed_agents st)\<rparr>
                else let st = st\<lparr>ed_active_tunnels_gauge := ed_active_tunnels_gauge st - (if 0 < removed then 1 else 0),
                                 ed_agents := hm_remove token (ed_agents st),
                                 ed_candidates := hm_remove token (ed_candidates st),
                                 ed_direct := hm_remove token (ed_direct st)\<rparr>
                     in if \<not> has_tcp_agent st token
                        then let st = clear_hosts_for st token
                             in st\<lparr>ed_connected_since := hm_remove token (ed_connected_since st)\<rparr>
                        else st)"

definition drop_agents :: "'h edge_state \<Rightarrow> token \<Rightarrow> 'h edge_state" where
  "drop_agents st token =
     (case hm_get (ed_agents st) token of
        None \<Rightarrow> st
      | Some v \<Rightarrow>
          let st = st\<lparr>ed_agents := hm_remove token (ed_agents st)\<rparr>
          in if v \<noteq> [] then st\<lparr>ed_active_tunnels_gauge := ed_active_tunnels_gauge st - 1,
                               ed_total_registrations_gauge := ed_total_registrations_gauge st - word_of_nat (length v)\<rparr>
             else st)"

definition remove_locked :: "'h edge_state \<Rightarrow> token \<Rightarrow> 'h edge_state" where
  "remove_locked st token =
     (let st = drop_agents st token;
          st = st\<lparr>ed_candidates := hm_remove token (ed_candidates st),
                  ed_direct := hm_remove token (ed_direct st),
                  ed_tcp_agents := hm_remove token (ed_tcp_agents st),
                  ed_pins := hm_remove token (ed_pins st)\<rparr>;
          st = clear_hosts_for st token
      in st\<lparr>ed_connected_since := hm_remove token (ed_connected_since st)\<rparr>)"

definition edge_remove :: "'h edge_state \<Rightarrow> token \<Rightarrow> 'h edge_state" where
  "edge_remove st token = remove_locked st token"

definition revoke_token :: "'h edge_state \<Rightarrow> token \<Rightarrow> 'h edge_state" where
  "revoke_token st token =
     (let st = st\<lparr>ed_revoked := insert token (ed_revoked st)\<rparr>;
          st = remove_locked st token;
          st = st\<lparr>ed_revocation_tick := ed_revocation_tick st + 1\<rparr>;
          st = clear_host_auth_for st token
      in st\<lparr>ed_access_policies := hm_remove token (ed_access_policies st)\<rparr>)"

section \<open>Agent keys\<close>

definition note_agent_key_violation ::
  "digest \<Rightarrow> u64 \<Rightarrow> 'h edge_state \<Rightarrow> token \<Rightarrow> agent_key_reason \<Rightarrow> agent_key_action \<Rightarrow> agent_key_mode \<Rightarrow> bytes option
     \<Rightarrow> 'h edge_state" where
  "note_agent_key_violation sha now st token reason action mode remote =
     st\<lparr>ed_obs := obs_violation sha now (ed_obs st) token reason action mode remote\<rparr>"

definition note_agent_key_proven :: "digest \<Rightarrow> 'h edge_state \<Rightarrow> token \<Rightarrow> 'h edge_state" where
  "note_agent_key_proven sha st token = st\<lparr>ed_obs := obs_proven sha (ed_obs st) token\<rparr>"

definition agent_key_mode_for :: "digest \<Rightarrow> 'h edge_state \<Rightarrow> token \<Rightarrow> agent_key_mode" where
  "agent_key_mode_for sha st token = mode_for (ed_policy st) (agent_key_token_hash sha token)"

definition agent_key_mode_locked :: "digest \<Rightarrow> 'h edge_state \<Rightarrow> token \<Rightarrow> agent_key_mode \<Rightarrow> agent_key_mode" where
  "agent_key_mode_locked sha st token read_by_caller =
     (if agent_key_mode_for sha st token = ModeEnforce then ModeEnforce else read_by_caller)"

definition pin_proven_locked :: "'h edge_state \<Rightarrow> token \<Rightarrow> proven_key \<Rightarrow> pin_outcome \<times> 'h edge_state" where
  "pin_proven_locked st token proof =
     (case pin_proven (ed_pins st) token proof of (outcome, pins) \<Rightarrow> (outcome, st\<lparr>ed_pins := pins\<rparr>))"

definition unproven_reason_locked :: "'h edge_state \<Rightarrow> token \<Rightarrow> agent_key_reason" where
  "unproven_reason_locked st token =
     (let live = map fst (registrations_of st token) in
      if live = [] then Unproven
      else if (case hm_get (ed_pins st) token of None \<Rightarrow> False
               | Some pin \<Rightarrow> list_ex (\<lambda>i. i \<in> kp_proven_ids pin) live)
      then UnprovenBesideProven else SecondUnproven)"

definition take_registrations_locked :: "'h edge_state \<Rightarrow> token \<Rightarrow> 'h list \<times> 'h edge_state" where
  "take_registrations_locked st token = (map snd (registrations_of st token), drop_agents st token)"

definition admit_registration ::
  "digest \<Rightarrow> u64 \<Rightarrow> 'h edge_state \<Rightarrow> token \<Rightarrow> 'h \<Rightarrow> socket_addr \<Rightarrow> bool \<Rightarrow> u64 \<times> 'h edge_state" where
  "admit_registration sha now st token handle addr proves_pin =
     (let (reg_id, st) = register_locked now st token handle;
          st = set_candidate st token addr
      in (reg_id, if proves_pin
          then note_agent_key_proven sha (st\<lparr>ed_pins := hm_insert token
                 ((pin_entry (ed_pins st) token)\<lparr>kp_proven_ids :=
                    insert reg_id (kp_proven_ids (pin_entry (ed_pins st) token))\<rparr>) (ed_pins st)\<rparr>) token
          else st))"

definition register_with_candidate_checked ::
  "digest \<Rightarrow> u64 \<Rightarrow> 'h edge_state \<Rightarrow> token \<Rightarrow> 'h \<Rightarrow> socket_addr \<Rightarrow> agent_key_mode \<Rightarrow> proven_key option \<Rightarrow> bytes option
     \<Rightarrow> (agent_key_reason + u64 \<times> 'h list) \<times> 'h edge_state" where
  "register_with_candidate_checked sha now st token handle addr mode proof remote =
     (let mode = agent_key_mode_locked sha st token mode in
      if is_revoked st token then (Err RevokedToken, st)
      else let refusing = (mode = ModeEnforce);
               action = (if refusing then Refused else Admitted)
           in case proof of
                Some p \<Rightarrow>
                  (case pin_proven_locked st token p of
                     (PinAccepted, st) \<Rightarrow>
                       let (reg_id, st) = admit_registration sha now st token handle addr True in (Ok (reg_id, []), st)
                   | (PinRepinned, st) \<Rightarrow>
                       let (removed, st) = take_registrations_locked st token;
                           st = note_agent_key_violation sha now st token ForeignKey Repinned mode remote;
                           (reg_id, st) = admit_registration sha now st token handle addr True
                       in (Ok (reg_id, removed), st)
                   | (PinRejected reason, st) \<Rightarrow>
                       let st = note_agent_key_violation sha now st token reason action mode remote in
                       if refusing then (Err reason, st)
                       else let (reg_id, st) = admit_registration sha now st token handle addr False
                            in (Ok (reg_id, []), st))
              | None \<Rightarrow>
                  let reason = unproven_reason_locked st token;
                      st = note_agent_key_violation sha now st token reason action mode remote in
                  if refusing then (Err reason, st)
                  else let (reg_id, st) = admit_registration sha now st token handle addr False
                       in (Ok (reg_id, []), st))"

definition park_tcp_agent_checked ::
  "digest \<Rightarrow> u64 \<Rightarrow> 'h edge_state \<Rightarrow> token \<Rightarrow> agent_key_mode \<Rightarrow> bytes option \<Rightarrow> nat \<Rightarrow> nat option \<times> 'h edge_state" where
  "park_tcp_agent_checked sha now st token mode remote tx =
     (let mode = agent_key_mode_locked sha st token mode in
      if is_revoked st token then (None, st)
      else let refusing = (mode = ModeEnforce);
               st = note_agent_key_violation sha now st token UnprovenTcp (if refusing then Refused else Admitted) mode remote
           in if refusing then (None, st) else (Some tx, park_tcp_agent now st token tx))"

definition swap_agent_key_policy_locked :: "digest \<Rightarrow> 'h edge_state \<Rightarrow> agent_key_policy \<Rightarrow> token list \<times> 'h edge_state" where
  "swap_agent_key_policy_locked sha st next_policy =
     (let tokens = map fst (ed_agents st);
          tokens = tokens @ filter (\<lambda>t. t \<notin> set tokens) (map fst (ed_tcp_agents st));
          newly = filter (\<lambda>token. let hash = agent_key_token_hash sha token
                    in mode_for next_policy hash = ModeEnforce \<and> mode_for (ed_policy st) hash = ModeLog) tokens
      in (newly, st\<lparr>ed_policy := next_policy\<rparr>))"

definition enforce_tunnel_locked :: "digest \<Rightarrow> u64 \<Rightarrow> 'h edge_state \<Rightarrow> token \<Rightarrow> 'h list \<times> 'h edge_state" where
  "enforce_tunnel_locked sha now st token =
     (let proven = (case hm_get (ed_pins st) token of None \<Rightarrow> {} | Some pin \<Rightarrow> kp_proven_ids pin);
          (removed, st) = (case hm_get (ed_agents st) token of
             None \<Rightarrow> ([], st)
           | Some v \<Rightarrow>
               let kept = filter (\<lambda>(i, _). i \<in> proven) v;
                   removed = map snd (filter (\<lambda>(i, _). i \<notin> proven) v);
                   evicted = length v - length kept;
                   st = st\<lparr>ed_total_registrations_gauge := ed_total_registrations_gauge st - word_of_nat evicted\<rparr>
               in (removed,
                   if kept = []
                   then st\<lparr>ed_active_tunnels_gauge := ed_active_tunnels_gauge st - (if 0 < evicted then 1 else 0),
                           ed_agents := hm_remove token (ed_agents st)\<rparr>
                   else st\<lparr>ed_agents := hm_insert token kept (ed_agents st)\<rparr>));
          st = st\<lparr>ed_tcp_agents := hm_remove token (ed_tcp_agents st)\<rparr>
      in (removed,
          ((\<lambda>st. note_agent_key_violation sha now st token EvictedOnEnforce Evicted ModeEnforce None) ^^ length removed) st))"

fun enforce_tunnels :: "digest \<Rightarrow> u64 \<Rightarrow> 'h edge_state \<Rightarrow> token list \<Rightarrow> 'h list \<times> 'h edge_state" where
  "enforce_tunnels sha now st [] = ([], st)"
| "enforce_tunnels sha now st (t # ts) =
     (let (removed, st) = enforce_tunnel_locked sha now st t; (rest, st) = enforce_tunnels sha now st ts
      in (removed @ rest, st))"

definition set_agent_key_policy ::
  "digest \<Rightarrow> u64 \<Rightarrow> 'h edge_state \<Rightarrow> agent_key_mode \<Rightarrow> bytes set \<Rightarrow> bytes option \<Rightarrow> bytes list \<Rightarrow> 'h list \<times> 'h edge_state" where
  "set_agent_key_policy sha now st default_mode enforce_set enforce_file issuers =
     (let (newly, st) = swap_agent_key_policy_locked sha st
            \<lparr>ap_default = default_mode, ap_enforce_set = enforce_set, ap_enforce_file = enforce_file, ap_issuers = issuers\<rparr>
      in enforce_tunnels sha now st newly)"

text \<open>The file is read by the parameter \<open>read_file\<close>: its text, or the message of the failure.\<close>

definition reload_agent_key_policy_from_file ::
  "(bytes \<Rightarrow> bytes + ustring) \<Rightarrow> digest \<Rightarrow> u64 \<Rightarrow> 'h edge_state \<Rightarrow> (reload_error + 'h list) \<times> 'h edge_state" where
  "reload_agent_key_policy_from_file read_file sha now st =
     (case ap_enforce_file (ed_policy st) of
        None \<Rightarrow> (Err (Unreadable (ascii ''no enforce-list path set'')), st)
      | Some path \<Rightarrow>
          (case read_file path of
             Inl e \<Rightarrow> (Err (Unreadable e), st)
           | Inr txt \<Rightarrow>
               (case parse_enforce_list txt of
                  Inl e \<Rightarrow> (Err e, st)
                | Inr enforce_set \<Rightarrow>
                    let (removed, st) = set_agent_key_policy sha now st (ap_default (ed_policy st)) enforce_set (Some path)
                          (ap_issuers (ed_policy st))
                    in (Ok removed, st))))"

end
