(* ===== verification/EdgeSteps.thy ===== *)
theory EdgeSteps
  imports EdgeState
begin

text \<open>
  Sequences of operations on the edge: every method of \<open>EdgeState\<close> that changes the state as one call,
  with the clock it reads, and what each call does to the fields the invariants are about.
\<close>

section \<open>Calls\<close>

datatype 'h edge_call =
    CRegisterHost ustring token
  | CRequireHostAuth
  | CAuthorizeHost ustring token
  | CUnauthorizeHost ustring
  | CSetCertTier ustring bool
  | CSetAccessPolicy token "access_policy option"
  | CAccessRefused
  | CSetRendezvousLimit u32
  | CRendezvous token u64
  | CRelay token u64 u64 relay_kind
  | CFailover
  | CSetAdminToken bytes
  | CViolation token agent_key_reason agent_key_action agent_key_mode "bytes option"
  | CDeliver "nat \<Rightarrow> bool" token
  | CReap "nat \<Rightarrow> bool"
  | CReapTick
  | CAgeOut u64
  | CRegister token 'h
  | CRegisterWithCandidate token 'h socket_addr
  | CRegisterUnlessRevoked token 'h
  | CRegisterWithCandidateUnlessRevoked token 'h socket_addr
  | CRegisterChecked token 'h socket_addr agent_key_mode "proven_key option" "bytes option"
  | CPark token nat
  | CParkUnlessRevoked token nat
  | CParkChecked token agent_key_mode "bytes option" nat
  | CAdvertiseDirect token socket_addr bytes
  | CRemoveRegistration token u64
  | CRemove token
  | CRevoke token
  | CSetPolicy agent_key_mode "bytes set" "bytes option" "bytes list"
  | CReload "bytes \<Rightarrow> bytes + ustring"

fun edge_step :: "digest \<Rightarrow> 'h edge_state \<Rightarrow> u64 \<times> 'h edge_call \<Rightarrow> 'h edge_state" where
  "edge_step sha st (now, CRegisterHost host token) = snd (register_host st host token)"
| "edge_step sha st (now, CRequireHostAuth) = require_host_auth st"
| "edge_step sha st (now, CAuthorizeHost host token) = authorize_host st host token"
| "edge_step sha st (now, CUnauthorizeHost host) = unauthorize_host st host"
| "edge_step sha st (now, CSetCertTier host gelb) = set_cert_tier st host gelb"
| "edge_step sha st (now, CSetAccessPolicy token policy) = set_access_policy st token policy"
| "edge_step sha st (now, CAccessRefused) = snd (note_access_window_refused st)"
| "edge_step sha st (now, CSetRendezvousLimit m) = set_rendezvous_limit st m"
| "edge_step sha st (now, CRendezvous token window) = snd (rendezvous_allowed st token window)"
| "edge_step sha st (now, CRelay token up down kind) = note_relay now st token up down kind"
| "edge_step sha st (now, CFailover) = note_failover st"
| "edge_step sha st (now, CSetAdminToken secret) = set_admin_token st secret"
| "edge_step sha st (now, CViolation token reason action mode remote) =
     note_agent_key_violation sha now st token reason action mode remote"
| "edge_step sha st (now, CDeliver alive token) = snd (deliver_to_tcp_agent_draining alive st token ())"
| "edge_step sha st (now, CReap alive) = snd (reap_dead_tcp_parks alive st)"
| "edge_step sha st (now, CReapTick) = note_reap_tick st now"
| "edge_step sha st (now, CAgeOut max_age) = snd (age_out_stale_history st now max_age)"
| "edge_step sha st (now, CRegister token handle) = snd (register now st token handle)"
| "edge_step sha st (now, CRegisterWithCandidate token handle addr) = snd (register_with_candidate now st token handle addr)"
| "edge_step sha st (now, CRegisterUnlessRevoked token handle) = snd (register_unless_revoked now st token handle)"
| "edge_step sha st (now, CRegisterWithCandidateUnlessRevoked token handle addr) =
     snd (register_with_candidate_unless_revoked now st token handle addr)"
| "edge_step sha st (now, CRegisterChecked token handle addr mode proof remote) =
     snd (register_with_candidate_checked sha now st token handle addr mode proof remote)"
| "edge_step sha st (now, CPark token tx) = park_tcp_agent now st token tx"
| "edge_step sha st (now, CParkUnlessRevoked token tx) = snd (park_tcp_agent_unless_revoked now st token tx)"
| "edge_step sha st (now, CParkChecked token mode remote tx) = snd (park_tcp_agent_checked sha now st token mode remote tx)"
| "edge_step sha st (now, CAdvertiseDirect token addr cert) = snd (advertise_direct st token addr cert)"
| "edge_step sha st (now, CRemoveRegistration token reg_id) = remove_registration st token reg_id"
| "edge_step sha st (now, CRemove token) = edge_remove st token"
| "edge_step sha st (now, CRevoke token) = revoke_token st token"
| "edge_step sha st (now, CSetPolicy default_mode enforce_set enforce_file issuers) =
     snd (set_agent_key_policy sha now st default_mode enforce_set enforce_file issuers)"
| "edge_step sha st (now, CReload read_file) = snd (reload_agent_key_policy_from_file read_file sha now st)"

definition edge_run :: "digest \<Rightarrow> 'h edge_state \<Rightarrow> (u64 \<times> 'h edge_call) list \<Rightarrow> 'h edge_state" where
  "edge_run sha st calls = foldl (edge_step sha) st calls"

lemma edge_run_snoc [simp]: "edge_run sha st (calls @ [c]) = edge_step sha (edge_run sha st calls) c"
  by (simp add: edge_run_def)

lemma edge_run_Nil [simp]: "edge_run sha st [] = st"
  by (simp add: edge_run_def)

text \<open>An invariant that every admitted call keeps holds after every run of admitted calls.\<close>

lemma edge_run_invariant:
  assumes "P st" "list_all ok calls"
    and "\<And>st c. P st \<Longrightarrow> ok c \<Longrightarrow> P (edge_step sha st c)"
  shows "P (edge_run sha st calls)"
  using assms(2)
proof (induction calls rule: rev_induct)
  case Nil
  then show ?case using assms(1) by simp
next
  case (snoc c calls)
  then show ?case using assms(3) by simp
qed

section \<open>What an operation leaves alone\<close>

text \<open>The fields that route: everything an incoming connection can be matched with.\<close>

definition routing ::
  "'h edge_state \<Rightarrow> (token, (u64 \<times> 'h) list) hmap \<times> (token, socket_addr) hmap \<times> (token, socket_addr \<times> bytes) hmap
     \<times> (token, nat list) hmap \<times> (token, agent_key_pin) hmap \<times> (ustring, token) hmap \<times> (token, ustring set) hmap \<times> token set" where
  "routing st = (ed_agents st, ed_candidates st, ed_direct st, ed_tcp_agents st, ed_pins st, ed_hosts st,
     ed_hosts_by_token st, ed_revoked st)"

fun observing :: "'h edge_call \<Rightarrow> bool" where
  "observing CRequireHostAuth = True"
| "observing (CAuthorizeHost _ _) = True"
| "observing (CUnauthorizeHost _) = True"
| "observing (CSetCertTier _ _) = True"
| "observing (CSetAccessPolicy _ _) = True"
| "observing CAccessRefused = True"
| "observing (CSetRendezvousLimit _) = True"
| "observing (CRendezvous _ _) = True"
| "observing (CRelay _ _ _ _) = True"
| "observing CFailover = True"
| "observing (CSetAdminToken _) = True"
| "observing (CViolation _ _ _ _ _) = True"
| "observing CReapTick = True"
| "observing (CAgeOut _) = True"
| "observing _ = False"

lemmas observer_defs = require_host_auth_def authorize_host_def unauthorize_host_def set_cert_tier_def
  set_access_policy_def note_access_window_refused_def set_rendezvous_limit_def rendezvous_allowed_def note_relay_def
  note_failover_def set_admin_token_def note_agent_key_violation_def note_reap_tick_def age_out_stale_history_def Let_def

lemma observing_frame:
  assumes "observing c"
  shows "routing (edge_step sha st (now, c)) = routing st
    \<and> ed_active_tunnels_gauge (edge_step sha st (now, c)) = ed_active_tunnels_gauge st
    \<and> ed_total_registrations_gauge (edge_step sha st (now, c)) = ed_total_registrations_gauge st
    \<and> ed_tcp_parked_gauge (edge_step sha st (now, c)) = ed_tcp_parked_gauge st
    \<and> ed_next_reg (edge_step sha st (now, c)) = ed_next_reg st
    \<and> ed_policy (edge_step sha st (now, c)) = ed_policy st"
  using assms
  by (cases c) (simp_all add: observer_defs routing_def split: option.splits prod.splits)

section \<open>What the others do\<close>

lemma violation_repeat: "\<exists>ob. ((\<lambda>st. note_agent_key_violation sha now st t r a m rem) ^^ n) st = st\<lparr>ed_obs := ob\<rparr>"
proof (induction n)
  case 0
  show ?case by (rule exI [where x = "ed_obs st"]) simp
next
  case (Suc n)
  then show ?case by (auto simp: note_agent_key_violation_def)
qed

definition kept_agents :: "u64 set \<Rightarrow> token \<Rightarrow> (token, (u64 \<times> 'h) list) hmap \<Rightarrow> (token, (u64 \<times> 'h) list) hmap" where
  "kept_agents proven t m =
     (case hm_get m t of None \<Rightarrow> m
      | Some v \<Rightarrow> (if filter (\<lambda>(i, _). i \<in> proven) v = [] then hm_remove t m
                   else hm_insert t (filter (\<lambda>(i, _). i \<in> proven) v) m))"

lemma enforce_tunnel_fields:
  "routing (snd (enforce_tunnel_locked sha now st t)) =
     (kept_agents (kp_proven_ids (pin_entry (ed_pins st) t)) t (ed_agents st), ed_candidates st, ed_direct st,
      hm_remove t (ed_tcp_agents st), ed_pins st, ed_hosts st, ed_hosts_by_token st, ed_revoked st)
   \<and> ed_tcp_parked_gauge (snd (enforce_tunnel_locked sha now st t)) = ed_tcp_parked_gauge st
   \<and> ed_next_reg (snd (enforce_tunnel_locked sha now st t)) = ed_next_reg st
   \<and> ed_policy (snd (enforce_tunnel_locked sha now st t)) = ed_policy st
   \<and> ed_total_registrations_gauge (snd (enforce_tunnel_locked sha now st t)) = ed_total_registrations_gauge st
       - (case hm_get (ed_agents st) t of None \<Rightarrow> 0
          | Some v \<Rightarrow> word_of_nat (length v - length (filter (\<lambda>(i, _). i \<in> kp_proven_ids (pin_entry (ed_pins st) t)) v)))
   \<and> ed_active_tunnels_gauge (snd (enforce_tunnel_locked sha now st t)) = ed_active_tunnels_gauge st
       - (case hm_get (ed_agents st) t of None \<Rightarrow> 0
          | Some v \<Rightarrow> (if filter (\<lambda>(i, _). i \<in> kp_proven_ids (pin_entry (ed_pins st) t)) v = [] \<and> v \<noteq> [] then 1 else 0))"
proof -
  let ?proven = "kp_proven_ids (pin_entry (ed_pins st) t)"
  have p: "(case hm_get (ed_pins st) t of None \<Rightarrow> {} | Some pin \<Rightarrow> kp_proven_ids pin) = ?proven"
    by (simp add: pin_entry_def pin_default_def split: option.splits)
  show ?thesis
  proof (cases "hm_get (ed_agents st) t")
    case None
    then show ?thesis using violation_repeat
      by (simp add: enforce_tunnel_locked_def routing_def kept_agents_def Let_def)
  next
    case (Some v)
    let ?kept = "filter (\<lambda>(i, _). i \<in> ?proven) v"
    let ?st = "st\<lparr>ed_total_registrations_gauge := ed_total_registrations_gauge st - word_of_nat (length v - length ?kept)\<rparr>"
    let ?st' = "(if ?kept = []
        then ?st\<lparr>ed_active_tunnels_gauge := ed_active_tunnels_gauge ?st - (if 0 < length v - length ?kept then 1 else 0),
                 ed_agents := hm_remove t (ed_agents ?st)\<rparr>
        else ?st\<lparr>ed_agents := hm_insert t ?kept (ed_agents ?st)\<rparr>)"
    obtain ob where "snd (enforce_tunnel_locked sha now st t)
        = ?st'\<lparr>ed_tcp_agents := hm_remove t (ed_tcp_agents ?st'), ed_obs := ob\<rparr>"
      using violation_repeat [where sha = sha and now = now and t = t and r = EvictedOnEnforce and a = Evicted
          and m = ModeEnforce and rem = None and n = "length (filter (\<lambda>(i, _). i \<notin> ?proven) v)"
          and st = "?st'\<lparr>ed_tcp_agents := hm_remove t (ed_tcp_agents ?st')\<rparr>"]
      by (auto simp: enforce_tunnel_locked_def Some p Let_def)
    then show ?thesis using Some by (simp add: routing_def kept_agents_def)
  qed
qed

lemma register_locked_fields:
  "register_locked now st t h = (i, st') \<Longrightarrow>
     routing st' = (hm_insert t (registrations_of st t @ [(ed_next_reg st, h)]) (ed_agents st), ed_candidates st,
       ed_direct st, ed_tcp_agents st, ed_pins st, ed_hosts st, ed_hosts_by_token st, ed_revoked st)
     \<and> i = ed_next_reg st \<and> ed_next_reg st' = ed_next_reg st + 1
     \<and> ed_active_tunnels_gauge st' = ed_active_tunnels_gauge st + (if registrations_of st t = [] then 1 else 0)
     \<and> ed_total_registrations_gauge st' = ed_total_registrations_gauge st + 1
     \<and> ed_tcp_parked_gauge st' = ed_tcp_parked_gauge st \<and> ed_policy st' = ed_policy st"
  by (auto simp: register_locked_def note_connected_def routing_def Let_def)

lemma drop_agents_fields:
  "routing (drop_agents st t) = (hm_remove t (ed_agents st), ed_candidates st, ed_direct st, ed_tcp_agents st,
     ed_pins st, ed_hosts st, ed_hosts_by_token st, ed_revoked st) \<or> (hm_get (ed_agents st) t = None \<and> drop_agents st t = st)"
  "ed_next_reg (drop_agents st t) = ed_next_reg st" "ed_tcp_parked_gauge (drop_agents st t) = ed_tcp_parked_gauge st"
  "ed_policy (drop_agents st t) = ed_policy st" "hm_get (ed_agents (drop_agents st t)) k = (if k = t then None else hm_get (ed_agents st) k)"
  by (auto simp: drop_agents_def routing_def Let_def split: option.splits)

end
