(* ===== verification/EdgeRouting.thy ===== *)
theory EdgeRouting
  imports EdgeSteps
begin

text \<open>
  Revocation on the edge: what no sequence of operations can undo. The calls are those of the running
  program; the raw \<open>register\<close>, \<open>register_with_candidate\<close> and \<open>park_tcp_agent\<close>, which do not look at the
  revoked set and which only tests call directly, are excluded.
\<close>

section \<open>The host index\<close>

definition host_index :: "'h edge_state \<Rightarrow> bool" where
  "host_index st \<longleftrightarrow> hm_wf (ed_hosts st) \<and> (\<forall>h t. hm_get (ed_hosts st) h = Some t \<longleftrightarrow> h \<in> hosts_of st t)"

definition unreachable :: "'h edge_state \<Rightarrow> token \<Rightarrow> bool" where
  "unreachable st t \<longleftrightarrow> hm_get (ed_agents st) t = None \<and> hm_get (ed_candidates st) t = None
     \<and> hm_get (ed_direct st) t = None \<and> hm_get (ed_tcp_agents st) t = None \<and> hm_get (ed_pins st) t = None
     \<and> hm_get (ed_hosts_by_token st) t = None"

definition revocation_inv :: "'h edge_state \<Rightarrow> bool" where
  "revocation_inv st \<longleftrightarrow> host_index st \<and> (\<forall>t \<in> ed_revoked st. unreachable st t)"

lemma routing_eq: "routing st = routing st' \<Longrightarrow> revocation_inv st = revocation_inv st'"
  by (simp add: revocation_inv_def host_index_def unreachable_def hosts_of_def routing_def)

text \<open>The invariant reads the routing fields; it is stated again over them.\<close>

fun routing_inv ::
  "(token, (u64 \<times> 'h) list) hmap \<times> (token, socket_addr) hmap \<times> (token, socket_addr \<times> bytes) hmap
     \<times> (token, nat list) hmap \<times> (token, agent_key_pin) hmap \<times> (ustring, token) hmap \<times> (token, ustring set) hmap \<times> token set
     \<Rightarrow> bool" where
  "routing_inv (agents, cands, direct, tcp, pins, hosts, by_token, revoked) \<longleftrightarrow>
     hm_wf hosts \<and> (\<forall>h t. hm_get hosts h = Some t \<longleftrightarrow> h \<in> (case hm_get by_token t of None \<Rightarrow> {} | Some hs \<Rightarrow> hs))
     \<and> (\<forall>t \<in> revoked. hm_get agents t = None \<and> hm_get cands t = None \<and> hm_get direct t = None \<and> hm_get tcp t = None
          \<and> hm_get pins t = None \<and> hm_get by_token t = None)"

lemma revocation_inv_routing: "revocation_inv st = routing_inv (routing st)"
  by (simp add: revocation_inv_def host_index_def unreachable_def hosts_of_def routing_def)

definition revocation_checked :: "'h edge_call \<Rightarrow> bool" where
  "revocation_checked c = (case c of CRegister _ _ \<Rightarrow> False | CRegisterWithCandidate _ _ _ \<Rightarrow> False | CPark _ _ \<Rightarrow> False
     | _ \<Rightarrow> True)"

section \<open>Each operation keeps it\<close>

lemma clear_hosts_inv:
  assumes "revocation_inv st"
  shows "revocation_inv (clear_hosts_for st t) \<and> hosts_of (clear_hosts_for st t) t = {}
    \<and> hm_get (ed_hosts_by_token (clear_hosts_for st t)) t = None"
proof (cases "hm_get (ed_hosts_by_token st) t")
  case None
  with assms show ?thesis by (simp add: clear_hosts_for_def hosts_of_def)
next
  case (Some owned)
  have wf: "hm_wf (ed_hosts st)" and idx: "\<And>h k. hm_get (ed_hosts st) h = Some k \<longleftrightarrow> h \<in> hosts_of st k"
    using assms by (auto simp: revocation_inv_def host_index_def)
  have own: "h \<in> owned \<longleftrightarrow> hm_get (ed_hosts st) h = Some t" for h using idx [of h t] Some by (simp add: hosts_of_def)
  have "hm_get (hm_retain (\<lambda>host _. host \<notin> owned) (ed_hosts st)) h = Some k \<longleftrightarrow>
      h \<in> (case hm_get (hm_remove t (ed_hosts_by_token st)) k of None \<Rightarrow> {} | Some hs \<Rightarrow> hs)" for h k
    using idx [of h k] own [of h] hm.get_retain [OF wf, of "\<lambda>host _. host \<notin> owned" h]
    by (auto simp: hosts_of_def split: option.splits if_splits)
  with assms wf Some show ?thesis
    by (auto simp: revocation_inv_routing routing_def clear_hosts_for_def hosts_of_def)
qed

lemma clear_hosts_frame:
  "ed_agents (clear_hosts_for st t) = ed_agents st" "ed_candidates (clear_hosts_for st t) = ed_candidates st"
  "ed_direct (clear_hosts_for st t) = ed_direct st" "ed_tcp_agents (clear_hosts_for st t) = ed_tcp_agents st"
  "ed_pins (clear_hosts_for st t) = ed_pins st" "ed_revoked (clear_hosts_for st t) = ed_revoked st"
  "ed_policy (clear_hosts_for st t) = ed_policy st" "ed_next_reg (clear_hosts_for st t) = ed_next_reg st"
  "ed_tcp_parked_gauge (clear_hosts_for st t) = ed_tcp_parked_gauge st"
  "ed_active_tunnels_gauge (clear_hosts_for st t) = ed_active_tunnels_gauge st"
  "ed_total_registrations_gauge (clear_hosts_for st t) = ed_total_registrations_gauge st"
  by (auto simp: clear_hosts_for_def split: option.splits)

lemma register_host_inv:
  assumes "revocation_inv st"
  shows "revocation_inv (snd (register_host st host t))"
proof (cases "fst (register_host st host t)")
  case (Inl e)
  then have "snd (register_host st host t) = st" by (auto simp: register_host_def split: option.splits if_splits)
  with assms show ?thesis by simp
next
  case (Inr u)
  then obtain key where key: "normalize_hostname host = Some key" "\<not> is_revoked st t"
    "hm_get (ed_hosts st) key \<in> {None, Some t}"
    by (auto simp: register_host_def split: option.splits if_splits)
  have idx: "hm_get (ed_hosts st) h = Some k \<longleftrightarrow> h \<in> hosts_of st k" for h k
    using assms by (auto simp: revocation_inv_def host_index_def)
  have "(if key = h then Some t else hm_get (ed_hosts st) h) = Some k \<longleftrightarrow>
      h \<in> (case if t = k then Some (insert key (hosts_of st t)) else hm_get (ed_hosts_by_token st) k of
             None \<Rightarrow> {} | Some hs \<Rightarrow> hs)" for h k
    using idx [of h k] idx [of key k] key(3) by (auto simp: hosts_of_def split: option.splits)
  with assms key show ?thesis
    by (auto simp: register_host_def revocation_inv_routing routing_def is_revoked_def)
qed

lemma remove_registration_inv:
  assumes "revocation_inv st"
  shows "revocation_inv (remove_registration st t i)"
proof -
  define st1 where "st1 = (case hm_get (ed_pins st) t of None \<Rightarrow> st
    | Some pin \<Rightarrow> st\<lparr>ed_pins := hm_insert t (pin\<lparr>kp_proven_ids := kp_proven_ids pin - {i}\<rparr>) (ed_pins st)\<rparr>)"
  have inv1: "revocation_inv st1"
    using assms by (auto simp: st1_def revocation_inv_routing routing_def split: option.splits)
  show ?thesis
  proof (cases "hm_get (ed_agents st1) t")
    case None
    with inv1 show ?thesis by (simp add: remove_registration_def Let_def flip: st1_def)
  next
    case (Some v)
    let ?kept = "filter (\<lambda>(rid, _). rid \<noteq> i) v"
    let ?g = "\<lambda>st. ed_total_registrations_gauge st - word_of_nat (length v - length ?kept)"
    show ?thesis
    proof (cases "?kept = []")
      case False
      have "routing (remove_registration st t i) = routing (st1\<lparr>ed_agents := hm_insert t ?kept (ed_agents st1)\<rparr>)"
        using False Some by (simp add: remove_registration_def Let_def routing_def flip: st1_def)
      moreover have "revocation_inv (st1\<lparr>ed_agents := hm_insert t ?kept (ed_agents st1)\<rparr>)"
        using inv1 Some by (auto simp: revocation_inv_routing routing_def)
      ultimately show ?thesis by (simp add: revocation_inv_routing)
    next
      case True
      define st2 where "st2 = st1\<lparr>ed_total_registrations_gauge := ?g st1,
        ed_active_tunnels_gauge := ed_active_tunnels_gauge st1 - (if 0 < length v - length ?kept then 1 else 0),
        ed_agents := hm_remove t (ed_agents st1), ed_candidates := hm_remove t (ed_candidates st1),
        ed_direct := hm_remove t (ed_direct st1)\<rparr>"
      have "revocation_inv st2" using inv1 by (auto simp: st2_def revocation_inv_routing routing_def)
      moreover have "routing (remove_registration st t i) =
          routing (if has_tcp_agent st2 t then st2 else clear_hosts_for st2 t)"
        using True Some by (simp add: remove_registration_def Let_def routing_def st2_def flip: st1_def)
      ultimately show ?thesis using clear_hosts_inv [of st2 t] by (auto simp: revocation_inv_routing)
    qed
  qed
qed

lemma remove_locked_inv:
  assumes "revocation_inv st"
  shows "revocation_inv (remove_locked st t) \<and> unreachable (remove_locked st t) t"
proof -
  define st1 where "st1 = (drop_agents st t)\<lparr>ed_candidates := hm_remove t (ed_candidates (drop_agents st t)),
    ed_direct := hm_remove t (ed_direct (drop_agents st t)), ed_tcp_agents := hm_remove t (ed_tcp_agents (drop_agents st t)),
    ed_pins := hm_remove t (ed_pins (drop_agents st t))\<rparr>"
  have "revocation_inv st1"
    using assms drop_agents_fields(1) [of st t] by (auto simp: st1_def revocation_inv_routing routing_def)
  moreover have "routing (remove_locked st t) = routing (clear_hosts_for st1 t)"
    by (simp add: remove_locked_def Let_def routing_def flip: st1_def)
  moreover have "hm_get (ed_agents st1) t = None" by (simp add: st1_def drop_agents_fields)
  ultimately show ?thesis
    using clear_hosts_inv [of st1 t]
    by (auto simp: revocation_inv_routing unreachable_def routing_def clear_hosts_frame) (simp_all add: st1_def)
qed

lemma revoke_token_inv:
  assumes "revocation_inv st"
  shows "revocation_inv (revoke_token st t)"
proof -
  define st1 where "st1 = st\<lparr>ed_revoked := insert t (ed_revoked st)\<rparr>"
  have frame: "remove_locked st1 t = (remove_locked st t)\<lparr>ed_revoked := insert t (ed_revoked st)\<rparr>"
    by (simp add: st1_def remove_locked_def drop_agents_def clear_hosts_for_def Let_def split: option.splits)
  have r: "ed_revoked (remove_locked st t) = ed_revoked st"
    by (simp add: remove_locked_def drop_agents_def clear_hosts_for_def Let_def split: option.splits)
  have "routing (revoke_token st t) = routing (remove_locked st1 t)"
    by (simp add: revoke_token_def clear_host_auth_for_def Let_def routing_def flip: st1_def)
  then show ?thesis
    using remove_locked_inv [OF assms, of t] r
    by (auto simp: frame revocation_inv_routing routing_def unreachable_def)
qed

text \<open>Operations that add nothing for a revoked token and leave the hostnames alone.\<close>

definition adds_nothing :: "'h edge_state \<Rightarrow> 'h edge_state \<Rightarrow> token \<Rightarrow> bool" where
  "adds_nothing st st' k \<longleftrightarrow> (hm_get (ed_agents st) k = None \<longrightarrow> hm_get (ed_agents st') k = None)
     \<and> (hm_get (ed_candidates st) k = None \<longrightarrow> hm_get (ed_candidates st') k = None)
     \<and> (hm_get (ed_direct st) k = None \<longrightarrow> hm_get (ed_direct st') k = None)
     \<and> (hm_get (ed_tcp_agents st) k = None \<longrightarrow> hm_get (ed_tcp_agents st') k = None)
     \<and> (hm_get (ed_pins st) k = None \<longrightarrow> hm_get (ed_pins st') k = None)"

definition same_hosts :: "'h edge_state \<Rightarrow> 'h edge_state \<Rightarrow> bool" where
  "same_hosts st st' \<longleftrightarrow> ed_hosts st' = ed_hosts st \<and> ed_hosts_by_token st' = ed_hosts_by_token st
     \<and> ed_revoked st' = ed_revoked st"

lemma adds_nothing_inv:
  assumes "revocation_inv st" "same_hosts st st'" "\<And>k. k \<in> ed_revoked st \<Longrightarrow> adds_nothing st st' k"
  shows "revocation_inv st'"
  using assms by (auto simp: revocation_inv_routing routing_def same_hosts_def adds_nothing_def)

lemma admit_registration_local:
  "same_hosts st (snd (admit_registration sha now st t h a proves))
   \<and> (k \<noteq> t \<longrightarrow> adds_nothing st (snd (admit_registration sha now st t h a proves)) k)"
proof -
  obtain i st1 where r: "register_locked now st t h = (i, st1)" by fastforce
  from register_locked_fields [OF r] show ?thesis
    by (auto simp: admit_registration_def r Let_def set_candidate_def note_agent_key_proven_def same_hosts_def
        adds_nothing_def routing_def)
qed

lemma pin_proven_local: "k \<noteq> t \<Longrightarrow> pin_proven pins t p = (r, pins') \<Longrightarrow> hm_get pins' k = hm_get pins k"
  by (auto simp: pin_proven_def Let_def split: option.splits if_splits)

lemma adds_nothing_trans: "adds_nothing a b k \<Longrightarrow> adds_nothing b c k \<Longrightarrow> adds_nothing a c k"
  by (simp add: adds_nothing_def)

lemma same_hosts_trans: "same_hosts a b \<Longrightarrow> same_hosts b c \<Longrightarrow> same_hosts a c"
  by (simp add: same_hosts_def)

lemma register_checked_local:
  "same_hosts st (snd (register_with_candidate_checked sha now st t h a mode proof rem))
   \<and> (k \<noteq> t \<or> is_revoked st t \<longrightarrow> adds_nothing st (snd (register_with_candidate_checked sha now st t h a mode proof rem)) k)"
proof (cases "is_revoked st t")
  case True
  then show ?thesis by (simp add: register_with_candidate_checked_def Let_def same_hosts_def adds_nothing_def)
next
  case False
  let ?m = "agent_key_mode_locked sha st t mode"
  have obs: "same_hosts s (note_agent_key_violation sha now s t r c m rem)"
    "adds_nothing s (note_agent_key_violation sha now s t r c m rem) k" for s :: "'a edge_state" and r c m
    by (simp_all add: note_agent_key_violation_def same_hosts_def adds_nothing_def)
  have drop: "same_hosts s (drop_agents s t)" "adds_nothing s (drop_agents s t) k" for s :: "'a edge_state"
    by (auto simp: drop_agents_def same_hosts_def adds_nothing_def Let_def split: option.splits)
  note admit = admit_registration_local [where sha = sha and now = now and t = t and h = h and a = a and k = k]
  show ?thesis
  proof (cases "proof")
    case None
    let ?st2 = "note_agent_key_violation sha now st t (unproven_reason_locked st t)
        (if ?m = ModeEnforce then Refused else Admitted) ?m rem"
    have "same_hosts st ?st2" "adds_nothing st ?st2 k" using obs [of st] by blast+
    with None False admit [of ?st2 False] show ?thesis
      by (auto simp: register_with_candidate_checked_def Let_def split_def intro: same_hosts_trans adds_nothing_trans)
  next
    case (Some p)
    obtain r pins' where pin: "pin_proven (ed_pins st) t p = (r, pins')" by fastforce
    let ?st = "st\<lparr>ed_pins := pins'\<rparr>"
    have p1: "same_hosts st ?st" "k \<noteq> t \<Longrightarrow> adds_nothing st ?st k"
      using pin_proven_local [OF _ pin, of k] by (auto simp: same_hosts_def adds_nothing_def)
    show ?thesis
    proof (cases r)
      case PinAccepted
      with Some False pin p1 admit [of ?st True] show ?thesis
        by (auto simp: register_with_candidate_checked_def pin_proven_locked_def Let_def split_def
            intro: same_hosts_trans adds_nothing_trans)
    next
      case PinRepinned
      let ?st2 = "note_agent_key_violation sha now (drop_agents ?st t) t ForeignKey Repinned ?m rem"
      have "same_hosts st ?st2" "k \<noteq> t \<Longrightarrow> adds_nothing st ?st2 k"
        using p1 drop [of ?st] obs [of "drop_agents ?st t"] by (blast intro: same_hosts_trans adds_nothing_trans)+
      with PinRepinned Some False pin admit [of ?st2 True] show ?thesis
        by (auto simp: register_with_candidate_checked_def pin_proven_locked_def take_registrations_locked_def Let_def
            split_def intro: same_hosts_trans adds_nothing_trans)
    next
      case (PinRejected reason)
      let ?st2 = "note_agent_key_violation sha now ?st t reason (if ?m = ModeEnforce then Refused else Admitted) ?m rem"
      have "same_hosts st ?st2" "k \<noteq> t \<Longrightarrow> adds_nothing st ?st2 k"
        using p1 obs [of ?st] by (blast intro: same_hosts_trans adds_nothing_trans)+
      with PinRejected Some False pin admit [of ?st2 False] show ?thesis
        by (auto simp: register_with_candidate_checked_def pin_proven_locked_def Let_def split_def
            intro: same_hosts_trans adds_nothing_trans)
    qed
  qed
qed

lemma park_local:
  "same_hosts st (park_tcp_agent now st t tx) \<and> (k \<noteq> t \<longrightarrow> adds_nothing st (park_tcp_agent now st t tx) k)"
  by (simp add: park_tcp_agent_def note_connected_def same_hosts_def adds_nothing_def Let_def)

lemma deliver_local:
  "same_hosts st (snd (deliver_to_tcp_agent alive st t s)) \<and> adds_nothing st (snd (deliver_to_tcp_agent alive st t s)) k"
  by (auto simp: deliver_to_tcp_agent_def same_hosts_def adds_nothing_def Let_def split: option.splits list.splits)

lemma draining_local:
  "same_hosts st (snd (deliver_to_tcp_agent_draining alive st t s))
   \<and> adds_nothing st (snd (deliver_to_tcp_agent_draining alive st t s)) k"
proof (induction alive st t s rule: deliver_to_tcp_agent_draining.induct)
  case (1 alive st t s)
  show ?case
  proof (cases "has_tcp_agent st t")
    case True
    obtain r st' where d: "deliver_to_tcp_agent alive st t s = (r, st')" by fastforce
    then have l: "same_hosts st st'" "adds_nothing st st' k" using deliver_local [of st alive t s k] by simp_all
    show ?thesis
    proof (cases r)
      case (Inl back_stream)
      with 1 [OF True d [unfolded Inl, symmetric] refl] l True d show ?thesis
        by (subst (1 2) deliver_to_tcp_agent_draining.simps) (auto intro: same_hosts_trans adds_nothing_trans)
    next
      case (Inr tx)
      with l True d show ?thesis by (simp add: deliver_to_tcp_agent_draining.simps)
    qed
  next
    case False
    then show ?thesis by (simp add: deliver_to_tcp_agent_draining.simps same_hosts_def adds_nothing_def)
  qed
qed

lemma map_of_reap: "map_of m k = None \<Longrightarrow> map_of (reap_queues alive m) k = None"
  by (induction m) (auto simp: reap_queues_def split: if_splits)

lemma reap_local:
  "same_hosts st (snd (reap_dead_tcp_parks alive st)) \<and> adds_nothing st (snd (reap_dead_tcp_parks alive st)) k"
  by (simp add: reap_dead_tcp_parks_def same_hosts_def adds_nothing_def Let_def hm_get_def map_of_reap)

lemma advertise_local:
  "same_hosts st (snd (advertise_direct st t a cert))
   \<and> (k \<noteq> t \<or> is_revoked st t \<longrightarrow> adds_nothing st (snd (advertise_direct st t a cert)) k)"
  by (auto simp: advertise_direct_def same_hosts_def adds_nothing_def Let_def split: option.splits)

lemma enforce_tunnel_local:
  "same_hosts st (snd (enforce_tunnel_locked sha now st t)) \<and> adds_nothing st (snd (enforce_tunnel_locked sha now st t)) k"
  using enforce_tunnel_fields [of sha now st t]
  by (auto simp: routing_def same_hosts_def adds_nothing_def kept_agents_def split: option.splits)

lemma enforce_tunnels_local:
  "same_hosts st (snd (enforce_tunnels sha now st ts)) \<and> adds_nothing st (snd (enforce_tunnels sha now st ts)) k"
proof (induction ts arbitrary: st)
  case Nil
  show ?case by (simp add: same_hosts_def adds_nothing_def)
next
  case (Cons t ts)
  show ?case using enforce_tunnel_local [of st sha now t k] Cons.IH [of "snd (enforce_tunnel_locked sha now st t)"]
    by (auto simp: Let_def split_def intro: same_hosts_trans adds_nothing_trans)
qed

lemma set_policy_local:
  "same_hosts st (snd (set_agent_key_policy sha now st m es f is))
   \<and> adds_nothing st (snd (set_agent_key_policy sha now st m es f is)) k"
proof -
  obtain newly st1 where s: "swap_agent_key_policy_locked sha st
      \<lparr>ap_default = m, ap_enforce_set = es, ap_enforce_file = f, ap_issuers = is\<rparr> = (newly, st1)" by fastforce
  then have "same_hosts st st1" "adds_nothing st st1 k"
    by (auto simp: swap_agent_key_policy_locked_def Let_def same_hosts_def adds_nothing_def)
  with enforce_tunnels_local [of st1 sha now newly k] show ?thesis
    by (auto simp: set_agent_key_policy_def s intro: same_hosts_trans adds_nothing_trans)
qed

lemma reload_local:
  "same_hosts st (snd (reload_agent_key_policy_from_file rd sha now st))
   \<and> adds_nothing st (snd (reload_agent_key_policy_from_file rd sha now st)) k"
  using set_policy_local [where st = st and sha = sha and now = now and k = k]
  by (simp add: reload_agent_key_policy_from_file_def Let_def split_def split: option.splits sum.splits)
    (simp add: same_hosts_def adds_nothing_def)

section \<open>Every call keeps it\<close>

lemma step_local:
  assumes "revocation_checked c" "\<not> observing c"
    and "\<forall>h t. c \<noteq> CRegisterHost h t" "\<forall>t i. c \<noteq> CRemoveRegistration t i" "\<forall>t. c \<noteq> CRemove t" "\<forall>t. c \<noteq> CRevoke t"
  shows "same_hosts st (edge_step sha st (now, c))
    \<and> (k \<in> ed_revoked st \<longrightarrow> adds_nothing st (edge_step sha st (now, c)) k)"
proof -
  have refl: "same_hosts st st \<and> adds_nothing st st k" by (simp add: same_hosts_def adds_nothing_def)
  have reg: "same_hosts st (snd (register_locked now st t h)) \<and> (k \<noteq> t \<longrightarrow> adds_nothing st (snd (register_locked now st t h)) k)"
    for t h using register_locked_fields [OF surjective_pairing, of now st t h]
    by (auto simp: routing_def same_hosts_def adds_nothing_def)
  show ?thesis
  proof (cases c)
    case (CRegisterUnlessRevoked t h)
    with reg [of t h] refl show ?thesis
      by (auto simp: register_unless_revoked_def is_revoked_def split_def Let_def)
  next
    case (CRegisterWithCandidateUnlessRevoked t h a)
    with reg [of t h] refl show ?thesis
      by (auto simp: register_with_candidate_unless_revoked_def is_revoked_def split_def Let_def set_candidate_def
          same_hosts_def adds_nothing_def)
  next
    case (CRegisterChecked t h a m p r)
    with register_checked_local [of st sha now t h a m p r k] show ?thesis by (auto simp: is_revoked_def)
  next
    case (CParkUnlessRevoked t tx)
    with park_local [of st now t tx k] refl show ?thesis
      by (auto simp: park_tcp_agent_unless_revoked_def is_revoked_def)
  next
    case (CParkChecked t m r tx)
    let ?m = "agent_key_mode_locked sha st t m"
    let ?st = "note_agent_key_violation sha now st t UnprovenTcp (if ?m = ModeEnforce then Refused else Admitted) ?m r"
    have "same_hosts st ?st" "adds_nothing st ?st k"
      by (simp_all add: note_agent_key_violation_def same_hosts_def adds_nothing_def)
    with CParkChecked park_local [of ?st now t tx k] refl show ?thesis
      by (auto simp: park_tcp_agent_checked_def Let_def is_revoked_def intro: same_hosts_trans adds_nothing_trans)
  next
    case (CAdvertiseDirect t a cert)
    with advertise_local [of st t a cert k] show ?thesis by (auto simp: is_revoked_def)
  next
    case (CSetPolicy m es f iss)
    with set_policy_local [of st sha now m es f iss k] show ?thesis by simp
  qed (use assms in \<open>auto simp: revocation_checked_def draining_local reap_local reload_local\<close>)
qed

lemma step_revocation_inv:
  assumes "revocation_inv st" "revocation_checked c"
  shows "revocation_inv (edge_step sha st (now, c))"
proof (cases "observing c")
  case True
  then show ?thesis using observing_frame [OF True, of sha st now] assms(1) by (simp add: revocation_inv_routing)
next
  case False
  show ?thesis
  proof (cases "(\<forall>h t. c \<noteq> CRegisterHost h t) \<and> (\<forall>t i. c \<noteq> CRemoveRegistration t i) \<and> (\<forall>t. c \<noteq> CRemove t) \<and> (\<forall>t. c \<noteq> CRevoke t)")
    case True
    then have "same_hosts st (edge_step sha st (now, c))"
      "\<And>k. k \<in> ed_revoked st \<Longrightarrow> adds_nothing st (edge_step sha st (now, c)) k"
      using step_local [OF assms(2) False] by blast+
    from adds_nothing_inv [OF assms(1) this] show ?thesis .
  next
    case False
    then show ?thesis
      using register_host_inv [OF assms(1)] remove_registration_inv [OF assms(1)]
        remove_locked_inv [OF assms(1), THEN conjunct1] revoke_token_inv [OF assms(1)]
      by (auto simp: edge_remove_def)
  qed
qed

lemma revoked_monotone: "ed_revoked st \<subseteq> ed_revoked (edge_step sha st (now, c))"
proof (cases "observing c")
  case True
  then show ?thesis using observing_frame [OF True, of sha st now] by (simp add: routing_def)
next
  case False
  have frame: "ed_revoked (drop_agents s t) = ed_revoked s" "ed_revoked (remove_locked s t) = ed_revoked s"
    "ed_revoked (remove_registration s t i) = ed_revoked s" for s :: "'a edge_state" and t i
    by (simp_all add: drop_agents_def remove_locked_def remove_registration_def clear_hosts_frame Let_def split: option.splits)
  show ?thesis
  proof (cases "revocation_checked c")
    case True
    show ?thesis
    proof (cases "(\<forall>h t. c \<noteq> CRegisterHost h t) \<and> (\<forall>t i. c \<noteq> CRemoveRegistration t i) \<and> (\<forall>t. c \<noteq> CRemove t) \<and> (\<forall>t. c \<noteq> CRevoke t)")
      case others: True
      then show ?thesis using step_local [OF True False, of st sha now] by (auto simp: same_hosts_def)
    next
      case False
      then show ?thesis
        by (auto simp: register_host_def edge_remove_def revoke_token_def clear_host_auth_for_def frame Let_def
            split: option.splits if_splits)
    qed
  next
    case False
    then show ?thesis
      by (auto simp: revocation_checked_def register_def register_with_candidate_def register_locked_def note_connected_def
          park_tcp_agent_def set_candidate_def Let_def split: edge_call.splits)
  qed
qed

lemma run_revocation_inv:
  assumes "list_all (revocation_checked \<circ> snd) calls"
  shows "revocation_inv (edge_run sha (seed_revoked_tokens (edge_new t0) seeds) calls)"
proof (rule edge_run_invariant [OF _ assms])
  show "revocation_inv (seed_revoked_tokens (edge_new t0) seeds)"
    by (simp add: revocation_inv_routing routing_def seed_revoked_tokens_def edge_new_def)
qed (auto simp: step_revocation_inv)

lemma run_revoked_monotone: "ed_revoked st \<subseteq> ed_revoked (edge_run sha st calls)"
  by (induction calls rule: rev_induct) (use revoked_monotone in \<open>auto, blast\<close>)

section \<open>Properties\<close>

text \<open>
  C5. Revocation is final and complete. After any run of the edge, a token that is in the revoked set,
  whether by a revoke or by the replay at boot, has no route, no failover route, no candidate, no
  direct endpoint, no parked fallback agent and no hostname; every way in refuses it; and no further
  run brings it back.
\<close>

theorem revocation_final:
  assumes "list_all (revocation_checked \<circ> snd) calls" "list_all (revocation_checked \<circ> snd) later"
    and "st = edge_run sha (seed_revoked_tokens (edge_new t0) seeds) calls" "is_revoked st t"
    and "st' = edge_run sha st later"
  shows "is_revoked st' t \<and> route st' t = None \<and> routes st' t = [] \<and> candidate st' t = None
    \<and> direct_endpoint st' t = None \<and> \<not> has_tcp_agent st' t \<and> (\<forall>host. route_host st' host \<noteq> Some t)
    \<and> fst (register_with_candidate_checked sha now st' t h a mode p rem) = Err RevokedToken
    \<and> fst (register_with_candidate_unless_revoked now st' t h a) = None
    \<and> fst (park_tcp_agent_checked sha now st' t mode rem tx) = None
    \<and> fst (advertise_direct st' t a cert) = False
    \<and> (normalize_hostname host \<noteq> None \<longrightarrow> fst (register_host st' host t) = Err RevokedBind)"
proof -
  have r: "is_revoked st' t" using run_revoked_monotone [of st sha later] assms(4,5) by (auto simp: is_revoked_def)
  have "edge_run sha (seed_revoked_tokens (edge_new t0) seeds) (calls @ later) = st'"
    by (simp add: assms(3,5) edge_run_def)
  then have inv: "revocation_inv st'" using run_revocation_inv [of "calls @ later" sha t0 seeds] assms(1,2) by simp
  then have u: "unreachable st' t" using r by (auto simp: revocation_inv_def is_revoked_def)
  have "hosts_of st' t = {}" using u by (simp add: unreachable_def hosts_of_def)
  then have "hm_get (ed_hosts st') key \<noteq> Some t" for key
    using inv by (auto simp: revocation_inv_def host_index_def)
  then have "route_host st' host \<noteq> Some t" for host by (simp add: route_host_def split: option.splits)
  with r u show ?thesis
    by (auto simp: unreachable_def route_def routes_def candidate_def direct_endpoint_def has_tcp_agent_def
        register_with_candidate_checked_def register_with_candidate_unless_revoked_def park_tcp_agent_checked_def
        advertise_direct_def register_host_def Let_def)
qed

definition ex_addr :: socket_addr where
  "ex_addr = \<lparr>sa_ip = V4 192 0 2 1, sa_port = 4433, sa_flowinfo = 0, sa_scope_id = 0\<rparr>"

theorem revocation_final_witness:
  "route (edge_run (\<lambda>x. x) (edge_run (\<lambda>x. x) (seed_revoked_tokens (edge_new 1) [])
      [(10, CRegisterChecked [7] (1 :: nat) ex_addr ModeLog None None), (11, CRevoke [7])])
      [(12, CRegisterChecked [7] 2 ex_addr ModeLog None None)]) [7] = None"
  by (rule revocation_final [THEN conjunct2, THEN conjunct1, OF _ _ refl _ refl])
    (simp_all add: revocation_checked_def edge_run_def is_revoked_def revoke_token_def remove_locked_def
      clear_host_auth_for_def clear_hosts_frame drop_agents_def Let_def split: option.splits)

end
