(* ===== verification/EdgeGauges.thy ===== *)
theory EdgeGauges
  imports EdgeSteps
begin

text \<open>
  The gauges of the edge against what they count: registrations and tunnels, which are kept exact by
  every operation, and the parked fallback agents, whose gauge the teardown paths do not lower.
\<close>

section \<open>Sums over a map\<close>

definition hm_total :: "('v \<Rightarrow> nat) \<Rightarrow> ('k, 'v) hmap \<Rightarrow> nat" where
  "hm_total f m = sum_list (map (f \<circ> snd) m)"

definition hm_part :: "('v \<Rightarrow> nat) \<Rightarrow> ('k, 'v) hmap \<Rightarrow> 'k \<Rightarrow> nat" where
  "hm_part f m k = (case hm_get m k of None \<Rightarrow> 0 | Some v \<Rightarrow> f v)"

lemma hm_total_insert: "hm_total f (hm_insert k v m) + hm_part f m k = hm_total f m + f v"
  by (induction k v m rule: hm_insert.induct) (auto simp: hm_total_def hm_part_def hm_get_def)

lemma hm_total_remove:
  assumes "hm_wf m"
  shows "hm_total f (hm_remove k m) + hm_part f m k = hm_total f m"
proof -
  have "hm_total f (hm_remove k m) + (case map_of m k of None \<Rightarrow> 0 | Some v \<Rightarrow> f v) = hm_total f m"
    if "distinct (map fst m)" using that
  proof (induction m)
    case (Cons p m)
    obtain a v where p: "p = (a, v)" by fastforce
    have "hm_remove k m = m" if "k \<notin> fst ` set m" using that by (force simp: hm_remove_def filter_id_conv)
    with Cons show ?case by (auto simp: p hm_total_def hm_remove_def map_of_eq_None_iff [symmetric])
  qed (simp add: hm_total_def hm_remove_def)
  with assms show ?thesis by (simp add: hm_wf_def hm_part_def hm_get_def)
qed

lemma length_total: "length m = hm_total (\<lambda>_. 1) m"
  by (simp add: hm_total_def o_def sum_list_triv)

lemma set_hm_insert: "set (hm_insert k v m) \<subseteq> insert (k, v) (set m)"
  by (induction k v m rule: hm_insert.induct) auto

lemma set_hm_remove: "set (hm_remove k m) \<subseteq> set m"
  by (auto simp: hm_remove_def)

section \<open>Registrations\<close>

definition gauges_ok :: "(token, (u64 \<times> 'h) list) hmap \<Rightarrow> u64 \<Rightarrow> u64 \<Rightarrow> bool" where
  "gauges_ok m tunnels regs \<longleftrightarrow> hm_wf m \<and> (\<forall>(_, v) \<in> set m. v \<noteq> []) \<and> tunnels = word_of_nat (length m)
     \<and> regs = word_of_nat (hm_total length m)"

lemma gauges_nonempty: "gauges_ok m a n \<Longrightarrow> hm_get m t = Some v \<Longrightarrow> v \<noteq> []"
  by (auto simp: gauges_ok_def hm_get_def dest: map_of_SomeD)

lemma gauges_insert:
  assumes g: "gauges_ok m a n" and v: "v \<noteq> []"
    and a: "a' + (if hm_get m t = None then 0 else 1) = a + 1"
    and n: "n' + word_of_nat (hm_part length m t) = n + word_of_nat (length v)"
  shows "gauges_ok (hm_insert t v m) a' n'"
proof -
  have wf: "hm_wf (hm_insert t v m)" using g by (simp add: gauges_ok_def)
  moreover have "\<forall>(_, v) \<in> set (hm_insert t v m). v \<noteq> []"
    using g v set_hm_insert [of t v m] by (auto simp: gauges_ok_def)
  moreover have "length (hm_insert t v m) + (if hm_get m t = None then 0 else 1) = length m + 1"
    using hm_total_insert [of "\<lambda>_. 1" t v m] by (simp add: length_total hm_part_def split: option.splits)
  from arg_cong [OF this, of "word_of_nat :: nat \<Rightarrow> u64"]
  have "word_of_nat (length (hm_insert t v m)) + (if hm_get m t = None then 0 else 1) = a + (1 :: u64)"
    using g by (simp add: gauges_ok_def split: if_splits)
  with a have "a' = word_of_nat (length (hm_insert t v m))" by (simp split: if_splits)
  moreover have "word_of_nat (hm_total length (hm_insert t v m)) + word_of_nat (hm_part length m t) = n + (word_of_nat (length v) :: u64)"
    using arg_cong [OF hm_total_insert [of length t v m], of "word_of_nat :: nat \<Rightarrow> u64"] g
    by (simp add: gauges_ok_def)
  with n have "n' = word_of_nat (hm_total length (hm_insert t v m))" by (metis add_right_cancel)
  ultimately show ?thesis by (simp add: gauges_ok_def)
qed

lemma gauges_remove:
  assumes g: "gauges_ok m a n" and t: "hm_get m t = Some v"
  shows "gauges_ok (hm_remove t m) (a - 1) (n - word_of_nat (length v))"
proof -
  have wf: "hm_wf m" using g by (simp add: gauges_ok_def)
  have "length (hm_remove t m) + 1 = length m"
    using hm_total_remove [OF wf, of "\<lambda>_. 1" t] t by (simp add: length_total hm_part_def)
  then have l: "length m = length (hm_remove t m) + 1" by simp
  have "a - 1 = word_of_nat (length (hm_remove t m))" using g by (simp add: gauges_ok_def l)
  moreover have r: "hm_total length m = hm_total length (hm_remove t m) + length v"
    using hm_total_remove [OF wf, of length t] t by (simp add: hm_part_def)
  have "n - word_of_nat (length v) = word_of_nat (hm_total length (hm_remove t m))"
    using g by (simp add: gauges_ok_def r)
  ultimately show ?thesis using g set_hm_remove [of t m] by (auto simp: gauges_ok_def)
qed

lemma gauges_shrink:
  assumes g: "gauges_ok m a n" and t: "hm_get m t = Some v" and k: "kept \<noteq> []" "length kept \<le> length v"
  shows "gauges_ok (hm_insert t kept m) a (n - word_of_nat (length v - length kept))"
proof (rule gauges_insert [OF g k(1)])
  show "a + (if hm_get m t = None then 0 else 1) = a + 1" using t by simp
  have "word_of_nat (length v) = (word_of_nat (length v - length kept) + word_of_nat (length kept) :: u64)"
    using k(2) by (simp flip: of_nat_add)
  then show "n - word_of_nat (length v - length kept) + word_of_nat (hm_part length m t) = n + word_of_nat (length kept)"
    using t by (simp add: hm_part_def)
qed

text \<open>What the gauges are about.\<close>

definition gauged :: "'h edge_state \<Rightarrow> (token, (u64 \<times> 'h) list) hmap \<times> u64 \<times> u64" where
  "gauged st = (ed_agents st, ed_active_tunnels_gauge st, ed_total_registrations_gauge st)"

definition gauge_inv :: "'h edge_state \<Rightarrow> bool" where
  "gauge_inv st \<longleftrightarrow> (case gauged st of (m, a, n) \<Rightarrow> gauges_ok m a n)"

lemma gauged_frame: "gauged st' = gauged st \<Longrightarrow> gauge_inv st \<Longrightarrow> gauge_inv st'"
  by (simp add: gauge_inv_def)

lemma register_gauges:
  assumes "gauge_inv st"
  shows "gauge_inv (snd (register_locked now st t h))"
proof -
  obtain i st' where r: "register_locked now st t h = (i, st')" by fastforce
  let ?v = "registrations_of st t"
  have "hm_get (ed_agents st) t = None \<longleftrightarrow> ?v = []"
    using assms gauges_nonempty [of "ed_agents st" "ed_active_tunnels_gauge st" "ed_total_registrations_gauge st" t]
    by (auto simp: gauge_inv_def gauged_def registrations_of_def split: option.splits)
  then have a: "ed_active_tunnels_gauge st + (if ?v = [] then 1 else 0) + (if hm_get (ed_agents st) t = None then 0 else 1)
      = ed_active_tunnels_gauge st + 1" by auto
  have "hm_part length (ed_agents st) t = length ?v"
    by (simp add: hm_part_def registrations_of_def split: option.splits)
  then have n: "ed_total_registrations_gauge st + 1 + word_of_nat (hm_part length (ed_agents st) t)
      = ed_total_registrations_gauge st + word_of_nat (length (?v @ [(ed_next_reg st, h)]))" by simp
  have "gauges_ok (hm_insert t (?v @ [(ed_next_reg st, h)]) (ed_agents st))
      (ed_active_tunnels_gauge st + (if ?v = [] then 1 else 0)) (ed_total_registrations_gauge st + 1)"
    using assms by (intro gauges_insert [OF _ _ a n]) (simp_all add: gauge_inv_def gauged_def)
  with register_locked_fields [OF r] r show ?thesis by (simp add: gauge_inv_def gauged_def routing_def)
qed

lemma drop_gauges:
  assumes "gauge_inv st"
  shows "gauge_inv (drop_agents st t)"
  using assms gauges_nonempty [of "ed_agents st" _ _ t]
    gauges_remove [of "ed_agents st" "ed_active_tunnels_gauge st" "ed_total_registrations_gauge st" t]
  by (force simp: drop_agents_def gauge_inv_def gauged_def Let_def split: option.splits)

text \<open>Keeping a part of a vector, and removing the entry when nothing is left.\<close>

lemma gauges_filter:
  assumes g: "gauges_ok m a n" and t: "hm_get m t = Some v"
  shows "gauges_ok (if filter P v = [] then hm_remove t m else hm_insert t (filter P v) m)
    (a - (if filter P v = [] then 1 else 0)) (n - word_of_nat (length v - length (filter P v)))"
  using gauges_remove [OF g t] gauges_shrink [OF g t, of "filter P v"] by simp

lemma remove_registration_gauges:
  assumes "gauge_inv st"
  shows "gauge_inv (remove_registration st t i)"
proof (cases "hm_get (ed_agents st) t")
  case None
  with assms show ?thesis by (auto simp: remove_registration_def gauge_inv_def gauged_def Let_def split: option.splits)
next
  case (Some v)
  let ?P = "\<lambda>(rid :: u64, _ :: 'a). rid \<noteq> i"
  have "v \<noteq> []" using assms gauges_nonempty Some by (fastforce simp: gauge_inv_def gauged_def)
  then have len: "filter ?P v = [] \<Longrightarrow> 0 < length v - length (filter ?P v)" by simp
  have g: "gauges_ok (ed_agents st) (ed_active_tunnels_gauge st) (ed_total_registrations_gauge st)"
    using assms by (simp add: gauge_inv_def gauged_def)
  have "gauged (remove_registration st t i) =
      (if filter ?P v = [] then hm_remove t (ed_agents st) else hm_insert t (filter ?P v) (ed_agents st),
       ed_active_tunnels_gauge st - (if filter ?P v = [] then 1 else 0),
       ed_total_registrations_gauge st - word_of_nat (length v - length (filter ?P v)))"
  proof -
    obtain pins where p: "(case hm_get (ed_pins st) t of None \<Rightarrow> st
        | Some pin \<Rightarrow> st\<lparr>ed_pins := hm_insert t (pin\<lparr>kp_proven_ids := kp_proven_ids pin - {i}\<rparr>) (ed_pins st)\<rparr>)
      = st\<lparr>ed_pins := pins\<rparr>"
      by (cases "hm_get (ed_pins st) t") (auto intro: that [of "ed_pins st"])
    have c: "gauged (clear_hosts_for s t) = gauged s" for s :: "'a edge_state"
      by (simp add: clear_hosts_for_def gauged_def split: option.splits)
    show ?thesis using Some len c
      by (cases "filter ?P v = []") (simp_all add: remove_registration_def p gauged_def Let_def)
  qed
  with gauges_filter [OF g Some, of ?P] show ?thesis by (simp add: gauge_inv_def)
qed

lemma enforce_gauges:
  assumes "gauge_inv st"
  shows "gauge_inv (snd (enforce_tunnel_locked sha now st t))"
proof (cases "hm_get (ed_agents st) t")
  case None
  with assms enforce_tunnel_fields [of sha now st t] show ?thesis
    by (simp add: gauge_inv_def gauged_def routing_def kept_agents_def)
next
  case (Some v)
  have g: "gauges_ok (ed_agents st) (ed_active_tunnels_gauge st) (ed_total_registrations_gauge st)"
    using assms by (simp add: gauge_inv_def gauged_def)
  have "v \<noteq> []" using assms gauges_nonempty Some by (fastforce simp: gauge_inv_def gauged_def)
  with gauges_filter [OF g Some, of "\<lambda>(i, _). i \<in> kp_proven_ids (pin_entry (ed_pins st) t)"]
    enforce_tunnel_fields [of sha now st t] Some
  show ?thesis by (simp add: gauge_inv_def gauged_def routing_def kept_agents_def split: if_splits)
qed

lemma enforce_tunnels_gauges: "gauge_inv st \<Longrightarrow> gauge_inv (snd (enforce_tunnels sha now st ts))"
  by (induction ts arbitrary: st) (auto simp: Let_def split_def enforce_gauges)

lemma set_policy_gauges: "gauge_inv st \<Longrightarrow> gauge_inv (snd (set_agent_key_policy sha now st m es f is))"
  unfolding set_agent_key_policy_def swap_agent_key_policy_locked_def Let_def split_def
  by (rule enforce_tunnels_gauges) (simp add: gauge_inv_def gauged_def)

lemma admit_gauges: "gauge_inv st \<Longrightarrow> gauge_inv (snd (admit_registration sha now st t h a b))"
  by (rule gauged_frame [OF _ register_gauges, of _ now st t h])
    (simp_all add: admit_registration_def set_candidate_def note_agent_key_proven_def gauged_def Let_def split_def)

lemma violation_gauges: "gauge_inv st \<Longrightarrow> gauge_inv (note_agent_key_violation sha now st t r a m rem)"
  by (simp add: note_agent_key_violation_def gauge_inv_def gauged_def)

lemma checked_gauges:
  assumes "gauge_inv st"
  shows "gauge_inv (snd (register_with_candidate_checked sha now st t h a m p rem))"
proof -
  have "gauge_inv (st\<lparr>ed_pins := pins\<rparr>)" for pins using assms by (simp add: gauge_inv_def gauged_def)
  with assms show ?thesis
    by (auto simp: register_with_candidate_checked_def pin_proven_locked_def take_registrations_locked_def Let_def split_def
        intro!: admit_gauges violation_gauges drop_gauges split: option.splits pin_outcome.splits)
qed

lemma draining_gauged: "gauged (snd (deliver_to_tcp_agent_draining alive st t s)) = gauged st"
proof (induction alive st t s rule: deliver_to_tcp_agent_draining.induct)
  case (1 alive st t s)
  have "gauged (snd (deliver_to_tcp_agent alive st t s)) = gauged st"
    by (simp add: deliver_to_tcp_agent_def gauged_def Let_def split: option.splits list.splits)
  with 1 show ?case
    by (subst deliver_to_tcp_agent_draining.simps) (auto split: prod.splits sum.splits)
qed

lemma gauged_others:
  "gauged (snd (register_host st host t)) = gauged st" "gauged (snd (reap_dead_tcp_parks alive st)) = gauged st"
  "gauged (park_tcp_agent now st t tx) = gauged st" "gauged (snd (park_tcp_agent_unless_revoked now st t tx)) = gauged st"
  "gauged (snd (park_tcp_agent_checked sha now st t m r tx)) = gauged st"
  "gauged (snd (advertise_direct st t addr cert)) = gauged st" "gauged (clear_hosts_for st t) = gauged st"
  by (auto simp: gauged_def register_host_def reap_dead_tcp_parks_def park_tcp_agent_def note_connected_def
      park_tcp_agent_unless_revoked_def park_tcp_agent_checked_def note_agent_key_violation_def advertise_direct_def
      clear_hosts_for_def Let_def split: option.splits)

lemma remove_gauges: "gauge_inv st \<Longrightarrow> gauge_inv (remove_locked st t)"
  by (rule gauged_frame [OF _ drop_gauges, of _ st t])
    (auto simp: remove_locked_def clear_hosts_for_def gauged_def Let_def split: option.splits)

lemma step_gauges:
  assumes "gauge_inv st"
  shows "gauge_inv (edge_step sha st (now, c))"
proof (cases "observing c")
  case True
  then show ?thesis using assms observing_frame [OF True, of sha st now]
    by (simp add: gauge_inv_def gauged_def routing_def)
next
  case False
  note others = gauged_others [THEN gauged_frame, OF assms] draining_gauged [THEN gauged_frame, OF assms]
  have cand: "gauge_inv (set_candidate s t a) = gauge_inv s" for s :: "'a edge_state" and t a
    by (simp add: set_candidate_def gauge_inv_def gauged_def)
  have revoke: "gauge_inv (revoke_token st t)" for t
  proof (rule gauged_frame [OF _ remove_gauges])
    show "gauge_inv (st\<lparr>ed_revoked := insert t (ed_revoked st)\<rparr>)" using assms by (simp add: gauge_inv_def gauged_def)
  qed (simp add: revoke_token_def clear_host_auth_for_def gauged_def Let_def)
  have reload: "gauge_inv (snd (reload_agent_key_policy_from_file rd sha now st))" for rd
    using assms
    by (simp add: reload_agent_key_policy_from_file_def set_policy_gauges Let_def split_def split: option.splits sum.splits)
  from False assms show ?thesis
    by (cases c) (simp_all add: others cand revoke reload register_gauges checked_gauges remove_gauges set_policy_gauges
        remove_registration_gauges register_def register_with_candidate_def register_unless_revoked_def
        register_with_candidate_unless_revoked_def edge_remove_def Let_def split_def)
qed

section \<open>Parked fallback agents\<close>






















section \<open>Properties\<close>

text \<open>
  C34. After any run the gauges of the status page are exact: the number of active tunnels is the number of
  tokens with a registration, the number of registrations is their sum, no token is kept with an empty
  list, and the gauges read zero exactly when nothing is registered, up to the width of a counter.
\<close>

theorem edge_gauges_exact:
  "let st = edge_run sha (edge_new t0) calls in
     active_tunnels st = word_of_nat (card {t. is_known st t})
     \<and> total_registrations st = word_of_nat (\<Sum>t \<in> {t. is_known st t}. registration_count st t)
     \<and> (\<forall>t. is_known st t \<longleftrightarrow> route st t \<noteq> None) \<and> (\<forall>t. is_known st t \<longleftrightarrow> hm_get (ed_agents st) t \<noteq> None)"
proof -
  define st :: "'a edge_state" where "st = edge_run sha (edge_new t0) calls"
  have new: "gauge_inv (edge_new t0 :: 'a edge_state)"
    by (simp add: gauge_inv_def gauged_def edge_new_def gauges_ok_def hm_total_def hm_empty_def hm_wf_def)
  have "gauge_inv st" unfolding st_def
    by (rule edge_run_invariant [where P = gauge_inv and ok = "\<lambda>_. True"]) (auto simp: new step_gauges list.pred_True)
  then have g: "gauges_ok (ed_agents st) (ed_active_tunnels_gauge st) (ed_total_registrations_gauge st)"
    by (simp add: gauge_inv_def gauged_def)
  have known: "is_known st t \<longleftrightarrow> hm_get (ed_agents st) t \<noteq> None" for t
    using gauges_nonempty [OF g] by (auto simp: is_known_def split: option.splits)
  have d: "distinct (map fst (ed_agents st))" using g by (simp add: gauges_ok_def hm_wf_def)
  have dom: "{t. is_known st t} = set (map fst (ed_agents st))"
    by (force simp: known hm_get_def map_of_eq_None_iff)
  have "registration_count st (fst p) = length (snd p)" if "p \<in> set (ed_agents st)" for p
    using map_of_is_SomeI [OF d, of "fst p" "snd p"] that by (simp add: registration_count_def hm_get_def)
  then have "map (registration_count st) (map fst (ed_agents st)) = map (length \<circ> snd) (ed_agents st)" by simp
  then have "(\<Sum>t \<leftarrow> map fst (ed_agents st). registration_count st t) = hm_total length (ed_agents st)"
    by (simp only: hm_total_def)
  then have sum: "(\<Sum>t \<in> {t. is_known st t}. registration_count st t) = hm_total length (ed_agents st)"
    unfolding dom using sum_list_distinct_conv_sum_set [OF d] by metis
  have card: "card {t. is_known st t} = length (ed_agents st)" unfolding dom using distinct_card [OF d] by simp
  have "is_known st t \<longleftrightarrow> route st t \<noteq> None" for t by (simp add: is_known_def route_def split: option.splits)
  then show ?thesis using g known
    unfolding st_def [symmetric] Let_def active_tunnels_def total_registrations_def gauges_ok_def card sum by blast
qed




end
