(* ===== verification/EdgeEnforce.thy ===== *)
theory EdgeEnforce
  imports EdgeRouting
begin

text \<open>
  Key enforcement on the edge: a tunnel in enforcing mode serves only registrations that proved the key
  it is pinned to, whatever the order of registrations, repins, reconnects and policy changes. The
  operations are first related to a small abstract machine on total functions, on which the invariant
  is stated.
\<close>

section \<open>Abstract admission state\<close>

record 'h admission =
  am_regs :: "token \<Rightarrow> (u64 \<times> 'h) list"
  am_pins :: "token \<Rightarrow> agent_key_pin"
  am_parks :: "token \<Rightarrow> bool"
  am_next :: u64
  am_policy :: agent_key_policy

definition admission_of :: "'h edge_state \<Rightarrow> 'h admission" where
  "admission_of st = \<lparr>am_regs = registrations_of st, am_pins = pin_entry (ed_pins st),
     am_parks = (\<lambda>t. hm_get (ed_tcp_agents st) t \<noteq> None), am_next = ed_next_reg st, am_policy = ed_policy st\<rparr>"

definition am_enforces :: "digest \<Rightarrow> 'h admission \<Rightarrow> token \<Rightarrow> bool" where
  "am_enforces sha a t \<longleftrightarrow> mode_for (am_policy a) (agent_key_token_hash sha t) = ModeEnforce"

text \<open>A registration under the next number, proven for the pin or not.\<close>

definition am_admit :: "token \<Rightarrow> 'h \<Rightarrow> bool \<Rightarrow> 'h admission \<Rightarrow> 'h admission" where
  "am_admit t h proven a =
     a\<lparr>am_regs := (am_regs a)(t := am_regs a t @ [(am_next a, h)]),
       am_pins := (if proven then (am_pins a)(t := (am_pins a t)\<lparr>kp_proven_ids := insert (am_next a) (kp_proven_ids (am_pins a t))\<rparr>)
                   else am_pins a),
       am_next := am_next a + 1\<rparr>"

definition am_enforce :: "token set \<Rightarrow> 'h admission \<Rightarrow> 'h admission" where
  "am_enforce T a =
     a\<lparr>am_regs := (\<lambda>t. if t \<in> T then filter (\<lambda>(i, _). i \<in> kp_proven_ids (am_pins a t)) (am_regs a t) else am_regs a t),
       am_parks := (\<lambda>t. t \<notin> T \<and> am_parks a t)\<rparr>"

section \<open>The operations on it\<close>

lemma routing_admission:
  "routing st' = routing st \<Longrightarrow> ed_next_reg st' = ed_next_reg st \<Longrightarrow> ed_policy st' = ed_policy st \<Longrightarrow>
     admission_of st' = admission_of st"
  by (simp add: admission_of_def routing_def registrations_of_def fun_eq_iff)

lemma violation_admission [simp]: "admission_of (note_agent_key_violation sha now st t r a m rem) = admission_of st"
  by (simp add: note_agent_key_violation_def admission_of_def registrations_of_def fun_eq_iff)

lemma pins_admission:
  "admission_of (st\<lparr>ed_pins := pins\<rparr>) = (admission_of st)\<lparr>am_pins := pin_entry pins\<rparr>"
  by (simp add: admission_of_def registrations_of_def fun_eq_iff)

lemma pin_entry_insert: "pin_entry (hm_insert t e pins) = (pin_entry pins)(t := e)"
  by (simp add: pin_entry_def fun_eq_iff)

lemma candidate_admission [simp]: "admission_of (set_candidate st t addr) = admission_of st"
  by (simp add: set_candidate_def admission_of_def registrations_of_def fun_eq_iff)

lemma register_locked_admission:
  "register_locked now st t h = (i, st') \<Longrightarrow> i = am_next (admission_of st) \<and> admission_of st' = am_admit t h False (admission_of st)"
  using register_locked_fields [of now st t h i st']
  by (auto simp: routing_def admission_of_def am_admit_def registrations_of_def fun_eq_iff)

lemma admit_admission:
  "admission_of (snd (admit_registration sha now st t h addr b)) = am_admit t h b (admission_of st)"
proof -
  obtain i st' where r: "register_locked now st t h = (i, st')" by fastforce
  have "admission_of (set_candidate st' t addr) = am_admit t h False (admission_of st)" "i = am_next (admission_of st)"
    using register_locked_admission [OF r] by simp_all
  then show ?thesis
    by (auto simp: admit_registration_def r note_agent_key_proven_def Let_def am_admit_def admission_of_def
        registrations_of_def pin_entry_insert fun_eq_iff)
qed

lemma drop_admission: "admission_of (drop_agents st t) = (admission_of st)\<lparr>am_regs := (am_regs (admission_of st))(t := [])\<rparr>"
  by (auto simp: drop_agents_def admission_of_def registrations_of_def Let_def fun_eq_iff split: option.splits)

lemma enforce_tunnels_admission:
  "admission_of (snd (enforce_tunnels sha now st ts)) = am_enforce (set ts) (admission_of st)"
proof (induction ts arbitrary: st)
  case Nil
  show ?case by (simp add: am_enforce_def)
next
  case (Cons t ts)
  let ?st = "snd (enforce_tunnel_locked sha now st t)"
  have "admission_of ?st = am_enforce {t} (admission_of st)"
    using enforce_tunnel_fields [of sha now st t]
    by (auto simp: routing_def admission_of_def am_enforce_def registrations_of_def kept_agents_def fun_eq_iff
        split: option.splits)
  moreover have "am_enforce (set ts) (am_enforce {t} a) = am_enforce (insert t (set ts)) a" for a :: "'a admission"
    by (rule admission.equality) (auto simp: am_enforce_def fun_eq_iff)
  ultimately show ?case using Cons.IH [of ?st] by (simp add: Let_def split_def)
qed

lemma set_policy_admission:
  obtains T where
    "admission_of (snd (set_agent_key_policy sha now st m es f is)) =
       am_enforce T ((admission_of st)\<lparr>am_policy := \<lparr>ap_default = m, ap_enforce_set = es, ap_enforce_file = f, ap_issuers = is\<rparr>\<rparr>)"
    "\<And>t. am_enforces sha ((admission_of st)\<lparr>am_policy := \<lparr>ap_default = m, ap_enforce_set = es, ap_enforce_file = f, ap_issuers = is\<rparr>\<rparr>) t
       \<Longrightarrow> t \<in> T \<or> am_enforces sha (admission_of st) t \<or> am_regs (admission_of st) t = [] \<and> \<not> am_parks (admission_of st) t"
proof -
  let ?p = "\<lparr>ap_default = m, ap_enforce_set = es, ap_enforce_file = f, ap_issuers = is\<rparr>"
  obtain newly st1 where sw: "swap_agent_key_policy_locked sha st ?p = (newly, st1)" by fastforce
  have a: "admission_of st1 = (admission_of st)\<lparr>am_policy := ?p\<rparr>"
    using sw by (auto simp: swap_agent_key_policy_locked_def Let_def admission_of_def registrations_of_def fun_eq_iff)
  have new: "t \<in> set newly" if "hm_get (ed_agents st) t \<noteq> None \<or> hm_get (ed_tcp_agents st) t \<noteq> None"
    "mode_for ?p (agent_key_token_hash sha t) = ModeEnforce" "mode_for (ed_policy st) (agent_key_token_hash sha t) = ModeLog" for t
  proof -
    have "t \<in> fst ` set (ed_agents st) \<or> t \<in> fst ` set (ed_tcp_agents st)"
      using that(1) by (auto simp: hm_get_def map_of_eq_None_iff)
    moreover have "newly = fst (swap_agent_key_policy_locked sha st ?p)" using sw by simp
    ultimately show ?thesis using that(2,3) by (simp add: swap_agent_key_policy_locked_def Let_def) blast
  qed
  show thesis
  proof (rule that [of "set newly"])
    show "admission_of (snd (set_agent_key_policy sha now st m es f is)) = am_enforce (set newly) ((admission_of st)\<lparr>am_policy := ?p\<rparr>)"
      by (simp add: set_agent_key_policy_def sw enforce_tunnels_admission a)
  next
    fix t
    assume "am_enforces sha ((admission_of st)\<lparr>am_policy := ?p\<rparr>) t"
    with new [of t] show "t \<in> set newly \<or> am_enforces sha (admission_of st) t \<or> am_regs (admission_of st) t = [] \<and> \<not> am_parks (admission_of st) t"
      by (cases "mode_for (ed_policy st) (agent_key_token_hash sha t)")
        (auto simp: am_enforces_def admission_of_def registrations_of_def split: option.splits)
  qed
qed

lemma remove_admission:
  "admission_of (remove_locked st t) = (admission_of st)\<lparr>am_regs := (am_regs (admission_of st))(t := []),
     am_pins := (am_pins (admission_of st))(t := pin_default), am_parks := (am_parks (admission_of st))(t := False)\<rparr>"
  using drop_admission [of st t]
  by (auto simp: remove_locked_def admission_of_def clear_hosts_frame registrations_of_def drop_agents_fields
      pin_entry_def drop_agents_def Let_def fun_eq_iff split: option.splits)

lemma remove_registration_admission:
  "admission_of (remove_registration st t i) = (admission_of st)\<lparr>
     am_regs := (am_regs (admission_of st))(t := filter (\<lambda>(j, _). j \<noteq> i) (am_regs (admission_of st) t)),
     am_pins := (am_pins (admission_of st))(t := (am_pins (admission_of st) t)\<lparr>kp_proven_ids := kp_proven_ids (am_pins (admission_of st) t) - {i}\<rparr>)\<rparr>"
  by (auto simp: remove_registration_def admission_of_def clear_hosts_frame registrations_of_def pin_entry_def
      pin_default_def Let_def fun_eq_iff split: option.splits)

section \<open>The invariant\<close>

text \<open>
  \<open>keyof h\<close> is the key the peer of the connection \<open>h\<close> proved, if any.
\<close>

definition admission_inv :: "digest \<Rightarrow> ('h \<Rightarrow> bytes option) \<Rightarrow> 'h admission \<Rightarrow> bool" where
  "admission_inv sha keyof a \<longleftrightarrow>
     (\<forall>t i h. (i, h) \<in> set (am_regs a t) \<longrightarrow> i < am_next a)
     \<and> (\<forall>t i. i \<in> kp_proven_ids (am_pins a t) \<longrightarrow> i < am_next a)
     \<and> (\<forall>t i h. (i, h) \<in> set (am_regs a t) \<and> i \<in> kp_proven_ids (am_pins a t)
          \<longrightarrow> (\<exists>p. kp_pin (am_pins a t) = Some p \<and> keyof h = Some (pk_key p)))
     \<and> (\<forall>t. am_enforces sha a t \<longrightarrow> (\<forall>(i, h) \<in> set (am_regs a t). i \<in> kp_proven_ids (am_pins a t)) \<and> \<not> am_parks a t)"

lemma admission_invI:
  assumes "\<And>t i h. (i, h) \<in> set (am_regs a t) \<Longrightarrow> i < am_next a"
    and "\<And>t i. i \<in> kp_proven_ids (am_pins a t) \<Longrightarrow> i < am_next a"
    and "\<And>t i h. (i, h) \<in> set (am_regs a t) \<Longrightarrow> i \<in> kp_proven_ids (am_pins a t) \<Longrightarrow>
           \<exists>p. kp_pin (am_pins a t) = Some p \<and> keyof h = Some (pk_key p)"
    and "\<And>t i h. am_enforces sha a t \<Longrightarrow> (i, h) \<in> set (am_regs a t) \<Longrightarrow> i \<in> kp_proven_ids (am_pins a t)"
    and "\<And>t. am_enforces sha a t \<Longrightarrow> \<not> am_parks a t"
  shows "admission_inv sha keyof a"
  unfolding admission_inv_def using assms by (intro conjI allI impI ballI) blast+

lemma admission_invD:
  assumes "admission_inv sha keyof a"
  shows "(i, h) \<in> set (am_regs a t) \<Longrightarrow> i < am_next a"
    and "i \<in> kp_proven_ids (am_pins a t) \<Longrightarrow> i < am_next a"
    and "(i, h) \<in> set (am_regs a t) \<Longrightarrow> i \<in> kp_proven_ids (am_pins a t) \<Longrightarrow>
           \<exists>p. kp_pin (am_pins a t) = Some p \<and> keyof h = Some (pk_key p)"
    and "am_enforces sha a t \<Longrightarrow> (i, h) \<in> set (am_regs a t) \<Longrightarrow> i \<in> kp_proven_ids (am_pins a t)"
    and "am_enforces sha a t \<Longrightarrow> \<not> am_parks a t"
  using assms unfolding admission_inv_def by blast+

lemma am_admit_inv:
  assumes inv: "admission_inv sha keyof a" and nxt: "am_next a < am_next a + 1"
    and proven: "if b then \<exists>p. kp_pin (am_pins a t) = Some p \<and> keyof h = Some (pk_key p) else \<not> am_enforces sha a t"
  shows "admission_inv sha keyof (am_admit t h b a)"
proof -
  note d = admission_invD [OF inv]
  have less: "i < am_next a + 1" if "i < am_next a" for i using that nxt by simp
  have enf: "am_enforces sha (am_admit t h b a) k = am_enforces sha a k" for k by (simp add: am_admit_def am_enforces_def)
  have fresh: "(am_next a, g) \<notin> set (am_regs a k)" "am_next a \<notin> kp_proven_ids (am_pins a k)" for k g
    using d(1) [of "am_next a" g k] d(2) [of "am_next a" k] by auto
  show ?thesis
  proof (rule admission_invI)
    fix k i g
    assume m: "(i, g) \<in> set (am_regs (am_admit t h b a) k)" and i: "i \<in> kp_proven_ids (am_pins (am_admit t h b a) k)"
    show "\<exists>p. kp_pin (am_pins (am_admit t h b a) k) = Some p \<and> keyof g = Some (pk_key p)"
    proof (cases "k = t \<and> i = am_next a")
      case True
      then show ?thesis using m i proven fresh by (auto simp: am_admit_def split: if_splits)
    next
      case False
      then show ?thesis using m i d(3) [of i g k] by (auto simp: am_admit_def split: if_splits)
    qed
  next
    fix k i g
    assume "am_enforces sha (am_admit t h b a) k" "(i, g) \<in> set (am_regs (am_admit t h b a) k)"
    then show "i \<in> kp_proven_ids (am_pins (am_admit t h b a) k)"
      using d(4) [of k i g] proven unfolding enf by (auto simp: am_admit_def split: if_splits)
  qed (use nxt less d(1,2,5) in \<open>auto simp: enf, auto simp: am_admit_def split: if_splits\<close>)
qed

lemma am_enforce_inv:
  assumes inv: "admission_inv sha keyof a"
    and new: "\<And>t. am_enforces sha (a\<lparr>am_policy := p\<rparr>) t \<Longrightarrow> t \<in> T \<or> am_enforces sha a t \<or> am_regs a t = [] \<and> \<not> am_parks a t"
  shows "admission_inv sha keyof (am_enforce T (a\<lparr>am_policy := p\<rparr>))"
proof -
  let ?b = "am_enforce T (a\<lparr>am_policy := p\<rparr>)"
  note d = admission_invD [OF inv]
  have enf: "am_enforces sha ?b t = am_enforces sha (a\<lparr>am_policy := p\<rparr>) t" for t
    by (simp add: am_enforces_def am_enforce_def)
  have sub: "(i, h) \<in> set (am_regs ?b t) \<Longrightarrow> (i, h) \<in> set (am_regs a t) \<and> (t \<in> T \<longrightarrow> i \<in> kp_proven_ids (am_pins a t))" for i h t
    by (auto simp: am_enforce_def split: if_splits)
  have [simp]: "am_pins ?b = am_pins a" "am_next ?b = am_next a" "am_parks ?b t \<longleftrightarrow> t \<notin> T \<and> am_parks a t" for t
    by (simp_all add: am_enforce_def)
  show ?thesis
  proof (rule admission_invI)
    fix t i h
    assume "am_enforces sha ?b t" "(i, h) \<in> set (am_regs ?b t)"
    then show "i \<in> kp_proven_ids (am_pins ?b t)" using new [of t] d(4) [of t i h] sub [of i h t] by (auto simp: enf)
  next
    fix t
    assume "am_enforces sha ?b t"
    then show "\<not> am_parks ?b t" using new [of t] d(5) [of t] by (auto simp: enf)
  qed (auto dest!: sub intro: d)
qed

text \<open>Forgetting registrations, proofs and parked agents keeps it.\<close>

lemma am_forget_inv:
  assumes inv: "admission_inv sha keyof a"
    and regs: "\<And>k. set (am_regs b k) \<subseteq> set (am_regs a k)" and ids: "\<And>k. kp_proven_ids (am_pins b k) \<subseteq> kp_proven_ids (am_pins a k)"
    and kept: "\<And>k i h. (i, h) \<in> set (am_regs b k) \<Longrightarrow>
           kp_pin (am_pins b k) = kp_pin (am_pins a k) \<and> (i \<in> kp_proven_ids (am_pins a k) \<longrightarrow> i \<in> kp_proven_ids (am_pins b k))"
    and parks: "\<And>k. am_parks b k \<Longrightarrow> am_parks a k" and eq: "am_next b = am_next a" "am_policy b = am_policy a"
  shows "admission_inv sha keyof b"
proof -
  note d = admission_invD [OF inv]
  have enf: "am_enforces sha b t = am_enforces sha a t" for t using eq by (simp add: am_enforces_def)
  show ?thesis
  proof (rule admission_invI)
    fix t i h
    assume "(i, h) \<in> set (am_regs b t)" "i \<in> kp_proven_ids (am_pins b t)"
    then show "\<exists>p. kp_pin (am_pins b t) = Some p \<and> keyof h = Some (pk_key p)"
      using d(3) [of i h t] regs [of t] ids [of t] kept [of i h t] by auto
  next
    fix t i h
    assume "am_enforces sha b t" "(i, h) \<in> set (am_regs b t)"
    then show "i \<in> kp_proven_ids (am_pins b t)" using d(4) [of t i h] regs [of t] kept [of i h t] by (auto simp: enf)
  next
    show "i < am_next b" if "(i, h) \<in> set (am_regs b t)" for t i h using that d(1) [of i h t] regs [of t] eq by auto
    show "i < am_next b" if "i \<in> kp_proven_ids (am_pins b t)" for t i using that d(2) [of i t] ids [of t] eq by auto
    show "\<not> am_parks b t" if "am_enforces sha b t" for t using that d(5) [of t] parks [of t] by (auto simp: enf)
  qed
qed

section \<open>Every call keeps it\<close>

definition admission_checked :: "('h \<Rightarrow> bytes option) \<Rightarrow> 'h edge_call \<Rightarrow> bool" where
  "admission_checked keyof c = (case c of
       CRegister _ _ \<Rightarrow> False | CRegisterWithCandidate _ _ _ \<Rightarrow> False | CRegisterUnlessRevoked _ _ \<Rightarrow> False
     | CRegisterWithCandidateUnlessRevoked _ _ _ \<Rightarrow> False | CPark _ _ \<Rightarrow> False | CParkUnlessRevoked _ _ \<Rightarrow> False
     | CRegisterChecked t h a m (Some p) r \<Rightarrow> keyof h = Some (pk_key p) | _ \<Rightarrow> True)"

lemma mode_locked_enforces: "agent_key_mode_locked sha st t m \<noteq> ModeEnforce \<Longrightarrow> \<not> am_enforces sha (admission_of st) t"
  by (auto simp: agent_key_mode_locked_def agent_key_mode_for_def am_enforces_def admission_of_def)

lemma pin_proven_outcome:
  assumes "pin_proven pins t p = (r, pins')"
  shows "k \<noteq> t \<Longrightarrow> pin_entry pins' k = pin_entry pins k"
    and "r = PinAccepted \<Longrightarrow> \<exists>q. kp_pin (pin_entry pins' t) = Some q \<and> pk_key q = pk_key p
           \<and> kp_proven_ids (pin_entry pins' t) = kp_proven_ids (pin_entry pins t)
           \<and> (kp_pin (pin_entry pins t) = None \<or> map_option pk_key (kp_pin (pin_entry pins t)) = Some (pk_key p))"
    and "r = PinRepinned \<Longrightarrow> pin_entry pins' t = \<lparr>kp_pin = Some p, kp_proven_ids = {}\<rparr>"
    and "r = PinRejected reason \<Longrightarrow> pin_entry pins' t = pin_entry pins t"
  using assms by (auto simp: pin_proven_def Let_def pin_entry_insert split: option.splits if_splits)

lemma checked_admission:
  assumes inv: "admission_inv sha keyof (admission_of st)" and nxt: "ed_next_reg st < ed_next_reg st + 1"
    and key: "\<And>q. p = Some q \<Longrightarrow> keyof h = Some (pk_key q)"
  shows "admission_inv sha keyof (admission_of (snd (register_with_candidate_checked sha now st t h addr m p rem)))"
proof (cases "is_revoked st t")
  case True
  with inv show ?thesis by (simp add: register_with_candidate_checked_def Let_def)
next
  case False
  let ?a = "admission_of st" and ?m = "agent_key_mode_locked sha st t m"
  have n: "am_next ?a < am_next ?a + 1" using nxt by (simp add: admission_of_def)
  have unproven: "admission_inv sha keyof (am_admit t h False ?a)" if "?m \<noteq> ModeEnforce"
    using am_admit_inv [OF inv n, of False] mode_locked_enforces [OF that] by simp
  show ?thesis
  proof (cases p)
    case None
    with False inv unproven show ?thesis
      by (simp add: register_with_candidate_checked_def admit_admission Let_def split_def)
  next
    case (Some q)
    obtain r pins' where pin: "pin_proven (ed_pins st) t q = (r, pins')" by fastforce
    note o = pin_proven_outcome [OF pin]
    note d = admission_invD [OF inv]
    have enf: "am_enforces sha (?a\<lparr>am_pins := x, am_regs := y\<rparr>) k = am_enforces sha ?a k"
      "am_enforces sha (?a\<lparr>am_pins := x\<rparr>) k = am_enforces sha ?a k" for x y k by (simp_all add: am_enforces_def)
    have pins: "am_pins ?a = pin_entry (ed_pins st)" by (simp add: admission_of_def)
    show ?thesis
    proof (cases r)
      case PinAccepted
      have ids: "kp_proven_ids (pin_entry pins' k) = kp_proven_ids (am_pins ?a k)" for k
        using o(1) [of k] o(2) [OF PinAccepted] by (cases "k = t") (auto simp: pins)
      let ?b = "?a\<lparr>am_pins := pin_entry pins'\<rparr>"
      have "admission_inv sha keyof ?b"
      proof (rule admission_invI)
        fix k i g
        assume "(i, g) \<in> set (am_regs ?b k)" "i \<in> kp_proven_ids (am_pins ?b k)"
        then show "\<exists>p. kp_pin (am_pins ?b k) = Some p \<and> keyof g = Some (pk_key p)"
          using d(3) [of i g k] o(1) [of k] o(2) [OF PinAccepted] by (cases "k = t") (auto simp: pins)
      qed (use d(1,2,4,5) ids enf in auto)
      then have "admission_inv sha keyof (am_admit t h True ?b)"
        using o(2) [OF PinAccepted] key [OF Some] n by (intro am_admit_inv) auto
      with PinAccepted False Some pin show ?thesis
        by (simp add: register_with_candidate_checked_def pin_proven_locked_def admit_admission pins_admission Let_def split_def)
    next
      case PinRepinned
      let ?b = "?a\<lparr>am_pins := pin_entry pins', am_regs := (am_regs ?a)(t := [])\<rparr>"
      have "admission_inv sha keyof ?b"
      proof -
        have "pin_entry pins' = (am_pins ?a)(t := \<lparr>kp_pin = Some q, kp_proven_ids = {}\<rparr>)"
          using o(1) o(3) [OF PinRepinned] by (auto simp: fun_eq_iff pins)
        then show ?thesis by (intro am_forget_inv [OF inv]) (auto split: if_splits)
      qed
      then have "admission_inv sha keyof (am_admit t h True ?b)"
        using o(3) [OF PinRepinned] key [OF Some] n by (intro am_admit_inv) auto
      with PinRepinned False Some pin show ?thesis
        by (simp add: register_with_candidate_checked_def pin_proven_locked_def take_registrations_locked_def
            admit_admission drop_admission pins_admission Let_def split_def)
    next
      case (PinRejected reason)
      have "pin_entry pins' = am_pins ?a"
        using o(1) o(4) [OF PinRejected] unfolding pins by (intro ext) metis
      then have "?a\<lparr>am_pins := pin_entry pins'\<rparr> = ?a" by simp
      with PinRejected False Some pin inv unproven show ?thesis
        by (simp add: register_with_candidate_checked_def pin_proven_locked_def admit_admission pins_admission Let_def split_def)
    qed
  qed
qed

lemma parks_forget_inv:
  "admission_inv sha keyof a \<Longrightarrow> (\<And>t. P t \<Longrightarrow> am_parks a t) \<Longrightarrow> admission_inv sha keyof (a\<lparr>am_parks := P\<rparr>)"
  by (erule am_forget_inv) auto

lemma deliver_admission:
  assumes inv: "admission_inv sha keyof (admission_of st)"
  shows "admission_inv sha keyof (admission_of (snd (deliver_to_tcp_agent alive st t s)))"
proof -
  obtain tcp g c where d: "snd (deliver_to_tcp_agent alive st t s) = st\<lparr>ed_tcp_agents := tcp, ed_tcp_parked_gauge := g, ed_counters := c\<rparr>"
      "\<And>k. hm_get tcp k \<noteq> None \<Longrightarrow> hm_get (ed_tcp_agents st) k \<noteq> None"
  proof (cases "has_tcp_agent st t")
    case True
    then obtain tx q where q: "hm_get (ed_tcp_agents st) t = Some (tx # q)"
      by (auto simp: has_tcp_agent_def neq_Nil_conv split: option.splits)
    show thesis
      by (rule that [where tcp = "if q = [] then hm_remove t (ed_tcp_agents st) else hm_insert t q (ed_tcp_agents st)"
          and g = "saturating_dec (ed_tcp_parked_gauge st)"
          and c = "if alive tx then (ed_counters st)\<lparr>ec_tcp_deliveries := ec_tcp_deliveries (ed_counters st) + 1\<rparr> else ed_counters st"])
        (auto simp: deliver_to_tcp_agent_def q Let_def split: if_splits)
  next
    case False
    then show thesis
      by (intro that [where tcp = "ed_tcp_agents st" and g = "ed_tcp_parked_gauge st" and c = "ed_counters st"])
        (auto simp: deliver_to_tcp_agent_def has_tcp_agent_def split: option.splits list.splits)
  qed
  have "admission_of (snd (deliver_to_tcp_agent alive st t s)) = (admission_of st)\<lparr>am_parks := (\<lambda>k. hm_get tcp k \<noteq> None)\<rparr>"
    by (simp add: d(1) admission_of_def registrations_of_def fun_eq_iff)
  then show ?thesis using parks_forget_inv [OF inv, of "\<lambda>k. hm_get tcp k \<noteq> None"] d(2) by (simp add: admission_of_def)
qed

lemma draining_admission:
  "admission_inv sha keyof (admission_of st) \<Longrightarrow>
     admission_inv sha keyof (admission_of (snd (deliver_to_tcp_agent_draining alive st t s)))"
proof (induction alive st t s rule: deliver_to_tcp_agent_draining.induct)
  case (1 alive st t s)
  from deliver_admission [OF 1(2), of alive t s] 1(1) show ?case
    by (subst deliver_to_tcp_agent_draining.simps) (auto simp: 1(2) split: prod.splits sum.splits)
qed

lemma reap_admission:
  "admission_inv sha keyof (admission_of st) \<Longrightarrow> admission_inv sha keyof (admission_of (snd (reap_dead_tcp_parks alive st)))"
proof -
  assume inv: "admission_inv sha keyof (admission_of st)"
  have "admission_of (snd (reap_dead_tcp_parks alive st)) =
      (admission_of st)\<lparr>am_parks := (\<lambda>t. hm_get (reap_queues alive (ed_tcp_agents st)) t \<noteq> None)\<rparr>"
    by (simp add: reap_dead_tcp_parks_def admission_of_def registrations_of_def Let_def fun_eq_iff)
  moreover have "hm_get (reap_queues alive (ed_tcp_agents st)) t \<noteq> None \<Longrightarrow> am_parks (admission_of st) t" for t
    using map_of_reap [of "ed_tcp_agents st" t alive] by (cases "map_of (ed_tcp_agents st) t") (auto simp: admission_of_def hm_get_def)
  ultimately show ?thesis using parks_forget_inv [OF inv] by simp
qed

lemma park_checked_admission:
  assumes "admission_inv sha keyof (admission_of st)"
  shows "admission_inv sha keyof (admission_of (snd (park_tcp_agent_checked sha now st t m r tx)))"
proof (cases "is_revoked st t \<or> agent_key_mode_locked sha st t m = ModeEnforce")
  case True
  with assms show ?thesis by (auto simp: park_tcp_agent_checked_def Let_def)
next
  case False
  then have "\<not> am_enforces sha (admission_of st) t" by (auto dest: mode_locked_enforces)
  moreover have "admission_of (park_tcp_agent now s t tx) = (admission_of s)\<lparr>am_parks := (am_parks (admission_of s))(t := True)\<rparr>"
    for s :: "'a edge_state"
    by (auto simp: park_tcp_agent_def note_connected_def admission_of_def registrations_of_def Let_def fun_eq_iff)
  ultimately show ?thesis using False assms
    by (auto simp: park_tcp_agent_checked_def admission_inv_def am_enforces_def Let_def)
qed

lemma frame_admission:
  "admission_of (snd (register_host st host t)) = admission_of st"
  "admission_of (snd (advertise_direct st t addr cert)) = admission_of st"
  by (auto simp: register_host_def advertise_direct_def admission_of_def registrations_of_def Let_def fun_eq_iff
      split: option.splits)

lemma set_policy_admission_inv:
  assumes "admission_inv sha keyof (admission_of st)"
  shows "admission_inv sha keyof (admission_of (snd (set_agent_key_policy sha now st m es f is)))"
proof -
  obtain T where T: "admission_of (snd (set_agent_key_policy sha now st m es f is)) =
       am_enforce T ((admission_of st)\<lparr>am_policy := \<lparr>ap_default = m, ap_enforce_set = es, ap_enforce_file = f, ap_issuers = is\<rparr>\<rparr>)"
    "\<And>t. am_enforces sha ((admission_of st)\<lparr>am_policy := \<lparr>ap_default = m, ap_enforce_set = es, ap_enforce_file = f, ap_issuers = is\<rparr>\<rparr>) t
       \<Longrightarrow> t \<in> T \<or> am_enforces sha (admission_of st) t \<or> am_regs (admission_of st) t = [] \<and> \<not> am_parks (admission_of st) t"
    using set_policy_admission by metis
  show ?thesis unfolding T(1) by (rule am_enforce_inv [OF assms T(2)])
qed

lemma remove_admission_inv:
  assumes "admission_inv sha keyof (admission_of st)"
  shows "admission_inv sha keyof (admission_of (remove_locked st t))"
  unfolding remove_admission by (rule am_forget_inv [OF assms]) (auto simp: pin_default_def split: if_splits)

lemma remove_registration_admission_inv:
  assumes "admission_inv sha keyof (admission_of st)"
  shows "admission_inv sha keyof (admission_of (remove_registration st t i))"
  unfolding remove_registration_admission by (rule am_forget_inv [OF assms]) (auto split: if_splits)

lemma step_admission:
  assumes inv: "admission_inv sha keyof (admission_of st)" and ok: "admission_checked keyof c"
    and nxt: "ed_next_reg st < ed_next_reg st + 1"
  shows "admission_inv sha keyof (admission_of (edge_step sha st (now, c)))"
proof (cases "observing c")
  case True
  then show ?thesis using inv observing_frame [OF True, of sha st now] routing_admission by metis
next
  case False
  have revoke: "admission_inv sha keyof (admission_of (revoke_token st t))" for t
  proof -
    have "admission_of (revoke_token st t) = admission_of (remove_locked (st\<lparr>ed_revoked := insert t (ed_revoked st)\<rparr>) t)"
      by (simp add: revoke_token_def clear_host_auth_for_def admission_of_def registrations_of_def Let_def fun_eq_iff)
    moreover have "admission_of (st\<lparr>ed_revoked := insert t (ed_revoked st)\<rparr>) = admission_of st"
      by (simp add: admission_of_def registrations_of_def fun_eq_iff)
    ultimately show ?thesis using remove_admission_inv inv by metis
  qed
  have reload: "admission_inv sha keyof (admission_of (snd (reload_agent_key_policy_from_file rd sha now st)))" for rd
    by (simp add: reload_agent_key_policy_from_file_def set_policy_admission_inv [OF inv] inv Let_def split_def
        split: option.splits sum.splits)
  show ?thesis
  proof (cases c)
    case (CRegisterChecked t h a m p r)
    then have "keyof h = Some (pk_key q)" if "p = Some q" for q using ok that by (simp add: admission_checked_def)
    with checked_admission [OF inv nxt] show ?thesis by (simp add: CRegisterChecked)
  qed (use False ok in \<open>simp_all add: inv admission_checked_def draining_admission reap_admission park_checked_admission
      frame_admission remove_registration_admission_inv remove_admission_inv edge_remove_def revoke
      set_policy_admission_inv reload\<close>)
qed

section \<open>Registration numbers\<close>

lemma draining_next: "ed_next_reg (snd (deliver_to_tcp_agent_draining alive st t s)) = ed_next_reg st"
proof (induction alive st t s rule: deliver_to_tcp_agent_draining.induct)
  case (1 alive st t s)
  have "ed_next_reg (snd (deliver_to_tcp_agent alive st t s)) = ed_next_reg st"
    by (simp add: deliver_to_tcp_agent_def Let_def split: option.splits list.splits)
  with 1 show ?case by (subst deliver_to_tcp_agent_draining.simps) (auto split: prod.splits sum.splits)
qed

lemma enforce_tunnels_next:
  "ed_next_reg (snd (enforce_tunnels sha now st ts)) = ed_next_reg st"
  "ed_policy (snd (enforce_tunnels sha now st ts)) = ed_policy st"
  using arg_cong [OF enforce_tunnels_admission [of sha now st ts], of am_next]
    arg_cong [OF enforce_tunnels_admission [of sha now st ts], of am_policy]
  by (simp_all add: admission_of_def am_enforce_def)

lemma set_policy_next: "ed_next_reg (snd (set_agent_key_policy sha now st m es f is)) = ed_next_reg st"
  by (simp add: set_agent_key_policy_def swap_agent_key_policy_locked_def enforce_tunnels_next Let_def)

lemma set_policy_policy:
  "ed_policy (snd (set_agent_key_policy sha now st m es f is)) =
     \<lparr>ap_default = m, ap_enforce_set = es, ap_enforce_file = f, ap_issuers = is\<rparr>"
  by (simp add: set_agent_key_policy_def swap_agent_key_policy_locked_def enforce_tunnels_next Let_def)

lemma checked_next:
  "ed_next_reg (snd (register_with_candidate_checked sha now st t h addr m p rem)) \<in> {ed_next_reg st, ed_next_reg st + 1}"
proof -
  have "ed_next_reg (snd (admit_registration sha now s t h addr b)) = ed_next_reg s + 1" for s :: "'a edge_state" and b
    using arg_cong [OF admit_admission [of sha now s t h addr b], of am_next] by (simp add: admission_of_def am_admit_def)
  then show ?thesis
    by (auto simp: register_with_candidate_checked_def pin_proven_locked_def take_registrations_locked_def
        note_agent_key_violation_def drop_agents_fields Let_def split_def split: option.splits pin_outcome.splits)
qed

lemma step_next: "ed_next_reg (edge_step sha st (now, c)) \<in> {ed_next_reg st, ed_next_reg st + 1}"
proof (cases "observing c")
  case True
  then show ?thesis using observing_frame [OF True, of sha st now] by simp
next
  case False
  have reg: "ed_next_reg (snd (register_locked now st t h)) = ed_next_reg st + 1" for t h
    using register_locked_fields [OF surjective_pairing, of now st t h] by simp
  have rem: "ed_next_reg (remove_locked st' t) = ed_next_reg st'" for st' :: "'a edge_state" and t
    by (simp add: remove_locked_def clear_hosts_frame drop_agents_fields Let_def)
  have others: "ed_next_reg (remove_registration st t i) = ed_next_reg st"
    "ed_next_reg (snd (register_host st host t)) = ed_next_reg st"
    "ed_next_reg (snd (advertise_direct st t addr cert)) = ed_next_reg st"
    "ed_next_reg (snd (park_tcp_agent_checked sha now st t m r tx)) = ed_next_reg st"
    "ed_next_reg (park_tcp_agent now st t tx) = ed_next_reg st"
    "ed_next_reg (snd (reload_agent_key_policy_from_file rd sha now st)) = ed_next_reg st" for t i host addr cert m r tx rd
    by (auto simp: remove_registration_def clear_hosts_frame register_host_def advertise_direct_def park_tcp_agent_checked_def
        note_agent_key_violation_def park_tcp_agent_def note_connected_def reload_agent_key_policy_from_file_def set_policy_next
        Let_def split_def split: option.splits sum.splits)
  show ?thesis
  proof (cases c)
    case (CRegisterChecked t h a m p r)
    with checked_next [of sha now st t h a m p r] show ?thesis by simp
  qed (use False in \<open>simp_all add: reg rem others draining_next set_policy_next reap_dead_tcp_parks_def edge_remove_def
      revoke_token_def clear_host_auth_for_def register_def register_with_candidate_def register_unless_revoked_def
      register_with_candidate_unless_revoked_def set_candidate_def park_tcp_agent_unless_revoked_def Let_def split_def\<close>)
qed

lemma run_next:
  assumes "length calls < 2 ^ 64 - 1"
  shows "unat (ed_next_reg (edge_run sha (edge_new t0) calls)) \<le> Suc (length calls)"
  using assms
proof (induction calls rule: rev_induct)
  case Nil
  show ?case by (simp add: edge_new_def)
next
  case (snoc c calls)
  obtain now d where c: "c = (now, d)" by fastforce
  let ?n = "ed_next_reg (edge_run sha (edge_new t0) calls)"
  have le: "unat ?n \<le> Suc (length calls)" using snoc by simp
  have "unat (?n + 1) = unat ?n + 1" using le snoc.prems by (subst unat_add_lem [THEN iffD1]) simp_all
  with le step_next [of sha "edge_run sha (edge_new t0) calls" now d] show ?case by (auto simp: c)
qed

lemma next_grows:
  assumes "length calls < 2 ^ 64 - 2"
  shows "ed_next_reg (edge_run sha (edge_new t0) calls) < ed_next_reg (edge_run sha (edge_new t0) calls) + 1"
proof -
  let ?n = "ed_next_reg (edge_run sha (edge_new t0) calls)"
  have "unat ?n \<le> Suc (length calls)" using run_next [of calls] assms by simp
  then have "unat (?n + 1) = unat ?n + 1" using assms by (subst unat_add_lem [THEN iffD1]) simp_all
  then show ?thesis by (simp add: word_less_nat_alt)
qed

section \<open>Properties\<close>

text \<open>
  C6. Enforcement is sound. In a run where connections are registered through the checked entry point with
  the key their peer proved, and fallback agents through the checked park, a tunnel whose mode is
  Enforce at any point routes only to connections that proved the key the tunnel is pinned to then,
  whatever was admitted before the switch and however the pin moved since; no connection without proof
  is among its routes, and no fallback agent is parked for it. The registration counter must not have
  wrapped around.
\<close>

theorem enforce_sound:
  fixes calls :: "(u64 \<times> 'h edge_call) list" and keyof :: "'h \<Rightarrow> bytes option"
  assumes "list_all (admission_checked keyof \<circ> snd) calls" "length calls < 2 ^ 64 - 2"
    and "st = edge_run sha (edge_new t0) calls" "agent_key_mode_for sha st t = ModeEnforce"
  shows "(\<forall>h \<in> set (routes st t). \<exists>p. kp_pin (pin_entry (ed_pins st) t) = Some p \<and> keyof h = Some (pk_key p))
    \<and> \<not> has_tcp_agent st t"
proof -
  have "admission_inv sha keyof (admission_of (edge_run sha (edge_new t0) calls))" using assms(1,2)
  proof (induction calls rule: rev_induct)
    case Nil
    show ?case by (simp add: admission_inv_def admission_of_def edge_new_def registrations_of_def pin_entry_def pin_default_def)
  next
    case (snoc c calls)
    then have inv: "admission_inv sha keyof (admission_of (edge_run sha (edge_new t0) calls))" by simp
    have "length calls < 2 ^ 64 - 2" using snoc.prems by simp
    from step_admission [OF inv _ next_grows [OF this], of "snd c" "fst c"] snoc.prems show ?case by simp
  qed
  then have inv: "admission_inv sha keyof (admission_of st)" by (simp add: assms(3))
  have e: "am_enforces sha (admission_of st) t" using assms(4) by (simp add: am_enforces_def agent_key_mode_for_def admission_of_def)
  note d = admission_invD [OF inv]
  have "\<exists>p. kp_pin (pin_entry (ed_pins st) t) = Some p \<and> keyof h = Some (pk_key p)" if "h \<in> set (routes st t)" for h
  proof -
    have "h \<in> snd ` set (am_regs (admission_of st) t)"
      by (cases "hm_get (ed_agents st) t") (use that in \<open>simp_all add: routes_def admission_of_def registrations_of_def\<close>)
    then obtain i where "(i, h) \<in> set (am_regs (admission_of st) t)" by auto
    with d(3) [of i h t] d(4) [OF e, of i h] show ?thesis by (simp add: admission_of_def)
  qed
  moreover have "\<not> has_tcp_agent st t" using d(5) [OF e] by (simp add: admission_of_def has_tcp_agent_def)
  ultimately show ?thesis by blast
qed

definition ex_calls :: "(u64 \<times> nat edge_call) list" where
  "ex_calls = [(10, CRegisterChecked [7] 1 ex_addr ModeLog None None),
     (11, CRegisterChecked [7] 2 ex_addr ModeLog (Some \<lparr>pk_key = [9], pk_issued_at = 5\<rparr>) None),
     (12, CSetPolicy ModeEnforce {} None [])]"

theorem enforce_sound_witness:
  "1 \<notin> set (routes (edge_run (\<lambda>x. x) (edge_new 1) ex_calls) [7])"
proof -
  have "agent_key_mode_for (\<lambda>x. x) (edge_run (\<lambda>x. x) (edge_new 1) ex_calls) [7] = ModeEnforce"
    by (simp add: ex_calls_def edge_run_def agent_key_mode_for_def set_policy_policy mode_for_def)
  from enforce_sound [where keyof = "\<lambda>h. if h = 2 then Some [9] else None", OF _ _ refl this]
  show ?thesis by (auto simp: ex_calls_def admission_checked_def)
qed

end
