(* ===== verification/EdgeBounds.thy ===== *)
theory EdgeBounds
  imports EdgeRouting
begin

text \<open>
  The bounded tables of the edge: the fallback pool, which is drained from its oldest live agent, and
  the table of direct endpoints, whose size, evictions and admission are bounded.
\<close>

section \<open>Delivery from the fallback pool\<close>

definition live_part :: "(nat \<Rightarrow> bool) \<Rightarrow> nat list \<Rightarrow> nat list" where
  "live_part alive q = dropWhile (\<lambda>tx. \<not> alive tx) q"

lemma parked_queue_eq: "hm_get (ed_tcp_agents st) t = Some q \<Longrightarrow> parked_queue st t = q"
  by (simp add: parked_queue_def)

lemma deliver_cons:
  assumes "parked_queue st t = tx # q"
  obtains st' where "deliver_to_tcp_agent alive st t s = (if alive tx then Ok tx else Err s, st')"
    and "parked_queue st' = (parked_queue st)(t := q)" "ed_agents st' = ed_agents st"
    and "ec_tcp_deliveries (ed_counters st') = ec_tcp_deliveries (ed_counters st) + (if alive tx then 1 else 0)"
    and "ed_tcp_parked_gauge st' = saturating_dec (ed_tcp_parked_gauge st)"
proof -
  have "hm_get (ed_tcp_agents st) t = Some (tx # q)" using assms by (simp add: parked_queue_def split: option.splits)
  then show thesis
    by (intro that [where st' = "snd (deliver_to_tcp_agent alive st t s)"])
      (auto simp: deliver_to_tcp_agent_def parked_queue_def Let_def fun_eq_iff)
qed

lemma has_tcp_agent_queue: "has_tcp_agent st t \<longleftrightarrow> parked_queue st t \<noteq> []"
  by (auto simp: has_tcp_agent_def parked_queue_def split: option.splits)

text \<open>
  Draining delivery ends, and hands the stream to the oldest parked agent whose receiver still exists
  if there is one, else gives it back; it takes exactly that agent and the dead ones before it off the
  queue, lowers the gauge once for each, counts a delivery exactly when one happened, and touches no
  other tunnel.
\<close>

theorem draining_exact:
  "(case deliver_to_tcp_agent_draining alive st t s of (r, st') \<Rightarrow>
      r = (case live_part alive (parked_queue st t) of [] \<Rightarrow> Err s | tx # _ \<Rightarrow> Ok tx)
      \<and> parked_queue st' = (parked_queue st)(t := tl (live_part alive (parked_queue st t)))
      \<and> ed_agents st' = ed_agents st
      \<and> ec_tcp_deliveries (ed_counters st') = ec_tcp_deliveries (ed_counters st)
          + (if live_part alive (parked_queue st t) = [] then 0 else 1)
      \<and> ed_tcp_parked_gauge st' = (saturating_dec ^^ (length (parked_queue st t) - length (tl (live_part alive (parked_queue st t)))))
          (ed_tcp_parked_gauge st))"
proof (induction "parked_queue st t" arbitrary: st)
  case Nil
  then show ?case
    by (simp add: deliver_to_tcp_agent_draining.simps has_tcp_agent_queue live_part_def fun_eq_iff)
next
  case (Cons tx q)
  obtain st' where d: "deliver_to_tcp_agent alive st t s = (if alive tx then Ok tx else Err s, st')"
    "parked_queue st' = (parked_queue st)(t := q)" "ed_agents st' = ed_agents st"
    "ec_tcp_deliveries (ed_counters st') = ec_tcp_deliveries (ed_counters st) + (if alive tx then 1 else 0)"
    "ed_tcp_parked_gauge st' = saturating_dec (ed_tcp_parked_gauge st)"
    using deliver_cons [OF Cons.hyps(2) [symmetric], of alive s] by metis
  show ?case
  proof (cases "alive tx")
    case True
    with d show ?thesis
      by (simp add: deliver_to_tcp_agent_draining.simps has_tcp_agent_queue live_part_def flip: Cons.hyps(2))
  next
    case False
    then have run: "deliver_to_tcp_agent_draining alive st t s = deliver_to_tcp_agent_draining alive st' t s"
      using d by (subst deliver_to_tcp_agent_draining.simps) (simp add: has_tcp_agent_queue flip: Cons.hyps(2))
    have len: "length (tl (live_part alive q)) \<le> length q"
      by (metis diff_le_self dual_order.trans length_dropWhile_le length_tl live_part_def)
    obtain r st'' where r: "deliver_to_tcp_agent_draining alive st' t s = (r, st'')" by fastforce
    have "live_part alive (tx # q) = live_part alive q" "parked_queue st' t = q"
      using False d(2) by (simp_all add: live_part_def)
    with Cons.hyps(1) [of st'] r d False len run show ?thesis
      by (simp add: Suc_diff_le funpow_swap1 flip: Cons.hyps(2))
  qed
qed

section \<open>Direct endpoints\<close>

definition direct_ok :: "(token, socket_addr \<times> bytes) hmap \<Rightarrow> bool" where
  "direct_ok m \<longleftrightarrow> hm_wf m \<and> length m \<le> DIRECT_ENDPOINTS_MAX \<and> (\<forall>(_, _, cert) \<in> set m. length cert \<le> DIRECT_CERT_MAX_LEN)"

definition tunnel_live :: "'h edge_state \<Rightarrow> token \<Rightarrow> bool" where
  "tunnel_live st t \<longleftrightarrow> 0 < registration_count st t \<or> has_tcp_agent st t"

lemma hm_insert_length: "length (hm_insert k v m) = (if hm_get m k = None then Suc (length m) else length m)"
  by (induction k v m rule: hm_insert.induct) (auto simp: hm_get_def)

lemma hm_insert_values: "set (hm_insert k v m) \<subseteq> insert (k, v) (set m)"
  by (induction k v m rule: hm_insert.induct) auto

lemma hm_remove_shorter: "k \<in> fst ` set m \<Longrightarrow> length (hm_remove k m) < length m"
  by (auto simp: hm_remove_def intro!: length_filter_less)

lemma direct_ok_remove: "direct_ok m \<Longrightarrow> direct_ok (hm_remove k m)"
  unfolding direct_ok_def
  by (metis (no_types, lifting) filter_is_subset hm_remove_def hm.wf_rem length_filter_le order_trans subset_code(1))

lemma direct_ok_insert:
  assumes "direct_ok m" "length cert \<le> DIRECT_CERT_MAX_LEN" "length m < DIRECT_ENDPOINTS_MAX \<or> hm_get m k \<noteq> None"
  shows "direct_ok (hm_insert k (a, cert) m)"
  using assms hm_insert_values [of k "(a, cert)" m] by (fastforce simp: direct_ok_def hm_insert_length)

lemma sample_subset:
  assumes "ks \<noteq> []" "t \<in> set (eviction_sample ks start)"
  shows "t \<in> set ks"
  using assms by (auto simp: eviction_sample_def)

text \<open>What one advertisement does, by cases of the code.\<close>

lemma advertise_cases:
  obtains (refused) cur where "advertise_direct st t a cert = (False, st\<lparr>ed_direct_eviction_cursor := cur\<rparr>)"
    | (stored) "advertise_direct st t a cert = (True, st\<lparr>ed_direct := hm_insert t (a, cert) (ed_direct st)\<rparr>)"
      "length cert \<le> DIRECT_CERT_MAX_LEN" "length (ed_direct st) < DIRECT_ENDPOINTS_MAX \<or> hm_get (ed_direct st) t \<noteq> None"
      "\<not> is_revoked st t"
    | (evicted) victim cur where "advertise_direct st t a cert =
        (True, st\<lparr>ed_direct_eviction_cursor := cur, ed_direct := hm_insert t (a, cert) (hm_remove victim (ed_direct st))\<rparr>)"
      "length cert \<le> DIRECT_CERT_MAX_LEN" "victim \<in> fst ` set (ed_direct st)" "\<not> tunnel_live st victim" "\<not> is_revoked st t"
proof (cases "is_revoked st t \<or> DIRECT_CERT_MAX_LEN < length cert")
  case True
  then show thesis by (intro refused [of "ed_direct_eviction_cursor st"]) (auto simp: advertise_direct_def)
next
  case ok: False
  show thesis
  proof (cases "hm_len (ed_direct st) < DIRECT_ENDPOINTS_MAX \<or> hm_contains (ed_direct st) t")
    case True
    with ok show thesis by (intro stored) (auto simp: advertise_direct_def hm_len_def hm_contains_def)
  next
    case False
    let ?cur = "ed_direct_eviction_cursor st + word_of_nat DIRECT_EVICTION_SAMPLE"
    let ?ks = "map fst (ed_direct st)" and ?P = "\<lambda>k. registration_count st k = 0 \<and> \<not> has_tcp_agent st k"
    let ?sample = "eviction_sample ?ks (unat (ed_direct_eviction_cursor st) mod hm_len (ed_direct st))"
    have P: "registration_count (st\<lparr>ed_direct_eviction_cursor := ?cur\<rparr>) k = registration_count st k"
      "has_tcp_agent (st\<lparr>ed_direct_eviction_cursor := ?cur\<rparr>) k = has_tcp_agent st k" for k
      by (simp_all add: registration_count_def has_tcp_agent_def)
    show thesis
    proof (cases "find ?P ?sample")
      case None
      with ok False show thesis by (intro refused [of ?cur]) (simp add: advertise_direct_def P Let_def)
    next
      case (Some victim)
      then have "victim \<in> set ?sample" "?P victim" by (auto simp: find_Some_iff)
      moreover have "?ks \<noteq> []" using False by (auto simp: hm_len_def DIRECT_ENDPOINTS_MAX_def)
      ultimately have "victim \<in> fst ` set (ed_direct st)" "\<not> tunnel_live st victim"
        using sample_subset [of ?ks] by (auto simp: tunnel_live_def)
      with Some ok False show thesis by (intro evicted [of victim ?cur]) (simp_all add: advertise_direct_def P Let_def)
    qed
  qed
qed

lemma advertise_ok:
  assumes "direct_ok (ed_direct st)"
  shows "direct_ok (ed_direct (snd (advertise_direct st t a cert)))"
proof (cases rule: advertise_cases [where st = st and t = t and a = a and cert = cert])
  case (evicted victim cur)
  have "length (hm_remove victim (ed_direct st)) < DIRECT_ENDPOINTS_MAX"
    using hm_remove_shorter [OF evicted(3)] assms by (simp add: direct_ok_def)
  with evicted direct_ok_insert [OF direct_ok_remove [OF assms]] show ?thesis by simp
qed (use assms direct_ok_insert in simp_all)

text \<open>No other call adds an endpoint.\<close>

lemma draining_direct: "ed_direct (snd (deliver_to_tcp_agent_draining alive st t s)) = ed_direct st"
proof (induction alive st t s rule: deliver_to_tcp_agent_draining.induct)
  case (1 alive st t s)
  have "ed_direct (snd (deliver_to_tcp_agent alive st t s)) = ed_direct st"
    by (simp add: deliver_to_tcp_agent_def Let_def split: option.splits list.splits)
  with 1 show ?case by (subst deliver_to_tcp_agent_draining.simps) (auto split: prod.splits sum.splits)
qed

lemma enforce_tunnels_direct: "ed_direct (snd (enforce_tunnels sha now st ts)) = ed_direct st"
proof (induction ts arbitrary: st)
  case (Cons t ts)
  then show ?case using enforce_tunnel_fields [of sha now st t] by (simp add: routing_def Let_def split_def)
qed simp

lemma set_policy_direct: "ed_direct (snd (set_agent_key_policy sha now st m es f is)) = ed_direct st"
  by (simp add: set_agent_key_policy_def swap_agent_key_policy_locked_def enforce_tunnels_direct Let_def)

lemma checked_direct: "ed_direct (snd (register_with_candidate_checked sha now st t h addr m p rem)) = ed_direct st"
proof -
  have "ed_direct (snd (admit_registration sha now s t h addr b)) = ed_direct s" for s :: "'a edge_state" and b
    by (simp add: admit_registration_def register_locked_def note_connected_def set_candidate_def note_agent_key_proven_def Let_def)
  moreover have "ed_direct (drop_agents s t) = ed_direct s" for s :: "'a edge_state"
    by (simp add: drop_agents_def Let_def split: option.splits)
  ultimately show ?thesis
    by (auto simp: register_with_candidate_checked_def pin_proven_locked_def take_registrations_locked_def
        note_agent_key_violation_def Let_def split_def split: option.splits pin_outcome.splits)
qed

lemma step_direct_ok:
  assumes "direct_ok (ed_direct st)"
  shows "direct_ok (ed_direct (edge_step sha st (now, c)))"
proof (cases "observing c")
  case True
  then show ?thesis using observing_frame [OF True, of sha st now] assms by (simp add: routing_def)
next
  case False
  have drop: "ed_direct (drop_agents st' t) = ed_direct st'" for st' :: "'a edge_state" and t
    by (simp add: drop_agents_def Let_def split: option.splits)
  have regs: "ed_direct (snd (register_locked now st t h)) = ed_direct st" for t h
    by (simp add: register_locked_def note_connected_def Let_def)
  have rest: "ed_direct (snd (register_host st host t)) = ed_direct st"
    "ed_direct (snd (park_tcp_agent_checked sha now st t m r tx)) = ed_direct st"
    "ed_direct (park_tcp_agent now st t tx) = ed_direct st"
    "ed_direct (snd (reload_agent_key_policy_from_file rd sha now st)) = ed_direct st"
    "ed_direct (remove_registration st t i) \<in> {ed_direct st, hm_remove t (ed_direct st)}" for t i host m r tx rd
    by (auto simp: remove_registration_def clear_hosts_frame register_host_def park_tcp_agent_checked_def
        note_agent_key_violation_def park_tcp_agent_def note_connected_def reload_agent_key_policy_from_file_def set_policy_direct
        Let_def split_def split: option.splits sum.splits)
  show ?thesis
  proof (cases c)
    case (CRemoveRegistration t i)
    with rest(5) [of t i] assms direct_ok_remove show ?thesis by auto
  qed (use False in \<open>simp_all add: assms advertise_ok draining_direct set_policy_direct checked_direct regs rest drop
      direct_ok_remove reap_dead_tcp_parks_def edge_remove_def revoke_token_def remove_locked_def clear_hosts_frame
      clear_host_auth_for_def register_def register_with_candidate_def register_unless_revoked_def
      register_with_candidate_unless_revoked_def set_candidate_def park_tcp_agent_unless_revoked_def Let_def split_def\<close>)
qed

text \<open>
  The table of direct endpoints stays within its bounds over any run: at most 4096 tunnels, each
  certificate at most 8 KiB. An accepted advertisement can be looked up; a refused one changes no
  entry; and no advertisement takes away the entry of another tunnel that has a registration or a
  parked agent.
\<close>

theorem direct_endpoints_bounded:
  assumes "st = edge_run sha (edge_new t0) calls" "advertise_direct st t a cert = (ok, st')"
  shows "hm_len (ed_direct st) \<le> 4096 \<and> (\<forall>(k, addr, c) \<in> set (ed_direct st). length c \<le> 8192)
    \<and> (if ok then direct_endpoint st' t = Some (a, cert) else ed_direct st' = ed_direct st)
    \<and> (\<forall>k. k \<noteq> t \<and> tunnel_live st k \<longrightarrow> direct_endpoint st' k = direct_endpoint st k)"
proof -
  have new: "direct_ok (ed_direct (edge_new t0 :: 'a edge_state))"
    by (simp add: edge_new_def direct_ok_def hm_empty_def hm_wf_def)
  have "direct_ok (ed_direct st)" unfolding assms(1)
    by (rule edge_run_invariant [where P = "\<lambda>st. direct_ok (ed_direct st)" and ok = "\<lambda>_. True"])
      (auto simp: new step_direct_ok list.pred_True)
  then have "hm_len (ed_direct st) \<le> 4096" "\<forall>(k, addr, c) \<in> set (ed_direct st). length c \<le> 8192"
    by (auto simp: direct_ok_def hm_len_def DIRECT_ENDPOINTS_MAX_def DIRECT_CERT_MAX_LEN_def)
  moreover have "(if ok then direct_endpoint st' t = Some (a, cert) else ed_direct st' = ed_direct st)
      \<and> (\<forall>k. k \<noteq> t \<and> tunnel_live st k \<longrightarrow> direct_endpoint st' k = direct_endpoint st k)"
  proof (cases rule: advertise_cases [where st = st and t = t and a = a and cert = cert])
    case (refused cur)
    with assms(2) show ?thesis by (auto simp: direct_endpoint_def is_revoked_def)
  next
    case stored
    with assms(2) show ?thesis by (auto simp: direct_endpoint_def is_revoked_def)
  next
    case (evicted victim cur)
    with assms(2) show ?thesis by (auto simp: direct_endpoint_def is_revoked_def)
  qed
  ultimately show ?thesis by blast
qed

theorem direct_endpoints_bounded_witness:
  "direct_endpoint (snd (advertise_direct (edge_run (\<lambda>x. x) (edge_new 1 :: nat edge_state) []) [7] ex_addr [1, 2])) [7]
     = Some (ex_addr, [1, 2])"
proof -
  obtain ok st' where a: "advertise_direct (edge_run (\<lambda>x. x) (edge_new 1 :: nat edge_state) []) [7] ex_addr [1, 2] = (ok, st')"
    by fastforce
  then have ok: ok by (auto simp: advertise_direct_def edge_new_def is_revoked_def DIRECT_CERT_MAX_LEN_def
        DIRECT_ENDPOINTS_MAX_def hm_len_def hm_empty_def)
  from direct_endpoints_bounded [OF refl a] ok show ?thesis unfolding a by simp
qed

section \<open>A full table\<close>

lemma cursor_step: "unat (c + word_of_nat m :: u64) mod 4096 = (unat c + m) mod 4096"
proof -
  have "(2 ^ 64 :: nat) mod 4096 = 0" by simp
  then have dvd: "(4096 :: nat) dvd 2 ^ 64" by presburger
  have "unat (c + word_of_nat m :: u64) = (unat c + m) mod 2 ^ 64"
    by (simp add: unat_word_ariths unat_of_nat mod_add_right_eq)
  with dvd show ?thesis by (simp only: mod_mod_cancel)
qed

lemma sample_covers:
  assumes "length ks = 4096" "t \<in> set ks"
  obtains n where "n < 64" "t \<in> set (eviction_sample ks ((c + 64 * n) mod 4096))"
proof -
  obtain p where p: "p < 4096" "ks ! p = t" using assms by (metis in_set_conv_nth)
  define d where "d = (p + 4096 - c mod 4096) mod 4096"
  have d: "d < 4096" by (simp add: d_def)
  obtain q r where "c = r + 4096 * q" "c mod 4096 = r" "r < 4096"
    by (metis mod_less_divisor mod_mult_div_eq zero_less_numeral)
  then have "c + (p + 4096 - c mod 4096) = p + 4096 * (1 + q)" by simp
  then have "(c + (p + 4096 - c mod 4096)) mod 4096 = p mod 4096" by (metis mod_mult_self2)
  then have cd: "(c + d) mod 4096 = p" using p(1) by (simp add: d_def mod_add_right_eq)
  have dd: "64 * (d div 64) + d mod 64 = d" by simp
  have "((c + 64 * (d div 64)) mod 4096 + d mod 64) mod 4096 = p" using cd dd by (metis add.assoc mod_add_left_eq)
  then have "t = ks ! (((c + 64 * (d div 64)) mod 4096 + d mod 64) mod length ks)" using p assms(1) by simp
  then have "t \<in> set (eviction_sample ks ((c + 64 * (d div 64)) mod 4096))"
    unfolding eviction_sample_def DIRECT_EVICTION_SAMPLE_def by auto
  moreover have "d div 64 < 64" using d by (simp add: less_mult_imp_div_less)
  ultimately show thesis by (rule that [rotated])
qed

text \<open>
  A full table does not lock a tunnel out for good: when one of its 4096 entries belongs to a tunnel
  with neither a registration nor a parked agent, one of at most 64 attempts of an admissible
  advertisement is accepted, since the cursor sweeps the whole table in that many samples.
\<close>

theorem advertise_direct_admits:
  assumes full: "hm_len (ed_direct st) = DIRECT_ENDPOINTS_MAX" and ok: "\<not> is_revoked st t" "length cert \<le> DIRECT_CERT_MAX_LEN"
    and dead: "k \<in> set (map fst (ed_direct st))" "\<not> tunnel_live st k"
  shows "\<exists>n < 64. fst (advertise_direct (((\<lambda>s. snd (advertise_direct s t a cert)) ^^ n) st) t a cert)"
proof (rule ccontr)
  assume "\<not> ?thesis"
  then have no: "\<not> fst (advertise_direct (((\<lambda>s. snd (advertise_direct s t a cert)) ^^ n) st) t a cert)" if "n < 64" for n
    using that by blast
  have len: "length (ed_direct st) = 4096" using full by (simp add: hm_len_def DIRECT_ENDPOINTS_MAX_def)
  have out: "\<not> hm_contains (ed_direct st) t" using no [of 0] ok by (auto simp: advertise_direct_def)
  define cur where "cur n = ed_direct_eviction_cursor st + word_of_nat (64 * n)" for n
  have cur: "cur n + word_of_nat DIRECT_EVICTION_SAMPLE = cur (Suc n)"
    "unat (cur n) mod 4096 = (unat (ed_direct_eviction_cursor st) + 64 * n) mod 4096" "cur 0 = ed_direct_eviction_cursor st" for n
    unfolding cur_def by (rule cursor_step | simp add: DIRECT_EVICTION_SAMPLE_def)+
  let ?at = "\<lambda>n. st\<lparr>ed_direct_eviction_cursor := cur n\<rparr>"
  have live: "registration_count (st\<lparr>ed_direct_eviction_cursor := x\<rparr>) j = registration_count st j"
    "has_tcp_agent (st\<lparr>ed_direct_eviction_cursor := x\<rparr>) j = has_tcp_agent st j"
    "is_revoked (st\<lparr>ed_direct_eviction_cursor := x\<rparr>) j = is_revoked st j" for x j
    by (simp_all add: registration_count_def has_tcp_agent_def is_revoked_def)
  let ?P = "\<lambda>j. registration_count st j = 0 \<and> \<not> has_tcp_agent st j"
  have adv: "advertise_direct (?at n) t a cert =
      (case find ?P (eviction_sample (map fst (ed_direct st)) ((unat (ed_direct_eviction_cursor st) + 64 * n) mod 4096)) of
         None \<Rightarrow> (False, ?at (Suc n))
       | Some victim \<Rightarrow> (True, (?at (Suc n))\<lparr>ed_direct := hm_insert t (a, cert) (hm_remove victim (ed_direct st))\<rparr>))" for n
    using ok out by (simp add: advertise_direct_def live hm_len_def len DIRECT_ENDPOINTS_MAX_def cur Let_def)
  have run: "((\<lambda>s. snd (advertise_direct s t a cert)) ^^ n) st = ?at n" if "n < 64" for n using that
  proof (induction n)
    case (Suc n)
    then have "((\<lambda>s. snd (advertise_direct s t a cert)) ^^ n) st = ?at n" by simp
    with no [of n] Suc.prems adv [of n] show ?case by (simp split: option.splits)
  qed (simp add: cur)
  obtain n where n: "n < 64" "k \<in> set (eviction_sample (map fst (ed_direct st)) ((unat (ed_direct_eviction_cursor st) + 64 * n) mod 4096))"
    using sample_covers [OF _ dead(1), of "unat (ed_direct_eviction_cursor st)"] len by auto
  have "?P k" using dead(2) by (simp add: tunnel_live_def)
  with n(2) have "find ?P (eviction_sample (map fst (ed_direct st)) ((unat (ed_direct_eviction_cursor st) + 64 * n) mod 4096)) \<noteq> None"
    by (auto simp: find_None_iff)
  with no [OF n(1)] run [OF n(1)] adv [of n] show False by (auto split: option.splits)
qed

text \<open>
  The witness is a table of 4096 endpoints of tunnels that are all gone.
\<close>

definition ex_full :: "nat edge_state" where
  "ex_full = (edge_new 1)\<lparr>ed_direct := map (\<lambda>i. (replicate i 0, ex_addr, [])) [0..<4096]\<rparr>"

theorem advertise_direct_admits_witness:
  "\<exists>n < 64. fst (advertise_direct (((\<lambda>s. snd (advertise_direct s [7] ex_addr [])) ^^ n) ex_full) [7] ex_addr [])"
proof (rule advertise_direct_admits [where k = "[]"])
  show "[] \<in> set (map fst (ed_direct ex_full))" by (auto simp: ex_full_def image_iff intro!: bexI [of _ 0])
qed (simp_all add: ex_full_def edge_new_def hm_len_def is_revoked_def tunnel_live_def registration_count_def has_tcp_agent_def
    DIRECT_ENDPOINTS_MAX_def DIRECT_CERT_MAX_LEN_def)

end
