(* ===== verification/Delivery.thy ===== *)
theory Delivery
  imports Hex Text
begin

text \<open>
  Protocol v2 of channel sessions (\<open>src/crates/common/src/delivery.rs\<close>): capabilities, records, and the
  pump \<open>noise_pump_v2\<close>. The three futures of the pump run in one task; an event
  of the model is what one branch of a future does once the operation it waits for is done, with the outcome and the
  time since the start as arguments; a write to the transport and what follows it belong to the event that caused it. A \<open>Duration\<close> is a number of nanoseconds. The Noise transport is the list of plaintexts sealed so
  far; the closure \<open>local_end\<close> and the idle bound are parameters.
\<close>

section \<open>Capabilities\<close>

definition CAPS_MAGIC :: bytes where
  "CAPS_MAGIC = ascii ''CTC''"

definition CAPS_VERSION :: u8 where
  "CAPS_VERSION = 1"

definition CAP_DELIVERY_ACK :: u16 where
  "CAP_DELIVERY_ACK = 1"

record session_caps =
  sc_flags :: u16

definition caps_none :: session_caps where
  "caps_none = \<lparr>sc_flags = 0\<rparr>"

definition caps_delivery_ack :: session_caps where
  "caps_delivery_ack = \<lparr>sc_flags = CAP_DELIVERY_ACK\<rparr>"

definition delivery_ack :: "session_caps \<Rightarrow> bool" where
  "delivery_ack c \<longleftrightarrow> and (sc_flags c) CAP_DELIVERY_ACK \<noteq> 0"

definition intersect :: "session_caps \<Rightarrow> session_caps \<Rightarrow> session_caps" where
  "intersect c d = \<lparr>sc_flags = and (sc_flags c) (sc_flags d)\<rparr>"

definition to_payload :: "session_caps \<Rightarrow> bytes" where
  "to_payload c = (if sc_flags c = 0 then [] else CAPS_MAGIC @ [CAPS_VERSION] @ to_be_bytes16 (sc_flags c))"

definition from_payload :: "bytes \<Rightarrow> session_caps option" where
  "from_payload payload =
     (if length payload < 6 \<or> take 3 payload \<noteq> CAPS_MAGIC \<or> payload ! 3 = 0 then None
      else Some \<lparr>sc_flags = from_be_bytes16 [payload ! 4, payload ! 5]\<rparr>)"

section \<open>Reasons and errors\<close>

datatype fin_reason =
    FinNormal | OwnGrantExpired | OwnGrantRevoked | PeerGrantEnded | LocalError | PeerGrantRefused | UnknownReason u8

fun reason_to_byte :: "fin_reason \<Rightarrow> u8" where
  "reason_to_byte FinNormal = 0"
| "reason_to_byte OwnGrantExpired = 1"
| "reason_to_byte OwnGrantRevoked = 2"
| "reason_to_byte PeerGrantEnded = 3"
| "reason_to_byte LocalError = 4"
| "reason_to_byte PeerGrantRefused = 5"
| "reason_to_byte (UnknownReason b) = b"

definition reason_from_byte :: "u8 \<Rightarrow> fin_reason" where
  "reason_from_byte b =
     (if b = 0 then FinNormal else if b = 1 then OwnGrantExpired else if b = 2 then OwnGrantRevoked
      else if b = 3 then PeerGrantEnded else if b = 4 then LocalError else if b = 5 then PeerGrantRefused
      else UnknownReason b)"

definition dec_u8 :: "u8 \<Rightarrow> bytes" where
  "dec_u8 b = dec_digits (unat b)"

fun local_words :: "fin_reason \<Rightarrow> bytes" where
  "local_words FinNormal = ascii ''the local input ended''"
| "local_words OwnGrantExpired = ascii ''this member's channel grant expired''"
| "local_words OwnGrantRevoked = ascii ''this member's channel grant was revoked''"
| "local_words PeerGrantEnded = ascii ''the peer's channel grant ended''"
| "local_words LocalError = ascii ''the local side failed''"
| "local_words PeerGrantRefused = ascii ''the peer's grant was refused''"
| "local_words (UnknownReason b) = ascii ''reason code '' @ dec_u8 b"

fun peer_words :: "fin_reason \<Rightarrow> bytes" where
  "peer_words FinNormal = ascii ''the peer's input ended''"
| "peer_words OwnGrantExpired = ascii ''the peer's own channel grant expired''"
| "peer_words OwnGrantRevoked = ascii ''the peer's own channel grant was revoked''"
| "peer_words PeerGrantEnded = ascii ''the peer reports that this member's channel grant ended''"
| "peer_words LocalError = ascii ''the peer's local side failed''"
| "peer_words PeerGrantRefused = ascii ''the peer refused this member's grant''"
| "peer_words (UnknownReason b) = ascii ''the peer ended with reason code '' @ dec_u8 b"

text \<open>The kinds of \<open>io::Error\<close> the pump produces, and the others a caller may pass in.\<close>

datatype io_kind = PermissionDenied | OtherKind | InvalidData | UnexpectedEof | ConnectionAborted | TimedOut | NamedKind string

record io_error =
  ie_kind :: io_kind
  ie_text :: bytes

fun reason_error_kind :: "fin_reason \<Rightarrow> io_kind" where
  "reason_error_kind OwnGrantExpired = PermissionDenied"
| "reason_error_kind OwnGrantRevoked = PermissionDenied"
| "reason_error_kind PeerGrantEnded = PermissionDenied"
| "reason_error_kind PeerGrantRefused = PermissionDenied"
| "reason_error_kind _ = OtherKind"

record delivery_report =
  dr_sent :: u64
  dr_received :: u64

datatype delivery_error =
    TransportEnded (te_received: u64) (te_peer_fin: bool) (te_sent: u64) (te_fin_sent: bool) (te_confirmed: bool) (te_cause: bytes)
  | Truncated (tr_announced: u64) (tr_received: u64)
  | Unconfirmed (un_sent: u64) (un_confirmed: u64)
  | AckTimeout (at_sent: u64) (at_idle: nat)
  | PeerEnded (pe_reason: fin_reason) (pe_announced: u64) (pe_received: u64)
  | LocalEnded (le_reason: fin_reason) (le_sent: u64) (le_detail: bytes)
  | Protocol bytes

text \<open>An \<open>io::Error\<close> with a \<open>DeliveryError\<close> inside, or a plain one.\<close>

datatype pump_error = DeliveryFailed io_kind delivery_error | IoFailed io_error

definition delivery_error_of :: "pump_error \<Rightarrow> delivery_error option" where
  "delivery_error_of e = (case e of DeliveryFailed _ d \<Rightarrow> Some d | IoFailed _ \<Rightarrow> None)"

definition dec_u64 :: "u64 \<Rightarrow> bytes" where
  "dec_u64 n = dec_digits (unat n)"

text \<open>\<open>Display\<close>; \<open>as_secs\<close> rounds down.\<close>

fun show_delivery_error :: "delivery_error \<Rightarrow> bytes" where
  "show_delivery_error (TransportEnded received peer_fin sent fin_sent confirmed cause) =
     (case (fin_sent, confirmed, peer_fin) of
        (False, _, False) \<Rightarrow>
          ascii ''session cut: the transport ended ('' @ cause @ ascii '') while both directions were still open (''
            @ dec_u64 sent @ ascii '' bytes sent, '' @ dec_u64 received
            @ ascii '' received; a direction is confirmed only when it ends)''
      | (False, _, True) \<Rightarrow>
          ascii ''session cut: the transport ended ('' @ cause @ ascii '') while our direction was still open (''
            @ dec_u64 sent @ ascii '' bytes sent, none of them confirmed yet; the peer's stream ended complete after ''
            @ dec_u64 received @ ascii '' bytes)''
      | (True, False, False) \<Rightarrow>
          ascii ''delivery not confirmed: the transport ended ('' @ cause @ ascii '') before the peer's confirmation of our ''
            @ dec_u64 sent @ ascii '' bytes and before the end of the peer's stream ('' @ dec_u64 received
            @ ascii '' bytes received, then nothing)''
      | (True, False, True) \<Rightarrow>
          ascii ''delivery not confirmed: the transport ended ('' @ cause @ ascii '') before the peer's confirmation of our ''
            @ dec_u64 sent @ ascii '' bytes (the peer's stream ended complete after '' @ dec_u64 received @ ascii '' bytes)''
      | (True, True, False) \<Rightarrow>
          ascii ''the peer's stream is incomplete: the transport ended ('' @ cause
            @ ascii '') before the end of the peer's stream ('' @ dec_u64 received @ ascii '' bytes received, then nothing); our ''
            @ dec_u64 sent @ ascii '' bytes were confirmed''
      | (True, True, True) \<Rightarrow>
          ascii ''the transport ended ('' @ cause @ ascii '') before our confirmation of the peer's '' @ dec_u64 received
            @ ascii '' bytes was out; our '' @ dec_u64 sent @ ascii '' bytes were confirmed'')"
| "show_delivery_error (Truncated announced received) =
     ascii ''delivery truncated: the peer sent '' @ dec_u64 announced @ ascii '' bytes, '' @ dec_u64 received @ ascii '' arrived''"
| "show_delivery_error (Unconfirmed sent confirmed) =
     ascii ''delivery not confirmed: the peer confirmed '' @ dec_u64 confirmed @ ascii '' of our '' @ dec_u64 sent @ ascii '' bytes''"
| "show_delivery_error (AckTimeout sent idle) =
     ascii ''delivery not confirmed: no word from the peer for '' @ dec_digits (idle div 1000000000)
       @ ascii ''s (no data, no progress report) while waiting for its confirmation of our '' @ dec_u64 sent @ ascii '' bytes''"
| "show_delivery_error (PeerEnded reason announced received) =
     ascii ''the peer ended the session early: '' @ peer_words reason @ ascii '' (it had sent '' @ dec_u64 announced
       @ ascii '' bytes, '' @ dec_u64 received @ ascii '' arrived)''"
| "show_delivery_error (LocalEnded reason sent detail) =
     ascii ''ended the session early: '' @ local_words reason @ ascii '' after sending '' @ dec_u64 sent @ ascii '' bytes (''
       @ detail @ ascii '')''"
| "show_delivery_error (Protocol what) = ascii ''delivery protocol violated by the peer: '' @ what"

section \<open>Records\<close>

definition from_millis :: "nat \<Rightarrow> nat" where
  "from_millis ms = ms * 1000000"

definition from_secs :: "nat \<Rightarrow> nat" where
  "from_secs s = s * 1000000000"

definition DEFAULT_FIN_ACK_IDLE :: nat where
  "DEFAULT_FIN_ACK_IDLE = from_secs 60"

definition PROGRESS_EVERY_MAX :: nat where
  "PROGRESS_EVERY_MAX = from_secs 15"

definition REC_DATA :: u8 where "REC_DATA = 0"

definition REC_FIN :: u8 where "REC_FIN = 1"

definition REC_FIN_ACK :: u8 where "REC_FIN_ACK = 2"

definition REC_PROGRESS :: u8 where "REC_PROGRESS = 3"

definition CHUNK :: nat where
  "CHUNK = 16 * 1024"

definition fin_body :: "u64 \<Rightarrow> fin_reason \<Rightarrow> bytes" where
  "fin_body sent reason = to_be_bytes64 sent @ [reason_to_byte reason]"

definition u64_at :: "bytes \<Rightarrow> u64" where
  "u64_at bs = from_be_bytes64 (take 8 bs)"

definition progress_every :: "nat \<Rightarrow> nat" where
  "progress_every fin_ack_idle = max (min (fin_ack_idle div 4) PROGRESS_EVERY_MAX) (from_millis 10)"

section \<open>The pump\<close>

datatype to_outbound = FinAckCmd u64 | AbortCmd fin_reason pump_error

text \<open>What the inbound future is handing to its local side.\<close>

datatype local_work = LocalWrite bytes | LocalClose

text \<open>
  Locals of the outbound future, locals of the inbound future, the shared cells, the command channel,
  and the pump's surroundings: the plaintexts sealed onto the transport, what was read from the local
  side, what was written to it, whether it was closed, and the error that ended the pump.
\<close>

record pump =
  pu_sent :: u64
  pu_local_open :: bool
  pu_fin_ack_out :: bool
  pu_reported :: u64
  pu_received :: u64
  pu_their_fin :: bool
  pu_our_fin_confirmed :: bool
  pu_delivering :: "local_work option"
  pu_aborting :: "pump_error option"
  pu_sent_total :: u64
  pu_received_total :: u64
  pu_fin_sent :: bool
  pu_peer_fin :: bool
  pu_confirmed :: bool
  pu_fin_out_at :: u64
  pu_last_record_at :: u64
  pu_fin_out :: bool
  pu_to_outbound :: "to_outbound list"
  pu_wire :: "bytes list"
  pu_plain_read :: bytes
  pu_plain_written :: bytes
  pu_plain_shut :: bool
  pu_error :: "pump_error option"

definition pump_new :: pump where
  "pump_new =
     \<lparr>pu_sent = 0, pu_local_open = True, pu_fin_ack_out = False, pu_reported = 0, pu_received = 0, pu_their_fin = False,
      pu_our_fin_confirmed = False, pu_delivering = None, pu_aborting = None, pu_sent_total = 0, pu_received_total = 0,
      pu_fin_sent = False, pu_peer_fin = False, pu_confirmed = False, pu_fin_out_at = 0, pu_last_record_at = 0,
      pu_fin_out = False, pu_to_outbound = [], pu_wire = [], pu_plain_read = [], pu_plain_written = [],
      pu_plain_shut = False, pu_error = None\<rparr>"

definition pump_fail :: "pump \<Rightarrow> pump_error \<Rightarrow> pump" where
  "pump_fail st e = st\<lparr>pu_error := Some e\<rparr>"

definition since_start_ms :: "nat \<Rightarrow> u64" where
  "since_start_ms now = word_of_nat (now div 1000000)"

definition transport_ended :: "pump \<Rightarrow> io_error \<Rightarrow> pump_error" where
  "transport_ended st cause =
     DeliveryFailed UnexpectedEof
       (TransportEnded (pu_received_total st) (pu_peer_fin st) (pu_sent_total st) (pu_fin_sent st) (pu_confirmed st)
         (if ie_kind cause = UnexpectedEof then ascii ''end of stream'' else ie_text cause))"

definition protocol_violation :: "bytes \<Rightarrow> pump_error" where
  "protocol_violation what = DeliveryFailed InvalidData (Protocol what)"

text \<open>
  A record handed to the transport. When the write fails it may still have gone out: it is kept in
  the list, and how much of the list arrives is up to the transport.
\<close>

definition put_record :: "u8 \<Rightarrow> bytes \<Rightarrow> pump \<Rightarrow> pump" where
  "put_record tag body st = st\<lparr>pu_wire := pu_wire st @ [tag # body]\<rparr>"

section \<open>Outbound\<close>

definition outbound_running :: "pump \<Rightarrow> bool" where
  "outbound_running st \<longleftrightarrow> pu_local_open st \<or> \<not> pu_fin_ack_out st"

definition outbound_abort :: "fin_reason \<Rightarrow> pump_error \<Rightarrow> pump \<Rightarrow> pump" where
  "outbound_abort reason err st = pump_fail (put_record REC_FIN (fin_body (pu_sent st) reason) st) err"

definition outbound_cmd :: "io_error option \<Rightarrow> pump \<Rightarrow> pump" where
  "outbound_cmd w st =
     (case pu_to_outbound st of
        [] \<Rightarrow> st
      | FinAckCmd received # q \<Rightarrow>
          let st = put_record REC_FIN_ACK (to_be_bytes64 received) (st\<lparr>pu_to_outbound := q\<rparr>)
          in (case w of Some e \<Rightarrow> pump_fail st (transport_ended st e) | None \<Rightarrow> st\<lparr>pu_fin_ack_out := True\<rparr>)
      | AbortCmd reason err # q \<Rightarrow> outbound_abort reason err (st\<lparr>pu_to_outbound := q\<rparr>))"

definition outbound_tick :: "io_error option \<Rightarrow> pump \<Rightarrow> pump" where
  "outbound_tick w st =
     (let delivered = pu_received_total st in
      if pu_reported st < delivered
      then let st = put_record REC_PROGRESS (to_be_bytes64 delivered) st
           in (case w of Some e \<Rightarrow> pump_fail st (transport_ended st e) | None \<Rightarrow> st\<lparr>pu_reported := delivered\<rparr>)
      else st)"

datatype write_outcome = Written | WriteFailed io_error | SealFailed io_error

definition outbound_read :: "bytes \<Rightarrow> write_outcome \<Rightarrow> pump \<Rightarrow> pump" where
  "outbound_read data w st =
     (let st = st\<lparr>pu_plain_read := pu_plain_read st @ data\<rparr> in
      case w of
        SealFailed e \<Rightarrow> pump_fail st (IoFailed e)
      | WriteFailed e \<Rightarrow> let st = put_record REC_DATA data st in pump_fail st (transport_ended st e)
      | Written \<Rightarrow>
          let st = put_record REC_DATA data st; sent = pu_sent st + word_of_nat (length data)
          in st\<lparr>pu_sent := sent, pu_sent_total := sent\<rparr>)"

definition outbound_eof :: "nat \<Rightarrow> fin_reason \<Rightarrow> io_error option \<Rightarrow> pump \<Rightarrow> pump" where
  "outbound_eof now reason w st =
     (if reason \<noteq> FinNormal
      then outbound_abort reason
             (DeliveryFailed (reason_error_kind reason) (LocalEnded reason (pu_sent st) (ascii ''the local side ended''))) st
      else let st = st\<lparr>pu_sent_total := pu_sent st, pu_fin_sent := True\<rparr>;
               st = put_record REC_FIN (fin_body (pu_sent st) reason) st
           in (case w of
                 Some e \<Rightarrow> pump_fail st (transport_ended st e)
               | None \<Rightarrow> st\<lparr>pu_fin_out_at := since_start_ms now, pu_fin_out := True, pu_local_open := False\<rparr>))"

definition failure_reason :: "(io_error option \<Rightarrow> fin_reason) \<Rightarrow> io_error \<Rightarrow> fin_reason" where
  "failure_reason local_end e = (case local_end (Some e) of FinNormal \<Rightarrow> LocalError | other \<Rightarrow> other)"

definition outbound_read_error :: "(io_error option \<Rightarrow> fin_reason) \<Rightarrow> io_error \<Rightarrow> pump \<Rightarrow> pump" where
  "outbound_read_error local_end e st =
     (let reason = failure_reason local_end e
      in outbound_abort reason
           (DeliveryFailed (ie_kind e)
             (LocalEnded reason (pu_sent st) (ascii ''reading the local side failed: '' @ ie_text e))) st)"

section \<open>Inbound\<close>

definition inbound_running :: "pump \<Rightarrow> bool" where
  "inbound_running st \<longleftrightarrow> \<not> (pu_their_fin st \<and> pu_our_fin_confirmed st) \<and> pu_aborting st = None"

definition inbound_abort :: "(io_error option \<Rightarrow> fin_reason) \<Rightarrow> io_error \<Rightarrow> pump \<Rightarrow> pump" where
  "inbound_abort local_end e st =
     (let reason = failure_reason local_end e;
          err = DeliveryFailed (ie_kind e)
            (LocalEnded reason (pu_sent_total st) (ascii ''delivering to the local side failed: '' @ ie_text e))
      in st\<lparr>pu_to_outbound := pu_to_outbound st @ [AbortCmd reason err], pu_aborting := Some err\<rparr>)"

definition wrong_length :: "string \<Rightarrow> bytes \<Rightarrow> bytes" where
  "wrong_length what pt = ascii ''a '' @ ascii what @ ascii '' record of '' @ dec_digits (length pt) @ ascii '' bytes''"

definition inbound_fin :: "bytes \<Rightarrow> pump \<Rightarrow> pump" where
  "inbound_fin pt st =
     (if length pt \<noteq> 1 + 9 then pump_fail st (protocol_violation (wrong_length ''FIN'' pt))
      else let announced = u64_at (tl pt); reason = reason_from_byte (pt ! 9) in
        if reason \<noteq> FinNormal
        then pump_fail (st\<lparr>pu_plain_shut := True\<rparr>)
               (DeliveryFailed ConnectionAborted (PeerEnded reason announced (pu_received st)))
        else if pu_their_fin st then pump_fail st (protocol_violation (ascii ''a second FIN''))
        else if announced \<noteq> pu_received st
        then pump_fail st (DeliveryFailed UnexpectedEof (Truncated announced (pu_received st)))
        else st\<lparr>pu_delivering := Some LocalClose\<rparr>)"

definition inbound_fin_ack :: "bytes \<Rightarrow> pump \<Rightarrow> pump" where
  "inbound_fin_ack pt st =
     (if length pt \<noteq> 1 + 8 then pump_fail st (protocol_violation (wrong_length ''FIN_ACK'' pt))
      else if \<not> pu_fin_sent st then pump_fail st (protocol_violation (ascii ''a FIN_ACK before this side's FIN''))
      else if pu_our_fin_confirmed st then pump_fail st (protocol_violation (ascii ''a second FIN_ACK''))
      else let sent = pu_sent_total st; got = u64_at (tl pt) in
        if got \<noteq> sent then pump_fail st (DeliveryFailed OtherKind (Unconfirmed sent got))
        else st\<lparr>pu_our_fin_confirmed := True, pu_confirmed := True\<rparr>)"

definition inbound_record :: "nat \<Rightarrow> bytes \<Rightarrow> pump \<Rightarrow> pump" where
  "inbound_record now pt st =
     (let st = st\<lparr>pu_last_record_at := since_start_ms now\<rparr> in
      if pt = [] then pump_fail st (protocol_violation (ascii ''an empty record''))
      else if hd pt = REC_DATA
      then (if pu_their_fin st then pump_fail st (protocol_violation (ascii ''application data after the peer's FIN''))
            else st\<lparr>pu_delivering := Some (LocalWrite (tl pt))\<rparr>)
      else if hd pt = REC_FIN then inbound_fin pt st
      else if hd pt = REC_FIN_ACK then inbound_fin_ack pt st
      else if hd pt = REC_PROGRESS
      then (if length pt \<noteq> 1 + 8 then pump_fail st (protocol_violation (wrong_length ''PROGRESS'' pt)) else st)
      else pump_fail st (protocol_violation (ascii ''an unknown record tag 0x'' @ hex_encode [hd pt])))"

definition inbound_delivered :: "(io_error option \<Rightarrow> fin_reason) \<Rightarrow> nat \<Rightarrow> io_error option \<Rightarrow> pump \<Rightarrow> pump" where
  "inbound_delivered local_end now res st =
     (case pu_delivering st of
        None \<Rightarrow> st
      | Some work \<Rightarrow>
          let st = st\<lparr>pu_delivering := None, pu_last_record_at := since_start_ms now\<rparr> in
          case res of
            Some e \<Rightarrow> inbound_abort local_end e st
          | None \<Rightarrow>
              (case work of
                 LocalWrite body \<Rightarrow>
                   let received = pu_received st + word_of_nat (length body)
                   in st\<lparr>pu_plain_written := pu_plain_written st @ body, pu_received := received, pu_received_total := received\<rparr>
               | LocalClose \<Rightarrow>
                   st\<lparr>pu_plain_shut := True, pu_their_fin := True, pu_peer_fin := True,
                      pu_to_outbound := pu_to_outbound st @ [FinAckCmd (pu_received st)]\<rparr>))"

section \<open>Watchdog and the whole pump\<close>

text \<open>The body of the watchdog's timer branch; the timer may be set for an earlier deadline.\<close>

definition watchdog :: "nat \<Rightarrow> nat \<Rightarrow> pump \<Rightarrow> pump" where
  "watchdog fin_ack_idle now st =
     (if \<not> pu_fin_out st \<or> pu_confirmed st then st
      else if pu_delivering st \<noteq> None then st\<lparr>pu_last_record_at := since_start_ms now\<rparr>
      else let last = max (pu_fin_out_at st) (pu_last_record_at st) in
        if from_millis (unat last) + fin_ack_idle \<le> now
        then pump_fail st (DeliveryFailed TimedOut (AckTimeout (pu_sent_total st) fin_ack_idle)) else st)"

datatype pump_event =
    Command "io_error option"
  | ProgressTick "io_error option"
  | LocalRead bytes write_outcome
  | LocalEof "io_error option"
  | LocalReadError io_error
  | RecordIn bytes
  | LocalDelivered "io_error option"
  | TransportReadError io_error
  | NoiseError bytes
  | AbortGrace
  | WatchdogDue

definition awaits_record :: "pump \<Rightarrow> bool" where
  "awaits_record st \<longleftrightarrow> pu_error st = None \<and> inbound_running st \<and> pu_delivering st = None"

definition awaits_local :: "pump \<Rightarrow> bool" where
  "awaits_local st \<longleftrightarrow> outbound_running st \<and> pu_to_outbound st = [] \<and> pu_local_open st"

text \<open>
  One event. The outbound \<open>select!\<close> is biased: a pending command goes first. An event whose future is
  not waiting for it does nothing.
\<close>

fun pump_step :: "(io_error option \<Rightarrow> fin_reason) \<Rightarrow> nat \<Rightarrow> nat \<Rightarrow> pump \<Rightarrow> pump_event \<Rightarrow> pump" where
  "pump_step local_end idle now st (Command w) =
     (if pu_error st = None \<and> outbound_running st then outbound_cmd w st else st)"
| "pump_step local_end idle now st (ProgressTick w) =
     (if pu_error st = None \<and> pu_to_outbound st = [] \<and> \<not> pu_fin_ack_out st then outbound_tick w st else st)"
| "pump_step local_end idle now st (LocalRead data w) =
     (if pu_error st = None \<and> awaits_local st \<and> data \<noteq> [] \<and> length data \<le> CHUNK then outbound_read data w st else st)"
| "pump_step local_end idle now st (LocalEof w) =
     (if pu_error st = None \<and> awaits_local st then outbound_eof now (local_end None) w st else st)"
| "pump_step local_end idle now st (LocalReadError e) =
     (if pu_error st = None \<and> awaits_local st then outbound_read_error local_end e st else st)"
| "pump_step local_end idle now st (RecordIn pt) = (if awaits_record st then inbound_record now pt st else st)"
| "pump_step local_end idle now st (LocalDelivered res) =
     (if pu_error st = None then inbound_delivered local_end now res st else st)"
| "pump_step local_end idle now st (TransportReadError e) =
     (if awaits_record st then pump_fail st (transport_ended st e) else st)"
| "pump_step local_end idle now st (NoiseError what) =
     (if awaits_record st then pump_fail (st\<lparr>pu_last_record_at := since_start_ms now\<rparr>)
        (IoFailed \<lparr>ie_kind = InvalidData, ie_text = ascii ''noise: '' @ what\<rparr>) else st)"
| "pump_step local_end idle now st AbortGrace =
     (if pu_error st = None then (case pu_aborting st of None \<Rightarrow> st | Some err \<Rightarrow> pump_fail st err) else st)"
| "pump_step local_end idle now st WatchdogDue = (if pu_error st = None then watchdog idle now st else st)"

text \<open>\<open>try_join!\<close>: all three futures returned.\<close>

definition pump_report :: "pump \<Rightarrow> delivery_report option" where
  "pump_report st =
     (if pu_error st = None \<and> \<not> outbound_running st \<and> pu_their_fin st \<and> pu_our_fin_confirmed st
         \<and> pu_fin_out st \<and> pu_confirmed st
      then Some \<lparr>dr_sent = pu_sent st, dr_received = pu_received st\<rparr> else None)"

section \<open>Wire forms and cadence\<close>

lemma caps_roundtrip: "from_payload (to_payload c) = (if sc_flags c = 0 then None else Some c)"
proof -
  have "length (to_be_bytes16 (sc_flags c)) = Suc (Suc 0)" by simp
  then obtain x y where xy: "to_be_bytes16 (sc_flags c) = [x, y]" unfolding length_Suc_conv by auto
  have "from_be_bytes16 (to_be_bytes16 (sc_flags c)) = sc_flags c" by simp
  then show ?thesis by (simp add: to_payload_def from_payload_def xy CAPS_MAGIC_def CAPS_VERSION_def ascii_def)
qed

text \<open>A reason code of an unnamed reason below six is read as a named one, zero even as a normal end.\<close>

lemma reason_roundtrip:
  "reason_from_byte (reason_to_byte r) = (case r of UnknownReason b \<Rightarrow> reason_from_byte b | _ \<Rightarrow> r)"
  by (cases r) (simp_all add: reason_from_byte_def)

text \<open>A side with at least the default bound hears from a delivering peer in time, whatever that peer's own bound.\<close>

lemma progress_in_time:
  assumes "DEFAULT_FIN_ACK_IDLE \<le> idle"
  shows "4 * progress_every other \<le> idle"
  using assms by (simp add: progress_every_def DEFAULT_FIN_ACK_IDLE_def PROGRESS_EVERY_MAX_def from_secs_def from_millis_def)

end
