(* ===== verification/DeliverySession.thy ===== *)
theory DeliverySession
  imports Delivery
begin

text \<open>
  Two pumps of protocol v2 over a Noise transport. What a side reads is, in order, what the other side
  sealed: Noise gives each message of a direction its own nonce, so a relay can cut a direction or make
  it fail, but it cannot reorder, drop from the middle or forge. Local sides, timers, failures and the
  scheduling of the two pumps are arbitrary.
\<close>

section \<open>Sessions\<close>

inductive session ::
  "(io_error option \<Rightarrow> fin_reason) \<Rightarrow> (io_error option \<Rightarrow> fin_reason) \<Rightarrow> nat \<Rightarrow> nat \<Rightarrow> pump \<Rightarrow> pump \<Rightarrow> nat \<Rightarrow> nat \<Rightarrow> bool" where
  start: "session la lb ia ib pump_new pump_new 0 0"
| local: "session la lb ia ib a b i j \<Longrightarrow> \<forall>pt. ev \<noteq> RecordIn pt \<Longrightarrow>
     session la lb ia ib (pump_step la ia now a ev) b i j"
| arrive: "session la lb ia ib a b i j \<Longrightarrow> awaits_record a \<Longrightarrow> i < length (pu_wire b) \<Longrightarrow>
     session la lb ia ib (pump_step la ia now a (RecordIn (pu_wire b ! i))) b (Suc i) j"
| other: "session la lb ia ib a b i j \<Longrightarrow> session lb la ib ia b a j i"

section \<open>Records on the wire\<close>

datatype wire_record = RData bytes | RFin u64 fin_reason | RFinAck u64 | RProgress u64

fun record_bytes :: "wire_record \<Rightarrow> bytes" where
  "record_bytes (RData d) = REC_DATA # d"
| "record_bytes (RFin n r) = REC_FIN # fin_body n r"
| "record_bytes (RFinAck n) = REC_FIN_ACK # to_be_bytes64 n"
| "record_bytes (RProgress n) = REC_PROGRESS # to_be_bytes64 n"

lemmas rec_tags = REC_DATA_def REC_FIN_def REC_FIN_ACK_def REC_PROGRESS_def

definition is_data :: "bytes \<Rightarrow> bool" where
  "is_data r \<longleftrightarrow> hd r = REC_DATA"

definition is_end :: "bytes \<Rightarrow> bool" where
  "is_end r \<longleftrightarrow> (\<exists>n. r = record_bytes (RFin n FinNormal))"

definition is_ack :: "bytes \<Rightarrow> bool" where
  "is_ack r \<longleftrightarrow> hd r = REC_FIN_ACK"

definition data_of :: "bytes list \<Rightarrow> bytes" where
  "data_of w = concat (map tl (filter is_data w))"

definition acks :: "bytes list \<Rightarrow> bytes list" where
  "acks w = filter is_ack w"

lemma data_of_append [simp]: "data_of (v @ w) = data_of v @ data_of w"
  by (simp add: data_of_def)

lemma acks_append [simp]: "acks (v @ w) = acks v @ acks w"
  by (simp add: acks_def)

lemma data_of_Nil [simp]: "data_of [] = []"
  by (simp add: data_of_def)

lemma acks_Nil [simp]: "acks [] = []"
  by (simp add: acks_def)

lemma data_of_Cons [simp]:
  "data_of ((REC_DATA # d) # w) = d @ data_of w" "data_of ((REC_FIN # x) # w) = data_of w"
  "data_of ((REC_FIN_ACK # x) # w) = data_of w" "data_of ((REC_PROGRESS # x) # w) = data_of w"
  by (simp_all add: data_of_def is_data_def rec_tags)

lemma acks_Cons [simp]:
  "acks ((REC_DATA # x) # w) = acks w" "acks ((REC_FIN # x) # w) = acks w"
  "acks ((REC_FIN_ACK # x) # w) = (REC_FIN_ACK # x) # acks w" "acks ((REC_PROGRESS # x) # w) = acks w"
  by (simp_all add: acks_def is_ack_def rec_tags)

lemma reason_byte: "reason_from_byte (reason_to_byte r) = FinNormal \<longleftrightarrow> r \<in> {FinNormal, UnknownReason 0}"
  by (cases r) (auto simp: reason_from_byte_def split: if_splits)

lemma fin_body_simps [simp]:
  "length (fin_body n r) = 9" "u64_at (fin_body n r) = n" "fin_body n r ! 8 = reason_to_byte r"
  by (simp_all add: fin_body_def u64_at_def nth_append)

lemma u64_at_be [simp]: "u64_at (to_be_bytes64 n) = n"
  by (simp add: u64_at_def)

lemma is_end_simps [simp]:
  "\<not> is_end (REC_DATA # x)" "\<not> is_end (REC_FIN_ACK # x)" "\<not> is_end (REC_PROGRESS # x)"
  "is_end (REC_FIN # fin_body n r) \<longleftrightarrow> reason_to_byte r = 0"
proof -
  show "\<not> is_end (REC_DATA # x)" "\<not> is_end (REC_FIN_ACK # x)" "\<not> is_end (REC_PROGRESS # x)"
    by (auto simp: is_end_def rec_tags)
  show "is_end (REC_FIN # fin_body n r) \<longleftrightarrow> reason_to_byte r = 0"
    by (auto simp: is_end_def fin_body_def)
qed

section \<open>Invariant of one pump\<close>

definition named_reasons :: "(io_error option \<Rightarrow> fin_reason) \<Rightarrow> bool" where
  "named_reasons le \<longleftrightarrow> (\<forall>e. le e \<noteq> UnknownReason 0)"

definition fin_acks_due :: "pump \<Rightarrow> u64 list" where
  "fin_acks_due a = [n. FinAckCmd n \<leftarrow> pu_to_outbound a]"

text \<open>The end of a direction: one normal FIN with the count of all the data, before it.\<close>

definition ended :: "bytes list \<Rightarrow> bool" where
  "ended w \<longleftrightarrow> (\<exists>v u. w = v @ [record_bytes (RFin (word_of_nat (length (data_of v))) FinNormal)] @ u
     \<and> (\<forall>r \<in> set v \<union> set u. \<not> is_end r) \<and> data_of u = [])"

definition sends :: "pump \<Rightarrow> bool" where
  "sends a \<longleftrightarrow> (\<forall>r \<in> set (pu_wire a). \<exists>x. r = record_bytes x \<and> (\<forall>d. x = RData d \<longrightarrow> d \<noteq> []))
     \<and> (pu_fin_sent a \<or> pu_error a = None \<longrightarrow> pu_plain_read a = data_of (pu_wire a))
     \<and> (pu_error a = None \<longrightarrow> pu_sent a = word_of_nat (length (pu_plain_read a)) \<and> pu_sent_total a = pu_sent a
          \<and> pu_fin_sent a = (\<not> pu_local_open a) \<and> pu_fin_out a = pu_fin_sent a)
     \<and> (if pu_fin_sent a then ended (pu_wire a) else \<forall>r \<in> set (pu_wire a). \<not> is_end r)
     \<and> (pu_fin_sent a \<longrightarrow> pu_error a \<noteq> None \<or> \<not> pu_local_open a)"

definition answers :: "pump \<Rightarrow> bool" where
  "answers a \<longleftrightarrow> pu_received a = word_of_nat (length (pu_plain_written a)) \<and> pu_received_total a = pu_received a
     \<and> length (acks (pu_wire a)) + length (fin_acks_due a) = (if pu_their_fin a then 1 else 0)
     \<and> set (acks (pu_wire a)) \<subseteq> {record_bytes (RFinAck (pu_received a))} \<and> set (fin_acks_due a) \<subseteq> {pu_received a}
     \<and> (pu_error a = None \<longrightarrow> pu_fin_ack_out a = (acks (pu_wire a) \<noteq> []))
     \<and> (pu_their_fin a \<longrightarrow> pu_delivering a = None)
     \<and> (\<forall>r err. AbortCmd r err \<in> set (pu_to_outbound a) \<longrightarrow> pu_aborting a = Some err \<and> reason_to_byte r \<noteq> 0)
     \<and> (pu_aborting a \<noteq> None \<longrightarrow> pu_delivering a = None)
     \<and> pu_our_fin_confirmed a = pu_confirmed a"

text \<open>An error that blames the peer.\<close>

definition accuses :: "pump_error \<Rightarrow> bool" where
  "accuses e = (case e of DeliveryFailed _ (Truncated _ _) \<Rightarrow> True | DeliveryFailed _ (Unconfirmed _ _) \<Rightarrow> True
     | DeliveryFailed _ (Protocol _) \<Rightarrow> True | _ \<Rightarrow> False)"

definition blameless :: "pump \<Rightarrow> bool" where
  "blameless a \<longleftrightarrow> (\<forall>e. pu_error a = Some e \<or> pu_aborting a = Some e \<longrightarrow> \<not> accuses e)"

lemma ended_append: "ended w \<Longrightarrow> data_of u = [] \<Longrightarrow> \<forall>r \<in> set u. \<not> is_end r \<Longrightarrow> ended (w @ u)"
proof -
  assume w: "ended w" and u: "data_of u = []" "\<forall>r \<in> set u. \<not> is_end r"
  then obtain v t where v: "w = v @ [record_bytes (RFin (word_of_nat (length (data_of v))) FinNormal)] @ t"
    "\<forall>r \<in> set v \<union> set t. \<not> is_end r" "data_of t = []" by (auto simp: ended_def)
  show "ended (w @ u)" unfolding ended_def
    by (rule exI [where x = v], rule exI [where x = "t @ u"]) (use v u in auto)
qed

lemma ended_intro:
  "\<forall>r \<in> set v. \<not> is_end r \<Longrightarrow> n = word_of_nat (length (data_of v)) \<Longrightarrow> ended (v @ [REC_FIN # fin_body n FinNormal])"
  unfolding ended_def by (intro exI [where x = v] exI [where x = "[]"]) simp

lemma fin_acks_due_simps [simp]:
  "fin_acks_due (a\<lparr>pu_to_outbound := FinAckCmd n # q\<rparr>) = n # fin_acks_due (a\<lparr>pu_to_outbound := q\<rparr>)"
  "fin_acks_due (a\<lparr>pu_to_outbound := q @ [FinAckCmd n]\<rparr>) = fin_acks_due (a\<lparr>pu_to_outbound := q\<rparr>) @ [n]"
  "fin_acks_due (a\<lparr>pu_to_outbound := q @ [AbortCmd r e]\<rparr>) = fin_acks_due (a\<lparr>pu_to_outbound := q\<rparr>)"
  by (simp_all add: fin_acks_due_def)

lemma transport_ended_blameless: "\<not> accuses (transport_ended st e)"
  by (simp add: transport_ended_def accuses_def)

lemma reason_to_byte_0: "reason_to_byte r = 0 \<longleftrightarrow> r = FinNormal \<or> r = UnknownReason 0"
  by (cases r) auto

lemma failure_reason_named: "named_reasons le \<Longrightarrow> reason_to_byte (failure_reason le e) \<noteq> 0"
  by (auto simp: failure_reason_def named_reasons_def reason_to_byte_0 split: fin_reason.splits)

lemmas pump_defs = put_record_def pump_fail_def outbound_abort_def Let_def

section \<open>Steps that send\<close>

definition grows :: "pump \<Rightarrow> pump \<Rightarrow> bool" where
  "grows a a' \<longleftrightarrow> (\<exists>u. pu_wire a' = pu_wire a @ u \<and> (pu_fin_sent a \<longrightarrow> pu_fin_sent a' \<and> data_of u = []))"

definition same_inbound :: "pump \<Rightarrow> pump \<Rightarrow> bool" where
  "same_inbound a a' \<longleftrightarrow> pu_plain_written a' = pu_plain_written a \<and> pu_their_fin a' = pu_their_fin a
     \<and> pu_plain_shut a' = pu_plain_shut a \<and> pu_delivering a' = pu_delivering a \<and> pu_aborting a' = pu_aborting a
     \<and> pu_our_fin_confirmed a' = pu_our_fin_confirmed a \<and> (pu_error a' = None \<longrightarrow> pu_error a = None)"

text \<open>What a step on a running pump has to keep.\<close>

definition keeps :: "pump \<Rightarrow> pump \<Rightarrow> bool" where
  "keeps a a' \<longleftrightarrow> sends a' \<and> answers a' \<and> blameless a' \<and> grows a a' \<and> same_inbound a a'"

lemma keepsI:
  assumes "sends a'" "answers a'" "blameless a'" "grows a a'" "same_inbound a a'"
  shows "keeps a a'"
  using assms by (simp add: keeps_def)

lemma abort_keeps:
  assumes a: "sends a" "answers a" "blameless a" "pu_error a = None" and r: "reason_to_byte r \<noteq> 0" and e: "\<not> accuses e"
  shows "keeps a (outbound_abort r e a)"
proof (rule keepsI)
  let ?rec = "REC_FIN # fin_body (pu_sent a) r"
  have rec: "\<exists>x. ?rec = record_bytes x \<and> (\<forall>d. x = RData d \<longrightarrow> d \<noteq> [])"
    by (rule exI [where x = "RFin (pu_sent a) r"]) simp
  show "sends (outbound_abort r e a)"
    using a r rec ended_append [of "pu_wire a" "[?rec]"] by (auto simp: sends_def pump_defs)
  show "answers (outbound_abort r e a)" using a by (auto simp: answers_def pump_defs fin_acks_due_def)
  show "blameless (outbound_abort r e a)" using a e by (auto simp: blameless_def pump_defs)
  show "grows a (outbound_abort r e a)" by (auto simp: grows_def pump_defs)
  show "same_inbound a (outbound_abort r e a)" by (simp add: same_inbound_def pump_defs)
qed

lemma tick_keeps:
  assumes a: "sends a" "answers a" "blameless a" "pu_error a = None"
  shows "keeps a (outbound_tick w a)"
proof (cases "pu_reported a < pu_received_total a")
  case False
  then have "outbound_tick w a = a" by (simp add: outbound_tick_def)
  with a show ?thesis by (auto simp: keeps_def grows_def same_inbound_def)
next
  case True
  let ?rec = "REC_PROGRESS # to_be_bytes64 (pu_received_total a)"
  have rec: "\<exists>x. ?rec = record_bytes x \<and> (\<forall>d. x = RData d \<longrightarrow> d \<noteq> [])"
    by (rule exI [where x = "RProgress (pu_received_total a)"]) simp
  show ?thesis
  proof (rule keepsI)
    show "sends (outbound_tick w a)" using a True rec ended_append [of "pu_wire a" "[?rec]"]
      by (auto simp: outbound_tick_def sends_def pump_defs split: option.splits)
    show "answers (outbound_tick w a)" using a True
      by (auto simp: outbound_tick_def answers_def pump_defs fin_acks_due_def split: option.splits)
    show "blameless (outbound_tick w a)" using a True transport_ended_blameless
      by (auto simp: outbound_tick_def blameless_def pump_defs split: option.splits)
    show "grows a (outbound_tick w a)" using True by (auto simp: outbound_tick_def grows_def pump_defs split: option.splits)
    show "same_inbound a (outbound_tick w a)"
      using True by (auto simp: outbound_tick_def same_inbound_def pump_defs split: option.splits)
  qed
qed

lemma read_keeps:
  assumes a: "sends a" "answers a" "blameless a" "pu_error a = None" "pu_local_open a" and d: "d \<noteq> []"
  shows "keeps a (outbound_read d w a)"
proof (rule keepsI)
  have rec: "\<exists>x. REC_DATA # d = record_bytes x \<and> (\<forall>d. x = RData d \<longrightarrow> d \<noteq> [])"
    using d by (intro exI [where x = "RData d"]) simp
  show "sends (outbound_read d w a)" using a rec
    by (auto simp: outbound_read_def sends_def pump_defs split: write_outcome.splits)
  show "answers (outbound_read d w a)" using a
    by (auto simp: outbound_read_def answers_def pump_defs fin_acks_due_def split: write_outcome.splits)
  show "blameless (outbound_read d w a)" using a transport_ended_blameless
    by (auto simp: outbound_read_def blameless_def pump_defs accuses_def split: write_outcome.splits)
  show "grows a (outbound_read d w a)" using a
    by (auto simp: outbound_read_def grows_def sends_def pump_defs split: write_outcome.splits)
  show "same_inbound a (outbound_read d w a)"
    using a by (auto simp: outbound_read_def same_inbound_def pump_defs split: write_outcome.splits)
qed

lemma eof_keeps:
  assumes a: "sends a" "answers a" "blameless a" "pu_error a = None" "pu_local_open a" and r: "r \<noteq> UnknownReason 0"
  shows "keeps a (outbound_eof now r w a)"
proof (cases "r = FinNormal")
  case False
  then have "reason_to_byte r \<noteq> 0" using r by (simp add: reason_to_byte_0)
  with False abort_keeps [OF a(1-4)] show ?thesis by (simp add: outbound_eof_def accuses_def)
next
  case True
  let ?rec = "REC_FIN # fin_body (pu_sent a) FinNormal"
  have rec: "\<exists>x. ?rec = record_bytes x \<and> (\<forall>d. x = RData d \<longrightarrow> d \<noteq> [])"
    by (rule exI [where x = "RFin (pu_sent a) FinNormal"]) simp
  have fin: "ended (pu_wire a @ [?rec])" using a by (intro ended_intro) (auto simp: sends_def)
  show ?thesis
  proof (rule keepsI)
    show "sends (outbound_eof now r w a)" using a True rec fin
      by (auto simp: outbound_eof_def sends_def pump_defs split: option.splits)
    show "answers (outbound_eof now r w a)" using a True
      by (auto simp: outbound_eof_def answers_def pump_defs fin_acks_due_def split: option.splits)
    show "blameless (outbound_eof now r w a)" using a True transport_ended_blameless
      by (auto simp: outbound_eof_def blameless_def pump_defs split: option.splits)
    show "grows a (outbound_eof now r w a)" using a True
      by (auto simp: outbound_eof_def grows_def sends_def pump_defs split: option.splits)
    show "same_inbound a (outbound_eof now r w a)" using True
      by (auto simp: outbound_eof_def same_inbound_def pump_defs split: option.splits)
  qed
qed

lemma cmd_keeps:
  assumes a: "sends a" "answers a" "blameless a" "pu_error a = None"
  shows "keeps a (outbound_cmd w a)"
proof (cases "pu_to_outbound a")
  case Nil
  then have "outbound_cmd w a = a" by (simp add: outbound_cmd_def)
  with a show ?thesis by (auto simp: keeps_def grows_def same_inbound_def)
next
  case (Cons c q)
  let ?b = "a\<lparr>pu_to_outbound := q\<rparr>"
  show ?thesis
  proof (cases c)
    case (AbortCmd r e)
    have b1: "sends ?b" using a(1) unfolding sends_def by simp
    have "fin_acks_due ?b = fin_acks_due a" by (simp add: fin_acks_due_def Cons AbortCmd)
    then have b2: "answers ?b" using a(2) Cons unfolding answers_def by (intro conjI) (elim conjE; simp)+
    have b3: "blameless ?b" "pu_error ?b = None" using a(3,4) by (simp_all add: blameless_def)
    have "\<not> accuses e" "reason_to_byte r \<noteq> 0" using a(2,3) Cons AbortCmd by (auto simp: answers_def blameless_def)
    with abort_keeps [OF b1 b2 b3, of r e] Cons AbortCmd show ?thesis
      by (simp add: outbound_cmd_def keeps_def grows_def same_inbound_def)
  next
    case (FinAckCmd n)
    let ?rec = "REC_FIN_ACK # to_be_bytes64 n"
    have rec: "\<exists>x. ?rec = record_bytes x \<and> (\<forall>d. x = RData d \<longrightarrow> d \<noteq> [])"
      by (rule exI [where x = "RFinAck n"]) simp
    have due: "fin_acks_due a = n # fin_acks_due ?b" using Cons FinAckCmd by (simp add: fin_acks_due_def)
    have n: "n = pu_received a" using a(2) due by (auto simp: answers_def)
    show ?thesis
    proof (rule keepsI)
      show "sends (outbound_cmd w a)" using a Cons FinAckCmd rec ended_append [of "pu_wire a" "[?rec]"]
        by (auto simp: outbound_cmd_def sends_def pump_defs split: option.splits)
      show "answers (outbound_cmd w a)" using a(2,4) Cons FinAckCmd due n
        by (auto simp: outbound_cmd_def answers_def pump_defs fin_acks_due_def split: option.splits if_splits)
      show "blameless (outbound_cmd w a)" using a Cons FinAckCmd transport_ended_blameless
        by (auto simp: outbound_cmd_def blameless_def pump_defs split: option.splits)
      show "grows a (outbound_cmd w a)" using Cons FinAckCmd
        by (auto simp: outbound_cmd_def grows_def pump_defs split: option.splits)
      show "same_inbound a (outbound_cmd w a)" using a Cons FinAckCmd
        by (auto simp: outbound_cmd_def same_inbound_def pump_defs split: option.splits)
    qed
  qed
qed

section \<open>The two directions\<close>

definition healthy :: "pump \<Rightarrow> bool" where
  "healthy a \<longleftrightarrow> pu_error a = None \<and> pu_aborting a = None"

definition pending :: "pump \<Rightarrow> bytes" where
  "pending a = (case pu_delivering a of Some (LocalWrite d) \<Rightarrow> d | _ \<Rightarrow> [])"

text \<open>\<open>b\<close> has taken the first \<open>j\<close> records of \<open>a\<close>.\<close>

definition receives :: "pump \<Rightarrow> pump \<Rightarrow> nat \<Rightarrow> bool" where
  "receives a b j \<longleftrightarrow> j \<le> length (pu_wire a)
     \<and> (healthy b \<longrightarrow> pu_plain_written b @ pending b = data_of (take j (pu_wire a))
          \<and> ((\<exists>r \<in> set (take j (pu_wire a)). is_end r) \<longleftrightarrow> pu_their_fin b \<or> pu_delivering b = Some LocalClose))
     \<and> (pu_their_fin b \<longrightarrow> pu_fin_sent a \<and> pu_plain_written b = data_of (pu_wire a) \<and> pu_plain_shut b)"

definition confirms :: "pump \<Rightarrow> pump \<Rightarrow> nat \<Rightarrow> bool" where
  "confirms a b i \<longleftrightarrow> (pu_error a = None \<longrightarrow> pu_our_fin_confirmed a = (acks (take i (pu_wire b)) \<noteq> []))
     \<and> (pu_our_fin_confirmed a \<longrightarrow> acks (take i (pu_wire b)) \<noteq> [])"

definition session_inv :: "pump \<Rightarrow> pump \<Rightarrow> nat \<Rightarrow> nat \<Rightarrow> bool" where
  "session_inv a b i j \<longleftrightarrow> (sends a \<and> answers a \<and> blameless a) \<and> (sends b \<and> answers b \<and> blameless b)
     \<and> receives a b j \<and> receives b a i \<and> confirms a b i \<and> confirms b a j"

lemma keeps_inv:
  assumes inv: "session_inv a b i j" and k: "keeps a a'"
  shows "session_inv a' b i j"
proof -
  obtain u where u: "pu_wire a' = pu_wire a @ u" "pu_fin_sent a \<Longrightarrow> pu_fin_sent a' \<and> data_of u = []"
    using k by (auto simp: keeps_def grows_def)
  have s: "same_inbound a a'" using k by (simp add: keeps_def)
  have j: "j \<le> length (pu_wire a)" using inv by (simp add: session_inv_def receives_def)
  have "receives a' b j" using inv u j by (auto simp: session_inv_def receives_def)
  moreover have "receives b a' i"
    using inv s by (auto simp: session_inv_def receives_def same_inbound_def healthy_def pending_def)
  moreover have "confirms a' b i" using inv s by (auto simp: session_inv_def confirms_def same_inbound_def)
  moreover have "confirms b a' j" using inv u j by (auto simp: session_inv_def confirms_def)
  ultimately show ?thesis using inv k by (simp add: session_inv_def keeps_def)
qed

lemma sends_frame:
  assumes "sends a" "pu_wire a' = pu_wire a" "pu_fin_sent a' = pu_fin_sent a" "pu_error a' = pu_error a"
    "pu_plain_read a' = pu_plain_read a" "pu_sent a' = pu_sent a" "pu_sent_total a' = pu_sent_total a"
    "pu_local_open a' = pu_local_open a" "pu_fin_out a' = pu_fin_out a"
  shows "sends a'"
  using assms(1) by (simp only: sends_def assms(2-))

lemma stay_keeps:
  assumes "sends a" "answers a" "blameless a"
  shows "keeps a (a\<lparr>pu_last_record_at := x\<rparr>)"
proof -
  let ?a = "a\<lparr>pu_last_record_at := x\<rparr>"
  have "sends ?a" by (rule sends_frame [OF assms(1)]) simp_all
  moreover have "fin_acks_due ?a = fin_acks_due a" by (simp add: fin_acks_due_def)
  then have "answers ?a" using assms(2) unfolding answers_def by (intro conjI) (elim conjE; simp)+
  ultimately show ?thesis using assms(3) by (simp add: keeps_def blameless_def grows_def same_inbound_def)
qed

lemma fail_keeps:
  assumes "sends a" "answers a" "blameless a" "\<not> accuses e"
  shows "keeps a (pump_fail a e)"
proof -
  let ?a = "pump_fail a e"
  have "sends ?a" using assms(1) unfolding sends_def pump_fail_def by (simp split: if_splits)
  moreover have "fin_acks_due ?a = fin_acks_due a" by (simp add: fin_acks_due_def pump_fail_def)
  then have "answers ?a" using assms(2) unfolding answers_def by (intro conjI) (elim conjE; simp add: pump_fail_def)+
  ultimately show ?thesis using assms(3,4) by (auto simp: keeps_def blameless_def grows_def same_inbound_def pump_fail_def)
qed

lemma keeps_last: "keeps (a\<lparr>pu_last_record_at := x\<rparr>) b \<Longrightarrow> keeps a b"
  by (simp add: keeps_def grows_def same_inbound_def)

lemma ended_prefix:
  assumes "ended w" "r \<in> set (take i w)" "is_end r"
  shows "data_of (take i w) = data_of w"
proof -
  obtain v u where w: "w = v @ [record_bytes (RFin (word_of_nat (length (data_of v))) FinNormal)] @ u"
    "\<forall>r \<in> set v \<union> set u. \<not> is_end r" "data_of u = []" using assms(1) by (auto simp: ended_def)
  have "\<not> i \<le> length v"
  proof
    assume "i \<le> length v"
    then have "take i w = take i v" using w(1) by simp
    with assms(2,3) w(2) show False by (metis UnI1 in_set_takeD)
  qed
  then obtain m where i: "i = length v + Suc m" by (metis add_Suc_right less_imp_Suc_add not_le_imp_less)
  have "data_of u = data_of (take m u) @ data_of (drop m u)" by (simp flip: data_of_append)
  with w(1,3) show ?thesis by (simp add: i)
qed

lemma delivered_inv:
  assumes inv: "session_inv a b i j" and le: "named_reasons le" and e: "pu_error a = None"
  shows "session_inv (inbound_delivered le now res a) b i j"
proof (cases "pu_delivering a")
  case None
  then show ?thesis using inv by (simp add: inbound_delivered_def)
next
  case (Some work)
  let ?a = "inbound_delivered le now res a"
  have s: "sends a" "answers a" "blameless a" using inv by (simp_all add: session_inv_def)
  have fin: "\<not> pu_their_fin a" and ab: "pu_aborting a = None" using s(2) Some by (auto simp: answers_def)
  have none: "acks (pu_wire a) = []" "fin_acks_due a = []" using s(2) fin by (auto simp: answers_def)
  have h: "healthy a" using e ab by (simp add: healthy_def)
  have r: "pu_plain_written a @ pending a = data_of (take i (pu_wire b))"
    "(\<exists>r \<in> set (take i (pu_wire b)). is_end r) \<longleftrightarrow> pu_delivering a = Some LocalClose"
    using inv h fin by (auto simp: session_inv_def receives_def)
  have wire: "pu_wire ?a = pu_wire a" "pu_fin_sent ?a = pu_fin_sent a" "pu_our_fin_confirmed ?a = pu_our_fin_confirmed a"
    "pu_error ?a = pu_error a"
    by (simp_all add: inbound_delivered_def inbound_abort_def Let_def split: option.splits local_work.splits)
  have sends': "sends ?a" using s(1)
    by (auto simp: sends_def inbound_delivered_def inbound_abort_def Let_def split: option.splits local_work.splits)
  have others: "receives a b j \<Longrightarrow> receives ?a b j" "confirms a b i \<Longrightarrow> confirms ?a b i" "confirms b a j \<Longrightarrow> confirms b ?a j"
    by (simp_all add: receives_def confirms_def wire)
  have rest: "answers ?a \<and> blameless ?a \<and> receives b ?a i"
  proof (cases res)
    case (Some x)
    with \<open>pu_delivering a = Some work\<close> have a': "?a = inbound_abort le x (a\<lparr>pu_delivering := None, pu_last_record_at := since_start_ms now\<rparr>)"
      by (simp add: inbound_delivered_def Let_def)
    have no: "AbortCmd q y \<notin> set (pu_to_outbound a)" for q y using s(2) ab by (auto simp: answers_def)
    have "answers ?a" using s(2) fin none no failure_reason_named [OF le, of x]
      unfolding a' by (auto simp: answers_def inbound_abort_def fin_acks_due_def Let_def)
    moreover have "blameless ?a" using s(3) unfolding a' by (auto simp: blameless_def inbound_abort_def accuses_def Let_def)
    moreover have "receives b ?a i" using inv fin unfolding a'
      by (auto simp: session_inv_def receives_def inbound_abort_def healthy_def Let_def)
    ultimately show ?thesis by simp
  next
    case None
    show ?thesis
    proof (cases work)
      case (LocalWrite d)
      with None Some have a': "?a = a\<lparr>pu_delivering := None, pu_last_record_at := since_start_ms now,
          pu_plain_written := pu_plain_written a @ d, pu_received := pu_received a + word_of_nat (length d),
          pu_received_total := pu_received a + word_of_nat (length d)\<rparr>"
        by (simp add: inbound_delivered_def Let_def)
      have "answers ?a" using s(2) fin none unfolding a' by (auto simp: answers_def fin_acks_due_def)
      moreover have "blameless ?a" using s(3) unfolding a' by (simp add: blameless_def)
      moreover have "receives b ?a i" using inv fin r Some LocalWrite unfolding a'
        by (auto simp: session_inv_def receives_def healthy_def pending_def)
      ultimately show ?thesis by simp
    next
      case LocalClose
      with None Some have a': "?a = a\<lparr>pu_delivering := None, pu_last_record_at := since_start_ms now, pu_plain_shut := True,
          pu_their_fin := True, pu_peer_fin := True, pu_to_outbound := pu_to_outbound a @ [FinAckCmd (pu_received a)]\<rparr>"
        by (simp add: inbound_delivered_def Let_def)
      obtain q where q: "q \<in> set (take i (pu_wire b))" "is_end q" using r(2) Some LocalClose by auto
      have b: "sends b" using inv by (simp add: session_inv_def)
      then have fb: "pu_fin_sent b" using q in_set_takeD [OF q(1)] by (auto simp: sends_def split: if_splits)
      then have "data_of (take i (pu_wire b)) = data_of (pu_wire b)" using b q ended_prefix by (auto simp: sends_def)
      then have all: "pu_plain_written a = data_of (pu_wire b)" using r(1) Some LocalClose by (simp add: pending_def)
      have due: "fin_acks_due ?a = [pu_received a]" using none(2) unfolding a' by (simp add: fin_acks_due_def)
      have "answers ?a" using s(2) none(1) Some unfolding answers_def due by (intro conjI) (elim conjE; simp add: a')+
      moreover have "blameless ?a" using s(3) unfolding a' by (simp add: blameless_def)
      moreover have "receives b ?a i" using inv r all fb Some LocalClose unfolding a'
        by (auto simp: session_inv_def receives_def healthy_def pending_def)
      ultimately show ?thesis by simp
    qed
  qed
  with sends' others inv show ?thesis by (simp add: session_inv_def)
qed

section \<open>An arriving record\<close>

lemma take_next: "i < length w \<Longrightarrow> take (Suc i) w = take i w @ [w ! i]"
  by (simp add: take_Suc_conv_app_nth)

lemma data_split: "i < length w \<Longrightarrow> data_of w = data_of (take i w) @ data_of [w ! i] @ data_of (drop (Suc i) w)"
  by (metis append_Cons append_Nil data_of_append id_take_nth_drop)

lemma acks_split: "i < length w \<Longrightarrow> acks w = acks (take i w) @ acks [w ! i] @ acks (drop (Suc i) w)"
  by (metis append_Cons append_Nil acks_append id_take_nth_drop)

text \<open>A step of the receiver that only moves on.\<close>

lemma arrive_frame:
  assumes inv: "session_inv a b i j" and i: "i < length (pu_wire b)" and k: "keeps a a'"
    and r: "data_of [pu_wire b ! i] = []" "\<not> is_end (pu_wire b ! i) \<or> pu_error a' \<noteq> None"
      "acks [pu_wire b ! i] = [] \<or> pu_error a' \<noteq> None"
  shows "session_inv a' b (Suc i) j"
proof -
  have inv': "session_inv a' b i j" using keeps_inv [OF inv k] .
  have "receives b a' (Suc i)" using inv' i r by (auto simp: session_inv_def receives_def take_next healthy_def)
  moreover have "confirms a' b (Suc i)" using inv' i r by (auto simp: session_inv_def confirms_def take_next)
  ultimately show ?thesis using inv' by (simp add: session_inv_def)
qed

lemma arrive_data:
  assumes inv: "session_inv a b i j" and aw: "awaits_record a" and i: "i < length (pu_wire b)"
    and x: "pu_wire b ! i = REC_DATA # d" "d \<noteq> []"
  shows "session_inv (inbound_record now (pu_wire b ! i) a) b (Suc i) j"
proof -
  have h: "healthy a" "pu_delivering a = None" using aw by (auto simp: awaits_record_def inbound_running_def healthy_def)
  have r: "pu_plain_written a = data_of (take i (pu_wire b))" using inv h by (simp add: session_inv_def receives_def pending_def)
  have fin: "\<not> pu_their_fin a"
  proof
    assume "pu_their_fin a"
    then have "pu_plain_written a = data_of (pu_wire b)" using inv by (simp add: session_inv_def receives_def)
    with r data_split [OF i] x show False by simp
  qed
  let ?c = "a\<lparr>pu_last_record_at := since_start_ms now\<rparr>"
  let ?a = "?c\<lparr>pu_delivering := Some (LocalWrite d)\<rparr>"
  have a': "inbound_record now (pu_wire b ! i) a = ?a" using x fin by (simp add: inbound_record_def Let_def)
  have k: "keeps a ?c" using inv stay_keeps by (simp add: session_inv_def)
  have ci: "session_inv ?c b i j" using keeps_inv [OF inv k] .
  have s: "sends ?c" "answers ?c" "blameless ?c" using ci by (simp_all add: session_inv_def)
  have "sends ?a" by (rule sends_frame [OF s(1)]) simp_all
  moreover have "fin_acks_due ?a = fin_acks_due ?c" by (simp add: fin_acks_due_def)
  then have "answers ?a" using s(2) fin h(1) unfolding answers_def by (intro conjI) (elim conjE; simp add: healthy_def)+
  moreover have "blameless ?a" using s(3) by (simp add: blameless_def)
  moreover have "receives ?a b j" "confirms b ?a j" using ci by (simp_all add: session_inv_def receives_def confirms_def)
  moreover have "receives b ?a (Suc i)" using inv i r x h fin
    by (auto simp: session_inv_def receives_def take_next healthy_def pending_def)
  moreover have "confirms ?a b (Suc i)" using ci i x by (simp add: session_inv_def confirms_def take_next)
  ultimately show ?thesis using inv unfolding a' by (simp add: session_inv_def)
qed

text \<open>A normal FIN is the first and carries the count of what was received.\<close>

lemma arrive_end_position:
  assumes e: "ended w" and i: "i < length w" and x: "w ! i = REC_FIN # fin_body n FinNormal"
  shows "(\<forall>r \<in> set (take i w). \<not> is_end r) \<and> n = word_of_nat (length (data_of (take i w)))"
proof -
  obtain v u where w: "w = v @ [record_bytes (RFin (word_of_nat (length (data_of v))) FinNormal)] @ u"
    "\<forall>r \<in> set v \<union> set u. \<not> is_end r" using e by (auto simp: ended_def)
  have "is_end (w ! i)" by (simp add: x)
  have "i = length v"
  proof (rule ccontr)
    assume "i \<noteq> length v"
    show False
    proof (cases "i < length v")
      case True
      then show ?thesis using \<open>is_end (w ! i)\<close> w by (simp add: nth_append)
    next
      case False
      define m where "m = i - Suc (length v)"
      have "i = length v + Suc m" using False \<open>i \<noteq> length v\<close> by (simp add: m_def)
      then have "w ! i = u ! m" "m < length u" using w(1) i by (simp_all add: nth_append)
      with \<open>is_end (w ! i)\<close> w(2) show ?thesis by simp
    qed
  qed
  then have "fin_body (word_of_nat (length (data_of v))) FinNormal = fin_body n FinNormal" using w x by (simp add: nth_append)
  then have "n = word_of_nat (length (data_of v))" using fin_body_simps(2) by metis
  with \<open>i = length v\<close> w show ?thesis by simp
qed

lemma arrive_fin:
  assumes inv: "session_inv a b i j" and aw: "awaits_record a" and i: "i < length (pu_wire b)"
    and x: "pu_wire b ! i = REC_FIN # fin_body n r"
  shows "session_inv (inbound_record now (pu_wire b ! i) a) b (Suc i) j"
proof -
  let ?c = "a\<lparr>pu_last_record_at := since_start_ms now\<rparr>"
  have k: "keeps a ?c" using inv stay_keeps by (simp add: session_inv_def)
  have ci: "session_inv ?c b i j" using keeps_inv [OF inv k] .
  have s: "sends ?c" "answers ?c" "blameless ?c" using ci by (simp_all add: session_inv_def)
  have h: "healthy a" "pu_delivering a = None" using aw by (auto simp: awaits_record_def inbound_running_def healthy_def)
  have w: "pu_plain_written a = data_of (take i (pu_wire b))" using inv h by (simp add: session_inv_def receives_def pending_def)
  have run: "inbound_record now (pu_wire b ! i) a = inbound_fin (pu_wire b ! i) ?c"
    using x by (simp add: inbound_record_def Let_def rec_tags)
  have len: "length (pu_wire b ! i) = 10" "u64_at (tl (pu_wire b ! i)) = n" "(pu_wire b ! i) ! 9 = reason_to_byte r"
    using x by simp_all
  show ?thesis
  proof (cases "reason_from_byte (reason_to_byte r) = FinNormal")
    case False
    let ?e = "DeliveryFailed ConnectionAborted (PeerEnded (reason_from_byte (reason_to_byte r)) n (pu_received a))"
    let ?d = "?c\<lparr>pu_plain_shut := True\<rparr>"
    have di: "session_inv ?d b i j"
    proof -
      have "sends ?d" by (rule sends_frame [OF s(1)]) simp_all
      moreover have "fin_acks_due ?d = fin_acks_due ?c" by (simp add: fin_acks_due_def)
      then have "answers ?d" using s(2) unfolding answers_def by (intro conjI) (elim conjE; simp)+
      moreover have "blameless ?d" using s(3) by (simp add: blameless_def)
      moreover have "receives b ?d i" using ci by (auto simp: session_inv_def receives_def healthy_def pending_def)
      ultimately show ?thesis using ci by (simp add: session_inv_def receives_def confirms_def)
    qed
    have "keeps ?d (pump_fail ?d ?e)" using di by (intro fail_keeps) (simp_all add: session_inv_def accuses_def)
    from arrive_frame [OF di i this] x False len show ?thesis unfolding run
      by (simp add: inbound_fin_def pump_fail_def)
  next
    case True
    then have r0: "reason_to_byte r = 0" by (auto simp: reason_byte)
    have xe: "pu_wire b ! i = REC_FIN # fin_body n FinNormal" using x r0 by (simp add: fin_body_def)
    have b: "sends b" using inv by (simp add: session_inv_def)
    have "is_end (pu_wire b ! i)" by (simp add: xe)
    then have "pu_fin_sent b" using b nth_mem [OF i] unfolding sends_def by (metis (full_types))
    then have "ended (pu_wire b)" using b by (simp add: sends_def)
    from arrive_end_position [OF this i xe] have first: "\<forall>r \<in> set (take i (pu_wire b)). \<not> is_end r"
      and n: "n = word_of_nat (length (data_of (take i (pu_wire b))))" by blast+
    have fin: "\<not> pu_their_fin a" using inv h first by (auto simp: session_inv_def receives_def)
    have "n = pu_received a" using s(2) n w by (simp add: answers_def)
    with fin True len have a': "inbound_record now (pu_wire b ! i) a = ?c\<lparr>pu_delivering := Some LocalClose\<rparr>"
      unfolding run by (simp add: inbound_fin_def Let_def)
    let ?a = "?c\<lparr>pu_delivering := Some LocalClose\<rparr>"
    have "sends ?a" by (rule sends_frame [OF s(1)]) simp_all
    moreover have "fin_acks_due ?a = fin_acks_due ?c" by (simp add: fin_acks_due_def)
    then have "answers ?a" using s(2) fin h(1) unfolding answers_def by (intro conjI) (elim conjE; simp add: healthy_def)+
    moreover have "blameless ?a" using s(3) by (simp add: blameless_def)
    moreover have "receives ?a b j" "confirms b ?a j" using ci by (simp_all add: session_inv_def receives_def confirms_def)
    moreover have "receives b ?a (Suc i)" using inv i w xe h fin
      by (auto simp: session_inv_def receives_def take_next healthy_def pending_def)
    moreover have "confirms ?a b (Suc i)" using ci i xe by (simp add: session_inv_def confirms_def take_next)
    ultimately show ?thesis using inv unfolding a' by (simp add: session_inv_def)
  qed
qed

lemma arrive_ack:
  assumes inv: "session_inv a b i j" and aw: "awaits_record a" and i: "i < length (pu_wire b)"
    and x: "pu_wire b ! i = REC_FIN_ACK # to_be_bytes64 n"
  shows "session_inv (inbound_record now (pu_wire b ! i) a) b (Suc i) j"
proof -
  let ?c = "a\<lparr>pu_last_record_at := since_start_ms now\<rparr>"
  have k: "keeps a ?c" using inv stay_keeps by (simp add: session_inv_def)
  have ci: "session_inv ?c b i j" using keeps_inv [OF inv k] .
  have s: "sends ?c" "answers ?c" "blameless ?c" using ci by (simp_all add: session_inv_def)
  have err: "pu_error a = None" using aw by (simp add: awaits_record_def)
  have b: "answers b" using inv by (simp add: session_inv_def)
  have one: "acks (pu_wire b) = acks (take i (pu_wire b)) @ (pu_wire b ! i) # acks (drop (Suc i) (pu_wire b))"
    using acks_split [OF i] x by simp
  have "length (acks (pu_wire b)) \<le> (if pu_their_fin b then 1 else 0)" using b unfolding answers_def by linarith
  then have tf: "pu_their_fin b" and first: "acks (take i (pu_wire b)) = []" using one by (auto split: if_splits)
  have fs: "pu_fin_sent a" and pw: "pu_plain_written b = data_of (pu_wire a)"
    using inv tf by (simp_all add: session_inv_def receives_def)
  have "pu_wire b ! i \<in> set (acks (pu_wire b))" using one by simp
  then have "pu_wire b ! i = record_bytes (RFinAck (pu_received b))" using b unfolding answers_def by blast
  then have "n = pu_received b" using x u64_at_be by (metis list.inject record_bytes.simps(3))
  then have "n = word_of_nat (length (data_of (pu_wire a)))" using b pw by (simp add: answers_def)
  then have n: "n = pu_sent_total a" using s(1) err fs by (simp add: sends_def)
  have nc: "\<not> pu_our_fin_confirmed a" using inv err first by (simp add: session_inv_def confirms_def)
  let ?a = "?c\<lparr>pu_our_fin_confirmed := True, pu_confirmed := True\<rparr>"
  have a': "inbound_record now (pu_wire b ! i) a = ?a"
    using x fs nc n by (simp add: inbound_record_def inbound_fin_ack_def Let_def rec_tags)
  have "sends ?a" by (rule sends_frame [OF s(1)]) simp_all
  moreover have "fin_acks_due ?a = fin_acks_due ?c" by (simp add: fin_acks_due_def)
  then have "answers ?a" using s(2) unfolding answers_def by (intro conjI) (elim conjE; simp)+
  moreover have "blameless ?a" using s(3) by (simp add: blameless_def)
  moreover have "receives ?a b j" "confirms b ?a j" using ci by (simp_all add: session_inv_def receives_def confirms_def)
  moreover have "receives b ?a (Suc i)" using ci i x
    by (auto simp: session_inv_def receives_def take_next healthy_def pending_def)
  moreover have "confirms ?a b (Suc i)" using i x by (simp add: confirms_def take_next)
  ultimately show ?thesis using inv unfolding a' by (simp add: session_inv_def)
qed

lemma arrive_inv:
  assumes inv: "session_inv a b i j" and aw: "awaits_record a" and i: "i < length (pu_wire b)"
  shows "session_inv (inbound_record now (pu_wire b ! i) a) b (Suc i) j"
proof -
  have "pu_wire b ! i \<in> set (pu_wire b)" using i by simp
  then obtain x where x: "pu_wire b ! i = record_bytes x" "\<forall>d. x = RData d \<longrightarrow> d \<noteq> []"
    using inv unfolding session_inv_def sends_def by blast
  show ?thesis
  proof (cases x)
    case (RData d)
    with x arrive_data [OF inv aw i] show ?thesis by simp
  next
    case (RFin n r)
    with x arrive_fin [OF inv aw i] show ?thesis by simp
  next
    case (RFinAck n)
    with x arrive_ack [OF inv aw i] show ?thesis by simp
  next
    case (RProgress n)
    have "keeps a (a\<lparr>pu_last_record_at := since_start_ms now\<rparr>)" using inv stay_keeps by (simp add: session_inv_def)
    then have "session_inv (a\<lparr>pu_last_record_at := since_start_ms now\<rparr>) b (Suc i) j"
      using x RProgress by (intro arrive_frame [OF inv i]) simp_all
    then show ?thesis using x RProgress by (simp add: inbound_record_def Let_def rec_tags)
  qed
qed

lemma local_inv:
  assumes inv: "session_inv a b i j" and le: "named_reasons le" and ev: "\<forall>pt. ev \<noteq> RecordIn pt"
  shows "session_inv (pump_step le idle now a ev) b i j"
proof -
  have s: "sends a" "answers a" "blameless a" using inv by (simp_all add: session_inv_def)
  have stay: "keeps a a" using s by (simp add: keeps_def grows_def same_inbound_def)
  have fail: "keeps a (pump_fail a e)" if "\<not> accuses e" for e using fail_keeps s that by blast
  have noise: "keeps a (pump_fail (a\<lparr>pu_last_record_at := x\<rparr>) e)" if "\<not> accuses e" for x e
    using stay_keeps [OF s, of x] fail_keeps [of "a\<lparr>pu_last_record_at := x\<rparr>" e] that
    by (intro keeps_last [of x a]) (auto simp: keeps_def)
  have eof: "le None \<noteq> UnknownReason 0" using le by (simp add: named_reasons_def)
  show ?thesis
  proof (cases "pu_error a = None")
    case False
    then have "pump_step le idle now a ev = a" by (cases ev) (auto simp: awaits_record_def)
    with inv show ?thesis by simp
  next
    case e: True
    show ?thesis
    proof (cases ev)
      case (Command w)
      with keeps_inv [OF inv cmd_keeps [OF s e, of w]] inv show ?thesis by simp
    next
      case (ProgressTick w)
      with keeps_inv [OF inv tick_keeps [OF s e, of w]] inv show ?thesis by simp
    next
      case (LocalRead d w)
      with keeps_inv [OF inv read_keeps [OF s e]] inv show ?thesis by (simp add: awaits_local_def)
    next
      case (LocalEof w)
      with keeps_inv [OF inv eof_keeps [OF s e _ eof]] inv show ?thesis by (simp add: awaits_local_def)
    next
      case (LocalReadError x)
      with keeps_inv [OF inv abort_keeps [OF s e failure_reason_named [OF le]]] inv show ?thesis
        by (simp add: outbound_read_error_def accuses_def Let_def)
    next
      case (LocalDelivered res)
      with delivered_inv [OF inv le e] inv show ?thesis by simp
    next
      case (TransportReadError x)
      with keeps_inv [OF inv fail [OF transport_ended_blameless]] inv show ?thesis by simp
    next
      case (NoiseError x)
      with keeps_inv [OF inv noise] inv show ?thesis by (simp add: accuses_def)
    next
      case AbortGrace
      have "\<not> accuses x" if "pu_aborting a = Some x" for x using s(3) that by (simp add: blameless_def)
      with AbortGrace keeps_inv [OF inv fail] inv show ?thesis by (simp split: option.splits)
    next
      case WatchdogDue
      with keeps_inv [OF inv fail] keeps_inv [OF inv stay_keeps [OF s]] inv show ?thesis
        by (simp add: watchdog_def accuses_def Let_def)
    qed (use ev in simp)
  qed
qed

lemma session_inv_sym: "session_inv a b i j \<Longrightarrow> session_inv b a j i"
  by (simp add: session_inv_def)

lemma session_invariant:
  "session la lb ia ib a b i j \<Longrightarrow> named_reasons la \<Longrightarrow> named_reasons lb \<Longrightarrow> session_inv a b i j"
proof (induction rule: session.induct)
  case (start la lb ia ib)
  show ?case
    by (simp add: session_inv_def sends_def answers_def blameless_def receives_def confirms_def healthy_def pending_def
        fin_acks_due_def pump_new_def)
next
  case (local la lb ia ib a b i j ev now)
  then show ?case by (intro local_inv) auto
next
  case (arrive la lb ia ib a b i j now)
  then show ?case using arrive_inv by simp
next
  case (other la lb ia ib a b i j)
  then show ?case by (simp add: session_inv_sym)
qed

section \<open>Properties\<close>

text \<open>
  C7. A report of success means delivered. In any session of two pumps, under any cuts, failures, timing
  and scheduling, when one side returns a report then every byte it read from its local side was
  written to the peer's local side, in order and nothing more, and that side was closed; every byte the
  peer read was written to its own; both inputs had ended; and the report counts them exactly.
\<close>

theorem delivery_confirmed:
  assumes "session la lb ia ib a b i j" "named_reasons la" "named_reasons lb" "pump_report a = Some rep"
  shows "pu_plain_written b = pu_plain_read a \<and> pu_plain_shut b \<and> pu_plain_written a = pu_plain_read b \<and> pu_plain_shut a
    \<and> \<not> pu_local_open a \<and> pu_fin_sent b
    \<and> dr_sent rep = word_of_nat (length (pu_plain_read a)) \<and> dr_received rep = word_of_nat (length (pu_plain_read b))"
proof -
  have inv: "session_inv a b i j" using session_invariant assms(1-3) .
  have a: "pu_error a = None" "\<not> outbound_running a" "pu_their_fin a" "pu_our_fin_confirmed a" "rep = \<lparr>dr_sent = pu_sent a, dr_received = pu_received a\<rparr>"
    using assms(4) by (auto simp: pump_report_def split: if_splits)
  have ra: "pu_fin_sent b" "pu_plain_written a = data_of (pu_wire b)" "pu_plain_shut a"
    using inv a(3) by (simp_all add: session_inv_def receives_def)
  have "acks (take i (pu_wire b)) \<noteq> []" using inv a(4) by (simp add: session_inv_def confirms_def)
  moreover have "acks (pu_wire b) = acks (take i (pu_wire b)) @ acks (drop i (pu_wire b))"
    by (metis acks_append append_take_drop_id)
  moreover have "answers b" using inv by (simp add: session_inv_def)
  ultimately have "pu_their_fin b" by (auto simp: answers_def split: if_splits)
  then have rb: "pu_plain_written b = data_of (pu_wire a)" "pu_plain_shut b"
    using inv by (simp_all add: session_inv_def receives_def)
  have s: "sends a" "sends b" "answers a" using inv by (simp_all add: session_inv_def)
  show ?thesis using s a ra rb by (simp add: sends_def answers_def outbound_running_def)
qed



section \<open>A scheduled session\<close>

datatype move = AtA pump_event | AtB pump_event | ArriveA | ArriveB

fun move_step :: "(io_error option \<Rightarrow> fin_reason) \<Rightarrow> nat \<Rightarrow> pump \<times> pump \<times> nat \<times> nat \<Rightarrow> move \<Rightarrow> pump \<times> pump \<times> nat \<times> nat" where
  "move_step le idle (a, b, i, j) (AtA ev) =
     (case ev of RecordIn _ \<Rightarrow> (a, b, i, j) | _ \<Rightarrow> (pump_step le idle 0 a ev, b, i, j))"
| "move_step le idle (a, b, i, j) (AtB ev) =
     (case ev of RecordIn _ \<Rightarrow> (a, b, i, j) | _ \<Rightarrow> (a, pump_step le idle 0 b ev, i, j))"
| "move_step le idle (a, b, i, j) ArriveA =
     (if awaits_record a \<and> i < length (pu_wire b) then (pump_step le idle 0 a (RecordIn (pu_wire b ! i)), b, Suc i, j) else (a, b, i, j))"
| "move_step le idle (a, b, i, j) ArriveB =
     (if awaits_record b \<and> j < length (pu_wire a) then (a, pump_step le idle 0 b (RecordIn (pu_wire a ! j)), i, Suc j) else (a, b, i, j))"

lemma move_session:
  assumes "session le le idle idle a b i j" "move_step le idle (a, b, i, j) m = (a', b', i', j')"
  shows "session le le idle idle a' b' i' j'"
proof (cases m)
  case (AtA ev)
  with assms session.local [OF assms(1), of ev 0] show ?thesis by (auto split: pump_event.splits)
next
  case (AtB ev)
  with assms session.local [OF session.other [OF assms(1)], of ev 0, THEN session.other] show ?thesis
    by (auto split: pump_event.splits)
next
  case ArriveA
  with assms session.arrive [OF assms(1), of 0] show ?thesis by (auto simp del: pump_step.simps split: if_splits)
next
  case ArriveB
  with assms session.arrive [OF session.other [OF assms(1)], of 0, THEN session.other] show ?thesis
    by (auto simp del: pump_step.simps split: if_splits)
qed

definition play :: "(io_error option \<Rightarrow> fin_reason) \<Rightarrow> nat \<Rightarrow> move list \<Rightarrow> pump \<times> pump \<times> nat \<times> nat" where
  "play le idle ms = foldl (move_step le idle) (pump_new, pump_new, 0, 0) ms"

lemma play_session: "play le idle ms = (a, b, i, j) \<Longrightarrow> session le le idle idle a b i j"
proof (induction ms arbitrary: a b i j rule: rev_induct)
  case Nil
  then show ?case using session.start by (auto simp: play_def)
next
  case (snoc m ms)
  obtain a0 b0 i0 j0 where p: "play le idle ms = (a0, b0, i0, j0)" by (cases "play le idle ms") auto
  from snoc.IH [OF p] have "session le le idle idle a0 b0 i0 j0" .
  then show ?case using move_session snoc.prems p by (simp add: play_def)
qed

definition ex_end :: "io_error option \<Rightarrow> fin_reason" where
  "ex_end e = (case e of None \<Rightarrow> FinNormal | Some _ \<Rightarrow> LocalError)"

definition ex_moves :: "move list" where
  "ex_moves = [AtA (LocalRead [1, 2] Written), ArriveB, AtB (LocalDelivered None), AtA (LocalEof None), AtB (LocalEof None),
     ArriveB, AtB (LocalDelivered None), AtB (Command None), ArriveA, AtA (LocalDelivered None), ArriveA,
     AtA (Command None), ArriveB]"

definition ex_state :: "pump \<times> pump \<times> nat \<times> nat" where
  "ex_state = play ex_end 60000000000 ex_moves"

lemmas ex_eval = ex_state_def play_def ex_moves_def pump_new_def outbound_read_def outbound_eof_def outbound_cmd_def
  inbound_record_def inbound_fin_def inbound_fin_ack_def inbound_delivered_def awaits_record_def awaits_local_def
  inbound_running_def outbound_running_def put_record_def CHUNK_def ex_end_def Let_def rec_tags reason_from_byte_def

lemma ex_end_named: "named_reasons ex_end"
  by (simp add: named_reasons_def ex_end_def split: option.splits)

theorem delivery_confirmed_witness:
  "pump_report (fst ex_state) = Some \<lparr>dr_sent = 2, dr_received = 0\<rparr> \<and> pu_plain_written (fst (snd ex_state)) = [1, 2]"
proof -
  obtain a b i j where st: "ex_state = (a, b, i, j)" by (cases ex_state) auto
  then have p: "session ex_end ex_end 60000000000 60000000000 a b i j" by (intro play_session) (simp add: ex_state_def)
  have r: "pump_report (fst ex_state) = Some \<lparr>dr_sent = 2, dr_received = 0\<rparr>" by (simp add: ex_eval pump_report_def)
  have i: "pu_plain_read (fst ex_state) = [1, 2]" by (simp add: ex_eval)
  from delivery_confirmed [OF p ex_end_named ex_end_named, of "\<lparr>dr_sent = 2, dr_received = 0\<rparr>"] r i show ?thesis
    by (simp add: st)
qed




end
