(* ===== verification/Pairer.thy ===== *)
theory Pairer
  imports Reach Grant "HOL-Library.Multiset"
begin

text \<open>
  Pairing of admitted channel members at the edge (\<open>src/crates/edge/src/channel_broker.rs\<close>): the decision
  on two grants, and the pairer with its queues of parked members. A park's death flag is shared with
  the task that watches its connection: the flags are a store \<open>dead\<close> that each operation reads when it
  looks at them (twice for an offer), so that they may change at any time in between. A hash map is
  iterated in the order its keys were entered. The type of payloads is a variable.
\<close>

section \<open>Two grants\<close>

record channel_pairing =
  cp_channel :: bytes
  cp_initiator_holder :: bytes
  cp_acceptor_holder :: bytes

datatype broker_error = GrantInvalid grant_error | ChannelMismatch | IncompatibleDirections | SameHolder

definition authorize_channel_pair ::
  "(bytes \<Rightarrow> bool) \<Rightarrow> verifier \<Rightarrow> bytes \<Rightarrow> signed_channel_grant \<Rightarrow> signed_channel_grant \<Rightarrow> u64 \<Rightarrow> broker_error + channel_pairing" where
  "authorize_channel_pair key_ok vrfy operator_pubkey a b now =
     (case verify_stateless key_ok vrfy operator_pubkey a now of Inl e \<Rightarrow> Err (GrantInvalid e) | Inr _ \<Rightarrow>
      case verify_stateless key_ok vrfy operator_pubkey b now of Inl e \<Rightarrow> Err (GrantInvalid e) | Inr _ \<Rightarrow>
      if cg_channel (sg_grant a) \<noteq> cg_channel (sg_grant b) then Err ChannelMismatch
      else if cg_holder (sg_grant a) = cg_holder (sg_grant b) then Err SameHolder
      else let channel = cg_channel (sg_grant a) in
        if permits (cg_direction (sg_grant a)) Initiate \<and> permits (cg_direction (sg_grant b)) Accept
        then Ok \<lparr>cp_channel = channel, cp_initiator_holder = cg_holder (sg_grant a), cp_acceptor_holder = cg_holder (sg_grant b)\<rparr>
        else if permits (cg_direction (sg_grant b)) Initiate \<and> permits (cg_direction (sg_grant a)) Accept
        then Ok \<lparr>cp_channel = channel, cp_initiator_holder = cg_holder (sg_grant b), cp_acceptor_holder = cg_holder (sg_grant a)\<rparr>
        else Err IncompatibleDirections)"

section \<open>Parked members\<close>

datatype park_phase = Rendezvous | Relay | Unmarked

definition phase_compatible :: "park_phase \<Rightarrow> park_phase \<Rightarrow> bool" where
  "phase_compatible self other \<longleftrightarrow> self = other \<or> self = Unmarked \<or> other = Unmarked"

text \<open>A monitored park names its flag in the store; an unmonitored one never reads as dead.\<close>

type_synonym park_liveness = "nat option"

definition is_dead :: "(nat \<Rightarrow> bool) \<Rightarrow> park_liveness \<Rightarrow> bool" where
  "is_dead dead l = (case l of None \<Rightarrow> False | Some flag \<Rightarrow> dead flag)"

record 't waiting_member =
  wm_channel :: bytes
  wm_holder :: bytes
  wm_observed :: "ip_addr option"
  wm_deadline :: u64
  wm_liveness :: park_liveness
  wm_phase :: park_phase
  wm_payload :: 't

datatype 't pair_outcome = Parked | Paired "'t waiting_member" "'t waiting_member" | Superseded "'t waiting_member"

definition PARKS_PER_MEMBER :: nat where
  "PARKS_PER_MEMBER = 4"

record sibling_sighting =
  ss_first :: u64
  ss_last :: u64
  ss_count :: u32

type_synonym sibling = "bytes \<times> bytes \<times> ip_addr"

record 't channel_pairer =
  pr_waiting :: "(bytes, 't waiting_member list) hmap"
  pr_dead_dropped :: u64
  pr_sibling_sightings :: "(sibling, sibling_sighting) hmap"

definition SIBLING_PERSISTENCE_SECS :: u64 where
  "SIBLING_PERSISTENCE_SECS = 900"

definition SIBLING_MIN_SIGHTINGS :: u32 where
  "SIBLING_MIN_SIGHTINGS = 10"

definition SIBLING_PRUNE_SECS :: u64 where
  "SIBLING_PRUNE_SECS = 600"

definition pairer_new :: "'t channel_pairer" where
  "pairer_new = \<lparr>pr_waiting = hm_empty, pr_dead_dropped = 0, pr_sibling_sightings = hm_empty\<rparr>"

definition take_dead_dropped :: "'t channel_pairer \<Rightarrow> u64 \<times> 't channel_pairer" where
  "take_dead_dropped p = (pr_dead_dropped p, p\<lparr>pr_dead_dropped := 0\<rparr>)"

section \<open>Offering a member\<close>

text \<open>The search loop: corpses dropped, the partner taken out if there is one, the queue that is left.\<close>

fun find_partner ::
  "(nat \<Rightarrow> bool) \<Rightarrow> 't waiting_member \<Rightarrow> 't waiting_member list \<Rightarrow> nat \<times> 't waiting_member option \<times> 't waiting_member list" where
  "find_partner dead member [] = (0, None, [])"
| "find_partner dead member (w # queue) =
     (if is_dead dead (wm_liveness w)
      then (case find_partner dead member queue of (n, c, rest) \<Rightarrow> (Suc n, c, rest))
      else if wm_holder w \<noteq> wm_holder member \<and> phase_compatible (wm_phase w) (wm_phase member) then (0, Some w, queue)
      else (case find_partner dead member queue of (n, c, rest) \<Rightarrow> (n, c, w # rest)))"

definition queue_of :: "'t channel_pairer \<Rightarrow> bytes \<Rightarrow> 't waiting_member list" where
  "queue_of p channel = (case hm_get (pr_waiting p) channel of None \<Rightarrow> [] | Some queue \<Rightarrow> queue)"

fun remove_first :: "('a \<Rightarrow> bool) \<Rightarrow> 'a list \<Rightarrow> ('a \<times> 'a list) option" where
  "remove_first P [] = None"
| "remove_first P (x # xs) = (if P x then Some (x, xs) else map_option (map_prod id (Cons x)) (remove_first P xs))"

definition pairer_offer ::
  "(nat \<Rightarrow> bool) \<Rightarrow> (nat \<Rightarrow> bool) \<Rightarrow> 't channel_pairer \<Rightarrow> 't waiting_member \<Rightarrow> 't pair_outcome \<times> 't channel_pairer" where
  "pairer_offer dead dead' p member =
     (case find_partner dead member (queue_of p (wm_channel member)) of
        (n, Some candidate, queue) \<Rightarrow>
          (Paired candidate member,
           p\<lparr>pr_waiting := (if queue = [] then hm_remove (wm_channel member) (pr_waiting p)
                             else hm_insert (wm_channel member) queue (pr_waiting p)),
             pr_dead_dropped := pr_dead_dropped p + word_of_nat n\<rparr>)
      | (n, None, queue) \<Rightarrow>
          let kept = filter (\<lambda>w. wm_holder w \<noteq> wm_holder member \<or> \<not> is_dead dead' (wm_liveness w)) queue;
              dropped = pr_dead_dropped p + word_of_nat n + word_of_nat (length queue - length kept);
              queue = kept @ [member];
              own_count = length (filter (\<lambda>w. wm_holder w = wm_holder member) queue)
          in if PARKS_PER_MEMBER < own_count
             then (case remove_first (\<lambda>w. wm_holder w = wm_holder member) queue of
                     Some (stale, queue) \<Rightarrow>
                       (Superseded stale,
                        p\<lparr>pr_waiting := hm_insert (wm_channel member) queue (pr_waiting p), pr_dead_dropped := dropped\<rparr>)
                   | None \<Rightarrow> (Parked, p))
             else (Parked, p\<lparr>pr_waiting := hm_insert (wm_channel member) queue (pr_waiting p), pr_dead_dropped := dropped\<rparr>))"

section \<open>Draining\<close>

fun sweep_queue ::
  "(nat \<Rightarrow> bool) \<Rightarrow> u64 \<Rightarrow> 't waiting_member list \<Rightarrow> nat \<times> 't waiting_member list \<times> 't waiting_member list" where
  "sweep_queue dead now [] = (0, [], [])"
| "sweep_queue dead now (m # queue) =
     (case sweep_queue dead now queue of (n, drained, kept) \<Rightarrow>
        if is_dead dead (wm_liveness m) then (Suc n, drained, kept)
        else if wm_deadline m \<le> now then (n, m # drained, kept)
        else (n, drained, m # kept))"

fun sweep_queues ::
  "(nat \<Rightarrow> bool) \<Rightarrow> u64 \<Rightarrow> (bytes, 't waiting_member list) hmap
     \<Rightarrow> nat \<times> 't waiting_member list \<times> (bytes, 't waiting_member list) hmap" where
  "sweep_queues dead now [] = (0, [], [])"
| "sweep_queues dead now ((channel, queue) # entries) =
     (case (sweep_queue dead now queue, sweep_queues dead now entries) of
        ((n, drained, kept), (n', drained', entries')) \<Rightarrow>
          (n + n', drained @ drained', if kept = [] then entries' else (channel, kept) # entries'))"

text \<open>The first other channel with a park from the same address, for each drained member.\<close>

definition sibling_channel_mismatches :: "'t channel_pairer \<Rightarrow> 't waiting_member list \<Rightarrow> sibling list" where
  "sibling_channel_mismatches p drained =
     concat (map (\<lambda>e. case wm_observed e of
         None \<Rightarrow> []
       | Some ip \<Rightarrow>
           (case find (\<lambda>(chan, queue). chan \<noteq> wm_channel e \<and> list_ex (\<lambda>w. wm_observed w = Some ip) queue) (pr_waiting p) of
              None \<Rightarrow> []
            | Some (chan, _) \<Rightarrow> [(wm_channel e, chan, ip)])) drained)"

definition sight ::
  "u64 \<Rightarrow> sibling list \<times> (sibling, sibling_sighting) hmap \<Rightarrow> sibling \<Rightarrow> sibling list \<times> (sibling, sibling_sighting) hmap" where
  "sight now acc t =
     (case acc of (confirmed, sightings) \<Rightarrow>
        let s = (case hm_get sightings t of None \<Rightarrow> \<lparr>ss_first = now, ss_last = now, ss_count = 0\<rparr> | Some s \<Rightarrow> s);
            s = s\<lparr>ss_last := now, ss_count := saturating_add (ss_count s) 1\<rparr>
        in (if SIBLING_MIN_SIGHTINGS \<le> ss_count s \<and> SIBLING_PERSISTENCE_SECS \<le> saturating_sub now (ss_first s)
            then confirmed @ [t] else confirmed,
            hm_insert t s sightings))"

definition note_sibling_sightings :: "'t channel_pairer \<Rightarrow> sibling list \<Rightarrow> u64 \<Rightarrow> sibling list \<times> 't channel_pairer" where
  "note_sibling_sightings p triples now =
     (let sightings = hm_retain (\<lambda>_ s. saturating_sub now (ss_last s) \<le> SIBLING_PRUNE_SECS) (pr_sibling_sightings p)
      in case foldl (sight now) ([], sightings) triples of
           (confirmed, sightings) \<Rightarrow> (confirmed, p\<lparr>pr_sibling_sightings := sightings\<rparr>))"

text \<open>The process-wide log gate \<open>LAST_508_LOG\<close>: at most one line a minute.\<close>

fun log_siblings :: "u64 \<Rightarrow> u64 \<Rightarrow> sibling list \<Rightarrow> sibling list \<times> u64" where
  "log_siblings now last_log [] = ([], last_log)"
| "log_siblings now last_log (t # ts) =
     (if 60 \<le> saturating_sub now last_log then (case log_siblings now now ts of (lines, last_log) \<Rightarrow> (t # lines, last_log))
      else log_siblings now last_log ts)"

text \<open>The drained members, the siblings logged, the pairer and the log gate.\<close>

definition drain_expired ::
  "(nat \<Rightarrow> bool) \<Rightarrow> u64 \<Rightarrow> u64 \<Rightarrow> 't channel_pairer \<Rightarrow> 't waiting_member list \<times> sibling list \<times> u64 \<times> 't channel_pairer" where
  "drain_expired dead now last_log p =
     (case sweep_queues dead now (pr_waiting p) of (n, drained, waiting) \<Rightarrow>
        let p = p\<lparr>pr_waiting := waiting, pr_dead_dropped := pr_dead_dropped p + word_of_nat n\<rparr> in
        if drained = [] then (drained, [], last_log, p)
        else case note_sibling_sightings p (sibling_channel_mismatches p drained) now of
          (confirmed, p) \<Rightarrow> (case log_siblings now last_log confirmed of
             (lines, last_log) \<Rightarrow> (drained, lines, last_log, p)))"

definition pairer_len :: "'t channel_pairer \<Rightarrow> nat" where
  "pairer_len p = sum_list (map (length \<circ> snd) (pr_waiting p))"

definition pairer_is_empty :: "'t channel_pairer \<Rightarrow> bool" where
  "pairer_is_empty p \<longleftrightarrow> pr_waiting p = []"


section \<open>Runs of a pairer\<close>

datatype 't pairer_event =
    Offer "nat \<Rightarrow> bool" "nat \<Rightarrow> bool" "'t waiting_member"
  | Drain "nat \<Rightarrow> bool" u64 u64
  | TakeDead

fun handed_out :: "'t pair_outcome \<Rightarrow> 't waiting_member list" where
  "handed_out Parked = []"
| "handed_out (Paired c m) = [c, m]"
| "handed_out (Superseded s) = [s]"

text \<open>The members handed out so far, the corpses reported so far, and the pairer.\<close>

fun pairer_step ::
  "'t waiting_member list \<times> u64 \<times> 't channel_pairer \<Rightarrow> 't pairer_event \<Rightarrow> 't waiting_member list \<times> u64 \<times> 't channel_pairer" where
  "pairer_step (out, reported, p) (Offer dead dead' m) =
     (case pairer_offer dead dead' p m of (res, p) \<Rightarrow> (out @ handed_out res, reported, p))"
| "pairer_step (out, reported, p) (Drain dead now last_log) =
     (case drain_expired dead now last_log p of (drained, _, _, p) \<Rightarrow> (out @ drained, reported, p))"
| "pairer_step (out, reported, p) TakeDead = (case take_dead_dropped p of (n, p) \<Rightarrow> (out, reported + n, p))"

definition pairer_run :: "'t pairer_event list \<Rightarrow> 't waiting_member list \<times> u64 \<times> 't channel_pairer" where
  "pairer_run evs = foldl pairer_step ([], 0, pairer_new) evs"

definition run_pairer :: "'t pairer_event list \<Rightarrow> 't channel_pairer" where
  "run_pairer evs = snd (snd (pairer_run evs))"

definition offered :: "'t pairer_event list \<Rightarrow> 't waiting_member list" where
  "offered evs = concat (map (\<lambda>ev. case ev of Offer _ _ m \<Rightarrow> [m] | _ \<Rightarrow> []) evs)"

fun sees_dead :: "'t pairer_event \<Rightarrow> 't waiting_member \<Rightarrow> bool" where
  "sees_dead (Offer dead dead' m) w \<longleftrightarrow> is_dead dead (wm_liveness w) \<or> is_dead dead' (wm_liveness w)"
| "sees_dead (Drain dead now last_log) w \<longleftrightarrow> is_dead dead (wm_liveness w)"
| "sees_dead TakeDead w \<longleftrightarrow> False"

definition parked_members :: "'t channel_pairer \<Rightarrow> 't waiting_member list" where
  "parked_members p = concat (map snd (pr_waiting p))"

section \<open>The search\<close>

definition eligible :: "(nat \<Rightarrow> bool) \<Rightarrow> 't waiting_member \<Rightarrow> 't waiting_member \<Rightarrow> bool" where
  "eligible dead m w \<longleftrightarrow>
     \<not> is_dead dead (wm_liveness w) \<and> wm_holder w \<noteq> wm_holder m \<and> phase_compatible (wm_phase w) (wm_phase m)"

abbreviation live :: "(nat \<Rightarrow> bool) \<Rightarrow> 't waiting_member \<Rightarrow> bool" where
  "live dead w \<equiv> \<not> is_dead dead (wm_liveness w)"

lemma find_partner_extract:
  "find_partner dead m q =
     (case List.extract (eligible dead m) q of
        None \<Rightarrow> (length (filter (\<lambda>w. \<not> live dead w) q), None, filter (live dead) q)
      | Some (pre, c, post) \<Rightarrow> (length (filter (\<lambda>w. \<not> live dead w) pre), Some c, filter (live dead) pre @ post))"
  by (induction q) (auto simp: extract_Nil_code extract_Cons_code eligible_def split: option.splits)

lemma remove_first_extract:
  "remove_first P xs = (case List.extract P xs of None \<Rightarrow> None | Some (pre, x, post) \<Rightarrow> Some (x, pre @ post))"
  by (induction xs) (auto simp: extract_Nil_code extract_Cons_code split: option.splits)

definition refreshed :: "(nat \<Rightarrow> bool) \<Rightarrow> (nat \<Rightarrow> bool) \<Rightarrow> 't waiting_member \<Rightarrow> 't waiting_member list \<Rightarrow> 't waiting_member list" where
  "refreshed dead dead' m q =
     filter (\<lambda>w. live dead w \<and> (wm_holder w \<noteq> wm_holder m \<or> live dead' w)) q"

text \<open>The three outcomes of an offer.\<close>

lemma offer_cases:
  obtains (pairs) pre c post n where
      "queue_of p (wm_channel m) = pre @ c # post" "eligible dead m c" "\<forall>w \<in> set pre. \<not> eligible dead m w"
      "n = length (filter (\<lambda>w. \<not> live dead w) pre)"
      "pairer_offer dead dead' p m = (Paired c m,
         p\<lparr>pr_waiting := (if filter (live dead) pre @ post = [] then hm_remove (wm_channel m) (pr_waiting p)
                           else hm_insert (wm_channel m) (filter (live dead) pre @ post) (pr_waiting p)),
           pr_dead_dropped := pr_dead_dropped p + word_of_nat n\<rparr>)"
  | (parks) q n where
      "\<forall>w \<in> set (queue_of p (wm_channel m)). \<not> eligible dead m w" "q = refreshed dead dead' m (queue_of p (wm_channel m))"
      "n = length (queue_of p (wm_channel m)) - length q"
      "length (filter (\<lambda>w. wm_holder w = wm_holder m) q) < PARKS_PER_MEMBER"
      "pairer_offer dead dead' p m = (Parked,
         p\<lparr>pr_waiting := hm_insert (wm_channel m) (q @ [m]) (pr_waiting p), pr_dead_dropped := pr_dead_dropped p + word_of_nat n\<rparr>)"
  | (supersedes) q n pre s post where
      "\<forall>w \<in> set (queue_of p (wm_channel m)). \<not> eligible dead m w" "q = refreshed dead dead' m (queue_of p (wm_channel m))"
      "n = length (queue_of p (wm_channel m)) - length q"
      "PARKS_PER_MEMBER \<le> length (filter (\<lambda>w. wm_holder w = wm_holder m) q)"
      "q = pre @ s # post" "wm_holder s = wm_holder m" "\<forall>w \<in> set pre. wm_holder w \<noteq> wm_holder m"
      "pairer_offer dead dead' p m = (Superseded s,
         p\<lparr>pr_waiting := hm_insert (wm_channel m) (pre @ post @ [m]) (pr_waiting p), pr_dead_dropped := pr_dead_dropped p + word_of_nat n\<rparr>)"
proof (cases "List.extract (eligible dead m) (queue_of p (wm_channel m))")
  case (Some r)
  obtain pre c post where r: "r = (pre, c, post)" by (cases r)
  have fp: "find_partner dead m (queue_of p (wm_channel m)) =
    (length (filter (\<lambda>w. \<not> live dead w) pre), Some c, filter (live dead) pre @ post)"
    using Some r by (simp add: find_partner_extract)
  have q: "queue_of p (wm_channel m) = pre @ c # post" "eligible dead m c" "\<forall>w \<in> set pre. \<not> eligible dead m w"
    using Some r by (simp_all add: extract_Some_iff)
  show thesis by (rule pairs [OF q refl]) (simp add: pairer_offer_def fp)
next
  case None
  let ?Q = "queue_of p (wm_channel m)"
  let ?own = "\<lambda>w. wm_holder w = wm_holder m"
  let ?q = "refreshed dead dead' m ?Q"
  have none: "\<forall>w \<in> set ?Q. \<not> eligible dead m w" using None by (simp add: extract_None_iff)
  have f: "filter (\<lambda>w. wm_holder w \<noteq> wm_holder m \<or> live dead' w) (filter (live dead) ?Q) = ?q"
    by (simp add: refreshed_def conj_commute)
  have len: "length (filter (\<lambda>w. \<not> live dead w) ?Q) + (length (filter (live dead) ?Q) - length ?q) = length ?Q - length ?q"
  proof -
    have "length ?q \<le> length (filter (live dead) ?Q)" using length_filter_le unfolding f [symmetric] .
    then show ?thesis using sum_length_filter_compl [of "live dead" ?Q] by linarith
  qed
  have fp: "find_partner dead m ?Q = (length (filter (\<lambda>w. \<not> live dead w) ?Q), None, filter (live dead) ?Q)"
    using None by (simp add: find_partner_extract)
  show thesis
  proof (cases "PARKS_PER_MEMBER \<le> length (filter ?own ?q)")
    case False
    show thesis
      by (rule parks [OF none refl refl])
        (unfold pairer_offer_def fp prod.case option.case Let_def f,
         use False len in \<open>simp_all add: add.assoc flip: of_nat_add\<close>)
  next
    case True
    then have "filter ?own ?q \<noteq> []" by (auto simp: PARKS_PER_MEMBER_def)
    then have "\<exists>w \<in> set ?q. ?own w" by (simp add: filter_empty_conv)
    then obtain pre s post where q: "?q = pre @ s # post" "?own s" "\<forall>w \<in> set pre. \<not> ?own w"
      by (rule split_list_first_propE)
    have e: "List.extract ?own (?q @ [m]) = Some (pre, s, post @ [m])" using q by (simp add: extract_Some_iff)
    show thesis
      by (rule supersedes [OF none refl refl True q])
        (unfold pairer_offer_def fp prod.case option.case Let_def f remove_first_extract e,
         use True len in \<open>simp add: add.assoc flip: of_nat_add\<close>)
  qed
qed


section \<open>The invariant of the queues\<close>

abbreviation own_parks :: "bytes \<Rightarrow> 't waiting_member list \<Rightarrow> nat" where
  "own_parks h q \<equiv> length (filter (\<lambda>w. wm_holder w = h) q)"

definition queue_ok :: "bytes \<Rightarrow> 't waiting_member list \<Rightarrow> bool" where
  "queue_ok channel q \<longleftrightarrow> q \<noteq> [] \<and> (\<forall>w \<in> set q. wm_channel w = channel) \<and> (\<forall>h. own_parks h q \<le> PARKS_PER_MEMBER)
     \<and> (\<forall>w \<in> set q. \<forall>v \<in> set q. wm_holder w \<noteq> wm_holder v \<longrightarrow> \<not> phase_compatible (wm_phase w) (wm_phase v))"

definition pairer_inv :: "'t channel_pairer \<Rightarrow> bool" where
  "pairer_inv p \<longleftrightarrow> hm_wf (pr_waiting p) \<and> (\<forall>channel q. hm_get (pr_waiting p) channel = Some q \<longrightarrow> queue_ok channel q)"

lemma phase_compatible_sym: "phase_compatible a b = phase_compatible b a"
  by (auto simp: phase_compatible_def)

lemma own_parks_mono:
  assumes "mset q' \<subseteq># mset q"
  shows "own_parks h q' \<le> own_parks h q"
  using size_mset_mono [OF multiset_filter_mono [OF assms, of "\<lambda>w. wm_holder w = h"]]
  by (simp flip: mset_filter)

lemma queue_ok_part:
  assumes ok: "queue_ok channel q" and part: "mset q' \<subseteq># mset q" and "q' \<noteq> []"
  shows "queue_ok channel q'"
proof -
  have "set q' \<subseteq> set q" using set_mset_mono [OF part] by simp
  moreover have "own_parks h q' \<le> PARKS_PER_MEMBER" for h
    using ok own_parks_mono [OF part, of h] le_trans unfolding queue_ok_def by blast
  ultimately show ?thesis using ok assms(3) unfolding queue_ok_def by blast
qed

lemma queue_of_ok: "pairer_inv p \<Longrightarrow> queue_of p channel \<noteq> [] \<Longrightarrow> queue_ok channel (queue_of p channel)"
  by (auto simp: pairer_inv_def queue_of_def split: option.splits)

lemma part_around: "mset (filter P pre @ post) \<subseteq># mset (pre @ c # post)"
proof -
  have "mset post \<subseteq># mset (c # post)" by simp
  from subset_mset.add_mono [OF multiset_filter_subset [of P "mset pre"] this] show ?thesis by simp
qed

lemma refreshed_part: "mset (refreshed dead dead' m q) \<subseteq># mset q"
  by (simp add: refreshed_def)

lemma refreshed_apart:
  "\<forall>w \<in> set q. \<not> eligible dead m w \<Longrightarrow> w \<in> set (refreshed dead dead' m q) \<Longrightarrow> wm_holder w \<noteq> wm_holder m \<Longrightarrow>
     \<not> phase_compatible (wm_phase w) (wm_phase m)"
  by (auto simp: refreshed_def eligible_def)

lemma queue_ok_add:
  assumes q: "q' \<noteq> [] \<Longrightarrow> queue_ok (wm_channel m) q'" and own: "own_parks (wm_holder m) q' < PARKS_PER_MEMBER"
    and apart: "\<forall>w \<in> set q'. wm_holder w \<noteq> wm_holder m \<longrightarrow> \<not> phase_compatible (wm_phase w) (wm_phase m)"
  shows "queue_ok (wm_channel m) (q' @ [m])"
proof (cases "q' = []")
  case True
  then show ?thesis by (simp add: queue_ok_def PARKS_PER_MEMBER_def)
next
  case False
  note q = q [OF False]
  have "\<not> phase_compatible (wm_phase w) (wm_phase v)"
    if "w \<in> set (q' @ [m])" "v \<in> set (q' @ [m])" "wm_holder w \<noteq> wm_holder v" for w v
    using that q apart phase_compatible_sym unfolding queue_ok_def by (metis Un_iff append_Nil2 empty_iff empty_set insert_iff list.simps(15) set_append)
  moreover have "own_parks h (q' @ [m]) \<le> PARKS_PER_MEMBER" for h
    using q own by (auto simp: queue_ok_def)
  ultimately show ?thesis using q by (auto simp: queue_ok_def)
qed

lemma pairer_inv_set:
  assumes "pairer_inv p" "q \<noteq> [] \<Longrightarrow> queue_ok channel q"
  shows "pairer_inv (p\<lparr>pr_waiting := (if q = [] then hm_remove channel (pr_waiting p) else hm_insert channel q (pr_waiting p)),
    pr_dead_dropped := n\<rparr>)"
  using assms by (auto simp: pairer_inv_def)

lemma offer_inv:
  assumes inv: "pairer_inv p"
  shows "pairer_inv (snd (pairer_offer dead dead' p m))"
proof (cases rule: offer_cases [of p m dead dead'])
  case (pairs pre c post n)
  let ?q = "filter (live dead) pre @ post"
  have "queue_ok (wm_channel m) ?q" if "?q \<noteq> []"
  proof (rule queue_ok_part [OF queue_of_ok [OF inv] _ that])
    show "mset ?q \<subseteq># mset (queue_of p (wm_channel m))" unfolding pairs(1) by (rule part_around)
  qed (simp add: pairs(1))
  from pairer_inv_set [OF inv this] show ?thesis using pairs(5) by simp
next
  case (parks q n)
  have "queue_ok (wm_channel m) q" if "q \<noteq> []"
    by (rule queue_ok_part [OF queue_of_ok [OF inv] _ that]) (use that parks(2) refreshed_part [of dead dead' m "queue_of p (wm_channel m)"] in \<open>auto simp: refreshed_def\<close>)
  moreover have "\<not> phase_compatible (wm_phase w) (wm_phase m)" if "w \<in> set q" "wm_holder w \<noteq> wm_holder m" for w
    using refreshed_apart parks(1) that unfolding parks(2) .
  ultimately have "queue_ok (wm_channel m) (q @ [m])" using queue_ok_add parks(4) by blast
  from pairer_inv_set [OF inv this] show ?thesis using parks(5) by simp
next
  case (supersedes q n pre s post)
  let ?q = "pre @ post"
  have ok: "queue_ok (wm_channel m) q"
    by (rule queue_ok_part [OF queue_of_ok [OF inv]])
      (use supersedes(2,5) refreshed_part [of dead dead' m "queue_of p (wm_channel m)"] in \<open>auto simp: refreshed_def\<close>)
  have "queue_ok (wm_channel m) ?q" if "?q \<noteq> []"
    by (rule queue_ok_part [OF ok _ that]) (simp add: supersedes(5))
  moreover have "own_parks (wm_holder m) ?q < PARKS_PER_MEMBER"
  proof -
    have "own_parks (wm_holder m) q \<le> PARKS_PER_MEMBER" using ok by (simp add: queue_ok_def)
    then show ?thesis using supersedes(5,6) by simp
  qed
  moreover have "\<not> phase_compatible (wm_phase w) (wm_phase m)" if "w \<in> set ?q" "wm_holder w \<noteq> wm_holder m" for w
  proof -
    have "w \<in> set q" using that(1) supersedes(5) by auto
    then have "w \<in> set (refreshed dead dead' m (queue_of p (wm_channel m)))" by (simp only: supersedes(2))
    from refreshed_apart [OF supersedes(1) this that(2)] show ?thesis .
  qed
  ultimately have "queue_ok (wm_channel m) (?q @ [m])" using queue_ok_add by blast
  from pairer_inv_set [OF inv this] show ?thesis using supersedes(8) by simp
qed

lemma queue_of_insert:
  "queue_of (p\<lparr>pr_waiting := hm_insert ch q (pr_waiting p), pr_dead_dropped := n\<rparr>) k = (if k = ch then q else queue_of p k)"
  by (simp add: queue_of_def)

lemma queue_of_set:
  "queue_of (p\<lparr>pr_waiting := (if q = [] then hm_remove ch (pr_waiting p) else hm_insert ch q (pr_waiting p)),
     pr_dead_dropped := n\<rparr>) k = (if k = ch then q else queue_of p k)"
  by (simp add: queue_of_def)

section \<open>The sweep\<close>

abbreviation lasts :: "(nat \<Rightarrow> bool) \<Rightarrow> u64 \<Rightarrow> 't waiting_member \<Rightarrow> bool" where
  "lasts dead now w \<equiv> live dead w \<and> now < wm_deadline w"

lemma sweep_queue_filter:
  "sweep_queue dead now q = (length (filter (\<lambda>w. \<not> live dead w) q), filter (\<lambda>w. live dead w \<and> wm_deadline w \<le> now) q,
     filter (lasts dead now) q)"
  by (induction q) (auto simp: not_less)

lemma sweep_queues_filter:
  "sweep_queues dead now entries =
     (length (filter (\<lambda>w. \<not> live dead w) (concat (map snd entries))),
      filter (\<lambda>w. live dead w \<and> wm_deadline w \<le> now) (concat (map snd entries)),
      filter (\<lambda>e. snd e \<noteq> []) (map (apsnd (filter (lasts dead now))) entries))"
  by (induction entries) (auto simp: sweep_queue_filter)

lemma concat_nonempty: "concat (map snd (filter (\<lambda>e. snd e \<noteq> []) entries)) = concat (map snd entries)"
  by (induction entries) auto

lemma note_sibling_frame:
  assumes "note_sibling_sightings p triples now = (confirmed, p')"
  shows "pr_waiting p' = pr_waiting p" "pr_dead_dropped p' = pr_dead_dropped p"
  using assms by (auto simp: note_sibling_sightings_def Let_def split: prod.splits)

lemma drain_fields:
  assumes "drain_expired dead now last_log p = (drained, lines, last_log', p')"
  shows "drained = filter (\<lambda>w. live dead w \<and> wm_deadline w \<le> now) (parked_members p)"
    and "pr_waiting p' = filter (\<lambda>e. snd e \<noteq> []) (map (apsnd (filter (lasts dead now))) (pr_waiting p))"
    and "pr_dead_dropped p' = pr_dead_dropped p + word_of_nat (length (filter (\<lambda>w. \<not> live dead w) (parked_members p)))"
  using assms
  by (auto simp: drain_expired_def sweep_queues_filter parked_members_def Let_def split: if_splits prod.splits
      dest: note_sibling_frame)

lemma drain_parked:
  assumes "drain_expired dead now last_log p = (drained, lines, last_log', p')"
  shows "parked_members p' = filter (lasts dead now) (parked_members p)"
proof -
  have "snd \<circ> apsnd (filter P) = filter P \<circ> snd" for P :: "'b waiting_member \<Rightarrow> bool" by (simp add: fun_eq_iff)
  then show ?thesis using drain_fields(2) [OF assms] by (simp add: parked_members_def concat_nonempty filter_concat)
qed

lemma map_of_kept:
  assumes "distinct (map fst entries)"
  shows "map_of (filter (\<lambda>e. snd e \<noteq> []) (map (apsnd f) entries)) k =
    (case map_of entries k of None \<Rightarrow> None | Some q \<Rightarrow> if f q = [] then None else Some (f q))"
  using assms
proof (induction entries)
  case (Cons e entries)
  have "map_of (filter (\<lambda>e. snd e \<noteq> []) (map (apsnd f) entries)) (fst e) = None"
    using Cons.prems unfolding map_of_eq_None_iff by (auto intro: rev_image_eqI)
  with Cons show ?case by (cases e) auto
qed simp

lemma drain_get:
  assumes "drain_expired dead now last_log p = (drained, lines, last_log', p')" "pairer_inv p"
  shows "hm_get (pr_waiting p') k = (case hm_get (pr_waiting p) k of None \<Rightarrow> None | Some q \<Rightarrow>
    if filter (lasts dead now) q = [] then None else Some (filter (lasts dead now) q))"
  unfolding drain_fields(2) [OF assms(1)] hm_get_def
  by (rule map_of_kept) (use assms(2) in \<open>simp add: pairer_inv_def hm_wf_def\<close>)

lemma drain_inv:
  assumes "drain_expired dead now last_log p = (drained, lines, last_log', p')" "pairer_inv p"
  shows "pairer_inv p'"
proof -
  have "queue_ok k (filter (lasts dead now) q)" if "hm_get (pr_waiting p) k = Some q" "filter (lasts dead now) q \<noteq> []" for k q
    by (rule queue_ok_part [of k q]) (use that assms(2) in \<open>simp_all add: pairer_inv_def\<close>)
  moreover have "hm_wf (pr_waiting p')"
    unfolding hm_wf_def drain_fields(2) [OF assms(1)]
    by (rule distinct_map_filter) (use assms(2) in \<open>simp add: pairer_inv_def hm_wf_def\<close>)
  ultimately show ?thesis using drain_get [OF assms] by (simp add: pairer_inv_def split: option.splits)
qed

section \<open>Conservation\<close>

lemma hm_insert_parked:
  "hm_wf m \<Longrightarrow> mset (concat (map snd (hm_insert k q m))) + mset (case map_of m k of None \<Rightarrow> [] | Some r \<Rightarrow> r)
     = mset (concat (map snd m)) + mset q"
proof (induction k q m rule: hm_insert.induct)
  case (2 k v a b m)
  then show ?case by (auto simp: hm_wf_def map_of_eq_None_iff union_ac split: option.splits)
qed simp

lemma hm_remove_parked:
  "hm_wf m \<Longrightarrow> mset (concat (map snd (hm_remove k m))) + mset (case map_of m k of None \<Rightarrow> [] | Some r \<Rightarrow> r)
     = mset (concat (map snd m))"
proof (induction m)
  case (Cons e m)
  have "filter (\<lambda>p. fst p \<noteq> k) m = m" if "k \<notin> fst ` set m" using that by (induction m) auto
  with Cons show ?case by (cases e) (auto simp: hm_wf_def hm_remove_def map_of_eq_None_iff union_ac split: option.splits)
qed (simp add: hm_remove_def)

lemma parked_set:
  assumes "pairer_inv p"
    and "w = (if q = [] then hm_remove ch (pr_waiting p) else hm_insert ch q (pr_waiting p))"
  shows "mset (concat (map snd w)) + mset (queue_of p ch) = mset (parked_members p) + mset q"
  using assms hm_insert_parked [of "pr_waiting p" ch q] hm_remove_parked [of "pr_waiting p" ch]
  by (simp add: pairer_inv_def parked_members_def queue_of_def hm_get_def)

lemma exchange:
  fixes A A' q Q D R :: "'x multiset"
  assumes "A' + Q = A + (q + R)" "Q = q + D"
  shows "A + R = A' + D"
proof -
  have "q + (A + R) = q + (A' + D)" using assms by (simp add: union_ac)
  then show ?thesis by simp
qed

lemma refreshed_corpses:
  fixes q :: "'t waiting_member list"
  obtains corpses where "mset q = mset (refreshed dead dead' m q) + corpses" "\<forall>w \<in># corpses. \<not> live dead w \<or> \<not> live dead' w"
    "size corpses = length q - length (refreshed dead dead' m q)"
proof -
  let ?P = "\<lambda>w. live dead w \<and> (wm_holder w \<noteq> wm_holder m \<or> live dead' w)"
  have e: "mset q = mset (refreshed dead dead' m q) + mset (filter (\<lambda>w. \<not> ?P w) q)"
    unfolding refreshed_def mset_filter by (rule multiset_partition)
  have "size (mset (filter (\<lambda>w. \<not> ?P w) q)) = length q - length (refreshed dead dead' m q)"
    using arg_cong [OF e, of size] by simp
  with e show thesis by (intro that [of "mset (filter (\<lambda>w. \<not> ?P w) q)"]) auto
qed

lemma offer_conserves:
  assumes inv: "pairer_inv p" and off: "pairer_offer dead dead' p m = (res, p')"
  obtains corpses where "mset (parked_members p) + {#m#} = mset (parked_members p') + mset (handed_out res) + corpses"
    "\<forall>w \<in># corpses. \<not> live dead w \<or> \<not> live dead' w" "pr_dead_dropped p' = pr_dead_dropped p + word_of_nat (size corpses)"
proof (cases rule: offer_cases [of p m dead dead'])
  case (pairs pre c post n)
  let ?q = "filter (live dead) pre @ post" and ?D = "mset (filter (\<lambda>w. \<not> live dead w) pre)"
  have p': "res = Paired c m" "pr_dead_dropped p' = pr_dead_dropped p + word_of_nat n"
    "mset (parked_members p') + mset (queue_of p (wm_channel m)) = mset (parked_members p) + (mset ?q + {#})"
    using off pairs(5) parked_set [OF inv refl, of ?q "wm_channel m"] by (auto simp: parked_members_def)
  have "mset pre = mset (filter (live dead) pre) + ?D" unfolding mset_filter by (rule multiset_partition)
  then have "mset (queue_of p (wm_channel m)) = mset ?q + (?D + {#c#})" using pairs(1) by simp
  moreover have "size ?D = n" using pairs(4) by (simp only: size_mset)
  ultimately show thesis using exchange [OF p'(3)] p'(1,2) by (intro that [of ?D]) auto
next
  case (parks q n)
  let ?Q = "queue_of p (wm_channel m)"
  obtain D where D: "mset ?Q = mset q + D" "\<forall>w \<in># D. \<not> live dead w \<or> \<not> live dead' w" "size D = length ?Q - length q"
    using refreshed_corpses [of ?Q dead dead' m] parks(2) by metis
  have p': "res = Parked" "pr_dead_dropped p' = pr_dead_dropped p + word_of_nat n"
    "mset (parked_members p') + mset ?Q = mset (parked_members p) + (mset q + {#m#})"
    using off parks(5) parked_set [OF inv refl, of "q @ [m]" "wm_channel m"] by (auto simp: parked_members_def)
  from exchange [OF p'(3) D(1)] p'(1,2) parks(3) D(2,3) show thesis by (intro that [of D]) auto
next
  case (supersedes q n pre s post)
  let ?Q = "queue_of p (wm_channel m)"
  obtain D where D: "mset ?Q = mset q + D" "\<forall>w \<in># D. \<not> live dead w \<or> \<not> live dead' w" "size D = length ?Q - length q"
    using refreshed_corpses [of ?Q dead dead' m] supersedes(2) by metis
  have p': "res = Superseded s" "pr_dead_dropped p' = pr_dead_dropped p + word_of_nat n"
    "mset (parked_members p') + mset ?Q = mset (parked_members p) + (mset (pre @ post) + {#m#})"
    using off supersedes(8) parked_set [OF inv refl, of "pre @ post @ [m]" "wm_channel m"] by (auto simp: parked_members_def)
  have "mset ?Q = mset (pre @ post) + ({#s#} + D)" using D(1) supersedes(5) by simp
  from exchange [OF p'(3) this] p'(1,2) supersedes(3) D(2,3) show thesis by (intro that [of D]) auto
qed

lemma drain_conserves:
  assumes "drain_expired dead now last_log p = (drained, lines, last_log', p')"
  obtains corpses where "mset (parked_members p) = mset (parked_members p') + mset drained + corpses"
    "\<forall>w \<in># corpses. \<not> live dead w" "pr_dead_dropped p' = pr_dead_dropped p + word_of_nat (size corpses)"
proof -
  let ?D = "mset (filter (\<lambda>w. \<not> live dead w) (parked_members p))"
  have a: "mset (parked_members p) = mset (filter (live dead) (parked_members p)) + ?D" unfolding mset_filter by (rule multiset_partition)
  have b: "mset (filter (live dead) (parked_members p)) = mset (parked_members p') + mset drained"
    unfolding drain_parked [OF assms] drain_fields(1) [OF assms]
    using multiset_partition [of "mset (filter (live dead) (parked_members p))" "\<lambda>w. now < wm_deadline w"]
    by (simp add: filter_filter_mset conj_commute not_less)
  have c: "pr_dead_dropped p' = pr_dead_dropped p + word_of_nat (size ?D)"
    unfolding drain_fields(3) [OF assms] size_mset ..
  show thesis by (rule that [OF a [unfolded b] _ c]) simp
qed

lemma pairer_step_inv:
  assumes "pairer_inv p"
  shows "pairer_inv (snd (snd (pairer_step (out, reported, p) ev)))"
proof (cases ev)
  case (Offer dead dead' m)
  then show ?thesis using offer_inv [OF assms, of dead dead' m] by (auto split: prod.splits)
next
  case (Drain dead now last_log)
  obtain drained lines last_log' p' where "drain_expired dead now last_log p = (drained, lines, last_log', p')"
    by (metis prod_cases4)
  with drain_inv [OF this assms] show ?thesis using Drain by simp
next
  case TakeDead
  then show ?thesis using assms by (simp add: take_dead_dropped_def pairer_inv_def)
qed

lemma run_pairer_inv: "pairer_inv (run_pairer evs)"
proof (induction evs rule: rev_induct)
  case Nil
  show ?case by (simp add: run_pairer_def pairer_run_def pairer_inv_def pairer_new_def)
next
  case (snoc ev evs)
  obtain out reported p where "pairer_run evs = (out, reported, p)" by (cases "pairer_run evs")
  with snoc pairer_step_inv [of p out reported ev] show ?case by (simp add: run_pairer_def pairer_run_def)
qed

lemma pairer_inv_entry: "pairer_inv p \<Longrightarrow> (channel, q) \<in> set (pr_waiting p) \<Longrightarrow> queue_ok channel q"
  by (simp add: pairer_inv_def hm_wf_def hm_get_def)

lemma two_holders:
  assumes "queue_ok channel q"
  obtains g h where "wm_holder ` set q \<subseteq> {g, h}"
proof -
  obtain w where w: "w \<in> set q" using assms by (cases q) (auto simp: queue_ok_def)
  have apart: "\<not> phase_compatible (wm_phase u) (wm_phase v)" if "u \<in> set q" "v \<in> set q" "wm_holder u \<noteq> wm_holder v" for u v
    using assms that by (auto simp: queue_ok_def)
  have "wm_holder u = wm_holder v"
    if "u \<in> set q" "v \<in> set q" "wm_holder u \<noteq> wm_holder w" "wm_holder v \<noteq> wm_holder w" for u v
    using apart [OF that(1) w that(3)] apart [OF that(2) w that(4)] apart [OF that(1,2)]
    by (cases "wm_phase u"; cases "wm_phase v"; cases "wm_phase w") (auto simp: phase_compatible_def)
  then have "\<exists>h. wm_holder ` set q \<subseteq> {wm_holder w, h}" by (cases "\<exists>u \<in> set q. wm_holder u \<noteq> wm_holder w") auto
  then show thesis using that by blast
qed

lemma length_two_holders: "wm_holder ` set q \<subseteq> {g, h} \<Longrightarrow> length q \<le> own_parks g q + own_parks h q"
  by (induction q) auto

lemma queue_ok_length:
  assumes "queue_ok channel q"
  shows "card (wm_holder ` set q) \<le> 2" "length q \<le> 8"
proof -
  obtain g h where gh: "wm_holder ` set q \<subseteq> {g, h}" using two_holders [OF assms] .
  have "card {g, h} \<le> 2" by (simp add: card_insert_if)
  then show "card (wm_holder ` set q) \<le> 2" using card_mono [OF _ gh] by simp
  have "own_parks g q \<le> 4" "own_parks h q \<le> 4" using assms by (simp_all add: queue_ok_def PARKS_PER_MEMBER_def)
  then show "length q \<le> 8" using length_two_holders [OF gh] by linarith
qed

lemma pairer_len_bound: "pairer_inv p \<Longrightarrow> pairer_len p \<le> 8 * hm_len (pr_waiting p)"
proof -
  assume inv: "pairer_inv p"
  have "length (snd e) \<le> 8" if "e \<in> set (pr_waiting p)" for e
    using queue_ok_length(2) pairer_inv_entry [OF inv] that by (cases e) auto
  then have "sum_list (map (length \<circ> snd) es) \<le> 8 * length es" if "set es \<subseteq> set (pr_waiting p)" for es
    using that by (induction es) force+
  then show ?thesis by (simp add: pairer_len_def hm_len_def)
qed

lemma pairer_empty_len:
  assumes "pairer_inv p"
  shows "pairer_is_empty p \<longleftrightarrow> pairer_len p = 0"
proof (cases "pr_waiting p")
  case (Cons e es)
  then have "snd e \<noteq> []" using pairer_inv_entry [OF assms, of "fst e" "snd e"] by (simp add: queue_ok_def)
  with Cons show ?thesis by (simp add: pairer_is_empty_def pairer_len_def)
qed (simp add: pairer_is_empty_def pairer_len_def)

definition accounted :: "'t pairer_event list \<Rightarrow> 't waiting_member list \<times> u64 \<times> 't channel_pairer \<Rightarrow> bool" where
  "accounted evs st \<longleftrightarrow> (case st of (out, reported, p) \<Rightarrow>
     \<exists>corpses. mset (offered evs) = mset (parked_members p) + mset out + corpses
       \<and> (\<forall>w \<in># corpses. \<exists>ev \<in> set evs. sees_dead ev w)
       \<and> reported + pr_dead_dropped p = word_of_nat (size corpses))"

text \<open>One more event, with the corpses it drops.\<close>

lemma accounted_more:
  assumes "accounted evs (out, reported, p)"
    and "mset (parked_members p) + mset (offered [ev]) = mset (parked_members p') + mset gone + D"
    and "\<forall>w \<in># D. sees_dead ev w" "reported' + pr_dead_dropped p' = reported + pr_dead_dropped p + word_of_nat (size D)"
  shows "accounted (evs @ [ev]) (out @ gone, reported', p')"
proof -
  obtain C where C: "mset (offered evs) = mset (parked_members p) + mset out + C" "\<forall>w \<in># C. \<exists>ev \<in> set evs. sees_dead ev w"
    "reported + pr_dead_dropped p = word_of_nat (size C)"
    using assms(1) by (auto simp: accounted_def)
  have "mset (offered (evs @ [ev])) = (mset (parked_members p) + mset (offered [ev])) + mset out + C"
    using C(1) by (simp add: offered_def)
  then have "mset (offered (evs @ [ev])) = mset (parked_members p') + mset (out @ gone) + (C + D)"
    unfolding assms(2) by (simp add: union_ac)
  moreover have "reported' + pr_dead_dropped p' = word_of_nat (size (C + D))" using C(3) assms(4) by simp
  moreover have "\<forall>w \<in># C + D. \<exists>ev' \<in> set (evs @ [ev]). sees_dead ev' w" using C(2) assms(3) by auto
  ultimately show ?thesis unfolding accounted_def by blast
qed

lemma accounted_step:
  assumes acc: "accounted evs (out, reported, p)" and inv: "pairer_inv p"
  shows "accounted (evs @ [ev]) (pairer_step (out, reported, p) ev)"
proof (cases ev)
  case (Offer dead dead' m)
  obtain res p' where off: "pairer_offer dead dead' p m = (res, p')" by (cases "pairer_offer dead dead' p m")
  show ?thesis
    using offer_conserves [OF inv off] accounted_more [OF acc, of ev p' "handed_out res" _ reported] Offer off
    by (auto simp: offered_def add.assoc)
next
  case (Drain dead now last_log)
  obtain drained lines last_log' p' where dr: "drain_expired dead now last_log p = (drained, lines, last_log', p')"
    by (metis prod_cases4)
  show ?thesis
    using drain_conserves [OF dr] accounted_more [OF acc, of ev p' drained _ reported] Drain dr
    by (auto simp: offered_def add.assoc)
next
  case TakeDead
  then show ?thesis
    using accounted_more [OF acc, of ev "p\<lparr>pr_dead_dropped := 0\<rparr>" "[]" "{#}" "reported + pr_dead_dropped p"]
    by (simp add: offered_def take_dead_dropped_def parked_members_def)
qed

section \<open>Properties\<close>

text \<open>
  C10. The pairer pairs right. Whatever came before, an arriving member is paired with the oldest parked
  member of its channel that is alive, of another holder and phase-compatible, and no other; only when
  there is none does it park, and only beyond four parks of its holder is the oldest of these given
  up. Corpses met on the way leave the queue, everything else keeps its place, and other channels are
  not touched.
\<close>

theorem offer_pairs_right:
  "case pairer_offer dead dead' (run_pairer evs) m of (res, p') \<Rightarrow>
     let q = queue_of (run_pairer evs) (wm_channel m); q' = queue_of p' (wm_channel m) in
     (case res of
        Paired c m' \<Rightarrow> m' = m \<and> wm_channel c = wm_channel m \<and> wm_holder c \<noteq> wm_holder m
          \<and> phase_compatible (wm_phase c) (wm_phase m) \<and> live dead c
          \<and> (\<exists>pre post. q = pre @ c # post \<and> (\<forall>w \<in> set pre. \<not> eligible dead m w) \<and> q' = filter (live dead) pre @ post)
      | Parked \<Rightarrow> (\<forall>w \<in> set q. \<not> eligible dead m w) \<and> q' = refreshed dead dead' m q @ [m]
      | Superseded s \<Rightarrow> (\<forall>w \<in> set q. \<not> eligible dead m w) \<and> length (filter (\<lambda>w. wm_holder w = wm_holder m) q') = 4
          \<and> (\<exists>pre post. refreshed dead dead' m q = pre @ s # post \<and> wm_holder s = wm_holder m
               \<and> (\<forall>w \<in> set pre. wm_holder w \<noteq> wm_holder m) \<and> q' = pre @ post @ [m]))
     \<and> (\<forall>ch. ch \<noteq> wm_channel m \<longrightarrow> queue_of p' ch = queue_of (run_pairer evs) ch)"
proof (cases rule: offer_cases [of "run_pairer evs" m dead dead'])
  case (pairs pre c post n)
  have "wm_channel c = wm_channel m"
    using queue_of_ok [OF run_pairer_inv, of evs "wm_channel m"] pairs(1) by (simp add: queue_ok_def)
  then show ?thesis
    unfolding pairs(5) prod.case Let_def queue_of_set pair_outcome.case
    using pairs(1-3) by (intro conjI exI [of _ pre] exI [of _ post]) (simp_all add: eligible_def)
next
  case (parks q n)
  show ?thesis
    unfolding parks(5) prod.case Let_def queue_of_insert pair_outcome.case
    using parks(1,2) by simp
next
  case (supersedes q n pre s post)
  have "pairer_inv (snd (pairer_offer dead dead' (run_pairer evs) m))" by (rule offer_inv [OF run_pairer_inv])
  from queue_of_ok [OF this, of "wm_channel m"] supersedes(8)
  have "queue_ok (wm_channel m) (pre @ post @ [m])" by (simp add: queue_of_def)
  then have "own_parks (wm_holder m) (pre @ post @ [m]) \<le> 4" unfolding queue_ok_def PARKS_PER_MEMBER_def by blast
  moreover have "4 \<le> own_parks (wm_holder m) (pre @ s # post)" using supersedes(4,5) by (simp add: PARKS_PER_MEMBER_def)
  ultimately have "own_parks (wm_holder m) (pre @ post @ [m]) = 4" using supersedes(6) by simp
  then show ?thesis
    unfolding supersedes(8) prod.case Let_def queue_of_insert pair_outcome.case
    using supersedes(1,2,5,6,7) by (intro conjI exI [of _ pre] exI [of _ post]) simp_all
qed

text \<open>
  Queues stay small and settled. After any run of offers, sweeps and reads a channel's queue holds
  parks of that channel only, at most four per holder, of at most two holders, hence at most eight; no
  two of them could still be paired; no empty queue is kept, so that \<open>is_empty\<close> agrees with \<open>len\<close>.
\<close>

theorem pairer_bounded:
  "let p = run_pairer evs; q = queue_of p channel in
     (\<forall>w \<in> set q. wm_channel w = channel) \<and> (\<forall>h. length (filter (\<lambda>w. wm_holder w = h) q) \<le> 4)
     \<and> card (wm_holder ` set q) \<le> 2 \<and> length q \<le> 8
     \<and> (\<forall>w \<in> set q. \<forall>v \<in> set q. wm_holder w \<noteq> wm_holder v \<longrightarrow> \<not> phase_compatible (wm_phase w) (wm_phase v))
     \<and> (pairer_is_empty p \<longleftrightarrow> pairer_len p = 0) \<and> pairer_len p \<le> 8 * hm_len (pr_waiting p)"
proof -
  let ?p = "run_pairer evs"
  have inv: "pairer_inv ?p" by (rule run_pairer_inv)
  have ok: "queue_of ?p channel \<noteq> [] \<Longrightarrow> queue_ok channel (queue_of ?p channel)" using queue_of_ok [OF inv] .
  show ?thesis using ok queue_ok_length [OF ok] pairer_empty_len [OF inv] pairer_len_bound [OF inv]
    by (cases "queue_of ?p channel = []") (auto simp: queue_ok_def PARKS_PER_MEMBER_def)
qed

text \<open>
  C11. Nobody is lost or handed out twice. After any run the members offered are exactly those parked,
  those handed out (paired, superseded or expired) and the corpses, each once; a corpse was dropped
  only by an operation that saw its flag set, and the counts reported add up to the number of corpses.
\<close>

theorem pairer_conserves:
  "case pairer_run evs of (out, reported, p) \<Rightarrow>
     \<exists>corpses. mset (offered evs) = mset (parked_members p) + mset out + corpses
       \<and> (\<forall>w \<in># corpses. \<exists>ev \<in> set evs. sees_dead ev w)
       \<and> reported + pr_dead_dropped p = word_of_nat (size corpses)"
proof (induction evs rule: rev_induct)
  case Nil
  show ?case by (simp add: pairer_run_def pairer_new_def parked_members_def offered_def hm_empty_def)
next
  case (snoc ev evs)
  obtain out reported p where run: "pairer_run evs = (out, reported, p)" by (cases "pairer_run evs")
  have "accounted evs (out, reported, p)" using snoc run by (simp add: accounted_def)
  moreover have "pairer_inv p" using run_pairer_inv [of evs] by (simp add: run_pairer_def run)
  moreover have "pairer_run (evs @ [ev]) = pairer_step (out, reported, p) ev" using run by (simp add: pairer_run_def)
  ultimately have "accounted (evs @ [ev]) (pairer_run (evs @ [ev]))" using accounted_step by simp
  then show ?case by (simp only: accounted_def)
qed

text \<open>
  A sweep ends exactly the parks whose time is over. It returns the live members whose deadline has
  come, keeps the live others in their order, counts the corpses, and leaves nobody parked past his
  deadline.
\<close>

theorem drain_expired_exact:
  "case drain_expired dead now last_log (run_pairer evs) of (drained, lines, last_log', p') \<Rightarrow>
     drained = filter (\<lambda>w. live dead w \<and> wm_deadline w \<le> now) (parked_members (run_pairer evs))
     \<and> (\<forall>ch. queue_of p' ch = filter (\<lambda>w. live dead w \<and> now < wm_deadline w) (queue_of (run_pairer evs) ch))
     \<and> pr_dead_dropped p' = pr_dead_dropped (run_pairer evs)
         + word_of_nat (length (filter (\<lambda>w. \<not> live dead w) (parked_members (run_pairer evs))))"
proof -
  obtain drained lines last_log' p' where dr: "drain_expired dead now last_log (run_pairer evs) = (drained, lines, last_log', p')"
    by (metis prod_cases4)
  show ?thesis using drain_fields [OF dr] drain_get [OF dr run_pairer_inv]
    by (simp add: dr queue_of_def split: option.split)
qed

section \<open>A run\<close>

definition ex_park :: "u8 \<Rightarrow> u64 \<Rightarrow> park_liveness \<Rightarrow> park_phase \<Rightarrow> unit waiting_member" where
  "ex_park h deadline l ph = \<lparr>wm_channel = [7], wm_holder = [h], wm_observed = None, wm_deadline = deadline,
     wm_liveness = l, wm_phase = ph, wm_payload = ()\<rparr>"

definition ex_dead :: "nat \<Rightarrow> bool" where
  "ex_dead n \<longleftrightarrow> n = 0"

definition ex_evs :: "unit pairer_event list" where
  "ex_evs = [Offer ex_dead ex_dead (ex_park 1 30 (Some 0) Relay), Offer (\<lambda>_. False) (\<lambda>_. False) (ex_park 1 40 (Some 1) Relay),
     Offer (\<lambda>_. False) (\<lambda>_. False) (ex_park 2 50 None Rendezvous)]"

lemma ex_evs_queue:
  "queue_of (run_pairer ex_evs) [7] = [ex_park 1 30 (Some 0) Relay, ex_park 1 40 (Some 1) Relay, ex_park 2 50 None Rendezvous]"
  by code_simp

lemma ex_offer_pairs:
  "fst (pairer_offer ex_dead ex_dead (run_pairer ex_evs) (ex_park 3 60 None Relay))
     = Paired (ex_park 1 40 (Some 1) Relay) (ex_park 3 60 None Relay)"
  "queue_of (snd (pairer_offer ex_dead ex_dead (run_pairer ex_evs) (ex_park 3 60 None Relay))) [7] = [ex_park 2 50 None Rendezvous]"
  by code_simp+

theorem offer_pairs_right_witness:
  "\<exists>p'. pairer_offer ex_dead ex_dead (run_pairer ex_evs) (ex_park 3 60 None Relay)
       = (Paired (ex_park 1 40 (Some 1) Relay) (ex_park 3 60 None Relay), p')
     \<and> queue_of p' [7] = [ex_park 2 50 None Rendezvous]
     \<and> (\<forall>ch. ch \<noteq> [7] \<longrightarrow> queue_of p' ch = queue_of (run_pairer ex_evs) ch)"
proof -
  let ?m = "ex_park 3 60 None Relay"
  obtain res p' where off: "pairer_offer ex_dead ex_dead (run_pairer ex_evs) ?m = (res, p')" by fastforce
  have "\<forall>ch. ch \<noteq> wm_channel ?m \<longrightarrow> queue_of p' ch = queue_of (run_pairer ex_evs) ch"
    using offer_pairs_right [where dead = ex_dead and dead' = ex_dead and evs = ex_evs and m = ?m] unfolding off prod.case Let_def by (elim conjE)
  then show ?thesis using ex_offer_pairs unfolding off by (simp add: ex_park_def)
qed

theorem pairer_bounded_witness:
  "\<exists>w v. w \<in> set (queue_of (run_pairer ex_evs) [7]) \<and> v \<in> set (queue_of (run_pairer ex_evs) [7])
     \<and> wm_holder w \<noteq> wm_holder v \<and> \<not> phase_compatible (wm_phase w) (wm_phase v)"
proof -
  let ?q = "queue_of (run_pairer ex_evs) [7]"
  have "\<forall>w \<in> set ?q. \<forall>v \<in> set ?q. wm_holder w \<noteq> wm_holder v \<longrightarrow> \<not> phase_compatible (wm_phase w) (wm_phase v)"
    using pairer_bounded [where evs = ex_evs and channel = "[7]"] unfolding Let_def by (elim conjE)
  moreover have "ex_park 1 30 (Some 0) Relay \<in> set ?q" "ex_park 2 50 None Rendezvous \<in> set ?q" by (simp_all add: ex_evs_queue)
  moreover have "wm_holder (ex_park 1 30 (Some 0) Relay) \<noteq> wm_holder (ex_park 2 50 None Rendezvous)" by (simp add: ex_park_def)
  ultimately show ?thesis by blast
qed

definition ex_run :: "unit pairer_event list" where
  "ex_run = ex_evs @ [Offer ex_dead ex_dead (ex_park 3 60 None Relay), Drain ex_dead 100 0, TakeDead]"

lemma ex_run_result:
  "fst (pairer_run ex_run) = [ex_park 1 40 (Some 1) Relay, ex_park 3 60 None Relay, ex_park 2 50 None Rendezvous]"
  "fst (snd (pairer_run ex_run)) = 1" "parked_members (snd (snd (pairer_run ex_run))) = []" "pr_dead_dropped (snd (snd (pairer_run ex_run))) = 0"
  by code_simp+

theorem pairer_conserves_witness:
  "\<exists>corpses. mset (offered ex_run) = mset [ex_park 1 40 (Some 1) Relay, ex_park 3 60 None Relay, ex_park 2 50 None Rendezvous] + corpses
     \<and> (\<forall>w \<in># corpses. \<exists>ev \<in> set ex_run. sees_dead ev w) \<and> (1 :: u64) = word_of_nat (size corpses)"
proof -
  obtain out reported p where r: "pairer_run ex_run = (out, reported, p)" by (cases "pairer_run ex_run")
  show ?thesis using pairer_conserves [of ex_run] ex_run_result unfolding r by simp
qed

end
