(* ===== verification/Revocation.thy ===== *)
theory Revocation
  imports Hex
begin

text \<open>
  Per-grant revocation at the edge (\<open>src/crates/edge/src/grant_revocation.rs\<close>): the admission verdict, the
  answer for the sweep of live splices, and the control-plane source with its cache. A lookup that must
  ask the control plane is cut in two at its await, so that other lookups may run in between; the
  response of the control plane is an argument of the second half. An \<open>Instant\<close> is a number of
  nanoseconds.
\<close>

section \<open>Verdicts\<close>

datatype revocation_lookup_error = Unsupported | Unreadable

datatype admission_verdict = VerdictAllowed | VerdictRevoked | VerdictUnreadable

text \<open>The answer of the installed source, \<open>None\<close> when there is none.\<close>

definition admission_verdict_of :: "(revocation_lookup_error + bytes list) option \<Rightarrow> bytes \<Rightarrow> admission_verdict" where
  "admission_verdict_of answer digest =
     (case answer of
        None \<Rightarrow> VerdictAllowed
      | Some (Inr v) \<Rightarrow> if digest \<in> set v then VerdictRevoked else VerdictAllowed
      | Some (Inl Unsupported) \<Rightarrow> VerdictAllowed
      | Some (Inl Unreadable) \<Rightarrow> VerdictUnreadable)"

definition revoked_for_sweep :: "(revocation_lookup_error + bytes list) option \<Rightarrow> bytes list" where
  "revoked_for_sweep answer = (case answer of None \<Rightarrow> [] | Some (Inr v) \<Rightarrow> v | Some (Inl _) \<Rightarrow> [])"

section \<open>The control-plane source\<close>

definition NOT_REVOKED_TTL :: nat where
  "NOT_REVOKED_TTL = 5 * 10 ^ 9"

definition UNSUPPORTED_TTL :: nat where
  "UNSUPPORTED_TTL = 300 * 10 ^ 9"

definition MAX_CACHED :: nat where
  "MAX_CACHED = 4096"

record cp_revocation_source =
  rs_cache :: "(bytes \<times> bytes, bool \<times> nat) hmap"
  rs_unsupported_until :: "nat option"

definition source_new :: cp_revocation_source where
  "source_new = \<lparr>rs_cache = hm_empty, rs_unsupported_until = None\<rparr>"

definition cached :: "cp_revocation_source \<Rightarrow> nat \<Rightarrow> bytes \<Rightarrow> bytes \<Rightarrow> bool option" where
  "cached src now channel d =
     (case hm_get (rs_cache src) (channel, d) of
        None \<Rightarrow> None
      | Some (revoked, at) \<Rightarrow> if revoked \<or> now - at < NOT_REVOKED_TTL then Some revoked else None)"

text \<open>What an HTTP exchange may give: no response, or a status with the strings of the body if it could be read.\<close>

datatype cp_response = TransportFailure | CpResponse nat "bytes list option"

text \<open>The first half: an answer, or the digests already known as revoked and those to ask about.\<close>

datatype lookup = Answered "revocation_lookup_error + bytes list" | MustAsk "bytes list" "bytes list"

definition ask_begin :: "nat \<Rightarrow> cp_revocation_source \<Rightarrow> bytes \<Rightarrow> bytes list \<Rightarrow> lookup" where
  "ask_begin now src channel digests =
     (if (case rs_unsupported_until src of None \<Rightarrow> False | Some t \<Rightarrow> now < t) then Answered (Err Unsupported)
      else let revoked = filter (\<lambda>d. cached src now channel d = Some True) digests;
               unknown = filter (\<lambda>d. cached src now channel d = None) digests
           in if unknown = [] then Answered (Ok revoked) else MustAsk revoked unknown)"

definition decode32 :: "bytes \<Rightarrow> bytes option" where
  "decode32 s = hex_decode_32 s"

definition make_cache_room :: "nat \<Rightarrow> (bytes \<times> bytes, bool \<times> nat) hmap \<Rightarrow> (bytes \<times> bytes, bool \<times> nat) hmap" where
  "make_cache_room now c =
     (if MAX_CACHED \<le> hm_len c
      then let c = hm_retain (\<lambda>_ (r, at). r \<or> now - at < NOT_REVOKED_TTL) c
           in if MAX_CACHED \<le> hm_len c then hm_empty else c
      else c)"

definition ask_end ::
  "nat \<Rightarrow> cp_revocation_source \<Rightarrow> bytes \<Rightarrow> bytes list \<Rightarrow> bytes list \<Rightarrow> cp_response
     \<Rightarrow> (revocation_lookup_error + bytes list) \<times> cp_revocation_source" where
  "ask_end now src channel revoked unknown response =
     (case response of
        TransportFailure \<Rightarrow> (Err Unreadable, src)
      | CpResponse status body \<Rightarrow>
          if status = 404 \<or> status = 405
          then (Err Unsupported, src\<lparr>rs_unsupported_until := Some (now + UNSUPPORTED_TTL)\<rparr>)
          else if \<not> (200 \<le> status \<and> status < 300) then (Err Unreadable, src)
          else case body of None \<Rightarrow> (Err Unreadable, src) | Some strings \<Rightarrow>
            let got = List.map_filter decode32 strings;
                c = foldl (\<lambda>c d. hm_insert (channel, d) (d \<in> set got, now) c) (make_cache_room now (rs_cache src)) unknown
            in (Ok (revoked @ filter (\<lambda>d. d \<in> set unknown) got), src\<lparr>rs_cache := c\<rparr>))"

text \<open>A lookup that nothing else interrupts; \<open>post\<close> is the exchange with the control plane.\<close>

definition revoked_among ::
  "(bytes \<Rightarrow> bytes list \<Rightarrow> cp_response) \<Rightarrow> nat \<Rightarrow> nat \<Rightarrow> cp_revocation_source \<Rightarrow> bytes \<Rightarrow> bytes list
     \<Rightarrow> (revocation_lookup_error + bytes list) \<times> cp_revocation_source" where
  "revoked_among post now now' src channel digests =
     (case ask_begin now src channel digests of
        Answered r \<Rightarrow> (r, src)
      | MustAsk revoked unknown \<Rightarrow>
          ask_end now' src channel revoked unknown (post (hex_encode channel) (map hex_encode unknown)))"

section \<open>A truthful control plane\<close>

text \<open>
  \<open>R t\<close> is the set of channel and digest pairs revoked at time \<open>t\<close>. A response formed at time \<open>t\<close> is truthful
  when a list in it names exactly the digests asked about that are revoked then; failures are always
  possible.
\<close>

definition truthful :: "(nat \<Rightarrow> (bytes \<times> bytes) set) \<Rightarrow> nat \<Rightarrow> bytes \<Rightarrow> bytes list \<Rightarrow> cp_response \<Rightarrow> bool" where
  "truthful R t channel unknown response \<longleftrightarrow>
     (\<forall>status strings. response = CpResponse status (Some strings) \<longrightarrow>
        (\<forall>d \<in> set unknown. d \<in> set (List.map_filter decode32 strings) \<longleftrightarrow> (channel, d) \<in> R t))"

text \<open>
  Runs of the source up to a time: lookups end in any order, each with a response formed at most \<open>T\<close>
  before its end (the timeout of the HTTP client).
\<close>

inductive source_run :: "(nat \<Rightarrow> (bytes \<times> bytes) set) \<Rightarrow> nat \<Rightarrow> cp_revocation_source \<Rightarrow> nat \<Rightarrow> bool"
  for R T where
  start: "source_run R T source_new now"
| wait: "source_run R T src now \<Longrightarrow> now \<le> now' \<Longrightarrow> source_run R T src now'"
| ask: "source_run R T src now \<Longrightarrow> t \<le> now \<Longrightarrow> now \<le> t + T \<Longrightarrow> truthful R t channel unknown response \<Longrightarrow>
    source_run R T (snd (ask_end now src channel revoked unknown response)) now"

text \<open>A value stored at \<open>at\<close> was true of the world \<open>W\<close> at most \<open>T\<close> before.\<close>

definition attested :: "(nat \<Rightarrow> 'k \<Rightarrow> 'v) \<Rightarrow> nat \<Rightarrow> nat \<Rightarrow> 'k \<Rightarrow> 'v \<Rightarrow> nat \<Rightarrow> bool" where
  "attested W T now k v at \<longleftrightarrow> at \<le> now \<and> (\<exists>t \<le> at. at \<le> t + T \<and> v = W t k)"

lemma attested_later: "attested W T now k v at \<Longrightarrow> now \<le> now' \<Longrightarrow> attested W T now' k v at"
  by (auto simp: attested_def)

lemma attested_now: "t \<le> now \<Longrightarrow> now \<le> t + T \<Longrightarrow> v = W t k \<Longrightarrow> attested W T now k v now"
  by (auto simp: attested_def)

definition entry_ok :: "(nat \<Rightarrow> (bytes \<times> bytes) set) \<Rightarrow> nat \<Rightarrow> nat \<Rightarrow> bytes \<times> bytes \<Rightarrow> bool \<times> nat \<Rightarrow> bool" where
  "entry_ok R T now k e \<longleftrightarrow> (case e of (revoked, at) \<Rightarrow> attested (\<lambda>t k. k \<in> R t) T now k revoked at)"

definition cache_ok :: "(nat \<Rightarrow> (bytes \<times> bytes) set) \<Rightarrow> nat \<Rightarrow> nat \<Rightarrow> (bytes \<times> bytes, bool \<times> nat) hmap \<Rightarrow> bool" where
  "cache_ok R T now c \<longleftrightarrow> hm_wf c \<and> (\<forall>k e. hm_get c k = Some e \<longrightarrow> entry_ok R T now k e)"

lemma entry_ok_later: "entry_ok R T now k e \<Longrightarrow> now \<le> now' \<Longrightarrow> entry_ok R T now' k e"
  by (auto simp: entry_ok_def intro: attested_later)

lemma make_cache_room_ok: "cache_ok R T now c \<Longrightarrow> cache_ok R T now (make_cache_room now c)"
  by (auto simp: cache_ok_def make_cache_room_def Let_def hm.get_retain split: option.splits if_splits)

lemma insert_answers_ok:
  assumes "cache_ok R T now c" "t \<le> now" "now \<le> t + T" "\<forall>d \<in> set ds. d \<in> got \<longleftrightarrow> (channel, d) \<in> R t"
  shows "cache_ok R T now (foldl (\<lambda>c d. hm_insert (channel, d) (d \<in> got, now) c) c ds)"
  using assms
proof (induction ds arbitrary: c)
  case (Cons d ds)
  have "cache_ok R T now (hm_insert (channel, d) (d \<in> got, now) c)"
    using Cons.prems unfolding cache_ok_def entry_ok_def attested_def by auto
  with Cons show ?case by simp
qed simp

lemma ask_end_ok:
  assumes "cache_ok R T now (rs_cache src)" "t \<le> now" "now \<le> t + T" "truthful R t channel unknown response"
  shows "cache_ok R T now (rs_cache (snd (ask_end now src channel revoked unknown response)))"
  using assms insert_answers_ok [OF make_cache_room_ok [OF assms(1)] assms(2,3), of unknown _ channel]
  by (auto simp: ask_end_def Let_def truthful_def split: cp_response.split option.split)

lemma source_run_ok: "source_run R T src now \<Longrightarrow> cache_ok R T now (rs_cache src)"
proof (induction rule: source_run.induct)
  case (start now)
  show ?case by (simp add: source_new_def cache_ok_def)
next
  case (wait src now now')
  then show ?case using entry_ok_later unfolding cache_ok_def by blast
next
  case (ask src now t channel unknown response revoked)
  then show ?case using ask_end_ok by blast
qed

lemma cached_True:
  assumes "source_run R T src now" "mono R" "cached src now channel d = Some True"
  shows "(channel, d) \<in> R now"
proof -
  obtain at where "hm_get (rs_cache src) (channel, d) = Some (True, at)"
    using assms(3) by (auto simp: cached_def split: option.splits prod.splits if_splits)
  then have "entry_ok R T now (channel, d) (True, at)" using source_run_ok [OF assms(1)] unfolding cache_ok_def by blast
  then obtain t where "t \<le> now" "(channel, d) \<in> R t" by (auto simp: entry_ok_def attested_def intro: le_trans)
  then show ?thesis using monoD [OF assms(2)] by blast
qed

lemma cached_False:
  assumes "source_run R T src now" "mono R" "cached src now channel d = Some False"
    and "t0 + T + NOT_REVOKED_TTL \<le> now"
  shows "(channel, d) \<notin> R t0"
proof -
  obtain at where at: "hm_get (rs_cache src) (channel, d) = Some (False, at)" "now - at < NOT_REVOKED_TTL"
    using assms(3) by (auto simp: cached_def split: option.splits prod.splits if_splits)
  then have "entry_ok R T now (channel, d) (False, at)" using source_run_ok [OF assms(1)] unfolding cache_ok_def by blast
  then obtain t where "at \<le> t + T" "(channel, d) \<notin> R t" by (auto simp: entry_ok_def attested_def)
  moreover have "t0 \<le> t" using at(2) assms(4) \<open>at \<le> t + T\<close> by linarith
  ultimately show ?thesis using monoD [OF assms(2)] by blast
qed

lemma ask_begin_cases:
  obtains (unsupported) "ask_begin now src channel [d] = Answered (Err Unsupported)"
  | (revoked) "ask_begin now src channel [d] = Answered (Ok [d])" "cached src now channel d = Some True"
  | (clear) "ask_begin now src channel [d] = Answered (Ok [])" "cached src now channel d = Some False"
  | (unknown) "ask_begin now src channel [d] = MustAsk [] [d]"
  by (cases "case rs_unsupported_until src of None \<Rightarrow> False | Some t \<Rightarrow> now < t"; cases "cached src now channel d"; cases "cached src now channel d = Some True")
    (auto simp: ask_begin_def)

lemma ask_end_single:
  assumes "truthful R t channel [d] response" "fst (ask_end now src channel [] [d] response) = Ok v"
  shows "d \<in> set v \<longleftrightarrow> (channel, d) \<in> R t"
  using assms by (auto simp: ask_end_def truthful_def Let_def split: cp_response.splits option.splits if_splits)

lemma lookup_right:
  assumes run: "source_run R T src now" "now \<le> now'" and mono: "mono R"
    and ended: "case ask_begin now src channel [d] of
        Answered r \<Rightarrow> answer = r
      | MustAsk revoked unknown \<Rightarrow> \<exists>t response. now \<le> t \<and> t \<le> now' \<and> truthful R t channel unknown response
          \<and> answer = fst (ask_end now' src' channel revoked unknown response)"
    and ok: "answer = Ok v"
  shows "(d \<in> set v \<longrightarrow> (channel, d) \<in> R now') \<and> ((channel, d) \<in> R t0 \<and> t0 + T + NOT_REVOKED_TTL \<le> now \<longrightarrow> d \<in> set v)"
proof (cases rule: ask_begin_cases [of now src channel d])
  case unsupported
  then show ?thesis using ended ok by simp
next
  case revoked
  then have "(channel, d) \<in> R now'" using cached_True [OF run(1) mono] monoD [OF mono run(2)] by blast
  then show ?thesis using ended revoked(1) ok by simp
next
  case clear
  then show ?thesis using ended ok cached_False [OF run(1) mono] by auto
next
  case unknown
  then obtain t response where t: "now \<le> t" "t \<le> now'" "truthful R t channel [d] response"
    "answer = fst (ask_end now' src' channel [] [d] response)"
    using ended by auto
  have "d \<in> set v \<longleftrightarrow> (channel, d) \<in> R t" using ask_end_single [OF t(3)] t(4) ok by metis
  moreover have "R t \<subseteq> R now'" "t0 \<le> now \<Longrightarrow> R t0 \<subseteq> R t" using monoD [OF mono] t(1,2) by simp_all
  ultimately show ?thesis by auto
qed

section \<open>Revocation reaches admission\<close>

text \<open>
  C15. A lookup of a truthful control plane's list is right up to seconds. Whatever other lookups run and
  fail around it: a grant it reports as revoked is revoked; a grant revoked longer ago than the request
  timeout and the five seconds of a cached answer is reported as revoked, unless the lookup fails; and
  the verdict for a failed lookup is to refuse, unless the control plane has no list at all.
\<close>

theorem revocation_reaches_admission:
  assumes run: "source_run R T src now" "now \<le> now'" and mono: "mono R"
    and ended: "case ask_begin now src channel [d] of
        Answered r \<Rightarrow> answer = r
      | MustAsk revoked unknown \<Rightarrow> \<exists>t response. now \<le> t \<and> t \<le> now' \<and> truthful R t channel unknown response
          \<and> answer = fst (ask_end now' src' channel revoked unknown response)"
  shows "(admission_verdict_of (Some answer) d = VerdictRevoked \<longrightarrow> (channel, d) \<in> R now')
    \<and> ((channel, d) \<in> R t0 \<and> t0 + T + NOT_REVOKED_TTL \<le> now \<longrightarrow>
         admission_verdict_of (Some answer) d = VerdictRevoked \<or> answer = Err Unsupported \<or> answer = Err Unreadable)
    \<and> (admission_verdict_of (Some answer) d = VerdictAllowed \<longleftrightarrow>
         answer = Err Unsupported \<or> (\<exists>v. answer = Ok v \<and> d \<notin> set v))"
proof (cases answer)
  case (Inl e)
  then show ?thesis by (cases e) (simp_all add: admission_verdict_of_def)
next
  case (Inr v)
  then show ?thesis using lookup_right [OF assms Inr, of t0] by (auto simp: admission_verdict_of_def)
qed

text \<open>
  The witness: a grant revoked at second 20 was looked up at second 19, so that the edge knows it as
  not revoked; at second 30 the answer is too old and it is refused.
\<close>

definition ex_revoked :: "nat \<Rightarrow> (bytes \<times> bytes) set" where
  "ex_revoked t = (if 20 * 10 ^ 9 \<le> t then {([1], replicate 32 2)} else {})"

definition ex_source :: cp_revocation_source where
  "ex_source = snd (ask_end (19 * 10 ^ 9) source_new [1] [] [replicate 32 2] (CpResponse 200 (Some [])))"

definition ex_answer :: "revocation_lookup_error + bytes list" where
  "ex_answer = fst (revoked_among (\<lambda>_ ds. CpResponse 200 (Some ds)) (30 * 10 ^ 9) (30 * 10 ^ 9) ex_source [1] [replicate 32 2])"

theorem revocation_reaches_admission_witness:
  "([1], replicate 32 2) \<in> ex_revoked (20 * 10 ^ 9) \<and> admission_verdict_of (Some ex_answer) (replicate 32 2) = VerdictRevoked
    \<and> ([1], replicate 32 2) \<in> ex_revoked (30 * 10 ^ 9)"
proof -
  let ?d = "replicate 32 2 :: bytes"
  have run: "source_run ex_revoked 0 ex_source (30 * 10 ^ 9)" unfolding ex_source_def
    by (rule source_run.wait [OF source_run.ask [OF source_run.start, where t = "19 * 10 ^ 9"]])
      (simp_all add: truthful_def ex_revoked_def List.map_filter_def)
  have ask: "ask_begin (30 * 10 ^ 9) ex_source [1] [?d] = MustAsk [] [?d]"
    by (simp add: ask_begin_def cached_def ex_source_def ask_end_def source_new_def make_cache_room_def MAX_CACHED_def
        NOT_REVOKED_TTL_def Let_def hm_len_def hm_empty_def hm_get_def List.map_filter_def)
  have got: "List.map_filter decode32 [hex_encode ?d] = [?d]" by code_simp
  have ans: "ex_answer = fst (ask_end (30 * 10 ^ 9) ex_source [1] [] [?d] (CpResponse 200 (Some [hex_encode ?d])))"
    unfolding ex_answer_def revoked_among_def ask by simp
  have mono: "mono ex_revoked" by (auto simp: ex_revoked_def mono_def)
  have "case ask_begin (30 * 10 ^ 9) ex_source [1] [?d] of
        Answered r \<Rightarrow> ex_answer = r
      | MustAsk revoked unknown \<Rightarrow> \<exists>t response. 30 * 10 ^ 9 \<le> t \<and> t \<le> 30 * 10 ^ 9 \<and> truthful ex_revoked t [1] unknown response
          \<and> ex_answer = fst (ask_end (30 * 10 ^ 9) ex_source [1] revoked unknown response)"
    unfolding ask lookup.case
    by (intro exI [of _ "30 * 10 ^ 9"] exI [of _ "CpResponse 200 (Some [hex_encode ?d])"])
      (use ans got in \<open>simp add: truthful_def ex_revoked_def\<close>)
  from revocation_reaches_admission [OF run le_refl mono this, of "20 * 10 ^ 9"]
  have "admission_verdict_of (Some ex_answer) ?d = VerdictRevoked" "([1], ?d) \<in> ex_revoked (30 * 10 ^ 9)"
    using got by (auto simp: ex_revoked_def NOT_REVOKED_TTL_def ans ask_end_def Let_def)
  then show ?thesis by (simp add: ex_revoked_def)
qed

end
