(* ===== verification/Authorizer.thy ===== *)
theory Authorizer
  imports Revocation Masque
begin

text \<open>
  Channel membership at the edge (\<open>src/crates/edge/src/channel_authorize.rs\<close>): the resolver that asks the
  control plane, with its positive and negative caches and their sweep. As in \<open>Revocation\<close>, a lookup is
  cut in two at its await.
\<close>

section \<open>State\<close>

definition CACHE_TTL :: nat where
  "CACHE_TTL = 30 * 10 ^ 9"

definition NEGATIVE_CACHE_TTL :: nat where
  "NEGATIVE_CACHE_TTL = 5 * 10 ^ 9"

definition SWEEP_INTERVAL :: nat where
  "SWEEP_INTERVAL = 30 * 10 ^ 9"

definition hex_decode_64 :: "bytes \<Rightarrow> bytes option" where
  "hex_decode_64 s = (if length s \<noteq> 128 then None else token_chunks s)"

record member_resolution =
  mr_operator_pubkey :: bytes
  mr_noise_pubkey :: "bytes option"
  mr_noise_attestation :: "bytes option"

record channel_authorizer =
  ca_cache :: "(bytes \<times> bytes, member_resolution \<times> nat) hmap"
  ca_cache_ttl :: nat
  ca_negative_cache :: "(bytes \<times> bytes, nat) hmap"
  ca_negative_cache_ttl :: nat
  ca_last_swept :: nat
  ca_sweep_interval :: nat

datatype auth_outcome = Authorized member_resolution | Refused | Unresolved

definition with_ttls_and_sweep_interval :: "nat \<Rightarrow> nat \<Rightarrow> nat \<Rightarrow> nat \<Rightarrow> channel_authorizer" where
  "with_ttls_and_sweep_interval now cache_ttl negative_cache_ttl sweep_interval =
     \<lparr>ca_cache = hm_empty, ca_cache_ttl = cache_ttl, ca_negative_cache = hm_empty, ca_negative_cache_ttl = negative_cache_ttl,
      ca_last_swept = now - sweep_interval, ca_sweep_interval = sweep_interval\<rparr>"

definition authorizer_new :: "nat \<Rightarrow> channel_authorizer" where
  "authorizer_new now = with_ttls_and_sweep_interval now CACHE_TTL NEGATIVE_CACHE_TTL SWEEP_INTERVAL"

definition maybe_sweep_expired :: "nat \<Rightarrow> channel_authorizer \<Rightarrow> channel_authorizer" where
  "maybe_sweep_expired now a =
     (if now - ca_last_swept a < ca_sweep_interval a then a
      else a\<lparr>ca_last_swept := now,
             ca_cache := hm_retain (\<lambda>_ (_, at). now - at < ca_cache_ttl a) (ca_cache a),
             ca_negative_cache := hm_retain (\<lambda>_ at. now - at < ca_negative_cache_ttl a) (ca_negative_cache a)\<rparr>)"

section \<open>The exchange with the control plane\<close>

record authorize_resp =
  ar_operator_pubkey :: bytes
  ar_noise_pubkey :: "bytes option"
  ar_noise_attestation :: "bytes option"

text \<open>No response, or a status with the body if it parses.\<close>

datatype authorize_reply = AuthorizeTransport | AuthorizeReply nat "authorize_resp option"

definition query :: "authorize_reply \<Rightarrow> auth_outcome" where
  "query resp =
     (case resp of
        AuthorizeTransport \<Rightarrow> Unresolved
      | AuthorizeReply status body \<Rightarrow>
          if status = 404 \<or> status = 401 then Refused
          else if \<not> (200 \<le> status \<and> status < 300) then Unresolved
          else case body of None \<Rightarrow> Unresolved | Some b \<Rightarrow>
            (case hex_decode_32 (ar_operator_pubkey b) of
               None \<Rightarrow> Unresolved
             | Some operator_pubkey \<Rightarrow>
                 Authorized \<lparr>mr_operator_pubkey = operator_pubkey,
                   mr_noise_pubkey = Option.bind (ar_noise_pubkey b) hex_decode_32,
                   mr_noise_attestation = Option.bind (ar_noise_attestation b) hex_decode_64\<rparr>))"

section \<open>Lookups\<close>

definition recently_refused :: "nat \<Rightarrow> channel_authorizer \<Rightarrow> bytes \<times> bytes \<Rightarrow> bool" where
  "recently_refused now a key =
     (case hm_get (ca_negative_cache a) key of None \<Rightarrow> False | Some at \<Rightarrow> now - at < ca_negative_cache_ttl a)"

definition note_refused :: "nat \<Rightarrow> bytes \<times> bytes \<Rightarrow> channel_authorizer \<Rightarrow> channel_authorizer" where
  "note_refused now key a =
     a\<lparr>ca_cache := hm_remove key (ca_cache a), ca_negative_cache := hm_insert key now (ca_negative_cache a)\<rparr>"

text \<open>Until the query: \<open>True\<close> when the lookup is refused at once.\<close>

definition resolve_begin :: "nat \<Rightarrow> channel_authorizer \<Rightarrow> bytes \<times> bytes \<Rightarrow> bool \<times> channel_authorizer" where
  "resolve_begin now a key = (let a = maybe_sweep_expired now a in (recently_refused now a key, a))"

definition resolve_end ::
  "nat \<Rightarrow> channel_authorizer \<Rightarrow> bytes \<times> bytes \<Rightarrow> auth_outcome \<Rightarrow> member_resolution option \<times> channel_authorizer" where
  "resolve_end now a key outcome =
     (case outcome of
        Authorized m \<Rightarrow>
          (Some m, a\<lparr>ca_cache := hm_insert key (m, now) (ca_cache a), ca_negative_cache := hm_remove key (ca_negative_cache a)\<rparr>)
      | Refused \<Rightarrow> (None, note_refused now key a)
      | Unresolved \<Rightarrow>
          (case hm_get (ca_cache a) key of
             None \<Rightarrow> (None, a)
           | Some (m, at) \<Rightarrow> (if now - at < ca_cache_ttl a then Some m else None, a)))"

text \<open>A lookup that nothing else interrupts; \<open>post\<close> is the exchange.\<close>

definition resolve ::
  "(bytes \<Rightarrow> bytes \<Rightarrow> authorize_reply) \<Rightarrow> nat \<Rightarrow> nat \<Rightarrow> channel_authorizer \<Rightarrow> bytes \<Rightarrow> bytes
     \<Rightarrow> member_resolution option \<times> channel_authorizer" where
  "resolve post now now' a channel holder =
     (case resolve_begin now a (channel, holder) of (refused, a) \<Rightarrow>
        if refused then (None, a)
        else resolve_end now' a (channel, holder) (query (post (hex_encode channel) (hex_encode holder))))"

definition authorize ::
  "(bytes \<Rightarrow> bytes \<Rightarrow> authorize_reply) \<Rightarrow> nat \<Rightarrow> nat \<Rightarrow> channel_authorizer \<Rightarrow> bytes \<Rightarrow> bytes
     \<Rightarrow> bytes option \<times> channel_authorizer" where
  "authorize post now now' a channel holder = map_prod (map_option mr_operator_pubkey) id (resolve post now now' a channel holder)"

definition not_member_end :: "nat \<Rightarrow> channel_authorizer \<Rightarrow> bytes \<times> bytes \<Rightarrow> auth_outcome \<Rightarrow> bool \<times> channel_authorizer" where
  "not_member_end now a key outcome = (if outcome = Refused then (True, note_refused now key a) else (False, a))"

definition definitively_not_a_member ::
  "(bytes \<Rightarrow> bytes \<Rightarrow> authorize_reply) \<Rightarrow> nat \<Rightarrow> nat \<Rightarrow> channel_authorizer \<Rightarrow> bytes \<Rightarrow> bytes \<Rightarrow> bool \<times> channel_authorizer" where
  "definitively_not_a_member post now now' a channel holder =
     (if recently_refused now a (channel, holder) then (True, a)
      else not_member_end now' a (channel, holder) (query (post (hex_encode channel) (hex_encode holder))))"

text \<open>A pair with a plus sign is accepted in an attestation, unlike in the keys.\<close>

lemma hex_decode_64_laxer:
  "hex_decode_64 (concat (replicate 64 [0x2B, 0x66])) = Some (replicate 64 15)" "hex_decode_32 (concat (replicate 32 [0x2B, 0x66])) = None"
  by code_simp+

section \<open>A truthful registry\<close>

text \<open>
  \<open>M t\<close> is the control plane's registry at time \<open>t\<close>. An outcome formed at \<open>t\<close> is truthful when a grant of
  membership is the registered one and a refusal means there is none; it may always be unresolved.
\<close>

definition truthful_outcome :: "(nat \<Rightarrow> bytes \<times> bytes \<Rightarrow> member_resolution option) \<Rightarrow> nat \<Rightarrow> bytes \<times> bytes \<Rightarrow> auth_outcome \<Rightarrow> bool" where
  "truthful_outcome M t key outcome \<longleftrightarrow>
     (case outcome of Authorized m \<Rightarrow> M t key = Some m | Refused \<Rightarrow> M t key = None | Unresolved \<Rightarrow> True)"

text \<open>Runs: sweeps and ends of lookups of both kinds, each with an outcome formed at most \<open>T\<close> before.\<close>

inductive authorizer_run ::
  "(nat \<Rightarrow> bytes \<times> bytes \<Rightarrow> member_resolution option) \<Rightarrow> nat \<Rightarrow> channel_authorizer \<Rightarrow> nat \<Rightarrow> bool"
  for M T where
  start: "authorizer_run M T (authorizer_new now) now"
| wait: "authorizer_run M T a now \<Longrightarrow> now \<le> now' \<Longrightarrow> authorizer_run M T a now'"
| sweep: "authorizer_run M T a now \<Longrightarrow> authorizer_run M T (maybe_sweep_expired now a) now"
| resolved: "authorizer_run M T a now \<Longrightarrow> t \<le> now \<Longrightarrow> now \<le> t + T \<Longrightarrow> truthful_outcome M t key outcome \<Longrightarrow>
    authorizer_run M T (snd (resolve_end now a key outcome)) now"
| checked: "authorizer_run M T a now \<Longrightarrow> t \<le> now \<Longrightarrow> now \<le> t + T \<Longrightarrow> truthful_outcome M t key outcome \<Longrightarrow>
    authorizer_run M T (snd (not_member_end now a key outcome)) now"

definition authorizer_ok :: "(nat \<Rightarrow> bytes \<times> bytes \<Rightarrow> member_resolution option) \<Rightarrow> nat \<Rightarrow> nat \<Rightarrow> channel_authorizer \<Rightarrow> bool" where
  "authorizer_ok M T now a \<longleftrightarrow> hm_wf (ca_cache a) \<and> hm_wf (ca_negative_cache a)
     \<and> ca_cache_ttl a = CACHE_TTL \<and> ca_negative_cache_ttl a = NEGATIVE_CACHE_TTL
     \<and> (\<forall>k m at. hm_get (ca_cache a) k = Some (m, at) \<longrightarrow> attested M T now k (Some m) at)
     \<and> (\<forall>k at. hm_get (ca_negative_cache a) k = Some at \<longrightarrow> attested M T now k None at)"

lemma sweep_ok: "authorizer_ok M T now a \<Longrightarrow> authorizer_ok M T now (maybe_sweep_expired now a)"
  by (auto simp: authorizer_ok_def maybe_sweep_expired_def hm.get_retain split: option.splits if_splits)

lemma note_refused_ok:
  assumes "authorizer_ok M T now a" "t \<le> now" "now \<le> t + T" "M t key = None"
  shows "authorizer_ok M T now (note_refused now key a)"
  using assms attested_now [of t now T None M key]
  by (auto simp: authorizer_ok_def note_refused_def split: if_splits)

lemma resolve_end_ok:
  assumes "authorizer_ok M T now a" "t \<le> now" "now \<le> t + T" "truthful_outcome M t key outcome"
  shows "authorizer_ok M T now (snd (resolve_end now a key outcome))"
proof (cases outcome)
  case (Authorized m)
  then have "attested M T now key (Some m) now" using assms(2-4) by (intro attested_now) (auto simp: truthful_outcome_def)
  then show ?thesis using assms(1) Authorized by (auto simp: authorizer_ok_def resolve_end_def split: if_splits)
next
  case Refused
  then show ?thesis using note_refused_ok [OF assms(1-3)] assms(4) by (simp add: resolve_end_def truthful_outcome_def)
next
  case Unresolved
  then show ?thesis using assms(1) by (auto simp: resolve_end_def split: option.splits)
qed

lemma not_member_end_ok:
  assumes "authorizer_ok M T now a" "t \<le> now" "now \<le> t + T" "truthful_outcome M t key outcome"
  shows "authorizer_ok M T now (snd (not_member_end now a key outcome))"
  using assms(1,4) note_refused_ok [OF assms(1-3), of key] by (cases outcome) (simp_all add: not_member_end_def truthful_outcome_def)

lemma authorizer_run_ok: "authorizer_run M T a now \<Longrightarrow> authorizer_ok M T now a"
proof (induction rule: authorizer_run.induct)
  case (start now)
  show ?case by (simp add: authorizer_ok_def authorizer_new_def with_ttls_and_sweep_interval_def)
next
  case (wait a now now')
  then show ?case using attested_later [of M T now _ _ _ now'] by (simp add: authorizer_ok_def)
next
  case (sweep a now)
  then show ?case using sweep_ok by blast
next
  case (resolved a now t key outcome)
  show ?case by (rule resolve_end_ok [OF resolved(5,2,3,4)])
next
  case (checked a now t key outcome)
  show ?case by (rule not_member_end_ok [OF checked(5,2,3,4)])
qed

lemma refused_attested:
  assumes "authorizer_run M T a now" "recently_refused now a key"
  shows "\<exists>t. M t key = None \<and> t \<le> now \<and> now < t + T + NEGATIVE_CACHE_TTL"
proof -
  note ok = authorizer_run_ok [OF assms(1)]
  obtain at where at: "hm_get (ca_negative_cache a) key = Some at" "now - at < NEGATIVE_CACHE_TTL"
    using assms(2) ok by (auto simp: recently_refused_def authorizer_ok_def split: option.splits)
  then have "attested M T now key None at" using ok unfolding authorizer_ok_def by blast
  then obtain t where "t \<le> at" "at \<le> now" "at \<le> t + T" "M t key = None" by (auto simp: attested_def)
  moreover have "now < t + T + NEGATIVE_CACHE_TTL" "t \<le> now" using calculation at(2) by linarith+
  ultimately show ?thesis by blast
qed




section \<open>Membership reaches admission\<close>


text \<open>
  Only a removal cuts. When the membership check of a live session answers yes, a truthful control plane
  had no such member within the timeout and five seconds; an unanswered request never answers yes.
\<close>

theorem only_removal_cuts:
  assumes "authorizer_run M T a now" "now \<le> now'"
    and "if recently_refused now a key then answer = True
      else now \<le> t \<and> t \<le> now' \<and> truthful_outcome M t key outcome \<and> answer = fst (not_member_end now' a' key outcome)"
    and "answer"
  shows "\<exists>t0 \<le> now'. now < t0 + T + NEGATIVE_CACHE_TTL \<and> M t0 key = None"
proof (cases "recently_refused now a key")
  case True
  then show ?thesis using refused_attested [OF assms(1)] assms(2) by (blast intro: le_trans)
next
  case False
  then show ?thesis using assms(2-4)
    by (intro exI [of _ t]) (auto simp: not_member_end_def truthful_outcome_def NEGATIVE_CACHE_TTL_def split: if_splits)
qed

text \<open>
  The witnesses: a member registered from second 10 to second 20 resolves at second 15; at second 22 the
  control plane does not answer and the edge still goes by what it was told; a check at second 30 finds
  the removal.
\<close>

definition ex_member :: member_resolution where
  "ex_member = \<lparr>mr_operator_pubkey = [9], mr_noise_pubkey = None, mr_noise_attestation = None\<rparr>"

definition ex_registry :: "nat \<Rightarrow> bytes \<times> bytes \<Rightarrow> member_resolution option" where
  "ex_registry t key = (if key = ([1], [2]) \<and> 10 * 10 ^ 9 \<le> t \<and> t < 20 * 10 ^ 9 then Some ex_member else None)"

definition ex_authorizer :: channel_authorizer where
  "ex_authorizer = snd (resolve_end (15 * 10 ^ 9) (authorizer_new 0) ([1], [2]) (Authorized ex_member))"

lemma ex_authorizer_run: "15 * 10 ^ 9 \<le> now \<Longrightarrow> authorizer_run ex_registry 0 ex_authorizer now"
  unfolding ex_authorizer_def
  by (rule authorizer_run.wait [OF authorizer_run.resolved [OF authorizer_run.wait [OF authorizer_run.start], where t = "15 * 10 ^ 9"]])
    (simp_all add: truthful_outcome_def ex_registry_def)


theorem only_removal_cuts_witness:
  "fst (not_member_end (30 * 10 ^ 9) ex_authorizer ([1], [2]) Refused)
    \<and> (\<exists>t0 \<le> 30 * 10 ^ 9. 30 * 10 ^ 9 < t0 + NEGATIVE_CACHE_TTL \<and> ex_registry t0 ([1], [2]) = None)"
proof -
  let ?now = "30 * 10 ^ 9 :: nat" and ?key = "([1], [2]) :: bytes \<times> bytes"
  have run: "authorizer_run ex_registry 0 ex_authorizer ?now" by (rule ex_authorizer_run) simp
  have b: "\<not> recently_refused ?now ex_authorizer ?key"
    by (simp add: recently_refused_def ex_authorizer_def resolve_end_def authorizer_new_def with_ttls_and_sweep_interval_def)
  have r: "fst (not_member_end ?now ex_authorizer ?key Refused)" by (simp add: not_member_end_def)
  have "if recently_refused ?now ex_authorizer ?key then True = True
      else ?now \<le> ?now \<and> ?now \<le> ?now \<and> truthful_outcome ex_registry ?now ?key Refused
        \<and> True = fst (not_member_end ?now ex_authorizer ?key Refused)"
    using b r by (simp add: truthful_outcome_def ex_registry_def)
  from only_removal_cuts [OF run le_refl this] r show ?thesis by simp
qed

end
