(* ===== verification/ChannelAdmit.thy ===== *)
theory ChannelAdmit
  imports Pairer Join Authorizer
begin

text \<open>
  Admission of a channel join at the edge (\<open>src/crates/edge/src/channel_broker.rs\<close>): the endpoint rules, the
  optional phase marker, and the exchange of \<open>read_channel_join_on_stream\<close>. The peer is what it sends first
  (\<open>input\<close>) and what it sends after it has seen the challenge (\<open>answer\<close>); the result is what the edge wrote
  and what it returns. The resolver, the revocation verdict, the parser of socket addresses and the
  setting of \<open>CT_EDGE_REQUIRE_ATTESTED_ENDPOINT\<close> are parameters.
\<close>

section \<open>Endpoints\<close>

definition safe_endpoint :: "(bytes \<Rightarrow> socket_addr option) \<Rightarrow> bytes \<Rightarrow> socket_addr option" where
  "safe_endpoint parse_addr ep =
     (case parse_addr ep of None \<Rightarrow> None | Some addr \<Rightarrow> if is_global_unicast addr then Some addr else None)"

definition admissible_endpoint :: "(bytes \<Rightarrow> socket_addr option) \<Rightarrow> channel_join_request \<Rightarrow> bool" where
  "admissible_endpoint parse_addr req \<longleftrightarrow> is_relay_only req \<or> safe_endpoint parse_addr (jr_endpoint req) \<noteq> None"

datatype endpoint_attestation = Matches | CrossFamily | Mismatch | Unobservable | NoAddress

fun is_ipv4 :: "ip_addr \<Rightarrow> bool" where
  "is_ipv4 (V4 _ _ _ _) = True"
| "is_ipv4 _ = False"

text \<open>\<open>SocketAddr::new\<close>\<close>

definition socket_addr_new :: "ip_addr \<Rightarrow> u16 \<Rightarrow> socket_addr" where
  "socket_addr_new ip port = \<lparr>sa_ip = ip, sa_port = port, sa_flowinfo = 0, sa_scope_id = 0\<rparr>"

definition classify_endpoint :: "(bytes \<Rightarrow> socket_addr option) \<Rightarrow> bytes \<Rightarrow> ip_addr \<Rightarrow> endpoint_attestation" where
  "classify_endpoint parse_addr advertised observed =
     (case parse_addr advertised of
        None \<Rightarrow> NoAddress
      | Some addr \<Rightarrow>
          let adv = sa_ip addr in
          if adv = observed then Matches
          else if is_ipv4 adv \<noteq> is_ipv4 observed then CrossFamily
          else if is_global_unicast (socket_addr_new observed 0) then Mismatch
          else Unobservable)"

definition endpoint_is_attested :: "(bytes \<Rightarrow> socket_addr option) \<Rightarrow> bytes \<Rightarrow> ip_addr \<Rightarrow> bool" where
  "endpoint_is_attested parse_addr advertised observed \<longleftrightarrow> classify_endpoint parse_addr advertised observed \<noteq> Mismatch"

definition require_attested_endpoint :: "bytes option \<Rightarrow> bool" where
  "require_attested_endpoint var \<longleftrightarrow> var = Some (ascii ''1'')"

section \<open>The phase marker\<close>

definition PHASE_PREAMBLE_MAGIC :: u8 where
  "PHASE_PREAMBLE_MAGIC = 0xFF"

text \<open>Two bytes put back in front of a stream; \<open>inner\<close> is what the stream still holds.\<close>

record prepend_bytes =
  pb_pre :: bytes
  pb_pos :: nat
  pb_inner :: bytes

text \<open>One read into a buffer with \<open>remaining\<close> bytes of room; the inner stream gives at most \<open>ready\<close> bytes.\<close>

definition prepend_read :: "nat \<Rightarrow> nat \<Rightarrow> prepend_bytes \<Rightarrow> bytes \<times> prepend_bytes" where
  "prepend_read remaining ready s =
     (if pb_pos s < length (pb_pre s)
      then let n = min (length (pb_pre s) - pb_pos s) remaining
           in (take n (drop (pb_pos s) (pb_pre s)), s\<lparr>pb_pos := pb_pos s + n\<rparr>)
      else let n = min ready remaining in (take n (pb_inner s), s\<lparr>pb_inner := drop n (pb_inner s)\<rparr>))"

datatype join_failure = JoinIo bytes | JoinRefused bytes bool | JoinTimedOut

definition read_exact :: "nat \<Rightarrow> bytes \<Rightarrow> (bytes \<times> bytes) option" where
  "read_exact n bs = (if length bs < n then None else Some (take n bs, drop n bs))"

text \<open>A \<open>JoinRefused\<close> with \<open>True\<close> is a \<open>DefinitiveJoinRefusal\<close>; this one writes nothing.\<close>

definition peek_optional_phase_marker :: "bytes \<Rightarrow> join_failure + prepend_bytes \<times> park_phase" where
  "peek_optional_phase_marker recv =
     (case read_exact 2 recv of
        None \<Rightarrow> Err (JoinIo (ascii ''preamble''))
      | Some (first, recv) \<Rightarrow>
          if first ! 0 \<noteq> PHASE_PREAMBLE_MAGIC then Ok (\<lparr>pb_pre = first, pb_pos = 0, pb_inner = recv\<rparr>, Unmarked)
          else if first ! 1 = 0x01 then Ok (\<lparr>pb_pre = first, pb_pos = 2, pb_inner = recv\<rparr>, Rendezvous)
          else if first ! 1 = 0x02 then Ok (\<lparr>pb_pre = first, pb_pos = 2, pb_inner = recv\<rparr>, Relay)
          else Err (JoinRefused (ascii ''phase'') True))"

section \<open>The join\<close>

record admitted_join =
  aj_req :: channel_join_request
  aj_operator :: bytes
  aj_noise :: "bytes option"
  aj_attest :: "bytes option"
  aj_observed :: socket_addr

record join_env =
  je_debug :: bool
  je_parse_addr :: "bytes \<Rightarrow> socket_addr option"
  je_require_attested :: bool
  je_authorize :: "bytes \<Rightarrow> bytes \<Rightarrow> (bytes \<times> bytes option \<times> bytes option) option"
  je_verdict :: "bytes \<Rightarrow> bytes \<Rightarrow> admission_verdict"
  je_sha :: digest
  je_key_ok :: "bytes \<Rightarrow> bool"
  je_vrfy :: verifier

text \<open>\<open>None\<close> is the panic of the refusal encoder.\<close>

definition refuse :: "join_env \<Rightarrow> bytes \<Rightarrow> string \<Rightarrow> bool \<Rightarrow> (bytes \<times> (join_failure + admitted_join)) option" where
  "refuse env written tag definitive =
     (case encode_channel_refusal (je_debug env) (ascii tag) of
        None \<Rightarrow> None
      | Some fr \<Rightarrow> Some (written @ fr, Err (JoinRefused (ascii tag) definitive)))"

definition prove_possession ::
  "join_env \<Rightarrow> socket_addr \<Rightarrow> channel_join_request \<Rightarrow> bytes \<times> bytes option \<times> bytes option \<Rightarrow> bytes \<Rightarrow> bool \<Rightarrow> bytes \<Rightarrow> (bytes \<Rightarrow> bytes)
     \<Rightarrow> (bytes \<times> (join_failure + admitted_join)) option" where
  "prove_possession env observed req member challenge sent input answer =
     (if \<not> sent then Some ([], Err (JoinIo (ascii ''io-challenge'')))
      else let holder = cg_holder (sg_grant (jr_grant req)) in
      case (case read_exact 64 (input @ answer challenge) of
              None \<Rightarrow> None
            | Some (sig, _) \<Rightarrow> if verify_holder_possession (je_key_ok env) (je_vrfy env) holder challenge sig then Some () else None) of
        None \<Rightarrow> refuse env challenge ''possession'' True
      | Some _ \<Rightarrow>
          (case member of (operator, noise, attest) \<Rightarrow>
             Some (challenge, Ok \<lparr>aj_req = req, aj_operator = operator, aj_noise = noise, aj_attest = attest, aj_observed = observed\<rparr>)))"

definition check_join ::
  "join_env \<Rightarrow> socket_addr \<Rightarrow> u64 \<Rightarrow> channel_join_request \<Rightarrow> (string \<times> bool) + bytes \<times> bytes option \<times> bytes option" where
  "check_join env observed now req =
     (let grant = jr_grant req; channel = cg_channel (sg_grant grant); holder = cg_holder (sg_grant grant) in
      if \<not> admissible_endpoint (je_parse_addr env) req then Err (''endpoint'', False)
      else if je_require_attested env \<and> \<not> is_relay_only req
          \<and> \<not> endpoint_is_attested (je_parse_addr env) (jr_endpoint req) (sa_ip observed)
      then Err (''endpoint'', False)
      else case je_authorize env channel holder of
        None \<Rightarrow> Err (''not-member'', True)
      | Some (operator, noise, attest) \<Rightarrow>
          (case verify_stateless (je_key_ok env) (je_vrfy env) operator grant now of
             Inl _ \<Rightarrow> Err (''grant-verify'', False)
           | Inr _ \<Rightarrow>
               (case je_verdict env channel (grant_digest (je_sha env) grant) of
                  VerdictAllowed \<Rightarrow> Ok (operator, noise, attest)
                | VerdictRevoked \<Rightarrow> Err (''grant-revoked'', True)
                | VerdictUnreadable \<Rightarrow> Err (''grant-status'', False))))"

definition read_channel_join_on_stream ::
  "join_env \<Rightarrow> socket_addr \<Rightarrow> u64 \<Rightarrow> bytes \<Rightarrow> bool \<Rightarrow> bytes \<Rightarrow> (bytes \<Rightarrow> bytes) \<Rightarrow> (bytes \<times> (join_failure + admitted_join)) option" where
  "read_channel_join_on_stream env observed now challenge sent input answer =
     (case read_exact 2 input of
        None \<Rightarrow> Some ([], Err (JoinIo (ascii ''io-len'')))
      | Some (len_buf, input) \<Rightarrow>
          let len = unat (from_be_bytes16 len_buf) in
          if len = 0 \<or> 1024 < len then refuse env [] ''len-oob'' False
          else case read_exact len input of
            None \<Rightarrow> Some ([], Err (JoinIo (ascii ''io-body'')))
          | Some (body, input) \<Rightarrow>
              (case join_decode body of
                 Inl _ \<Rightarrow> refuse env [] ''malformed'' False
               | Inr req \<Rightarrow>
                   (case check_join env observed now req of
                      Inl (tag, definitive) \<Rightarrow> refuse env [] tag definitive
                    | Inr member \<Rightarrow> prove_possession env observed req member challenge sent input answer)))"

text \<open>The whole exchange runs under \<open>join_timeout\<close>.\<close>

definition read_channel_join_within ::
  "bool \<Rightarrow> join_env \<Rightarrow> socket_addr \<Rightarrow> u64 \<Rightarrow> bytes \<Rightarrow> bool \<Rightarrow> bytes \<Rightarrow> (bytes \<Rightarrow> bytes) \<Rightarrow> (join_failure + admitted_join) option" where
  "read_channel_join_within timed_out env observed now challenge sent input answer =
     (if timed_out then Some (Err JoinTimedOut)
      else map_option snd (read_channel_join_on_stream env observed now challenge sent input answer))"

text \<open>The QUIC entrance: an optional marker, which is read and ignored, and the join.\<close>

definition read_join_on_connection ::
  "join_env \<Rightarrow> socket_addr \<Rightarrow> u64 \<Rightarrow> bytes \<Rightarrow> bool \<Rightarrow> bytes \<Rightarrow> (bytes \<Rightarrow> bytes) \<Rightarrow> (bytes \<times> (join_failure + admitted_join)) option" where
  "read_join_on_connection env observed now challenge sent input answer =
     (case peek_optional_phase_marker input of
        Inl e \<Rightarrow> Some ([], Err e)
      | Inr (s, _) \<Rightarrow>
          read_channel_join_on_stream env observed now challenge sent (drop (pb_pos s) (pb_pre s) @ pb_inner s) answer)"

section \<open>Lemmas\<close>

text \<open>However a stream with bytes put back is read, its bytes come in order.\<close>

lemma prepend_read_order:
  assumes "prepend_read remaining ready s = (chunk, s')"
  shows "drop (pb_pos s) (pb_pre s) @ pb_inner s = chunk @ drop (pb_pos s') (pb_pre s') @ pb_inner s'"
proof (cases "pb_pos s < length (pb_pre s)")
  case True
  let ?n = "min (length (pb_pre s) - pb_pos s) remaining"
  have "drop (pb_pos s) (pb_pre s) = take ?n (drop (pb_pos s) (pb_pre s)) @ drop (pb_pos s + ?n) (pb_pre s)"
    by (metis append_take_drop_id drop_drop add.commute)
  then show ?thesis using assms True by (auto simp: prepend_read_def Let_def)
next
  case False
  then show ?thesis using assms by (auto simp: prepend_read_def Let_def simp flip: append_assoc)
qed

lemma refuse_category:
  assumes "ascii tag \<in> set CHANNEL_REFUSAL_CATEGORIES"
  shows "\<exists>fr. refuse env written tag definitive =
    Some (written @ CHANNEL_REFUSAL_SENTINEL @ fr, Err (JoinRefused (ascii tag) definitive))
    \<and> decode_channel_refusal_category fr = Some (ascii tag)"
proof -
  have shape: "is_channel_refusal_token_shape (ascii tag)" using assms categories_shaped by (simp add: list_all_iff)
  then show ?thesis using assms decode_refusal_token [OF shape, of "[]"]
    by (simp add: refuse_def encode_channel_refusal_def)
qed

lemma check_join_tags: "check_join env observed now req = Inl (tag, definitive) \<Longrightarrow> ascii tag \<in> set CHANNEL_REFUSAL_CATEGORIES"
  by (auto simp: check_join_def Let_def CHANNEL_REFUSAL_CATEGORIES_def split: if_splits option.splits sum.splits admission_verdict.splits)

lemma read_exact_Some: "read_exact n bs = Some (a, b) \<longleftrightarrow> bs = a @ b \<and> length a = n"
  by (auto simp: read_exact_def)

lemma refuse_not_Ok: "refuse env written tag definitive \<noteq> Some (out, Inr adm)"
  by (auto simp: refuse_def split: option.splits)

lemma admissible_endpoint_iff:
  "admissible_endpoint parse_addr req \<longleftrightarrow> is_relay_only req \<or> (\<exists>a. parse_addr (jr_endpoint req) = Some a \<and> is_global_unicast a)"
  by (auto simp: admissible_endpoint_def safe_endpoint_def split: option.splits)

lemma verify_stateless_Ok:
  "verify_stateless key_ok vrfy pk g now = Inr u \<longleftrightarrow>
     key_ok pk \<and> vrfy pk (grant_signing_bytes (sg_grant g)) (sg_signature g) \<and> now < cg_expires_at (sg_grant g)"
  by (auto simp: verify_stateless_def)

lemma check_join_Ok:
  "check_join env observed now req = Inr (operator, noise, attest) \<longleftrightarrow>
     (let g = jr_grant req; channel = cg_channel (sg_grant g); holder = cg_holder (sg_grant g) in
      (is_relay_only req \<or> (\<exists>a. je_parse_addr env (jr_endpoint req) = Some a \<and> is_global_unicast a))
      \<and> (je_require_attested env \<longrightarrow> is_relay_only req \<or> classify_endpoint (je_parse_addr env) (jr_endpoint req) (sa_ip observed) \<noteq> Mismatch)
      \<and> je_authorize env channel holder = Some (operator, noise, attest)
      \<and> je_key_ok env operator \<and> je_vrfy env operator (grant_signing_bytes (sg_grant g)) (sg_signature g) \<and> now < cg_expires_at (sg_grant g)
      \<and> je_verdict env channel (grant_digest (je_sha env) g) = VerdictAllowed)"
  by (auto simp: check_join_def Let_def admissible_endpoint_iff endpoint_is_attested_def verify_stateless_def
      split: option.splits sum.splits admission_verdict.splits if_splits)

lemma prove_possession_Ok:
  "prove_possession env observed req member challenge sent input answer = Some (out, Inr adm) \<longleftrightarrow>
     sent \<and> out = challenge \<and> 64 \<le> length (input @ answer challenge)
     \<and> verify_holder_possession (je_key_ok env) (je_vrfy env) (cg_holder (sg_grant (jr_grant req))) challenge (take 64 (input @ answer challenge))
     \<and> adm = \<lparr>aj_req = req, aj_operator = fst member, aj_noise = fst (snd member), aj_attest = snd (snd member), aj_observed = observed\<rparr>"
  by (cases member) (auto simp: prove_possession_def read_exact_def Let_def refuse_not_Ok split: option.splits if_splits)

lemma read_join_framed:
  assumes "length len_buf = 2" "unat (from_be_bytes16 len_buf) = length body" "0 < length body" "length body \<le> 1024"
  shows "read_channel_join_on_stream env observed now challenge sent (len_buf @ body @ rest) answer =
    (case join_decode body of
       Inl _ \<Rightarrow> refuse env [] ''malformed'' False
     | Inr req \<Rightarrow>
         (case check_join env observed now req of
            Inl (tag, definitive) \<Rightarrow> refuse env [] tag definitive
          | Inr member \<Rightarrow> prove_possession env observed req member challenge sent rest answer))"
  using assms by (simp add: read_channel_join_on_stream_def read_exact_def Let_def)

lemma read_join_OkD:
  assumes "read_channel_join_on_stream env observed now challenge sent input answer = Some (out, Inr adm)"
  obtains len_buf req member rest where "input = len_buf @ join_encode req @ rest" "length len_buf = 2"
    "unat (from_be_bytes16 len_buf) = length (join_encode req)" "length (join_encode req) \<le> 1024"
    "join_decode (join_encode req) = Ok req" "check_join env observed now req = Inr member"
    "prove_possession env observed req member challenge sent rest answer = Some (out, Inr adm)"
proof -
  obtain len_buf i1 where i1: "read_exact 2 input = Some (len_buf, i1)"
    using assms by (auto simp: read_channel_join_on_stream_def split: option.splits)
  define len where "len = unat (from_be_bytes16 len_buf)"
  have len: "0 < len" "len \<le> 1024"
    using assms by (auto simp: read_channel_join_on_stream_def i1 len_def [symmetric] Let_def refuse_not_Ok split: if_splits)
  obtain body rest where body: "read_exact len i1 = Some (body, rest)"
    using assms len by (auto simp: read_channel_join_on_stream_def i1 len_def [symmetric] Let_def split: option.splits)
  have input: "input = len_buf @ body @ rest" "length len_buf = 2" "length body = len" using i1 body by (auto simp: read_exact_Some)
  note run = assms [unfolded input(1) read_join_framed [OF input(2) _ _ _, of body, unfolded input(3), OF len_def [symmetric] len]]
  obtain req where req: "join_decode body = Ok req" using run by (auto simp: refuse_not_Ok split: sum.splits)
  obtain member where "check_join env observed now req = Inr member"
    using run req by (auto simp: refuse_not_Ok split: sum.splits prod.splits)
  moreover have "join_encode req = body" using join_wire_exact req by blast
  ultimately show thesis using that [of len_buf req rest member] run req input len by (simp add: len_def)
qed

lemma read_join_Ok_iff:
  "read_channel_join_on_stream env observed now challenge sent input answer = Some (out, Inr adm) \<longleftrightarrow>
     (\<exists>len_buf rest. let req = aj_req adm; sig = take 64 (rest @ answer challenge) in
        input = len_buf @ join_encode req @ rest \<and> length len_buf = 2
        \<and> unat (from_be_bytes16 len_buf) = length (join_encode req) \<and> length (join_encode req) \<le> 1024
        \<and> join_decode (join_encode req) = Ok req
        \<and> check_join env observed now req = Inr (aj_operator adm, aj_noise adm, aj_attest adm)
        \<and> sent \<and> length sig = 64
        \<and> verify_holder_possession (je_key_ok env) (je_vrfy env) (cg_holder (sg_grant (jr_grant req))) challenge sig
        \<and> out = challenge \<and> aj_observed adm = observed)" (is "?read \<longleftrightarrow> (\<exists>len_buf rest. ?adm len_buf rest)")
proof
  assume ?read
  then obtain len_buf req member rest where r: "input = len_buf @ join_encode req @ rest" "length len_buf = 2"
    "unat (from_be_bytes16 len_buf) = length (join_encode req)" "length (join_encode req) \<le> 1024"
    "join_decode (join_encode req) = Ok req" "check_join env observed now req = Inr member"
    "prove_possession env observed req member challenge sent rest answer = Some (out, Inr adm)"
    by (rule read_join_OkD)
  note p = r(7) [unfolded prove_possession_Ok]
  have "?adm len_buf rest" using r p by (auto simp: Let_def)
  then show "\<exists>len_buf rest. ?adm len_buf rest" by blast
next
  assume "\<exists>len_buf rest. ?adm len_buf rest"
  then obtain len_buf rest where a: "?adm len_buf rest" by blast
  let ?req = "aj_req adm"
  have "0 < length (join_encode ?req)" using a by (cases "join_encode ?req") (auto simp: Let_def join_decode_def)
  then have "read_channel_join_on_stream env observed now challenge sent input answer =
    prove_possession env observed ?req (aj_operator adm, aj_noise adm, aj_attest adm) challenge sent rest answer"
    using a read_join_framed [of len_buf "join_encode ?req"] by (simp add: Let_def)
  also have "\<dots> = Some (out, Inr adm)"
  proof -
    have "length (take 64 (rest @ answer challenge)) = 64" using a unfolding Let_def by blast
    then have "64 \<le> length (rest @ answer challenge)" by (simp only: length_take)
    then show ?thesis using a by (simp add: prove_possession_Ok Let_def)
  qed
  finally show ?read .
qed

lemma refuse_total:
  assumes "ascii tag \<in> set CHANNEL_REFUSAL_CATEGORIES" "written \<in> W"
  shows "\<exists>out res. refuse env written tag definitive = Some (out, res)
    \<and> (\<forall>t d. res = Err (JoinRefused t d) \<longrightarrow>
        (\<exists>written fr. written \<in> W \<and> out = written @ CHANNEL_REFUSAL_SENTINEL @ fr \<and> decode_channel_refusal_category fr = Some t))"
  using refuse_category [OF assms(1), of env written definitive] assms(2) by auto

lemma prove_possession_total:
  "\<exists>out res. prove_possession env observed req member challenge sent input answer = Some (out, res)
    \<and> (\<forall>t d. res = Err (JoinRefused t d) \<longrightarrow>
        (\<exists>written fr. written \<in> {[], challenge} \<and> out = written @ CHANNEL_REFUSAL_SENTINEL @ fr \<and> decode_channel_refusal_category fr = Some t))"
proof -
  have c: "ascii ''possession'' \<in> set CHANNEL_REFUSAL_CATEGORIES" by (simp add: CHANNEL_REFUSAL_CATEGORIES_def)
  show ?thesis
    using refuse_total [OF c, of challenge "{[], challenge}" env True]
    by (cases member) (auto simp: prove_possession_def Let_def split: option.splits if_splits)
qed

lemma read_join_total:
  "\<exists>out res. read_channel_join_on_stream env observed now challenge sent input answer = Some (out, res)
    \<and> (\<forall>t d. res = Err (JoinRefused t d) \<longrightarrow>
        (\<exists>written fr. written \<in> {[], challenge} \<and> out = written @ CHANNEL_REFUSAL_SENTINEL @ fr \<and> decode_channel_refusal_category fr = Some t))"
  (is "?P (read_channel_join_on_stream env observed now challenge sent input answer)")
proof -
  have r: "?P (refuse env [] tag definitive)" if "ascii tag \<in> set CHANNEL_REFUSAL_CATEGORIES" for tag definitive
    using refuse_total [OF that, of "[]" "{[], challenge}"] by simp
  have m: "ascii ''malformed'' \<in> set CHANNEL_REFUSAL_CATEGORIES" "ascii ''len-oob'' \<in> set CHANNEL_REFUSAL_CATEGORIES"
    by (simp_all add: CHANNEL_REFUSAL_CATEGORIES_def)
  have i: "?P (Some ([], Err (JoinIo tag)))" for tag by simp
  show ?thesis
    unfolding read_channel_join_on_stream_def Let_def
    using i r [OF m(1)] r [OF m(2)] prove_possession_total
    by (simp only: split: option.split prod.split if_split sum.split) (intro conjI impI allI; blast intro: r dest: check_join_tags)
qed

section \<open>Admission is exact\<close>

text \<open>
  C12. A join is admitted exactly when the peer sends one well-formed request within 1024 bytes, advertises a
  global address or relay-only, corroborated by its source address where that is required and
  observable, the resolver names it a member, its grant carries the operator's signature, is unexpired and
  not revoked, and its next 64 bytes are a signature of the fresh challenge under the holder's key. In all
  other cases nothing panics, and a refused peer reads the category of its refusal.
\<close>

theorem channel_admission_exact:
  "(read_channel_join_on_stream env observed now challenge sent input answer = Some (out, Ok adm) \<longleftrightarrow>
      (\<exists>len_buf rest. let req = aj_req adm; g = jr_grant req; channel = cg_channel (sg_grant g); holder = cg_holder (sg_grant g);
           sig = take 64 (rest @ answer challenge) in
         input = len_buf @ join_encode req @ rest \<and> length len_buf = 2
         \<and> unat (from_be_bytes16 len_buf) = length (join_encode req) \<and> length (join_encode req) \<le> 1024
         \<and> sized_grant (sg_grant g) \<and> length (sg_signature g) = 64 \<and> utf8_valid (jr_endpoint req) \<and> jr_endpoint req \<noteq> []
         \<and> (is_relay_only req \<or> (\<exists>a. je_parse_addr env (jr_endpoint req) = Some a \<and> is_global_unicast a))
         \<and> (je_require_attested env \<longrightarrow> is_relay_only req
              \<or> classify_endpoint (je_parse_addr env) (jr_endpoint req) (sa_ip observed) \<noteq> Mismatch)
         \<and> je_authorize env channel holder = Some (aj_operator adm, aj_noise adm, aj_attest adm)
         \<and> je_key_ok env (aj_operator adm)
         \<and> je_vrfy env (aj_operator adm) (grant_signing_bytes (sg_grant g)) (sg_signature g) \<and> now < cg_expires_at (sg_grant g)
         \<and> je_verdict env channel (grant_digest (je_sha env) g) = VerdictAllowed
         \<and> sent \<and> length sig = 64 \<and> je_key_ok env holder \<and> je_vrfy env holder challenge sig
         \<and> out = challenge \<and> aj_observed adm = observed))
   \<and> (\<exists>out res. read_channel_join_on_stream env observed now challenge sent input answer = Some (out, res)
        \<and> (\<forall>tag definitive. res = Err (JoinRefused tag definitive) \<longrightarrow>
             (\<exists>written fr. written \<in> {[], challenge} \<and> out = written @ CHANNEL_REFUSAL_SENTINEL @ fr
                \<and> decode_channel_refusal_category fr = Some tag)))"
  (is "(_ \<longleftrightarrow> ?adm) \<and> _")
proof (rule conjI)
  have wf: "join_decode (join_encode r) = Ok r \<longleftrightarrow> sized_grant (sg_grant (jr_grant r)) \<and> length (sg_signature (jr_grant r)) = 64
      \<and> utf8_valid (jr_endpoint r) \<and> jr_endpoint r \<noteq> []" for r
    using join_wire_exact [of "join_encode r" r] by simp
  show "read_channel_join_on_stream env observed now challenge sent input answer = Some (out, Ok adm) \<longleftrightarrow> ?adm"
    unfolding read_join_Ok_iff check_join_Ok wf verify_holder_possession_def Let_def by (simp only: conj_assoc)
qed (rule read_join_total)

section \<open>Admission with the control plane\<close>



text \<open>The witness: a relay-only member with a signing scheme in which a signature is the key and a filling.\<close>

definition ex_vrfy :: verifier where
  "ex_vrfy pk m sig \<longleftrightarrow> sig = take 64 (pk @ replicate 64 0)"

definition ex_join :: channel_join_request where
  "ex_join = \<lparr>jr_grant = \<lparr>sg_grant = \<lparr>cg_channel = replicate 32 1, cg_holder = replicate 32 2, cg_direction = Both,
     cg_rights = ReadWrite, cg_delegable = False, cg_expires_at = 100\<rparr>, sg_signature = replicate 32 3 @ replicate 32 0\<rparr>,
     jr_endpoint = CHANNEL_ENDPOINT_RELAY_ONLY\<rparr>"

definition ex_env :: join_env where
  "ex_env = \<lparr>je_debug = True, je_parse_addr = (\<lambda>_. None), je_require_attested = True,
     je_authorize = (\<lambda>c h. if c = replicate 32 1 \<and> h = replicate 32 2 then Some (replicate 32 3, None, None) else None),
     je_verdict = (\<lambda>_ _. VerdictAllowed), je_sha = (\<lambda>x. x), je_key_ok = (\<lambda>k. length k = 32), je_vrfy = ex_vrfy\<rparr>"

definition ex_observed :: socket_addr where
  "ex_observed = socket_addr_new (V4 10 0 0 1) 5"

lemma ex_join_len: "length (join_encode ex_join) = GRANT_WIRE_LEN + 10"
  by (simp add: join_encode_def ex_join_def grant_encode_length sized_grant_def CHANNEL_ENDPOINT_RELAY_ONLY_def ascii_def)

lemma ex_join_prefix:
  "unat (from_be_bytes16 (to_be_bytes16 (word_of_nat (length (join_encode ex_join)))) :: u16) = length (join_encode ex_join)"
  by (simp add: ex_join_len GRANT_WIRE_LEN_def)

lemma relay_only_wf: "utf8_valid CHANNEL_ENDPOINT_RELAY_ONLY" "CHANNEL_ENDPOINT_RELAY_ONLY \<noteq> []"
  by (simp_all add: CHANNEL_ENDPOINT_RELAY_ONLY_def ascii_def)


lemmas ex_join_simps = ex_join_def ex_env_def ex_vrfy_def sized_grant_def is_relay_only_def GRANT_WIRE_LEN_def Let_def

theorem channel_admission_exact_witness:
  "read_channel_join_on_stream ex_env ex_observed 7 (replicate 32 9) True
     (to_be_bytes16 (word_of_nat (length (join_encode ex_join))) @ join_encode ex_join) (\<lambda>_. replicate 32 2 @ replicate 32 0)
   = Some (replicate 32 9, Ok \<lparr>aj_req = ex_join, aj_operator = replicate 32 3, aj_noise = None, aj_attest = None, aj_observed = ex_observed\<rparr>)"
  unfolding channel_admission_exact [THEN conjunct1]
  by (intro exI [of _ "to_be_bytes16 (word_of_nat (length (join_encode ex_join)))"] exI [of _ "[]"])
    (use ex_join_len ex_join_prefix relay_only_wf in \<open>simp add: ex_join_simps\<close>)





end
