(* ===== verification/Splices.thy ===== *)
theory Splices
  imports Prelude
begin

text \<open>
  Live channel splices at the edge (\<open>src/crates/edge/src/channel_broker.rs\<close>): the registry of legs that carry
  bytes, the guards that leave it when a splice ends, and the sweep that cuts legs whose membership or
  grant is gone. The watch channel of a leg is a number; \<open>sp_sent\<close> holds those that carry \<open>true\<close>. Each
  function is one critical section, except for the sweep, which is a sequence of them.
\<close>

section \<open>The registry\<close>

type_synonym splice_key = "bytes \<times> bytes"

record live_splices =
  sp_next_id :: u64
  sp_entries :: "(splice_key, (u64 \<times> bytes option \<times> nat) list) hmap"

text \<open>The static with its mutex, and the watch channels made so far.\<close>

record splice_world =
  sp_live :: "live_splices option"
  sp_channels :: nat
  sp_sent :: "nat set"

record splice_guard =
  gd_key :: splice_key
  gd_id :: u64
  gd_rx :: nat

definition splice_world_new :: splice_world where
  "splice_world_new = \<lparr>sp_live = None, sp_channels = 0, sp_sent = {}\<rparr>"

definition default_splices :: live_splices where
  "default_splices = \<lparr>sp_next_id = 0, sp_entries = hm_empty\<rparr>"

definition is_cut :: "splice_world \<Rightarrow> splice_guard \<Rightarrow> bool" where
  "is_cut w g \<longleftrightarrow> gd_rx g \<in> sp_sent w"

definition legs_of :: "live_splices \<Rightarrow> splice_key \<Rightarrow> (u64 \<times> bytes option \<times> nat) list" where
  "legs_of live key = (case hm_get (sp_entries live) key of None \<Rightarrow> [] | Some v \<Rightarrow> v)"

definition register_live_splice_inner ::
  "splice_world \<Rightarrow> bytes \<Rightarrow> bytes \<Rightarrow> bytes option \<Rightarrow> splice_guard \<times> splice_world" where
  "register_live_splice_inner w channel holder digest =
     (let tx = sp_channels w; key = (channel, holder);
          live = (case sp_live w of None \<Rightarrow> default_splices | Some live \<Rightarrow> live);
          ident = sp_next_id live + 1
      in (\<lparr>gd_key = key, gd_id = ident, gd_rx = tx\<rparr>,
          w\<lparr>sp_live := Some \<lparr>sp_next_id = ident, sp_entries = hm_insert key (legs_of live key @ [(ident, digest, tx)]) (sp_entries live)\<rparr>,
            sp_channels := Suc tx\<rparr>))"

definition register_live_splice_with_digest :: "splice_world \<Rightarrow> bytes \<Rightarrow> bytes \<Rightarrow> bytes \<Rightarrow> splice_guard \<times> splice_world" where
  "register_live_splice_with_digest w channel holder grant_digest =
     register_live_splice_inner w channel holder (Some grant_digest)"

definition drop_guard :: "splice_guard \<Rightarrow> splice_world \<Rightarrow> splice_world" where
  "drop_guard g w =
     (case sp_live w of
        None \<Rightarrow> w
      | Some live \<Rightarrow>
          (case hm_get (sp_entries live) (gd_key g) of
             None \<Rightarrow> w
           | Some v \<Rightarrow>
               let v = filter (\<lambda>(ident, _, _). ident \<noteq> gd_id g) v
               in w\<lparr>sp_live := Some (live\<lparr>sp_entries :=
                      (if v = [] then hm_remove (gd_key g) (sp_entries live) else hm_insert (gd_key g) v (sp_entries live))\<rparr>)\<rparr>))"

definition live_splice_members :: "splice_world \<Rightarrow> splice_key list" where
  "live_splice_members w = (case sp_live w of None \<Rightarrow> [] | Some live \<Rightarrow> map fst (sp_entries live))"

section \<open>Cutting\<close>

definition cut_live_splices :: "splice_world \<Rightarrow> bytes \<Rightarrow> bytes \<Rightarrow> nat \<times> splice_world" where
  "cut_live_splices w channel holder =
     (case sp_live w of
        None \<Rightarrow> (0, w)
      | Some live \<Rightarrow>
          (case hm_get (sp_entries live) (channel, holder) of
             None \<Rightarrow> (0, w)
           | Some v \<Rightarrow> (length v, w\<lparr>sp_sent := sp_sent w \<union> (\<lambda>(_, _, tx). tx) ` set v\<rparr>)))"

text \<open>\<open>push\<close> unless it is there.\<close>

definition push_new :: "'a \<Rightarrow> 'a list \<Rightarrow> 'a list" where
  "push_new d v = (if d \<in> set v then v else v @ [d])"

definition note_digest :: "bytes \<Rightarrow> (bytes, bytes list) hmap \<Rightarrow> u64 \<times> bytes option \<times> nat \<Rightarrow> (bytes, bytes list) hmap" where
  "note_digest channel out leg =
     (case leg of
        (_, Some d, _) \<Rightarrow> hm_insert channel (push_new d (case hm_get out channel of None \<Rightarrow> [] | Some v \<Rightarrow> v)) out
      | (_, None, _) \<Rightarrow> out)"

definition live_splice_digests :: "splice_world \<Rightarrow> (bytes, bytes list) hmap" where
  "live_splice_digests w =
     (case sp_live w of
        None \<Rightarrow> hm_empty
      | Some live \<Rightarrow> foldl (\<lambda>out ((channel, _), legs). foldl (note_digest channel) out legs) hm_empty (sp_entries live))"

definition legs_with_digest :: "live_splices \<Rightarrow> bytes \<Rightarrow> bytes \<Rightarrow> (u64 \<times> bytes option \<times> nat) list" where
  "legs_with_digest live channel digest =
     concat (map (\<lambda>((c, _), legs). if c \<noteq> channel then [] else filter (\<lambda>(_, d, _). d = Some digest) legs) (sp_entries live))"

definition cut_live_splices_by_digest :: "splice_world \<Rightarrow> bytes \<Rightarrow> bytes \<Rightarrow> nat \<times> splice_world" where
  "cut_live_splices_by_digest w channel digest =
     (case sp_live w of
        None \<Rightarrow> (0, w)
      | Some live \<Rightarrow>
          let legs = legs_with_digest live channel digest
          in (length legs, w\<lparr>sp_sent := sp_sent w \<union> (\<lambda>(_, _, tx). tx) ` set legs\<rparr>))"

section \<open>The sweep\<close>

text \<open>
  \<open>membership_revoked\<close> is the resolver's answer, \<open>revoked_for_sweep\<close> that of \<open>grant_revocation.rs\<close>, for a sweep
  that nothing interrupts.
\<close>

fun sweep_members :: "(bytes \<Rightarrow> bytes \<Rightarrow> bool) \<Rightarrow> splice_key list \<Rightarrow> splice_world \<Rightarrow> nat \<times> splice_world" where
  "sweep_members membership_revoked [] w = (0, w)"
| "sweep_members membership_revoked ((channel, holder) # keys) w =
     (if membership_revoked channel holder
      then case cut_live_splices w channel holder of (n, w) \<Rightarrow>
             (case sweep_members membership_revoked keys w of (m, w) \<Rightarrow> (n + m, w))
      else sweep_members membership_revoked keys w)"

fun sweep_digests :: "(bytes \<Rightarrow> bytes list \<Rightarrow> bytes list) \<Rightarrow> (bytes \<times> bytes list) list \<Rightarrow> splice_world \<Rightarrow> splice_world" where
  "sweep_digests revoked_for_sweep [] w = w"
| "sweep_digests revoked_for_sweep ((channel, digests) # rest) w =
     sweep_digests revoked_for_sweep rest
       (foldl (\<lambda>w d. snd (cut_live_splices_by_digest w channel d)) w (revoked_for_sweep channel digests))"

definition sweep_live_splice_memberships ::
  "(bytes \<Rightarrow> bytes \<Rightarrow> bool) \<Rightarrow> (bytes \<Rightarrow> bytes list \<Rightarrow> bytes list) \<Rightarrow> splice_world \<Rightarrow> nat \<times> splice_world" where
  "sweep_live_splice_memberships membership_revoked revoked_for_sweep w =
     (case sweep_members membership_revoked (live_splice_members w) w of
        (n, w) \<Rightarrow> (n, sweep_digests revoked_for_sweep (live_splice_digests w) w))"

section \<open>Runs\<close>

datatype splice_event =
    Register bytes bytes "bytes option"
  | DropGuard nat
  | CutMember bytes bytes
  | CutDigest bytes bytes
  | Sweep "bytes \<Rightarrow> bytes \<Rightarrow> bool" "bytes \<Rightarrow> bytes list \<Rightarrow> bytes list"

text \<open>The guards that exist, each with the digest it was registered with, and the registry.\<close>

type_synonym splice_state = "(splice_guard \<times> bytes option) list \<times> splice_world"

fun splice_step :: "splice_state \<Rightarrow> splice_event \<Rightarrow> splice_state" where
  "splice_step (gs, w) (Register channel holder digest) =
     (case register_live_splice_inner w channel holder digest of (g, w) \<Rightarrow> (gs @ [(g, digest)], w))"
| "splice_step (gs, w) (DropGuard i) =
     (if i < length gs then (take i gs @ drop (Suc i) gs, drop_guard (fst (gs ! i)) w) else (gs, w))"
| "splice_step (gs, w) (CutMember channel holder) = (gs, snd (cut_live_splices w channel holder))"
| "splice_step (gs, w) (CutDigest channel digest) = (gs, snd (cut_live_splices_by_digest w channel digest))"
| "splice_step (gs, w) (Sweep membership_revoked revoked) = (gs, snd (sweep_live_splice_memberships membership_revoked revoked w))"

definition splice_run :: "splice_event list \<Rightarrow> splice_state" where
  "splice_run evs = foldl splice_step ([], splice_world_new) evs"

definition registrations :: "splice_event list \<Rightarrow> nat" where
  "registrations evs = length (filter (\<lambda>ev. case ev of Register _ _ _ \<Rightarrow> True | _ \<Rightarrow> False) evs)"

section \<open>Legs and guards\<close>

definition world_legs :: "splice_world \<Rightarrow> splice_key \<Rightarrow> (u64 \<times> bytes option \<times> nat) list" where
  "world_legs w key = (case sp_live w of None \<Rightarrow> [] | Some live \<Rightarrow> legs_of live key)"

definition guard_legs :: "(splice_guard \<times> bytes option) list \<Rightarrow> splice_key \<Rightarrow> (u64 \<times> bytes option \<times> nat) list" where
  "guard_legs gs key = map (\<lambda>(g, dg). (gd_id g, dg, gd_rx g)) (filter (\<lambda>(g, _). gd_key g = key) gs)"

definition registry_ok :: "nat \<Rightarrow> splice_state \<Rightarrow> bool" where
  "registry_ok n st \<longleftrightarrow> (case st of (gs, w) \<Rightarrow>
     (\<forall>key. world_legs w key = guard_legs gs key)
     \<and> (\<forall>live. sp_live w = Some live \<longrightarrow> hm_wf (sp_entries live) \<and> (\<forall>key. hm_get (sp_entries live) key \<noteq> Some [])
          \<and> unat (sp_next_id live) = n)
     \<and> (sp_live w = None \<longrightarrow> n = 0)
     \<and> distinct (map (gd_id \<circ> fst) gs) \<and> distinct (map (gd_rx \<circ> fst) gs)
     \<and> (\<forall>(g, _) \<in> set gs. unat (gd_id g) \<le> n \<and> gd_rx g < sp_channels w)
     \<and> (\<forall>tx \<in> sp_sent w. tx < sp_channels w))"

text \<open>Cutting only sends: the registry stays.\<close>

definition only_sends :: "splice_world \<Rightarrow> splice_world \<Rightarrow> nat set \<Rightarrow> bool" where
  "only_sends w w' txs \<longleftrightarrow> w' = w\<lparr>sp_sent := sp_sent w \<union> txs\<rparr>"

lemma only_sends_refl: "only_sends w w {}"
  by (simp add: only_sends_def)

lemma only_sends_trans: "only_sends w w' A \<Longrightarrow> only_sends w' w'' B \<Longrightarrow> only_sends w w'' (A \<union> B)"
  by (simp add: only_sends_def Un_assoc)

lemma only_sends_frame:
  assumes "only_sends w w' txs"
  shows "sp_live w' = sp_live w" "sp_channels w' = sp_channels w" "world_legs w' = world_legs w" "sp_sent w' = sp_sent w \<union> txs"
    "live_splice_members w' = live_splice_members w" "live_splice_digests w' = live_splice_digests w"
  using assms by (auto simp: only_sends_def world_legs_def live_splice_members_def live_splice_digests_def)

definition txs_of :: "(u64 \<times> bytes option \<times> nat) list \<Rightarrow> nat set" where
  "txs_of legs = (\<lambda>(_, _, tx). tx) ` set legs"

lemma cut_member_sends:
  "only_sends w (snd (cut_live_splices w channel holder)) (txs_of (world_legs w (channel, holder)))"
  "fst (cut_live_splices w channel holder) = length (world_legs w (channel, holder))"
  by (auto simp: only_sends_def cut_live_splices_def world_legs_def legs_of_def txs_of_def split: option.splits)

definition digest_legs :: "splice_world \<Rightarrow> bytes \<Rightarrow> bytes \<Rightarrow> nat set" where
  "digest_legs w channel digest = {tx. \<exists>holder ident. (ident, Some digest, tx) \<in> set (world_legs w (channel, holder))}"

lemma legs_with_digest_set:
  assumes "hm_wf (sp_entries live)"
  shows "txs_of (legs_with_digest live channel digest) =
    {tx. \<exists>holder ident. (ident, Some digest, tx) \<in> set (legs_of live (channel, holder))}"
proof -
  have e: "((c, h), legs) \<in> set (sp_entries live) \<longleftrightarrow> hm_get (sp_entries live) (c, h) = Some legs" for c h legs
    using assms by (simp add: hm_wf_def hm_get_def)
  show ?thesis
  proof (intro set_eqI iffI)
    fix tx assume "tx \<in> txs_of (legs_with_digest live channel digest)"
    then show "tx \<in> {tx. \<exists>holder ident. (ident, Some digest, tx) \<in> set (legs_of live (channel, holder))}"
      by (auto simp: txs_of_def legs_with_digest_def legs_of_def e split: if_splits) metis
  next
    fix tx assume "tx \<in> {tx. \<exists>holder ident. (ident, Some digest, tx) \<in> set (legs_of live (channel, holder))}"
    then obtain h i legs where "((channel, h), legs) \<in> set (sp_entries live)" "(i, Some digest, tx) \<in> set legs"
      by (auto simp: legs_of_def e split: option.splits) metis
    then show "tx \<in> txs_of (legs_with_digest live channel digest)"
      by (force simp: txs_of_def legs_with_digest_def)
  qed
qed

lemma cut_digest_sends:
  assumes "\<forall>live. sp_live w = Some live \<longrightarrow> hm_wf (sp_entries live)"
  shows "only_sends w (snd (cut_live_splices_by_digest w channel digest)) (digest_legs w channel digest)"
  using assms legs_with_digest_set [of _ channel digest]
  by (cases "sp_live w") (auto simp: only_sends_def cut_live_splices_by_digest_def Let_def digest_legs_def world_legs_def txs_of_def)

lemma sweep_members_sends:
  "only_sends w (snd (sweep_members mr keys w)) (\<Union>(c, h) \<in> {k \<in> set keys. mr (fst k) (snd k)}. txs_of (world_legs w (c, h)))
   \<and> fst (sweep_members mr keys w) = sum_list (map (\<lambda>k. if mr (fst k) (snd k) then length (world_legs w k) else 0) keys)"
proof (induction keys arbitrary: w)
  case (Cons k keys)
  obtain c h where k: "k = (c, h)" by (cases k)
  show ?case
  proof (cases "mr c h")
    case True
    obtain n v where cut: "cut_live_splices w c h = (n, v)" by (cases "cut_live_splices w c h")
    have v: "only_sends w v (txs_of (world_legs w (c, h)))" "n = length (world_legs w (c, h))"
      using cut_member_sends [of w c h] by (simp_all add: cut)
    obtain m u where r: "sweep_members mr keys v = (m, u)" by (cases "sweep_members mr keys v")
    have "{k' \<in> set (k # keys). mr (fst k') (snd k')} = insert (c, h) {k' \<in> set keys. mr (fst k') (snd k')}" using True k by auto
    then show ?thesis using Cons.IH [of v, unfolded only_sends_frame(3) [OF v(1)]] v only_sends_trans [OF v(1), of u] True
      by (simp add: k cut r)
  next
    case False
    then have "{k' \<in> set (k # keys). mr (fst k') (snd k')} = {k' \<in> set keys. mr (fst k') (snd k')}" using k by auto
    with Cons.IH [of w] False k show ?thesis by simp
  qed
qed (simp add: only_sends_refl)

lemma cut_digests_sends:
  assumes "\<forall>live. sp_live w = Some live \<longrightarrow> hm_wf (sp_entries live)"
  shows "only_sends w (foldl (\<lambda>w d. snd (cut_live_splices_by_digest w channel d)) w ds) (\<Union>d \<in> set ds. digest_legs w channel d)"
  using assms
proof (induction ds arbitrary: w)
  case (Cons d ds)
  let ?v = "snd (cut_live_splices_by_digest w channel d)"
  have v: "only_sends w ?v (digest_legs w channel d)" using cut_digest_sends [OF Cons.prems] .
  have "digest_legs ?v = digest_legs w" by (simp add: digest_legs_def only_sends_frame(3) [OF v] fun_eq_iff)
  then show ?case using Cons.IH [of ?v] Cons.prems only_sends_trans [OF v] by (simp add: only_sends_frame(1) [OF v])
qed (simp add: only_sends_refl)

lemma sweep_digests_sends:
  assumes "\<forall>live. sp_live w = Some live \<longrightarrow> hm_wf (sp_entries live)"
  shows "only_sends w (sweep_digests rv entries w) (\<Union>(c, ds) \<in> set entries. \<Union>d \<in> set (rv c ds). digest_legs w c d)"
  using assms
proof (induction entries arbitrary: w)
  case (Cons e entries)
  obtain c ds where e: "e = (c, ds)" by (cases e)
  let ?v = "foldl (\<lambda>w d. snd (cut_live_splices_by_digest w c d)) w (rv c ds)"
  have v: "only_sends w ?v (\<Union>d \<in> set (rv c ds). digest_legs w c d)" using cut_digests_sends [OF Cons.prems] .
  have "digest_legs ?v = digest_legs w" by (simp add: digest_legs_def only_sends_frame(3) [OF v] fun_eq_iff)
  then show ?case using Cons.IH [of ?v] Cons.prems only_sends_trans [OF v] by (simp add: e only_sends_frame(1) [OF v])
qed (simp add: only_sends_refl)

section \<open>The digests asked about\<close>

definition asked :: "(bytes, bytes list) hmap \<Rightarrow> bytes \<Rightarrow> bytes list" where
  "asked out c = (case hm_get out c of None \<Rightarrow> [] | Some v \<Rightarrow> v)"

definition digests_ok :: "(bytes, bytes list) hmap \<Rightarrow> (bytes \<Rightarrow> bytes set) \<Rightarrow> bool" where
  "digests_ok out F \<longleftrightarrow> hm_wf out \<and> (\<forall>c. distinct (asked out c) \<and> set (asked out c) = F c)"

definition leg_digests :: "(u64 \<times> bytes option \<times> nat) list \<Rightarrow> bytes set" where
  "leg_digests legs = {d. \<exists>i t. (i, Some d, t) \<in> set legs}"

lemma leg_digests_Cons: "leg_digests (leg # legs) = leg_digests [leg] \<union> leg_digests legs"
  by (auto simp: leg_digests_def)

lemma asked_note:
  "asked (note_digest c out leg) c' = (if c' = c then (case leg of (_, Some d, _) \<Rightarrow> push_new d (asked out c) | _ \<Rightarrow> asked out c) else asked out c')"
  by (auto simp: asked_def note_digest_def split: option.splits prod.splits)

lemma note_digest_ok:
  assumes "digests_ok out F"
  shows "digests_ok (note_digest c out leg) (F(c := F c \<union> leg_digests [leg]))"
proof -
  obtain i dg t where leg: "leg = (i, dg, t)" by (cases leg)
  have "hm_wf (note_digest c out leg)" using assms by (auto simp: digests_ok_def note_digest_def leg split: option.split)
  moreover have "distinct (asked (note_digest c out leg) c') \<and> set (asked (note_digest c out leg) c') = (F(c := F c \<union> leg_digests [leg])) c'" for c'
    using assms by (auto simp: digests_ok_def asked_note leg leg_digests_def push_new_def split: option.split)
  ultimately show ?thesis by (simp add: digests_ok_def)
qed

lemma note_digests_ok:
  assumes "digests_ok out F"
  shows "digests_ok (foldl (note_digest c) out legs) (F(c := F c \<union> leg_digests legs))"
  using assms
proof (induction legs arbitrary: out F)
  case Nil
  then show ?case by (simp add: leg_digests_def fun_upd_idem)
next
  case (Cons leg legs)
  from Cons.IH [OF note_digest_ok [OF Cons.prems, of c leg]] show ?case
    by (simp only: foldl_Cons fun_upd_same fun_upd_upd Un_assoc leg_digests_Cons [of leg legs])
qed

definition entry_digests :: "(splice_key, (u64 \<times> bytes option \<times> nat) list) hmap \<Rightarrow> bytes \<Rightarrow> bytes set" where
  "entry_digests entries c = {d. \<exists>h legs. ((c, h), legs) \<in> set entries \<and> d \<in> leg_digests legs}"

lemma fold_digests_ok:
  assumes "digests_ok out F"
  shows "digests_ok (foldl (\<lambda>out ((channel, _), legs). foldl (note_digest channel) out legs) out entries) (\<lambda>c. F c \<union> entry_digests entries c)"
  using assms
proof (induction entries arbitrary: out F)
  case Nil
  then show ?case by (simp add: entry_digests_def)
next
  case (Cons e entries)
  obtain c h legs where e: "e = ((c, h), legs)" by (cases e) auto
  have eq: "(\<lambda>c'. (F(c := F c \<union> leg_digests legs)) c' \<union> entry_digests entries c') = (\<lambda>c'. F c' \<union> entry_digests (e # entries) c')"
    by (rule ext) (auto simp: e entry_digests_def)
  show ?case using Cons.IH [OF note_digests_ok [OF Cons.prems, of c legs]] unfolding eq by (simp add: e)
qed

lemma live_splice_digests_ok:
  assumes "\<forall>live. sp_live w = Some live \<longrightarrow> hm_wf (sp_entries live)"
  shows "digests_ok (live_splice_digests w) (\<lambda>c. {d. \<exists>h i t. (i, Some d, t) \<in> set (world_legs w (c, h))})"
proof (cases "sp_live w")
  case None
  then show ?thesis by (simp add: live_splice_digests_def world_legs_def digests_ok_def asked_def)
next
  case (Some live)
  have e: "((c, h), legs) \<in> set (sp_entries live) \<longleftrightarrow> hm_get (sp_entries live) (c, h) = Some legs" for c h legs
    using assms Some by (simp add: hm_wf_def hm_get_def)
  have "entry_digests (sp_entries live) c = {d. \<exists>h i t. (i, Some d, t) \<in> set (world_legs w (c, h))}" for c
    unfolding entry_digests_def e leg_digests_def using Some
    by (auto simp: world_legs_def legs_of_def split: option.splits) (metis option.inject)+
  moreover have "digests_ok hm_empty (\<lambda>_. {})" by (simp add: digests_ok_def asked_def)
  ultimately show ?thesis using fold_digests_ok [of hm_empty "\<lambda>_. {}" "sp_entries live"] Some
    by (simp add: live_splice_digests_def)
qed

section \<open>The registry follows the guards\<close>

lemma remove_nth_filter:
  "distinct (map f xs) \<Longrightarrow> i < length xs \<Longrightarrow> take i xs @ drop (Suc i) xs = filter (\<lambda>x. f x \<noteq> f (xs ! i)) xs"
proof (induction xs arbitrary: i)
  case (Cons x xs)
  show ?case
  proof (cases i)
    case 0
    have "f y \<noteq> f x" if "y \<in> set xs" for y using Cons.prems(1) imageI [OF that, of f] by auto
    then have "\<forall>y \<in> set xs. f y \<noteq> f x" by blast
    then have "filter (\<lambda>y. f y \<noteq> f x) xs = xs" by (rule filter_True)
    then show ?thesis using 0 by simp
  next
    case (Suc j)
    then have "f x \<noteq> f (xs ! j)" using Cons.prems by auto
    then show ?thesis using Suc Cons by simp
  qed
qed simp

lemma guard_legs_snoc: "guard_legs (gs @ [(g, dg)]) key = guard_legs gs key @ (if gd_key g = key then [(gd_id g, dg, gd_rx g)] else [])"
  by (simp add: guard_legs_def)

lemma guard_legs_filter:
  "guard_legs (filter (\<lambda>x. gd_id (fst x) \<noteq> ident) gs) key = filter (\<lambda>(i, _, _). i \<noteq> ident) (guard_legs gs key)"
  by (induction gs) (auto simp: guard_legs_def)

lemma registry_okD:
  assumes "registry_ok n (gs, w)"
  shows "world_legs w key = guard_legs gs key"
    and "\<forall>live. sp_live w = Some live \<longrightarrow> hm_wf (sp_entries live)"
    and "txs_of (world_legs w key) \<subseteq> {..<sp_channels w}" "digest_legs w c d \<subseteq> {..<sp_channels w}"
proof -
  show legs: "world_legs w key = guard_legs gs key" for key
    using assms unfolding registry_ok_def prod.case by blast
  show "\<forall>live. sp_live w = Some live \<longrightarrow> hm_wf (sp_entries live)" using assms by (simp add: registry_ok_def)
  have "gd_rx g < sp_channels w" if "(g, dg) \<in> set gs" for g dg using assms that by (auto simp: registry_ok_def)
  then show "txs_of (world_legs w key) \<subseteq> {..<sp_channels w}" "digest_legs w c d \<subseteq> {..<sp_channels w}"
    by (auto simp: txs_of_def digest_legs_def legs guard_legs_def)
qed

lemma sends_ok:
  assumes "registry_ok n (gs, w)" "only_sends w w' txs" "txs \<subseteq> {..<sp_channels w}"
  shows "registry_ok n (gs, w')"
  using assms(1,3) only_sends_frame(1-4) [OF assms(2)] by (auto simp: registry_ok_def)

lemma register_ok:
  assumes "registry_ok n (gs, w)" "Suc n < 2 ^ 64" "register_live_splice_inner w c h dg = (g, w')"
  shows "registry_ok (Suc n) (gs @ [(g, dg)], w')"
proof -
  define live where "live = (case sp_live w of None \<Rightarrow> default_splices | Some live \<Rightarrow> live)"
  define ident where "ident = sp_next_id live + 1"
  have g: "g = \<lparr>gd_key = (c, h), gd_id = ident, gd_rx = sp_channels w\<rparr>"
    and w': "w' = w\<lparr>sp_live := Some \<lparr>sp_next_id = ident, sp_entries = hm_insert (c, h) (legs_of live (c, h) @ [(ident, dg, sp_channels w)]) (sp_entries live)\<rparr>,
      sp_channels := Suc (sp_channels w)\<rparr>"
    using assms(3) by (auto simp: register_live_splice_inner_def Let_def live_def ident_def)
  have "legs_of live = world_legs w"
    by (cases "sp_live w") (simp_all add: live_def default_splices_def world_legs_def legs_of_def fun_eq_iff)
  moreover have "hm_wf (sp_entries live)" "\<forall>key. hm_get (sp_entries live) key \<noteq> Some []" "unat (sp_next_id live) = n"
    using assms(1) by (cases "sp_live w"; simp add: registry_ok_def live_def default_splices_def)+
  ultimately have live: "hm_wf (sp_entries live)" "\<forall>key. hm_get (sp_entries live) key \<noteq> Some []" "unat (sp_next_id live) = n" "legs_of live = world_legs w"
    by simp_all
  have ident: "unat ident = Suc n" using live(3) assms(2) by (simp add: ident_def unat_word_ariths)
  have "world_legs w' key = guard_legs (gs @ [(g, dg)]) key" for key
    using registry_okD(1) [OF assms(1)] by (simp add: w' world_legs_def legs_of_def guard_legs_snoc g live(4) [unfolded fun_eq_iff legs_of_def, rule_format])
  moreover have "ident \<notin> (gd_id \<circ> fst) ` set gs" "sp_channels w \<notin> (gd_rx \<circ> fst) ` set gs"
    using assms(1) ident by (auto simp: registry_ok_def)
  ultimately show ?thesis using assms(1) live ident by (auto simp: registry_ok_def g w')
qed

lemma drop_ok:
  assumes ok: "registry_ok n (gs, w)" and i: "i < length gs"
  shows "registry_ok n (take i gs @ drop (Suc i) gs, drop_guard (fst (gs ! i)) w)"
proof -
  define g where "g = fst (gs ! i)"
  have gi: "(g, snd (gs ! i)) \<in> set gs" using i by (simp add: g_def)
  have ids: "distinct (map (gd_id \<circ> fst) gs)" using ok by (simp add: registry_ok_def)
  have gs': "take i gs @ drop (Suc i) gs = filter (\<lambda>x. gd_id (fst x) \<noteq> gd_id g) gs"
    using remove_nth_filter [OF ids i] by (simp add: g_def)
  have in_legs: "(gd_id g, snd (gs ! i), gd_rx g) \<in> set (world_legs w (gd_key g))"
    using gi unfolding registry_okD(1) [OF ok] guard_legs_def by force
  obtain live where l: "sp_live w = Some live" using in_legs by (cases "sp_live w") (simp_all add: world_legs_def)
  obtain v where v: "hm_get (sp_entries live) (gd_key g) = Some v"
    using in_legs l by (cases "hm_get (sp_entries live) (gd_key g)") (simp_all add: world_legs_def legs_of_def)
  have live: "sp_live w = Some live" "hm_get (sp_entries live) (gd_key g) = Some v" "v = world_legs w (gd_key g)"
    using l v by (simp_all add: world_legs_def legs_of_def)
  define v' where "v' = filter (\<lambda>(ident, _, _). ident \<noteq> gd_id g) v"
  have w': "drop_guard g w = w\<lparr>sp_live := Some (live\<lparr>sp_entries :=
      (if v' = [] then hm_remove (gd_key g) (sp_entries live) else hm_insert (gd_key g) v' (sp_entries live))\<rparr>)\<rparr>"
    by (simp add: drop_guard_def live v'_def Let_def)
  have apart: "fst x \<noteq> gd_id g" if x: "x \<in> set (guard_legs gs key)" "key \<noteq> gd_key g" for x key
  proof -
    obtain a b where ab: "(a, b) \<in> set gs" "gd_key a = key" "x = (gd_id a, b, gd_rx a)" using x(1) by (auto simp: guard_legs_def)
    have "a \<noteq> g" using ab(2) x(2) by auto
    then have "gd_id a \<noteq> gd_id g" using inj_onD [of "gd_id \<circ> fst" "set gs" "(a, b)" "(g, snd (gs ! i))"] ids ab(1) gi by (auto simp: distinct_map)
    then show ?thesis using ab(3) by simp
  qed
  have "world_legs (drop_guard g w) key = guard_legs (filter (\<lambda>x. gd_id (fst x) \<noteq> gd_id g) gs) key" for key
  proof (cases "key = gd_key g")
    case True
    then show ?thesis using live(3) registry_okD(1) [OF ok] by (simp add: w' world_legs_def legs_of_def guard_legs_filter v'_def)
  next
    case False
    then have "\<forall>x \<in> set (guard_legs gs key). fst x \<noteq> gd_id g" using apart by blast
    then have "filter (\<lambda>(i, _, _). i \<noteq> gd_id g) (guard_legs gs key) = guard_legs gs key" by (intro filter_True) auto
    then show ?thesis using False registry_okD(1) [OF ok, of key] live(1) by (simp add: w' world_legs_def legs_of_def guard_legs_filter)
  qed
  then show ?thesis using ok live(1) unfolding gs' g_def [symmetric]
    by (auto simp: registry_ok_def w' intro: distinct_map_filter)
qed

lemma sweep_sends:
  assumes "\<forall>live. sp_live w = Some live \<longrightarrow> hm_wf (sp_entries live)"
  shows "only_sends w (snd (sweep_live_splice_memberships mr rv w))
    ((\<Union>(c, h) \<in> {k \<in> set (live_splice_members w). mr (fst k) (snd k)}. txs_of (world_legs w (c, h)))
     \<union> (\<Union>(c, ds) \<in> set (live_splice_digests w). \<Union>d \<in> set (rv c ds). digest_legs w c d))"
proof -
  obtain n v where v: "sweep_members mr (live_splice_members w) w = (n, v)" by (cases "sweep_members mr (live_splice_members w) w")
  have s: "only_sends w v (\<Union>(c, h) \<in> {k \<in> set (live_splice_members w). mr (fst k) (snd k)}. txs_of (world_legs w (c, h)))"
    using sweep_members_sends [of w mr "live_splice_members w"] by (simp add: v)
  have "digest_legs v = digest_legs w" by (simp add: digest_legs_def only_sends_frame(3) [OF s] fun_eq_iff)
  moreover have "only_sends v (sweep_digests rv (live_splice_digests w) v) (\<Union>(c, ds) \<in> set (live_splice_digests w). \<Union>d \<in> set (rv c ds). digest_legs v c d)"
    by (rule sweep_digests_sends) (simp add: only_sends_frame(1) [OF s] assms)
  ultimately show ?thesis using only_sends_trans [OF s] by (simp add: sweep_live_splice_memberships_def v only_sends_frame(6) [OF s])
qed

lemma step_ok:
  assumes "registry_ok n st" "n + registrations [ev] < 2 ^ 64"
  shows "registry_ok (n + registrations [ev]) (splice_step st ev)"
proof -
  obtain gs w where st: "st = (gs, w)" by (cases st)
  note ok = assms(1) [unfolded st]
  note d = registry_okD [OF ok]
  show ?thesis
  proof (cases ev)
    case (Register c h dg)
    obtain g w' where "register_live_splice_inner w c h dg = (g, w')" by (cases "register_live_splice_inner w c h dg")
    then show ?thesis using register_ok [OF ok] assms(2) Register by (simp add: st registrations_def)
  next
    case (DropGuard i)
    then show ?thesis using drop_ok [OF ok] ok by (simp add: st registrations_def)
  next
    case (CutMember c h)
    then show ?thesis using sends_ok [OF ok cut_member_sends(1) d(3)] by (simp add: st registrations_def)
  next
    case (CutDigest c dg)
    then show ?thesis using sends_ok [OF ok cut_digest_sends [OF d(2)] d(4)] by (simp add: st registrations_def)
  next
    case (Sweep mr rv)
    have "registry_ok n (gs, snd (sweep_live_splice_memberships mr rv w))"
      by (rule sends_ok [OF ok sweep_sends [OF d(2)]]) (use d(3,4) in fastforce)
    then show ?thesis using Sweep by (simp add: st registrations_def)
  qed
qed

lemma run_ok: "registrations evs < 2 ^ 64 \<Longrightarrow> registry_ok (registrations evs) (splice_run evs)"
proof (induction evs rule: rev_induct)
  case Nil
  show ?case by (simp add: registry_ok_def splice_run_def splice_world_new_def world_legs_def guard_legs_def registrations_def)
next
  case (snoc ev evs)
  have r: "registrations (evs @ [ev]) = registrations evs + registrations [ev]" by (simp add: registrations_def)
  then have "registry_ok (registrations evs) (splice_run evs)" using snoc by simp
  from step_ok [OF this, of ev] show ?case using snoc.prems r by (simp add: splice_run_def)
qed

lemma members_iff:
  assumes "registry_ok n (gs, w)"
  shows "set (live_splice_members w) = (gd_key \<circ> fst) ` set gs" "distinct (live_splice_members w)"
proof -
  have legs: "world_legs w key = guard_legs gs key" for key using registry_okD(1) [OF assms] .
  have "key \<in> set (live_splice_members w) \<longleftrightarrow> world_legs w key \<noteq> []" for key
  proof (cases "sp_live w")
    case (Some live)
    have "hm_get (sp_entries live) key \<noteq> Some []" using assms Some by (cases key) (simp add: registry_ok_def)
    then show ?thesis using Some
      by (auto simp: live_splice_members_def world_legs_def legs_of_def hm_get_def map_of_eq_None_iff split: option.splits
          dest: map_of_SomeD intro: rev_image_eqI)
  qed (simp add: live_splice_members_def world_legs_def)
  moreover have "guard_legs gs key \<noteq> [] \<longleftrightarrow> key \<in> (gd_key \<circ> fst) ` set gs" for key
    by (force simp: guard_legs_def filter_empty_conv)
  ultimately show "set (live_splice_members w) = (gd_key \<circ> fst) ` set gs" by (auto simp: legs)
  show "distinct (live_splice_members w)"
    using registry_okD(2) [OF assms] by (simp add: live_splice_members_def hm_wf_def split: option.split)
qed

lemma guard_in_legs: "(g, dg) \<in> set gs \<Longrightarrow> (gd_id g, dg, gd_rx g) \<in> set (guard_legs gs (gd_key g))"
  by (force simp: guard_legs_def)

lemma guard_digest: "(\<exists>h i t. (i, Some d, t) \<in> set (guard_legs gs (c, h))) \<longleftrightarrow> (\<exists>g. (g, Some d) \<in> set gs \<and> fst (gd_key g) = c)"
proof
  assume "\<exists>h i t. (i, Some d, t) \<in> set (guard_legs gs (c, h))"
  then show "\<exists>g. (g, Some d) \<in> set gs \<and> fst (gd_key g) = c" by (auto simp: guard_legs_def)
next
  assume "\<exists>g. (g, Some d) \<in> set gs \<and> fst (gd_key g) = c"
  then show "\<exists>h i t. (i, Some d, t) \<in> set (guard_legs gs (c, h))" using guard_in_legs by (metis prod.collapse)
qed

lemma guard_cut:
  assumes ok: "registry_ok n (gs, w)" and g: "(g, dg) \<in> set gs"
  shows "gd_rx g \<in> txs_of (world_legs w key) \<longleftrightarrow> gd_key g = key"
    and "gd_rx g \<in> digest_legs w c d \<longleftrightarrow> fst (gd_key g) = c \<and> dg = Some d"
proof -
  have legs: "world_legs w key = guard_legs gs key" for key using registry_okD(1) [OF ok] .
  have inj: "x = (g, dg)" if "x \<in> set gs" "gd_rx (fst x) = gd_rx g" for x
    using ok g that inj_onD [of "gd_rx \<circ> fst" "set gs" x "(g, dg)"] by (auto simp: registry_ok_def distinct_map)
  show "gd_rx g \<in> txs_of (world_legs w key) \<longleftrightarrow> gd_key g = key"
  proof
    assume "gd_rx g \<in> txs_of (world_legs w key)"
    then obtain x where "x \<in> set gs" "gd_key (fst x) = key" "gd_rx (fst x) = gd_rx g" by (auto simp: txs_of_def legs guard_legs_def)
    with inj show "gd_key g = key" by fastforce
  next
    assume "gd_key g = key"
    then have "(gd_id g, dg, gd_rx g) \<in> set (guard_legs gs key)" using guard_in_legs [OF g] by simp
    then show "gd_rx g \<in> txs_of (world_legs w key)" by (force simp: txs_of_def legs)
  qed
  show "gd_rx g \<in> digest_legs w c d \<longleftrightarrow> fst (gd_key g) = c \<and> dg = Some d"
  proof
    assume "gd_rx g \<in> digest_legs w c d"
    then obtain h i x where "x \<in> set gs" "gd_key (fst x) = (c, h)" "snd x = Some d" "gd_rx (fst x) = gd_rx g"
      by (auto simp: digest_legs_def legs guard_legs_def)
    with inj show "fst (gd_key g) = c \<and> dg = Some d" by fastforce
  next
    assume "fst (gd_key g) = c \<and> dg = Some d"
    then have "(gd_id g, Some d, gd_rx g) \<in> set (guard_legs gs (c, snd (gd_key g)))" using guard_in_legs [OF g] by auto
    then show "gd_rx g \<in> digest_legs w c d" by (auto simp: digest_legs_def legs)
  qed
qed

lemma count_by_key:
  fixes f :: "'x \<Rightarrow> 'k"
  assumes "distinct keys" "f ` set xs \<subseteq> set keys"
  shows "sum_list (map (\<lambda>k. if P k then length (filter (\<lambda>x. f x = k) xs) else 0) keys) = length (filter (\<lambda>x. P (f x)) xs)"
  unfolding sum_list_distinct_conv_sum_set [OF assms(1)] using assms(2)
proof (induction xs)
  case (Cons x xs)
  have "(\<Sum>k \<in> set keys. if P k then length (filter (\<lambda>y. f y = k) (x # xs)) else 0)
    = (\<Sum>k \<in> set keys. (if P k then length (filter (\<lambda>y. f y = k) xs) else 0) + (if k = f x then (if P k then 1 else 0) else 0))"
    by (rule sum.cong) auto
  also have "\<dots> = length (filter (\<lambda>x. P (f x)) xs) + (if P (f x) then 1 else 0)"
    using Cons by (simp add: sum.distrib)
  finally show ?case by simp
qed simp

lemma sweep_count:
  assumes ok: "registry_ok n (gs, w)"
  shows "fst (sweep_live_splice_memberships mr rv w) = length (filter (\<lambda>(g, _). mr (fst (gd_key g)) (snd (gd_key g))) gs)"
proof -
  have "length (world_legs w k) = length (filter (\<lambda>x. gd_key (fst x) = k) gs)" for k
    unfolding registry_okD(1) [OF ok] guard_legs_def by (simp add: case_prod_unfold)
  then have "fst (sweep_members mr (live_splice_members w) w) = length (filter (\<lambda>x. mr (fst (gd_key (fst x))) (snd (gd_key (fst x)))) gs)"
    using sweep_members_sends [of w mr "live_splice_members w"] members_iff [OF ok]
      count_by_key [of "live_splice_members w" "gd_key \<circ> fst" gs "\<lambda>k. mr (fst k) (snd k)"]
    by (simp cong: if_cong)
  then show ?thesis by (simp add: sweep_live_splice_memberships_def case_prod_unfold)
qed

section \<open>Properties\<close>

text \<open>
  The registry is the set of splices that run. After any sequence of registrations, ends, cuts and sweeps
  (fewer than 2 to the 64 registrations), the legs listed under a channel and holder are exactly those of
  the guards that exist, in order, with their digests; the keys to ask about are those with a guard, each
  once; and a leg that has just been registered is not cut.
\<close>

theorem splice_registry_exact:
  assumes "splice_run evs = (gs, w)" "registrations evs < 2 ^ 64"
  shows "world_legs w key = map (\<lambda>(g, dg). (gd_id g, dg, gd_rx g)) (filter (\<lambda>(g, _). gd_key g = key) gs)
    \<and> set (live_splice_members w) = (gd_key \<circ> fst) ` set gs \<and> distinct (live_splice_members w)
    \<and> \<not> is_cut (snd (register_live_splice_inner w channel holder digest)) (fst (register_live_splice_inner w channel holder digest))"
proof -
  have ok: "registry_ok (registrations evs) (gs, w)" using run_ok [OF assms(2)] assms(1) by simp
  then have "\<forall>tx \<in> sp_sent w. tx < sp_channels w" by (simp add: registry_ok_def)
  then have "\<not> is_cut (snd (register_live_splice_inner w channel holder digest)) (fst (register_live_splice_inner w channel holder digest))"
    by (auto simp: is_cut_def register_live_splice_inner_def Let_def)
  then show ?thesis using registry_okD(1) [OF ok, of key] members_iff [OF ok] by (simp add: guard_legs_def)
qed

text \<open>
  C16. A sweep cuts exactly what is gone. In every such state, a sweep cuts a running leg, if it was not cut
  before, exactly when the resolver answers that its holder's membership is revoked, or the revocation
  list, asked once per channel about the distinct digests of its running legs, contains the digest it was
  admitted with; and it counts the legs of revoked memberships. No other leg is touched.
\<close>

theorem sweep_cuts_exactly:
  assumes "splice_run evs = (gs, w)" "registrations evs < 2 ^ 64"
    and "sweep_live_splice_memberships membership_revoked revoked w = (n, w')"
  shows "\<exists>asked. (\<forall>c. distinct (asked c) \<and> set (asked c) = {d. \<exists>g. (g, Some d) \<in> set gs \<and> fst (gd_key g) = c})
    \<and> (\<forall>(g, dg) \<in> set gs. is_cut w' g \<longleftrightarrow> is_cut w g \<or> membership_revoked (fst (gd_key g)) (snd (gd_key g))
         \<or> (\<exists>d. dg = Some d \<and> d \<in> set (revoked (fst (gd_key g)) (asked (fst (gd_key g))))))
    \<and> n = length (filter (\<lambda>(g, _). membership_revoked (fst (gd_key g)) (snd (gd_key g))) gs)"
proof -
  have ok: "registry_ok (registrations evs) (gs, w)" using run_ok [OF assms(2)] assms(1) by simp
  note d = registry_okD [OF ok]
  let ?asked = "asked (live_splice_digests w)"
  note dok = live_splice_digests_ok [OF d(2)]
  have asked: "distinct (?asked c)" "set (?asked c) = {d. \<exists>g. (g, Some d) \<in> set gs \<and> fst (gd_key g) = c}" for c
  proof -
    show "distinct (?asked c)" using dok by (simp add: digests_ok_def)
    have "set (?asked c) = {d. \<exists>h i t. (i, Some d, t) \<in> set (guard_legs gs (c, h))}" using dok by (simp add: digests_ok_def d(1))
    also have "\<dots> = {d. \<exists>g. (g, Some d) \<in> set gs \<and> fst (gd_key g) = c}"
      by (simp add: guard_digest)
    finally show "set (?asked c) = {d. \<exists>g. (g, Some d) \<in> set gs \<and> fst (gd_key g) = c}" .
  qed
  have cut: "is_cut w' g \<longleftrightarrow> is_cut w g \<or> membership_revoked (fst (gd_key g)) (snd (gd_key g))
      \<or> (\<exists>d. dg = Some d \<and> d \<in> set (revoked (fst (gd_key g)) (?asked (fst (gd_key g)))))" if g: "(g, dg) \<in> set gs" for g dg
  proof -
    have "gd_key g \<in> set (live_splice_members w)" using members_iff(1) [OF ok] g by force
    then have m: "(\<exists>k \<in> {k \<in> set (live_splice_members w). membership_revoked (fst k) (snd k)}. gd_rx g \<in> txs_of (world_legs w k))
        \<longleftrightarrow> membership_revoked (fst (gd_key g)) (snd (gd_key g))"
      using guard_cut(1) [OF ok g] by auto
    have mem: "(c, ds) \<in> set (live_splice_digests w) \<longleftrightarrow> hm_get (live_splice_digests w) c = Some ds" for c ds
      using dok by (simp add: digests_ok_def hm_wf_def hm_get_def)
    have "(\<exists>(c, ds) \<in> set (live_splice_digests w). \<exists>d \<in> set (revoked c ds). gd_rx g \<in> digest_legs w c d)
        \<longleftrightarrow> (\<exists>d. dg = Some d \<and> (\<exists>ds. hm_get (live_splice_digests w) (fst (gd_key g)) = Some ds \<and> d \<in> set (revoked (fst (gd_key g)) ds)))"
      unfolding guard_cut(2) [OF ok g] by (simp add: Bex_def split_paired_Ex mem) blast
    also have "\<dots> \<longleftrightarrow> (\<exists>d. dg = Some d \<and> d \<in> set (revoked (fst (gd_key g)) (?asked (fst (gd_key g)))))"
      using asked(2) [of "fst (gd_key g)"] g by (auto simp: asked_def split: option.splits)
    finally have r: "(\<exists>(c, ds) \<in> set (live_splice_digests w). \<exists>d \<in> set (revoked c ds). gd_rx g \<in> digest_legs w c d)
        \<longleftrightarrow> (\<exists>d. dg = Some d \<and> d \<in> set (revoked (fst (gd_key g)) (?asked (fst (gd_key g)))))" .
    have "gd_rx g \<in> sp_sent w' \<longleftrightarrow> gd_rx g \<in> sp_sent w
        \<or> (\<exists>k \<in> {k \<in> set (live_splice_members w). membership_revoked (fst k) (snd k)}. gd_rx g \<in> txs_of (world_legs w k))
        \<or> (\<exists>(c, ds) \<in> set (live_splice_digests w). \<exists>d \<in> set (revoked c ds). gd_rx g \<in> digest_legs w c d)"
      using only_sends_frame(4) [OF sweep_sends [OF d(2), of membership_revoked revoked]] assms(3) by (simp add: case_prod_unfold)
    then show ?thesis unfolding m r is_cut_def .
  qed
  show ?thesis using asked cut sweep_count [OF ok, of membership_revoked revoked] assms(3) by (intro exI [of _ ?asked]) auto
qed

text \<open>The witness: two legs of one holder and one of another; a sweep after one has ended.\<close>

definition ex_splices :: "splice_event list" where
  "ex_splices = [Register [1] [2] (Some [5]), Register [1] [3] (Some [6]), Register [1] [3] None, DropGuard 0]"

lemma ex_splices_run:
  "fst (splice_run ex_splices) = [(\<lparr>gd_key = ([1], [3]), gd_id = 2, gd_rx = 1\<rparr>, Some [6]), (\<lparr>gd_key = ([1], [3]), gd_id = 3, gd_rx = 2\<rparr>, None)]"
  "registrations ex_splices < 2 ^ 64"
  by (simp_all add: ex_splices_def splice_run_def splice_world_new_def register_live_splice_inner_def default_splices_def registrations_def Let_def)

theorem splice_registry_exact_witness:
  "world_legs (snd (splice_run ex_splices)) ([1], [3]) = [(2, Some [6], 1), (3, None, 2)]
    \<and> world_legs (snd (splice_run ex_splices)) ([1], [2]) = []"
  using splice_registry_exact [OF prod.collapse [symmetric] ex_splices_run(2)] by (simp add: ex_splices_run(1))

theorem sweep_cuts_exactly_witness:
  "is_cut (snd (sweep_live_splice_memberships (\<lambda>_ _. False) (\<lambda>_ ds. ds) (snd (splice_run ex_splices)))) \<lparr>gd_key = ([1], [3]), gd_id = 2, gd_rx = 1\<rparr>
    \<and> fst (sweep_live_splice_memberships (\<lambda>_ _. False) (\<lambda>_ ds. ds) (snd (splice_run ex_splices))) = 0"
proof -
  obtain f where f: "\<forall>c. distinct (f c) \<and> set (f c) = {d. \<exists>g. (g, Some d) \<in> set (fst (splice_run ex_splices)) \<and> fst (gd_key g) = c}"
    "\<forall>(g, dg) \<in> set (fst (splice_run ex_splices)).
       is_cut (snd (sweep_live_splice_memberships (\<lambda>_ _. False) (\<lambda>_ ds. ds) (snd (splice_run ex_splices)))) g
         \<longleftrightarrow> is_cut (snd (splice_run ex_splices)) g \<or> False \<or> (\<exists>d. dg = Some d \<and> d \<in> set (f (fst (gd_key g))))"
    "fst (sweep_live_splice_memberships (\<lambda>_ _. False) (\<lambda>_ ds. ds) (snd (splice_run ex_splices))) = 0"
    using sweep_cuts_exactly [OF prod.collapse [symmetric] ex_splices_run(2) prod.collapse [symmetric], of "\<lambda>_ _. False" "\<lambda>_ ds. ds"] by auto
  then show ?thesis by (simp add: ex_splices_run(1))
qed

end
