(* ===== verification/Slices.thy ===== *)
theory Slices
  imports Wire
begin

text \<open>
  Byte slices read under a bounds check, shared by the TLS and DNS readers: \<open>get_byte\<close> and \<open>get_range\<close> are
  Rust's \<open>get\<close> on an index and on a range, and \<open>to_ascii_lowercase\<close> is that of \<open>str\<close> on UTF-8 bytes. The
  lemmas say what such a read tells of the bytes at the cursor.
\<close>

section \<open>Reads\<close>

definition get_byte :: "bytes \<Rightarrow> nat \<Rightarrow> u8 option" where
  "get_byte bs i = (if i < length bs then Some (bs ! i) else None)"

definition get_range :: "bytes \<Rightarrow> nat \<Rightarrow> nat \<Rightarrow> bytes option" where
  "get_range bs a b = (if a \<le> b \<and> b \<le> length bs then Some (take (b - a) (drop a bs)) else None)"

definition get_be16 :: "bytes \<Rightarrow> nat \<Rightarrow> u16 option" where
  "get_be16 bs p =
     (case get_byte bs p of None \<Rightarrow> None | Some a \<Rightarrow>
      case get_byte bs (p + 1) of None \<Rightarrow> None | Some b \<Rightarrow> Some (from_be_bytes16 [a, b]))"

definition byte_to_ascii_lowercase :: "u8 \<Rightarrow> u8" where
  "byte_to_ascii_lowercase b = (if 0x41 \<le> b \<and> b \<le> 0x5A then b + 32 else b)"

definition to_ascii_lowercase :: "bytes \<Rightarrow> bytes" where
  "to_ascii_lowercase s = map byte_to_ascii_lowercase s"

definition eq_ignore_ascii_case :: "bytes \<Rightarrow> bytes \<Rightarrow> bool" where
  "eq_ignore_ascii_case s t \<longleftrightarrow> to_ascii_lowercase s = to_ascii_lowercase t"

section \<open>What a read tells\<close>

lemma unat16_of_nat: "n < 65536 \<Longrightarrow> unat (word_of_nat n :: u16) = n"
  by (simp add: unat_of_nat)

lemma unat8_of_nat: "n < 256 \<Longrightarrow> unat (word_of_nat n :: u8) = n"
  by (simp add: unat_of_nat)

lemma unat16_bound: "unat (w :: u16) < 65536"
  using unat_bound [of w] by simp

lemma unat8_bound: "unat (w :: u8) < 256"
  using unat_bound [of w] by simp

lemma to_be_from_be16: "length bs = 2 \<Longrightarrow> to_be_bytes16 (from_be_bytes16 bs) = bs"
  using le_nat_bound [of "rev bs"] nat_le_le_nat [of "rev bs" 2]
  by (simp add: to_be_bytes16_def from_be_bytes16_def unat_of_nat)

lemma be16_cases:
  obtains a b where "to_be_bytes16 w = [a, b]" "from_be_bytes16 [a, b] = w"
proof -
  have "length (to_be_bytes16 w) = 2" by simp
  then obtain a b where ab: "to_be_bytes16 w = [a, b]"
    unfolding numeral_2_eq_2 length_Suc_conv length_0_conv by blast
  have "from_be_bytes16 [a, b] = w" unfolding ab [symmetric] by simp
  then show thesis using that ab by blast
qed

lemma pair_be16: "[a, b] = to_be_bytes16 (from_be_bytes16 [a, b])"
  by (simp add: to_be_from_be16)

lemma get_byte_drop: "get_byte bs p = Some x \<longleftrightarrow> (\<exists>post. drop p bs = x # post)"
proof
  assume "get_byte bs p = Some x"
  then have "p < length bs" "bs ! p = x" by (auto simp: get_byte_def split: if_splits)
  then show "\<exists>post. drop p bs = x # post" using Cons_nth_drop_Suc [of p bs] by metis
next
  assume "\<exists>post. drop p bs = x # post"
  then obtain post where d: "drop p bs = x # post" by blast
  then have "p < length bs" by (metis drop_all leI list.distinct(1))
  then show "get_byte bs p = Some x" using nth_via_drop [OF d] by (simp add: get_byte_def)
qed

lemma drop_past: "drop p bs = xs @ ys \<Longrightarrow> drop (p + length xs) bs = ys"
  by (metis add.commute append_eq_conv_conj drop_drop)

lemma get_be16_drop: "get_be16 bs p = Some w \<longleftrightarrow> (\<exists>post. drop p bs = to_be_bytes16 w @ post)"
proof
  assume "get_be16 bs p = Some w"
  then obtain x y where xy: "get_byte bs p = Some x" "get_byte bs (p + 1) = Some y" "from_be_bytes16 [x, y] = w"
    by (auto simp: get_be16_def split: option.splits)
  obtain post where d: "drop p bs = x # post" using xy(1) get_byte_drop by blast
  have "drop (p + 1) bs = post" using d drop_past [of p bs "[x]"] by simp
  then obtain post' where "post = y # post'" using xy(2) get_byte_drop by metis
  then have "drop p bs = to_be_bytes16 w @ post'" using d xy(3) pair_be16 [of x y] by simp
  then show "\<exists>post. drop p bs = to_be_bytes16 w @ post" by blast
next
  assume "\<exists>post. drop p bs = to_be_bytes16 w @ post"
  moreover obtain a b where ab: "to_be_bytes16 w = [a, b]" "from_be_bytes16 [a, b] = w" by (rule be16_cases)
  ultimately obtain post where d: "drop p bs = a # b # post" by auto
  then have "drop (p + 1) bs = b # post" using drop_past [of p bs "[a]"] by simp
  then show "get_be16 bs p = Some w" using d ab(2) get_byte_drop [THEN iffD2] by (simp add: get_be16_def)
qed

lemma get_range_drop: "get_range bs p (p + n) = Some v \<longleftrightarrow> p \<le> length bs \<and> length v = n \<and> (\<exists>post. drop p bs = v @ post)"
proof
  assume "get_range bs p (p + n) = Some v"
  then have v: "p + n \<le> length bs" "v = take n (drop p bs)" by (auto simp: get_range_def split: if_splits)
  then have "drop p bs = v @ drop n (drop p bs)" by (metis append_take_drop_id)
  then show "p \<le> length bs \<and> length v = n \<and> (\<exists>post. drop p bs = v @ post)" using v by auto
next
  assume "p \<le> length bs \<and> length v = n \<and> (\<exists>post. drop p bs = v @ post)"
  then obtain post where d: "p \<le> length bs" "length v = n" "drop p bs = v @ post" by blast
  have "length bs - p = n + length post" using d(2,3) by (metis length_append length_drop)
  then show "get_range bs p (p + n) = Some v" using d by (simp add: get_range_def)
qed

end
