(* ===== verification/ClientHello.thy ===== *)
theory ClientHello
  imports Text Slices
begin

text \<open>
  The front door's reader of TLS ClientHello records, \<open>edge/src/sni.rs\<close>: the walk to the extensions, the
  server name, the ALPN list and the routing decision. A loop with a cursor into a slice is a recursion on the rest of
  the slice.
\<close>

section \<open>The record\<close>

definition CT_EDGE_ALPN :: bytes where
  "CT_EDGE_ALPN = ascii ''ct-edge''"

definition CT_EDGE_CHANNEL_ALPN :: bytes where
  "CT_EDGE_CHANNEL_ALPN = ascii ''ct-edge-channel''"

definition CT_EDGE_CHANNEL_KA_ALPN :: bytes where
  "CT_EDGE_CHANNEL_KA_ALPN = ascii ''ct-edge-channel-ka''"

definition CT_EDGE_RELAY_ALPN :: bytes where
  "CT_EDGE_RELAY_ALPN = ascii ''ct-edge-relay''"

definition CT_EDGE_CHANNEL_FALLBACK_SNI :: bytes where
  "CT_EDGE_CHANNEL_FALLBACK_SNI = ascii ''edge-cdn.invalid''"

definition client_hello_body :: "bytes \<Rightarrow> bytes option" where
  "client_hello_body hello =
     (if length hello < 5 \<or> hello ! 0 \<noteq> 0x16 then None
      else let rec_len = unat (from_be_bytes16 [hello ! 3, hello ! 4]) in
      case get_range hello 5 (5 + rec_len) of None \<Rightarrow> None | Some hs \<Rightarrow>
        if length hs < 4 \<or> hs ! 0 \<noteq> 0x01 then None else get_range hs 4 (length hs))"

definition client_hello_extensions :: "bytes \<Rightarrow> bytes option" where
  "client_hello_extensions hello =
     (case client_hello_body hello of None \<Rightarrow> None | Some body \<Rightarrow>
      let p = 34 in
      case get_byte body p of None \<Rightarrow> None | Some sid \<Rightarrow>
      let p = p + (1 + unat sid) in
      case get_be16 body p of None \<Rightarrow> None | Some cs \<Rightarrow>
      let p = p + (2 + unat cs) in
      case get_byte body p of None \<Rightarrow> None | Some cm \<Rightarrow>
      let p = p + (1 + unat cm) in
      case get_be16 body p of None \<Rightarrow> None | Some ext_total \<Rightarrow>
      let p = p + 2 in get_range body p (p + unat ext_total))"

definition client_hello_ja4_fields :: "bytes \<Rightarrow> (u16 \<times> bytes \<times> bytes) option" where
  "client_hello_ja4_fields hello =
     (case client_hello_body hello of None \<Rightarrow> None | Some body \<Rightarrow>
      case get_be16 body 0 of None \<Rightarrow> None | Some version \<Rightarrow>
      let p = 34 in
      case get_byte body p of None \<Rightarrow> None | Some sid \<Rightarrow>
      let p = p + (1 + unat sid) in
      case get_be16 body p of None \<Rightarrow> None | Some cs_len \<Rightarrow>
      let p = p + 2 in
      case get_range body p (p + unat cs_len) of None \<Rightarrow> None | Some cipher_suites \<Rightarrow>
      let p = p + unat cs_len in
      case get_byte body p of None \<Rightarrow> None | Some cm \<Rightarrow>
      let p = p + (1 + unat cm) in
      case get_be16 body p of None \<Rightarrow> None | Some ext_total \<Rightarrow>
      let p = p + 2 in
      case get_range body p (p + unat ext_total) of None \<Rightarrow> None | Some extensions \<Rightarrow>
        Some (version, cipher_suites, extensions))"

section \<open>Extensions\<close>

text \<open>The type, the data and the rest of a block of at least four bytes, if the data is all there.\<close>

definition next_extension :: "bytes \<Rightarrow> (u16 \<times> bytes \<times> bytes) option" where
  "next_extension exts =
     (let etype = from_be_bytes16 [exts ! 0, exts ! 1]; elen = unat (from_be_bytes16 [exts ! 2, exts ! 3]) in
      case get_range exts 4 (4 + elen) of None \<Rightarrow> None | Some edata \<Rightarrow> Some (etype, edata, drop (4 + elen) exts))"

lemma next_extension_shorter: "next_extension exts = Some (t, d, rest) \<Longrightarrow> 4 \<le> length exts \<and> length rest < length exts"
  by (auto simp: next_extension_def get_range_def Let_def split: if_splits)

function find_extension :: "bytes \<Rightarrow> u16 \<Rightarrow> (bytes \<Rightarrow> 'a option) \<Rightarrow> 'a option" where
  "find_extension exts want f =
     (if length exts < 4 then None
      else case next_extension exts of
        None \<Rightarrow> None
      | Some (etype, edata, rest) \<Rightarrow> if etype = want then f edata else find_extension rest want f)"
  by pat_completeness auto
termination by (relation "measure (\<lambda>(exts, _). length exts)") (auto dest: next_extension_shorter)

text \<open>The calls of the visitor, in order, and the result.\<close>

function each_extension :: "bytes \<Rightarrow> (u16 \<times> bytes) list \<times> unit option" where
  "each_extension exts =
     (if length exts < 4 then ([], Some ())
      else case next_extension exts of
        None \<Rightarrow> ([], None)
      | Some (etype, edata, rest) \<Rightarrow> (case each_extension rest of (es, r) \<Rightarrow> ((etype, edata) # es, r)))"
  by pat_completeness auto
termination by (relation "measure length") (auto dest: next_extension_shorter)

declare find_extension.simps [simp del] each_extension.simps [simp del]

text \<open>The body of an extension that is a list behind its two-byte length.\<close>

definition ext_list :: "bytes \<Rightarrow> bytes option" where
  "ext_list edata =
     (if length edata < 2 then None else get_range edata 2 (2 + unat (from_be_bytes16 [edata ! 0, edata ! 1])))"

definition host_name :: "bytes \<Rightarrow> bytes option" where
  "host_name edata =
     (case ext_list edata of None \<Rightarrow> None | Some xs \<Rightarrow>
        if length xs < 3 \<or> xs ! 0 \<noteq> 0x00 then None
        else case get_range xs 3 (3 + unat (from_be_bytes16 [xs ! 1, xs ! 2])) of
          None \<Rightarrow> None
        | Some name \<Rightarrow> from_utf8 name)"

definition sni_from_extensions :: "bytes \<Rightarrow> bytes option" where
  "sni_from_extensions exts = find_extension exts 0x0000 host_name"

definition peek_sni :: "bytes \<Rightarrow> bytes option" where
  "peek_sni hello = (case client_hello_extensions hello of None \<Rightarrow> None
     | Some exts \<Rightarrow> map_option to_ascii_lowercase (sni_from_extensions exts))"

section \<open>ALPN\<close>

function alpn_scan :: "bytes \<Rightarrow> bytes \<Rightarrow> bool option" where
  "alpn_scan want xs =
     (if xs = [] then Some False
      else let l = unat (xs ! 0) in
      case get_range xs 1 (1 + l) of
        None \<Rightarrow> None
      | Some name \<Rightarrow> if name = want then Some True else alpn_scan want (drop (1 + l) xs))"
  by pat_completeness auto
termination by (relation "measure (\<lambda>(_, xs). length xs)") auto

definition alpn_extension_has :: "bytes \<Rightarrow> bytes \<Rightarrow> bool" where
  "alpn_extension_has exts want =
     (case find_extension exts 0x0010 (\<lambda>edata. case ext_list edata of None \<Rightarrow> None | Some xs \<Rightarrow> alpn_scan want xs) of
        None \<Rightarrow> False
      | Some b \<Rightarrow> b)"

function alpn_names :: "bytes \<Rightarrow> bytes list option" where
  "alpn_names xs =
     (if xs = [] then Some []
      else let l = unat (xs ! 0) in
      case get_range xs 1 (1 + l) of
        None \<Rightarrow> None
      | Some name \<Rightarrow>
          map_option (\<lambda>out. (case from_utf8 name of None \<Rightarrow> out | Some s \<Rightarrow> s # out)) (alpn_names (drop (1 + l) xs)))"
  by pat_completeness auto
termination by (relation "measure length") auto

declare alpn_scan.simps [simp del] alpn_names.simps [simp del]

definition peek_alpn :: "bytes \<Rightarrow> bytes list" where
  "peek_alpn hello =
     (case client_hello_extensions hello of None \<Rightarrow> [] | Some exts \<Rightarrow>
      case find_extension exts 0x0010 (\<lambda>edata. case ext_list edata of None \<Rightarrow> None | Some xs \<Rightarrow> alpn_names xs) of
        None \<Rightarrow> []
      | Some out \<Rightarrow> out)"

definition alpn_first_value :: "bytes \<Rightarrow> bytes option" where
  "alpn_first_value exts =
     find_extension exts 0x0010 (\<lambda>edata. case ext_list edata of None \<Rightarrow> None
       | Some xs \<Rightarrow> if xs = [] then None else get_range xs 1 (1 + unat (xs ! 0)))"

section \<open>Routing\<close>

datatype front_door_route = EdgeRelay | ChannelBroker | RelayGate | Proxy bytes | BrowserTunnel bytes | FrontDoorReject

definition classify_front_door :: "bytes \<Rightarrow> (bytes \<Rightarrow> bool) \<Rightarrow> bytes option \<Rightarrow> front_door_route" where
  "classify_front_door hello is_terminate_host default_host =
     (let exts = client_hello_extensions hello;
          alpn_has = (\<lambda>want. case exts of None \<Rightarrow> False | Some e \<Rightarrow> alpn_extension_has e want) in
      if alpn_has CT_EDGE_ALPN then EdgeRelay
      else if alpn_has CT_EDGE_CHANNEL_ALPN \<or> alpn_has CT_EDGE_CHANNEL_KA_ALPN then ChannelBroker
      else if alpn_has CT_EDGE_RELAY_ALPN then RelayGate
      else case Option.bind exts sni_from_extensions of
        Some sni \<Rightarrow>
          if eq_ignore_ascii_case sni CT_EDGE_CHANNEL_FALLBACK_SNI then ChannelBroker
          else if is_terminate_host sni then Proxy (to_ascii_lowercase sni)
          else BrowserTunnel (to_ascii_lowercase sni)
      | None \<Rightarrow>
          if alpn_has (ascii ''http/1.1'') \<or> alpn_has (ascii ''h2'')
          then case default_host of Some d \<Rightarrow> Proxy (to_ascii_lowercase d) | None \<Rightarrow> FrontDoorReject
          else FrontDoorReject)"

text \<open>The bytes that were buffered and what the stream still holds.\<close>

definition read_client_hello_bytes :: "bytes \<Rightarrow> (bytes \<times> bytes) option" where
  "read_client_hello_bytes stream =
     (case take_n 5 stream of None \<Rightarrow> None | Some (hello, rest) \<Rightarrow>
        if hello ! 0 \<noteq> 0x16 then None
        else let rec_len = unat (from_be_bytes16 [hello ! 3, hello ! 4]) in
        if rec_len = 0 \<or> 16384 < rec_len then None
        else case take_n rec_len rest of None \<Rightarrow> None | Some (payload, rest) \<Rightarrow> Some (hello @ payload, rest))"

definition read_client_hello :: "bytes \<Rightarrow> (bytes \<times> bytes \<times> bytes) option" where
  "read_client_hello stream =
     (case read_client_hello_bytes stream of None \<Rightarrow> None | Some (hello, rest) \<Rightarrow>
        map_option (\<lambda>sni. (hello, sni, rest)) (peek_sni hello))"

section \<open>Exactness of the walk\<close>

text \<open>Length-prefixed vectors of the TLS presentation language, and what they make of a ClientHello.\<close>

definition vec8 :: "bytes \<Rightarrow> bytes" where
  "vec8 v = word_of_nat (length v) # v"

definition vec16 :: "bytes \<Rightarrow> bytes" where
  "vec16 v = to_be_bytes16 (word_of_nat (length v)) @ v"

definition hello_body :: "u16 \<Rightarrow> bytes \<Rightarrow> bytes \<Rightarrow> bytes \<Rightarrow> bytes \<Rightarrow> bytes \<Rightarrow> bytes" where
  "hello_body version random sid cs cm exts =
     to_be_bytes16 version @ random @ vec8 sid @ vec16 cs @ vec8 cm @ vec16 exts"

definition hello_record :: "bytes \<Rightarrow> bytes \<Rightarrow> bytes \<Rightarrow> bytes" where
  "hello_record rv l3 body = 0x16 # rv @ vec16 (0x01 # l3 @ body)"

text \<open>One vector at the cursor: what the length says is there, when something follows or the data was read.\<close>

lemma vec8_step:
  assumes "get_byte bs p = Some l" "drop (p + (1 + unat l)) bs \<noteq> []"
  shows "\<exists>v. length v = unat l \<and> drop p bs = vec8 v @ drop (p + (1 + unat l)) bs"
proof -
  obtain post where d: "drop p bs = l # post" using assms(1) get_byte_drop by blast
  have "drop (unat l) (drop (p + 1) bs) = drop (unat l) post" using drop_past [of p bs "[l]" post] d by simp
  then have r: "drop (p + (1 + unat l)) bs = drop (unat l) post" by (simp add: add.commute)
  then have "unat l < length post" using assms(2) by (metis drop_all leI)
  then show ?thesis using d r by (intro exI [of _ "take (unat l) post"]) (simp add: vec8_def)
qed

lemma vec16_step:
  assumes "get_be16 bs p = Some l" "get_range bs (p + 2) (p + 2 + unat l) = Some v"
  shows "length v = unat l \<and> drop p bs = vec16 v @ drop (p + 2 + unat l) bs"
proof -
  obtain post where d: "drop p bs = to_be_bytes16 l @ post" using assms(1) get_be16_drop by blast
  have "drop (p + 2) bs = post" using drop_past [OF d] by simp
  then obtain post' where v: "post = v @ post'" "length v = unat l" using assms(2) get_range_drop by metis
  have "drop (p + 2 + unat l) bs = post'" using drop_past [of p bs "to_be_bytes16 l @ v" post'] d v by (simp add: add.assoc)
  then show ?thesis using d v by (simp add: vec16_def)
qed

lemma get_vec8:
  assumes "drop p bs = vec8 v @ r" "length v < 256"
  shows "get_byte bs p = Some (word_of_nat (length v))" "drop (p + (1 + length v)) bs = r"
  using assms get_byte_drop [of bs p "word_of_nat (length v)"] drop_past [of p bs "vec8 v" r] by (simp_all add: vec8_def)

lemma get_vec16:
  assumes "drop p bs = vec16 v @ r" "length v < 65536"
  shows "get_be16 bs p = Some (word_of_nat (length v))" "get_range bs (p + 2) (p + 2 + length v) = Some v"
    "drop (p + 2 + length v) bs = r"
proof -
  show "get_be16 bs p = Some (word_of_nat (length v))" using assms(1) get_be16_drop by (auto simp: vec16_def)
  have d: "drop (p + 2) bs = v @ r" using drop_past [of p bs "to_be_bytes16 (word_of_nat (length v))"] assms(1) by (simp add: vec16_def)
  have "length (drop p bs) \<ge> 2" using assms(1) by (simp add: vec16_def)
  then show "get_range bs (p + 2) (p + 2 + length v) = Some v" using d unfolding get_range_drop by auto
  show "drop (p + 2 + length v) bs = r" using drop_past [OF d] .
qed

lemma ja4_fields_body:
  assumes body: "client_hello_body hello = Some body"
  shows "client_hello_ja4_fields hello = Some (v, cs, exts) \<longleftrightarrow>
    (\<exists>random sid cm rest. length random = 32 \<and> length sid < 256 \<and> length cs < 65536 \<and> length cm < 256 \<and> length exts < 65536
       \<and> body = hello_body v random sid cs cm exts @ rest)"
proof
  assume "client_hello_ja4_fields hello = Some (v, cs, exts)"
  then obtain s c m e where f: "get_be16 body 0 = Some v" "get_byte body 34 = Some s" "get_be16 body (34 + (1 + unat s)) = Some c"
    "get_range body (34 + (1 + unat s) + 2) (34 + (1 + unat s) + 2 + unat c) = Some cs"
    "get_byte body (34 + (1 + unat s) + 2 + unat c) = Some m"
    "get_be16 body (34 + (1 + unat s) + 2 + unat c + (1 + unat m)) = Some e"
    "get_range body (34 + (1 + unat s) + 2 + unat c + (1 + unat m) + 2) (34 + (1 + unat s) + 2 + unat c + (1 + unat m) + 2 + unat e) = Some exts"
    using body by (auto simp: client_hello_ja4_fields_def Let_def split: option.splits)
  have ne: "drop p body \<noteq> []" if "get_be16 body p = Some w" for p w
    using that unfolding get_be16_drop by (metis append_is_Nil_conv length_byte_codecs list.size(3) zero_neq_numeral)
  obtain post where v: "body = to_be_bytes16 v @ post" using f(1) get_be16_drop [of body 0 v] by auto
  have len: "34 < length body" using f(2) by (simp add: get_byte_def split: if_splits)
  obtain sid where sid: "length sid = unat s" "drop 34 body = vec8 sid @ drop (34 + (1 + unat s)) body"
    using vec8_step [OF f(2) ne [OF f(3)]] by blast
  obtain cm where cm: "length cm = unat m"
    "drop (34 + (1 + unat s) + 2 + unat c) body = vec8 cm @ drop (34 + (1 + unat s) + 2 + unat c + (1 + unat m)) body"
    using vec8_step [OF f(5) ne [OF f(6)]] by blast
  note c = vec16_step [OF f(3,4)] and e = vec16_step [OF f(6,7)]
  have "body = take 34 body @ drop 34 body" by simp
  moreover have "take 34 body = to_be_bytes16 v @ take 32 post" "length (take 32 post) = 32" using v len by (auto simp: v)
  ultimately have "body = hello_body v (take 32 post) sid cs cm exts @ drop (34 + (1 + unat s) + 2 + unat c + (1 + unat m) + 2 + unat e) body"
    using sid(2) cm(2) c e by (simp add: hello_body_def)
  then show "\<exists>random sid cm rest. length random = 32 \<and> length sid < 256 \<and> length cs < 65536 \<and> length cm < 256 \<and> length exts < 65536
       \<and> body = hello_body v random sid cs cm exts @ rest"
    using \<open>length (take 32 post) = 32\<close> sid(1) cm(1) c e unat8_bound [of s] unat8_bound [of m] unat16_bound [of c] unat16_bound [of e] by metis
next
  assume "\<exists>random sid cm rest. length random = 32 \<and> length sid < 256 \<and> length cs < 65536 \<and> length cm < 256 \<and> length exts < 65536
       \<and> body = hello_body v random sid cs cm exts @ rest"
  then obtain random sid cm rest where l: "length random = 32" "length sid < 256" "length cs < 65536" "length cm < 256" "length exts < 65536"
    and b: "body = hello_body v random sid cs cm exts @ rest" by blast
  have v: "get_be16 body 0 = Some v" unfolding get_be16_drop by (simp add: b hello_body_def)
  have d: "drop 34 body = vec8 sid @ vec16 cs @ vec8 cm @ vec16 exts @ rest"
    using drop_past [of 0 body "to_be_bytes16 v @ random"] l(1) by (simp add: b hello_body_def)
  note s = get_vec8 [OF d l(2)]
  note c = get_vec16 [OF s(2) l(3)]
  note m = get_vec8 [OF c(3) l(4)]
  note e = get_vec16 [OF m(2) l(5)]
  show "client_hello_ja4_fields hello = Some (v, cs, exts)"
    using body v s(1) c(1,2) m(1) e(1,2) unfolding client_hello_ja4_fields_def Let_def
    by (simp only: option.case unat8_of_nat [OF l(2)] unat16_of_nat [OF l(3)] unat8_of_nat [OF l(4)] unat16_of_nat [OF l(5)])
qed

lemma client_hello_body_exact:
  "client_hello_body hello = Some body \<longleftrightarrow>
     (\<exists>rv l3 rest. length rv = 2 \<and> length l3 = 3 \<and> length body + 4 < 65536 \<and> hello = hello_record rv l3 body @ rest)"
proof
  assume h: "client_hello_body hello = Some body"
  then have l5: "5 \<le> length hello" and h0: "hello ! 0 = 0x16" by (auto simp: client_hello_body_def split: if_splits)
  let ?n = "from_be_bytes16 [hello ! 3, hello ! 4]"
  obtain hs where hs: "get_range hello 5 (5 + unat ?n) = Some hs" "4 \<le> length hs" "hs ! 0 = 0x01" "get_range hs 4 (length hs) = Some body"
    using h by (auto simp: client_hello_body_def Let_def split: if_splits option.splits)
  obtain rest where r: "drop 5 hello = hs @ rest" "length hs = unat ?n" using hs(1) get_range_drop by metis
  have b: "body = drop 4 hs" using hs(4) by (simp add: get_range_def split: if_splits)
  obtain x0 x1 x2 x3 x4 xs where "hello = x0 # x1 # x2 # x3 # x4 # xs"
    using l5 by (auto simp: numeral_eq_Suc Suc_le_length_iff)
  then have "hello = hello ! 0 # [hello ! 1, hello ! 2] @ [hello ! 3, hello ! 4] @ drop 5 hello" by simp
  then have e: "hello = 0x16 # [hello ! 1, hello ! 2] @ to_be_bytes16 ?n @ hs @ rest" using h0 r pair_be16 [of "hello ! 3" "hello ! 4"] by simp
  obtain y0 y1 y2 y3 ys where "hs = y0 # y1 # y2 # y3 # ys"
    using hs(2) by (auto simp: numeral_eq_Suc Suc_le_length_iff)
  then have "hs = hs ! 0 # [hs ! 1, hs ! 2, hs ! 3] @ drop 4 hs" by simp
  then have "hs = 0x01 # [hs ! 1, hs ! 2, hs ! 3] @ body" using hs(3) b by simp
  moreover have "?n = word_of_nat (length hs)" using r(2) by simp
  ultimately have "hello = hello_record [hello ! 1, hello ! 2] [hs ! 1, hs ! 2, hs ! 3] body @ rest"
    using e unfolding hello_record_def vec16_def by (metis append.assoc append_Cons)
  moreover have "length body + 4 < 65536" using r(2) unat16_bound [of ?n] b hs(2) by simp
  ultimately show "\<exists>rv l3 rest. length rv = 2 \<and> length l3 = 3 \<and> length body + 4 < 65536 \<and> hello = hello_record rv l3 body @ rest"
    by (metis length_Cons list.size(3) numeral_2_eq_2 numeral_3_eq_3)
next
  assume "\<exists>rv l3 rest. length rv = 2 \<and> length l3 = 3 \<and> length body + 4 < 65536 \<and> hello = hello_record rv l3 body @ rest"
  then obtain rv l3 rest where l: "length rv = 2" "length l3 = 3" "length body + 4 < 65536" and h: "hello = hello_record rv l3 body @ rest" by blast
  let ?hs = "0x01 # l3 @ body"
  have n: "unat (word_of_nat (length ?hs) :: u16) = length ?hs" using l by (intro unat16_of_nat) simp
  obtain a b where ab: "to_be_bytes16 (word_of_nat (length ?hs)) = [a, b]" "from_be_bytes16 [a, b] = word_of_nat (length ?hs)" by (rule be16_cases)
  have hel: "hello = 0x16 # rv @ [a, b] @ ?hs @ rest" using ab h by (simp add: hello_record_def vec16_def)
  have d: "drop 5 hello = ?hs @ rest" using drop_past [of 0 hello "0x16 # rv @ [a, b]"] l hel by simp
  obtain r0 r1 where rv: "rv = [r0, r1]" using l(1) unfolding numeral_2_eq_2 length_Suc_conv length_0_conv by blast
  have x: "hello ! 0 = 0x16" "hello ! 3 = a" "hello ! 4 = b" "5 \<le> length hello" by (simp_all add: hel rv)
  have "get_range hello 5 (5 + length ?hs) = Some ?hs" using d x(4) unfolding get_range_drop by blast
  then have c: "get_range hello 5 (5 + unat (from_be_bytes16 [hello ! 3, hello ! 4])) = Some ?hs" using x(2,3) ab(2) n by simp
  have "get_range ?hs 4 (length ?hs) = Some body" using l(2) by (simp add: get_range_def)
  then show "client_hello_body hello = Some body" unfolding client_hello_body_def Let_def c using x(1,4) l(2) by simp
qed

lemma client_hello_extensions_fields: "client_hello_extensions hello = map_option (\<lambda>(_, _, e). e) (client_hello_ja4_fields hello)"
proof (cases "client_hello_body hello")
  case (Some body)
  have v: "get_be16 body 0 \<noteq> None" if "get_byte body 34 = Some s" for s
    using that by (auto simp: get_be16_def get_byte_def split: if_splits)
  have c: "get_range body q (q + n) \<noteq> None" if "get_byte body (q + n) = Some x" for q n x
    using that by (auto simp: get_range_def get_byte_def split: if_splits)
  show ?thesis using Some v c [of "34 + (1 + _) + 2"]
    by (auto simp: client_hello_extensions_def client_hello_ja4_fields_def Let_def add.assoc split: option.splits)
      (metis option.distinct(1))
qed (simp add: client_hello_extensions_def client_hello_ja4_fields_def)

section \<open>Exactness of the extensions\<close>

definition encode_exts :: "(u16 \<times> bytes) list \<Rightarrow> bytes" where
  "encode_exts es = concat (map (\<lambda>(t, d). to_be_bytes16 t @ vec16 d) es)"

definition exts_sized :: "(u16 \<times> bytes) list \<Rightarrow> bool" where
  "exts_sized es \<longleftrightarrow> (\<forall>(t, d) \<in> set es. length d < 65536)"

definition sni_data :: "bytes \<Rightarrow> bytes \<Rightarrow> bytes" where
  "sni_data name others = vec16 (0x00 # vec16 name @ others)"

definition alpn_data :: "bytes list \<Rightarrow> bytes" where
  "alpn_data ps = vec16 (concat (map vec8 ps))"

lemma next_extension_enc:
  assumes "length d < 65536"
  shows "next_extension (to_be_bytes16 t @ vec16 d @ rest) = Some (t, d, rest)"
proof -
  let ?n = "word_of_nat (length d) :: u16"
  obtain a b where t: "to_be_bytes16 t = [a, b]" "from_be_bytes16 [a, b] = t" by (rule be16_cases)
  obtain c e where n: "to_be_bytes16 ?n = [c, e]" "from_be_bytes16 [c, e] = ?n" by (rule be16_cases)
  show ?thesis using t n unat16_of_nat [OF assms]
    by (simp add: next_extension_def vec16_def get_range_def numeral_eq_Suc)
qed

lemma next_extension_Some:
  assumes "4 \<le> length exts" "next_extension exts = Some (t, d, rest)"
  shows "exts = to_be_bytes16 t @ vec16 d @ rest" "length d < 65536"
proof -
  obtain a b c e xs where x: "exts = a # b # c # e # xs"
    using assms(1) by (auto simp: numeral_eq_Suc Suc_le_length_iff)
  let ?n = "from_be_bytes16 [c, e]"
  have r: "t = from_be_bytes16 [a, b]" "d = take (unat ?n) xs" "rest = drop (unat ?n) xs" "unat ?n \<le> length xs"
    using assms(2) by (auto simp: x next_extension_def Let_def get_range_def numeral_eq_Suc split: if_splits)
  then have l: "length d = unat ?n" by simp
  then have "to_be_bytes16 (word_of_nat (length d)) = [c, e]" using pair_be16 [of c e] by simp
  then show "exts = to_be_bytes16 t @ vec16 d @ rest" using r pair_be16 [of a b] by (simp add: x vec16_def)
  show "length d < 65536" using l unat16_bound [of ?n] by simp
qed

lemma each_extension_enc:
  assumes "exts_sized es" "length rest < 4"
  shows "each_extension (encode_exts es @ rest) = (es, Some ())"
  using assms(1)
proof (induction es)
  case Nil
  show ?case using assms(2) by (simp add: each_extension.simps encode_exts_def)
next
  case (Cons e es)
  obtain t d where e: "e = (t, d)" by (cases e)
  have s: "length d < 65536" "exts_sized es" using Cons.prems by (auto simp: exts_sized_def e)
  have enc: "encode_exts (e # es) @ rest = to_be_bytes16 t @ vec16 d @ encode_exts es @ rest" by (simp add: encode_exts_def e)
  then have "next_extension (encode_exts (e # es) @ rest) = Some (t, d, encode_exts es @ rest)" using next_extension_enc [OF s(1)] by simp
  moreover have "4 \<le> length (encode_exts (e # es) @ rest)" unfolding enc by (simp add: vec16_def)
  ultimately show ?case using Cons.IH [OF s(2)] by (subst each_extension.simps) (simp add: e)
qed

lemma each_extension_sound:
  "each_extension exts = (es, r) \<Longrightarrow> \<exists>rest. exts = encode_exts es @ rest \<and> exts_sized es \<and> (r = Some () \<longleftrightarrow> length rest < 4)"
proof (induction exts arbitrary: es rule: each_extension.induct)
  case (1 exts)
  show ?case
  proof (cases "length exts < 4")
    case True
    then show ?thesis using 1(2) by (auto simp: each_extension.simps encode_exts_def exts_sized_def)
  next
    case long: False
    show ?thesis
    proof (cases "next_extension exts")
      case None
      then show ?thesis using 1(2) long by (subst (asm) each_extension.simps) (auto simp: encode_exts_def exts_sized_def)
    next
      case (Some x)
      obtain t d rest where x: "x = (t, d, rest)" by (cases x)
      obtain es' where es: "each_extension rest = (es', r)" "es = (t, d) # es'"
        using 1(2) long Some x by (subst (asm) each_extension.simps) (auto split: prod.splits)
      note n = next_extension_Some [of exts t d rest] 
      show ?thesis using 1(1) [OF long Some x [symmetric] refl es(1)] n long Some x es(2) by (auto simp: encode_exts_def exts_sized_def)
    qed
  qed
qed

lemma find_extension_each:
  "find_extension exts want f = (case find (\<lambda>(t, _). t = want) (fst (each_extension exts)) of None \<Rightarrow> None | Some (_, d) \<Rightarrow> f d)"
proof (induction exts rule: each_extension.induct)
  case (1 exts)
  then show ?case
    by (subst find_extension.simps, subst each_extension.simps) (auto split: option.splits prod.splits)
qed

lemma find_extension_enc:
  "exts_sized es \<Longrightarrow> find_extension (encode_exts es) want f = (case find (\<lambda>(t, _). t = want) es of None \<Rightarrow> None | Some (_, d) \<Rightarrow> f d)"
  using each_extension_enc [of es "[]"] by (simp add: find_extension_each)

lemma ext_list_vec16: "length xs < 65536 \<Longrightarrow> ext_list (vec16 xs) = Some xs"
proof -
  assume l: "length xs < 65536"
  obtain a b where "to_be_bytes16 (word_of_nat (length xs)) = [a, b]" "from_be_bytes16 [a, b] = word_of_nat (length xs)" by (rule be16_cases)
  then show "ext_list (vec16 xs) = Some xs" using unat16_of_nat [OF l] by (simp add: ext_list_def vec16_def get_range_def numeral_eq_Suc)
qed

lemma host_name_sni:
  assumes "length (sni_data name others) < 65536" "utf8_valid name"
  shows "host_name (sni_data name others) = Some name"
proof -
  have l: "length name < 65536" "length (0x00 # vec16 name @ others) < 65536" using assms(1) by (simp_all add: sni_data_def vec16_def)
  obtain a b where "to_be_bytes16 (word_of_nat (length name)) = [a, b]" "from_be_bytes16 [a, b] = word_of_nat (length name)" by (rule be16_cases)
  then show ?thesis using unat16_of_nat [OF l(1)] assms(2)
    unfolding host_name_def sni_data_def ext_list_vec16 [OF l(2)]
    by (simp add: vec16_def get_range_def from_utf8_def numeral_eq_Suc)
qed

lemma alpn_scan_vecs:
  "\<forall>p \<in> set ps. length p < 256 \<Longrightarrow> alpn_scan want (concat (map vec8 ps)) = Some (want \<in> set ps)"
proof (induction ps)
  case (Cons p ps)
  have "unat (word_of_nat (length p) :: u8) = length p" using Cons.prems by (intro unat8_of_nat) simp
  then show ?case using Cons by (subst alpn_scan.simps) (simp add: vec8_def [of p] get_range_def)
qed (simp add: alpn_scan.simps)

lemma alpn_names_vecs:
  "\<forall>p \<in> set ps. length p < 256 \<Longrightarrow> alpn_names (concat (map vec8 ps)) = Some (filter utf8_valid ps)"
proof (induction ps)
  case (Cons p ps)
  have "unat (word_of_nat (length p) :: u8) = length p" using Cons.prems by (intro unat8_of_nat) simp
  then show ?case using Cons by (subst alpn_names.simps) (simp add: vec8_def [of p] get_range_def from_utf8_def)
qed (simp add: alpn_names.simps)

section \<open>The front door\<close>

text \<open>A ClientHello as data: the record it is sent in, and the sizes that fit its length fields.\<close>

record client_hello =
  ch_record_version :: bytes
  ch_length :: bytes
  ch_version :: u16
  ch_random :: bytes
  ch_session_id :: bytes
  ch_cipher_suites :: bytes
  ch_compression :: bytes
  ch_extensions :: "(u16 \<times> bytes) list"

definition encode_hello :: "client_hello \<Rightarrow> bytes" where
  "encode_hello h = hello_record (ch_record_version h) (ch_length h)
     (hello_body (ch_version h) (ch_random h) (ch_session_id h) (ch_cipher_suites h) (ch_compression h) (encode_exts (ch_extensions h)))"

definition hello_sized :: "client_hello \<Rightarrow> bool" where
  "hello_sized h \<longleftrightarrow> length (ch_record_version h) = 2 \<and> length (ch_length h) = 3 \<and> length (ch_random h) = 32
     \<and> length (ch_session_id h) < 256 \<and> length (ch_compression h) < 256 \<and> length (encode_hello h) < 65536"

lemma encode_exts_sizes: "d \<in> snd ` set es \<Longrightarrow> length d \<le> length (encode_exts es)"
  by (induction es) (force simp: encode_exts_def vec16_def)+

lemma hello_fields:
  assumes "hello_sized h"
  shows "client_hello_ja4_fields (encode_hello h @ rest) = Some (ch_version h, ch_cipher_suites h, encode_exts (ch_extensions h))"
    "exts_sized (ch_extensions h)"
proof -
  let ?body = "hello_body (ch_version h) (ch_random h) (ch_session_id h) (ch_cipher_suites h) (ch_compression h) (encode_exts (ch_extensions h))"
  have l: "length ?body + 4 < 65536" "length (ch_cipher_suites h) < 65536" "length (encode_exts (ch_extensions h)) < 65536"
    using assms by (auto simp: hello_sized_def encode_hello_def hello_record_def vec16_def hello_body_def vec8_def)
  have body: "client_hello_body (encode_hello h @ rest) = Some ?body"
    unfolding client_hello_body_exact using assms l(1)
    by (intro exI [of _ "ch_record_version h"] exI [of _ "ch_length h"] exI [of _ rest]) (simp add: hello_sized_def encode_hello_def)
  show "client_hello_ja4_fields (encode_hello h @ rest) = Some (ch_version h, ch_cipher_suites h, encode_exts (ch_extensions h))"
    unfolding ja4_fields_body [OF body]
    by (rule exI [of _ "ch_random h"], rule exI [of _ "ch_session_id h"], rule exI [of _ "ch_compression h"], rule exI [of _ "[]"])
      (use assms l in \<open>simp add: hello_sized_def\<close>)
  show "exts_sized (ch_extensions h)"
    unfolding exts_sized_def
  proof clarify
    fix t d assume "(t, d) \<in> set (ch_extensions h)"
    then have "d \<in> snd ` set (ch_extensions h)" by (metis imageI snd_conv)
    from encode_exts_sizes [OF this] l(3) show "length d < 65536" by linarith
  qed
qed

lemma hello_extensions: "hello_sized h \<Longrightarrow> client_hello_extensions (encode_hello h @ rest) = Some (encode_exts (ch_extensions h))"
  by (simp add: client_hello_extensions_fields hello_fields)

lemma read_hello:
  assumes "hello_sized h" "length (encode_hello h) \<le> 16389"
  shows "read_client_hello_bytes (encode_hello h @ rest) = Some (encode_hello h, rest)"
proof -
  obtain hs where hs: "encode_hello h = 0x16 # ch_record_version h @ vec16 hs" "hs \<noteq> []" by (auto simp: encode_hello_def hello_record_def)
  obtain r0 r1 where rv: "ch_record_version h = [r0, r1]"
    using assms(1) unfolding hello_sized_def numeral_2_eq_2 length_Suc_conv length_0_conv by blast
  obtain a b where ab: "to_be_bytes16 (word_of_nat (length hs)) = [a, b]" "from_be_bytes16 [a, b] = word_of_nat (length hs)" by (rule be16_cases)
  have "length hs \<le> 16384" using assms(2) hs rv by (simp add: vec16_def)
  moreover then have "unat (word_of_nat (length hs) :: u16) = length hs" by (intro unat16_of_nat) simp
  ultimately show ?thesis using hs rv ab by (simp add: read_client_hello_bytes_def vec16_def take_n_def)
qed

text \<open>What a client offers: the protocols and the name in its first extensions of these types.\<close>

definition offers :: "client_hello \<Rightarrow> bytes list \<Rightarrow> bytes option \<Rightarrow> bool" where
  "offers h ps name \<longleftrightarrow>
     (\<forall>p \<in> set ps. length p < 256)
     \<and> (case find (\<lambda>(t, _). t = 0x0010) (ch_extensions h) of None \<Rightarrow> ps = [] | Some (_, d) \<Rightarrow> d = alpn_data ps)
     \<and> (case find (\<lambda>(t, _). t = 0x0000) (ch_extensions h) of
          None \<Rightarrow> name = None
        | Some (_, d) \<Rightarrow> \<exists>n others. d = sni_data n others \<and> utf8_valid n \<and> name = Some n)"

lemma find_sized: "exts_sized es \<Longrightarrow> find P es = Some (t, d) \<Longrightarrow> length d < 65536"
  by (auto simp: exts_sized_def find_Some_iff in_set_conv_nth) (metis (mono_tags) case_prodD nth_mem)

lemma offers_alpn:
  assumes "hello_sized h" "offers h ps name"
  shows "alpn_extension_has (encode_exts (ch_extensions h)) want \<longleftrightarrow> want \<in> set ps"
proof -
  note s = hello_fields(2) [OF assms(1)]
  show ?thesis
  proof (cases "find (\<lambda>(t, _). t = 0x0010) (ch_extensions h)")
    case None
    then show ?thesis using assms(2) by (simp add: alpn_extension_has_def find_extension_enc [OF s] offers_def)
  next
    case (Some e)
    obtain t d where e: "e = (t, d)" by (cases e)
    have d: "d = alpn_data ps" "\<forall>p \<in> set ps. length p < 256" using assms(2) Some e by (simp_all add: offers_def)
    then have "length (vec16 (concat (map vec8 ps))) < 65536" using find_sized [OF s] Some e by (simp add: alpn_data_def)
    then have "ext_list d = Some (concat (map vec8 ps))" unfolding d(1) alpn_data_def by (intro ext_list_vec16) (simp add: vec16_def)
    then show ?thesis using Some e alpn_scan_vecs [OF d(2)] by (simp add: alpn_extension_has_def find_extension_enc [OF s])
  qed
qed

lemma offers_sni:
  assumes "hello_sized h" "offers h ps name"
  shows "sni_from_extensions (encode_exts (ch_extensions h)) = name"
proof -
  note s = hello_fields(2) [OF assms(1)]
  show ?thesis using assms(2) find_sized [OF s] host_name_sni
    by (auto simp: sni_from_extensions_def find_extension_enc [OF s] offers_def split: option.splits)
qed

text \<open>
  The walk accepts exactly the ClientHello records. It returns a version, cipher suites and an extension
  block for precisely the buffers that start with a handshake record whose message is a ClientHello with
  these fields and consistent lengths, whatever follows in the message and after the record; both walks
  agree; and visiting a block yields exactly the extensions it encodes, stopping with a failure at the
  first that is cut short.
\<close>

theorem hello_walk_exact:
  "(client_hello_ja4_fields hello = Some (v, cs, exts) \<longleftrightarrow>
      (\<exists>rv l3 random sid cm inner rest. length rv = 2 \<and> length l3 = 3 \<and> length random = 32 \<and> length sid < 256 \<and> length cm < 256
         \<and> length (hello_body v random sid cs cm exts @ inner) + 4 < 65536
         \<and> hello = hello_record rv l3 (hello_body v random sid cs cm exts @ inner) @ rest))
   \<and> client_hello_extensions hello = map_option (\<lambda>(_, _, e). e) (client_hello_ja4_fields hello)
   \<and> (each_extension exts = (es, Some ()) \<longleftrightarrow> (\<exists>rest. length rest < 4 \<and> exts_sized es \<and> exts = encode_exts es @ rest))"
proof (intro conjI)
  have "client_hello_ja4_fields hello = Some (v, cs, exts) \<longleftrightarrow>
      (\<exists>body. client_hello_body hello = Some body \<and> client_hello_ja4_fields hello = Some (v, cs, exts))"
    by (cases "client_hello_body hello") (simp_all add: client_hello_ja4_fields_def)
  also have "\<dots> \<longleftrightarrow> (\<exists>body. client_hello_body hello = Some body \<and> (\<exists>random sid cm rest. length random = 32 \<and> length sid < 256
       \<and> length cs < 65536 \<and> length cm < 256 \<and> length exts < 65536 \<and> body = hello_body v random sid cs cm exts @ rest))"
    using ja4_fields_body by blast
  also have "\<dots> \<longleftrightarrow> (\<exists>rv l3 random sid cm inner rest. length rv = 2 \<and> length l3 = 3 \<and> length random = 32 \<and> length sid < 256 \<and> length cm < 256
         \<and> length (hello_body v random sid cs cm exts @ inner) + 4 < 65536
         \<and> hello = hello_record rv l3 (hello_body v random sid cs cm exts @ inner) @ rest)" (is "?l \<longleftrightarrow> ?r")
  proof
    show "?l \<Longrightarrow> ?r" unfolding client_hello_body_exact by blast
    have "length cs < 65536 \<and> length exts < 65536" if "length (hello_body v random sid cs cm exts @ inner) + 4 < 65536" for random sid cm inner
      using that by (simp add: hello_body_def vec16_def)
    then show "?r \<Longrightarrow> ?l" unfolding client_hello_body_exact by blast
  qed
  finally show "client_hello_ja4_fields hello = Some (v, cs, exts) \<longleftrightarrow> ?r" .
  show "each_extension exts = (es, Some ()) \<longleftrightarrow> (\<exists>rest. length rest < 4 \<and> exts_sized es \<and> exts = encode_exts es @ rest)"
    using each_extension_sound each_extension_enc by blast
qed (rule client_hello_extensions_fields)

text \<open>
  C17. The front door routes by what the client offers. A ClientHello of at most 16384 bytes is buffered as it
  was sent, and routed by the protocols and the name it offers, wherever they stand among its extensions
  and whatever else it carries: the data plane protocol first, then the two channel protocols, the relay
  protocol, the reserved name in any case, the terminated hosts, and every other name as a tunnel; without
  a name a web client goes to the default host, and everything else is refused.
\<close>

theorem front_door_exact:
  assumes "hello_sized h" "offers h ps name" "length (encode_hello h) \<le> 16389"
  shows "\<exists>hello. read_client_hello_bytes (encode_hello h @ rest) = Some (hello, rest) \<and> hello = encode_hello h
    \<and> classify_front_door hello terminates dflt =
       (if ascii ''ct-edge'' \<in> set ps then EdgeRelay
        else if ascii ''ct-edge-channel'' \<in> set ps \<or> ascii ''ct-edge-channel-ka'' \<in> set ps then ChannelBroker
        else if ascii ''ct-edge-relay'' \<in> set ps then RelayGate
        else case name of
          Some n \<Rightarrow> if to_ascii_lowercase n = ascii ''edge-cdn.invalid'' then ChannelBroker
            else if terminates n then Proxy (to_ascii_lowercase n) else BrowserTunnel (to_ascii_lowercase n)
        | None \<Rightarrow> if (ascii ''http/1.1'' \<in> set ps \<or> ascii ''h2'' \<in> set ps) \<and> dflt \<noteq> None
            then Proxy (to_ascii_lowercase (the dflt)) else FrontDoorReject)"
proof -
  have e: "client_hello_extensions (encode_hello h) = Some (encode_exts (ch_extensions h))"
    using hello_extensions [OF assms(1), of "[]"] by simp
  have low: "to_ascii_lowercase CT_EDGE_CHANNEL_FALLBACK_SNI = ascii ''edge-cdn.invalid''" by code_simp
  note s = offers_alpn [OF assms(1,2)] offers_sni [OF assms(1,2)]
  show ?thesis
    unfolding read_hello [OF assms(1,3)] CT_EDGE_ALPN_def [symmetric] CT_EDGE_CHANNEL_ALPN_def [symmetric]
      CT_EDGE_CHANNEL_KA_ALPN_def [symmetric] CT_EDGE_RELAY_ALPN_def [symmetric] low [symmetric]
    by (rule exI [of _ "encode_hello h"], cases name; cases dflt; simp add: classify_front_door_def Let_def e s eq_ignore_ascii_case_def)
qed

text \<open>On any bytes: a name that is routed is the name the ClientHello carries, and never the reserved one.\<close>

lemma front_door_name:
  assumes "classify_front_door hello terminates None = r" "r = Proxy n \<or> r = BrowserTunnel n"
  shows "peek_sni hello = Some n \<and> n \<noteq> to_ascii_lowercase CT_EDGE_CHANNEL_FALLBACK_SNI"
proof (cases "client_hello_extensions hello")
  case None
  then show ?thesis using assms by (auto simp: classify_front_door_def)
next
  case (Some e)
  then show ?thesis using assms unfolding classify_front_door_def peek_sni_def Let_def eq_ignore_ascii_case_def
    by (cases "sni_from_extensions e"; simp split: if_splits; auto)
qed

text \<open>The witness: a browser that names a host, behind an unknown extension.\<close>

definition ex_hello :: client_hello where
  "ex_hello = \<lparr>ch_record_version = [3, 1], ch_length = [0, 0, 90], ch_version = 0x0303, ch_random = replicate 32 7, ch_session_id = [],
     ch_cipher_suites = [0x13, 0x01], ch_compression = [0],
     ch_extensions = [(0x1a1a, [1]), (0x0000, sni_data (ascii ''A.example'') []), (0x0010, alpn_data [ascii ''h2''])]\<rparr>"

lemma ex_hello_sized: "hello_sized ex_hello" "length (encode_hello ex_hello) \<le> 16389"
  by (simp_all add: hello_sized_def ex_hello_def encode_hello_def hello_record_def hello_body_def vec8_def vec16_def encode_exts_def
      sni_data_def alpn_data_def ascii_def)

lemma ex_hello_offers: "offers ex_hello [ascii ''h2''] (Some (ascii ''A.example''))"
proof -
  have "utf8_valid (ascii ''A.example'')" by code_simp
  then show ?thesis by (auto simp: offers_def ex_hello_def ascii_def)
qed

theorem front_door_exact_witness:
  "\<exists>hello. read_client_hello_bytes (encode_hello ex_hello @ [1, 2]) = Some (hello, [1, 2])
    \<and> classify_front_door hello (\<lambda>_. False) None = BrowserTunnel (ascii ''a.example'')"
proof -
  have x: "to_ascii_lowercase (ascii ''A.example'') = ascii ''a.example''" "ascii ''ct-edge'' \<noteq> ascii ''h2''" "ascii ''ct-edge-channel'' \<noteq> ascii ''h2''"
    "ascii ''ct-edge-channel-ka'' \<noteq> ascii ''h2''" "ascii ''ct-edge-relay'' \<noteq> ascii ''h2''" "ascii ''a.example'' \<noteq> ascii ''edge-cdn.invalid''"
    by code_simp+
  from front_door_exact [OF ex_hello_sized(1) ex_hello_offers ex_hello_sized(2), of "[1, 2]" "\<lambda>_. False" None]
  show ?thesis by (simp add: x)
qed

end
