(* ===== verification/Ja4.thy ===== *)
theory Ja4
  imports ClientHello Hex "HOL-Library.Multiset"
begin

text \<open>
  The TLS fingerprint of the front door, \<open>edge/src/ja4.rs\<close>. SHA-256 is the parameter \<open>sha\<close>; strings are their
  bytes. The fingerprint is meant to name a client, not a connection, so the property is its stability
  under what clients vary.
\<close>

section \<open>The fingerprint\<close>


















section \<open>Stability\<close>














end
