(* ===== verification/Penalty.thy ===== *)
theory Penalty
  imports RateLimit Reach
begin




record join_refusal_penalty =
  jp_limiter :: "ip_addr keyed_rate_limiter"
  jp_sheds :: u64




definition penalty_note_shed :: "join_refusal_penalty \<Rightarrow> u64 \<times> join_refusal_penalty" where
  "penalty_note_shed p = (jp_sheds p + 1, p\<lparr>jp_sheds := jp_sheds p + 1\<rparr>)"


section \<open>Exactness of the bounded limiter within its capacity\<close>

text \<open>
  With windows that never go back, entries are all of the window swept last. While no more keys than
  the capacity call in a window, each key's count is the number of its calls, up to the maximum.
\<close>

definition calls_in :: "('k \<times> u64) list \<Rightarrow> u64 \<Rightarrow> 'k set" where
  "calls_in h w = {k. (k, w) \<in> set h}"



lemma finite_calls_in [simp]: "finite (calls_in h w)"
  by (rule finite_subset [of _ "fst ` set h"]) (force simp: calls_in_def)+







lemma make_room_fields [simp]:
  "rl_last_swept_window (make_room l key) = rl_last_swept_window l"
  "rl_max_per_window (make_room l key) = rl_max_per_window l"
  "rl_max_tracked_keys (make_room l key) = rl_max_tracked_keys l"
  by (auto simp: make_room_def split: option.split prod.split)





section \<open>The penalty\<close>












end
