(* ===== verification/Presence.thy ===== *)
theory Presence
  imports Prelude
begin

text \<open>
  The map of members seen recently on any channel transport, \<open>ChannelPresence\<close> of
  \<open>edge/src/channel_broker.rs\<close>, from which the portal tells whether somebody serves a channel.
\<close>

record channel_presence =
  cp_seen :: "(bytes \<times> bytes, u64) hmap"

definition PRESENCE_MAX_AGE_SECS :: u64 where
  "PRESENCE_MAX_AGE_SECS = 300"

definition PRESENCE_MAX_ENTRIES :: nat where
  "PRESENCE_MAX_ENTRIES = 4096"

definition PRESENCE_SERVING_WINDOW_SECS :: u64 where
  "PRESENCE_SERVING_WINDOW_SECS = 60"

definition presence_new :: channel_presence where
  "presence_new = \<lparr>cp_seen = hm_empty\<rparr>"

text \<open>\<open>min_by_key\<close>: the first of the least.\<close>

fun oldest_seen :: "('k, u64) hmap \<Rightarrow> ('k \<times> u64) option" where
  "oldest_seen [] = None"
| "oldest_seen ((k, at) # m) =
     (case oldest_seen m of None \<Rightarrow> Some (k, at) | Some (k', at') \<Rightarrow> if at \<le> at' then Some (k, at) else Some (k', at'))"

lemma oldest_seen_Some: "oldest_seen m = Some (k, at) \<Longrightarrow> (k, at) \<in> set m \<and> (\<forall>(k', at') \<in> set m. at \<le> at')"
proof (induction m arbitrary: k at)
  case (Cons x m)
  obtain j t where x: "x = (j, t)" by (cases x)
  show ?case
  proof (cases "oldest_seen m")
    case None
    then have "m = []" by (cases m) (auto split: option.splits if_splits)
    then show ?thesis using Cons.prems x by simp
  next
    case (Some y)
    obtain j' t' where y: "y = (j', t')" by (cases y)
    note i = Cons.IH [OF Some [unfolded y]]
    show ?thesis
    proof (cases "t \<le> t'")
      case True
      then have "k = j" "at = t" using Cons.prems x Some y by simp_all
      then show ?thesis using i True x by (auto intro: order_trans)
    next
      case False
      then have "k = j'" "at = t'" using Cons.prems x Some y by simp_all
      then show ?thesis using i False x by auto
    qed
  qed
qed simp

lemma oldest_seen_None: "oldest_seen m = None \<longleftrightarrow> m = []"
  by (cases m) (auto split: option.splits)

text \<open>The loop that enforces the cap.\<close>

function enforce_cap :: "('k, u64) hmap \<Rightarrow> ('k, u64) hmap" where
  "enforce_cap m =
     (if PRESENCE_MAX_ENTRIES < hm_len m
      then case oldest_seen m of None \<Rightarrow> m | Some (k, _) \<Rightarrow> enforce_cap (hm_remove k m)
      else m)"
  by pat_completeness auto
termination
proof (relation "measure hm_len")
  fix m :: "('k, u64) hmap" and x k y
  assume "oldest_seen m = Some x" "(k, y) = x"
  then have "(k, y) \<in> set m" using oldest_seen_Some [of m k y] by simp
  then show "(hm_remove k m, m) \<in> measure hm_len"
    by (auto simp: hm_len_def hm_remove_def intro!: length_filter_less)
qed simp

declare enforce_cap.simps [simp del]

definition presence_note :: "channel_presence \<Rightarrow> bytes \<Rightarrow> bytes \<Rightarrow> u64 \<Rightarrow> channel_presence" where
  "presence_note p channel holder now =
     p\<lparr>cp_seen := enforce_cap (hm_insert (channel, holder) now
        (hm_retain (\<lambda>_ at. saturating_sub now at \<le> PRESENCE_MAX_AGE_SECS) (cp_seen p)))\<rparr>"

definition last_seen_secs_ago :: "channel_presence \<Rightarrow> bytes \<Rightarrow> bytes \<Rightarrow> u64 \<Rightarrow> u64 option" where
  "last_seen_secs_ago p channel holder now =
     (case hm_get (cp_seen p) (channel, holder) of
        None \<Rightarrow> None
      | Some at \<Rightarrow> let ago = saturating_sub now at in if ago \<le> PRESENCE_MAX_AGE_SECS then Some ago else None)"

definition holders_of :: "channel_presence \<Rightarrow> bytes \<Rightarrow> u64 \<Rightarrow> (bytes \<times> u64) list" where
  "holders_of p channel now =
     sort_key snd (List.map_filter (\<lambda>((c, h), at). let ago = saturating_sub now at in
        if c = channel \<and> ago \<le> PRESENCE_MAX_AGE_SECS then Some (h, ago) else None) (cp_seen p))"

definition presence_len :: "channel_presence \<Rightarrow> nat" where
  "presence_len p = hm_len (cp_seen p)"

definition presence_is_serving :: "u64 \<Rightarrow> bool" where
  "presence_is_serving ago \<longleftrightarrow> ago \<le> PRESENCE_SERVING_WINDOW_SECS"

section \<open>What the map knows\<close>

text \<open>A history of notes, latest first; the time a member was last noted.\<close>

definition seen_at :: "((bytes \<times> bytes) \<times> u64) list \<Rightarrow> bytes \<times> bytes \<Rightarrow> u64 option" where
  "seen_at h k = map_of h k"

definition presence_run :: "((bytes \<times> bytes) \<times> u64) list \<Rightarrow> channel_presence" where
  "presence_run h = foldr (\<lambda>((channel, holder), now) p. presence_note p channel holder now) h presence_new"

text \<open>The other members noted no earlier than a time.\<close>

definition as_recent :: "((bytes \<times> bytes) \<times> u64) list \<Rightarrow> bytes \<times> bytes \<Rightarrow> u64 \<Rightarrow> (bytes \<times> bytes) set" where
  "as_recent h k t = {k'. k' \<noteq> k \<and> (\<exists>t'. (k', t') \<in> set h \<and> t \<le> t')}"

definition knows :: "channel_presence \<Rightarrow> ((bytes \<times> bytes) \<times> u64) list \<Rightarrow> u64 \<Rightarrow> bool" where
  "knows p h now \<longleftrightarrow> hm_wf (cp_seen p) \<and> hm_len (cp_seen p) \<le> PRESENCE_MAX_ENTRIES
     \<and> (\<forall>k t. hm_get (cp_seen p) k = Some t \<longrightarrow> seen_at h k = Some t)
     \<and> (\<forall>k t. seen_at h k = Some t \<and> saturating_sub now t \<le> PRESENCE_MAX_AGE_SECS
          \<and> card (as_recent h k t) < PRESENCE_MAX_ENTRIES \<longrightarrow> hm_get (cp_seen p) k = Some t)"

lemma finite_as_recent: "finite (as_recent h k t)"
  by (rule finite_subset [of _ "fst ` set h"]) (force simp: as_recent_def)+

lemma as_recent_mono: "as_recent h k t \<subseteq> as_recent (x # h) k t"
  by (auto simp: as_recent_def)

lemma enforce_cap_wf: "hm_wf m \<Longrightarrow> hm_wf (enforce_cap m)"
proof (induction m rule: enforce_cap.induct)
  case (1 m)
  then show ?case by (subst enforce_cap.simps) (auto split: option.split)
qed

lemma enforce_cap_get: "hm_get (enforce_cap m) k \<in> {None, hm_get m k}"
proof (induction m rule: enforce_cap.induct)
  case (1 m)
  show ?case
  proof (cases "PRESENCE_MAX_ENTRIES < hm_len m \<and> oldest_seen m \<noteq> None")
    case True
    then obtain j t where o: "oldest_seen m = Some (j, t)" by auto
    then have "enforce_cap m = enforce_cap (hm_remove j m)" using True by (simp add: enforce_cap.simps [of m])
    then show ?thesis using 1 [OF conjunct1 [OF True] o refl] by (auto split: if_splits)
  next
    case False
    then have "enforce_cap m = m" by (cases "oldest_seen m") (auto simp: enforce_cap.simps [of m])
    then show ?thesis by simp
  qed
qed

lemma enforce_cap_len: "hm_len (enforce_cap m) \<le> PRESENCE_MAX_ENTRIES"
proof (induction m rule: enforce_cap.induct)
  case (1 m)
  then show ?case
    by (subst enforce_cap.simps) (auto simp: oldest_seen_None hm_len_def split: option.split)
qed

text \<open>A member that the cap drops was noted no later than as many others as the map holds.\<close>

lemma enforce_cap_drops:
  assumes "hm_wf m" "hm_get m k = Some t" "hm_get (enforce_cap m) k = None"
  shows "PRESENCE_MAX_ENTRIES \<le> card {k'. k' \<noteq> k \<and> (\<exists>t'. hm_get m k' = Some t' \<and> t \<le> t')}"
  using assms
proof (induction m rule: enforce_cap.induct)
  case (1 m)
  have over: "PRESENCE_MAX_ENTRIES < hm_len m"
    using 1(3,4) by (cases "PRESENCE_MAX_ENTRIES < hm_len m") (simp_all add: enforce_cap.simps [of m])
  then have "m \<noteq> []" by (auto simp: hm_len_def)
  then obtain o' at where o: "oldest_seen m = Some (o', at)" using oldest_seen_None [of m] by (cases "oldest_seen m") auto
  note old = oldest_seen_Some [OF o]
  have in_set: "hm_get m k' = Some t' \<longleftrightarrow> (k', t') \<in> set m" for k' t'
    using 1(2) by (simp add: hm_get_def hm_wf_def)
  show ?case
  proof (cases "o' = k")
    case True
    have at: "at = t" using old in_set 1(3) True by (metis option.inject)
    have "{k'. k' \<noteq> k \<and> (\<exists>t'. hm_get m k' = Some t' \<and> t \<le> t')} = dom (hm_get m) - {k}"
      using old in_set at by fastforce
    moreover have "card (dom (hm_get m) - {k}) = hm_len m - 1"
      using 1(2,3) by (simp add: hm.len_card hm.finite_dom card_Diff_singleton domI)
    ultimately show ?thesis using over by simp
  next
    case False
    have "hm_get (enforce_cap (hm_remove o' m)) k = None"
      using 1(4) over o by (subst (asm) enforce_cap.simps) simp
    then have "PRESENCE_MAX_ENTRIES \<le> card {k'. k' \<noteq> k \<and> (\<exists>t'. hm_get (hm_remove o' m) k' = Some t' \<and> t \<le> t')}"
      using 1(1) [OF over o refl] 1(2,3) False by simp
    also have "\<dots> \<le> card {k'. k' \<noteq> k \<and> (\<exists>t'. hm_get m k' = Some t' \<and> t \<le> t')}"
      by (rule card_mono, rule finite_subset [OF _ hm.finite_dom [of m]]) (auto split: if_splits)
    finally show ?thesis .
  qed
qed

lemma saturating_sub_mono: "(a :: u64) \<le> b \<Longrightarrow> saturating_sub a t \<le> saturating_sub b t"
  by (simp add: word_le_nat_alt unat_saturating_sub diff_le_mono)

lemma knows_note:
  assumes "knows p h t0" "t0 \<le> now" "\<forall>(_, t) \<in> set h. t \<le> now"
  shows "knows (presence_note p channel holder now) (((channel, holder), now) # h) now"
proof -
  let ?k = "(channel, holder)" and ?h = "((channel, holder), now) # h"
  let ?r = "hm_retain (\<lambda>_ at. saturating_sub now at \<le> PRESENCE_MAX_AGE_SECS) (cp_seen p)"
  let ?m = "hm_insert ?k now ?r"
  have wf: "hm_wf (cp_seen p)" "hm_wf ?m" using assms(1) by (auto simp: knows_def)
  have get: "hm_get ?m k = (if k = ?k then Some now else case hm_get (cp_seen p) k of None \<Rightarrow> None
      | Some at \<Rightarrow> if saturating_sub now at \<le> PRESENCE_MAX_AGE_SECS then Some at else None)" for k
    using wf(1) by (auto simp: hm.get_retain)
  have sound: "seen_at ?h k = Some t" if "hm_get ?m k = Some t" for k t
  proof (cases "k = ?k")
    case True
    then show ?thesis using that by (simp add: seen_at_def)
  next
    case False
    then have "hm_get (cp_seen p) k = Some t" using that unfolding get by (simp split: option.splits if_splits)
    then have "seen_at h k = Some t" using assms(1) unfolding knows_def by blast
    then show ?thesis using False by (simp add: seen_at_def)
  qed
  have fresh: "hm_get ?m k = Some t" if k: "seen_at ?h k = Some t" "saturating_sub now t \<le> PRESENCE_MAX_AGE_SECS"
      "card (as_recent ?h k t) < PRESENCE_MAX_ENTRIES" for k t
  proof (cases "k = ?k")
    case True
    then show ?thesis using k(1) unfolding get by (simp add: seen_at_def)
  next
    case False
    have "card (as_recent h k t) \<le> card (as_recent ?h k t)" by (rule card_mono [OF finite_as_recent as_recent_mono])
    moreover have "saturating_sub t0 t \<le> PRESENCE_MAX_AGE_SECS" using k(2) saturating_sub_mono [OF assms(2)] by (meson order_trans)
    moreover have "seen_at h k = Some t" using k(1) False by (simp add: seen_at_def)
    ultimately have "hm_get (cp_seen p) k = Some t" using assms(1) k(3) unfolding knows_def by (meson le_less_trans)
    then show ?thesis using False k(2) unfolding get by simp
  qed
  have kept: "hm_get (enforce_cap ?m) k = Some t" if k: "hm_get ?m k = Some t" "card (as_recent ?h k t) < PRESENCE_MAX_ENTRIES" for k t
  proof (rule ccontr)
    assume "hm_get (enforce_cap ?m) k \<noteq> Some t"
    then have "hm_get (enforce_cap ?m) k = None" using enforce_cap_get [of ?m k] k(1) by auto
    from enforce_cap_drops [OF wf(2) k(1) this]
    have "PRESENCE_MAX_ENTRIES \<le> card {k'. k' \<noteq> k \<and> (\<exists>t'. hm_get ?m k' = Some t' \<and> t \<le> t')}" .
    also have "\<dots> \<le> card (as_recent ?h k t)"
    proof (rule card_mono [OF finite_as_recent], rule subsetI)
      fix k' assume "k' \<in> {k'. k' \<noteq> k \<and> (\<exists>t'. hm_get ?m k' = Some t' \<and> t \<le> t')}"
      then obtain t' where t': "k' \<noteq> k" "hm_get ?m k' = Some t'" "t \<le> t'" by blast
      have "(k', t') \<in> set ?h" using sound [OF t'(2)] unfolding seen_at_def by (rule map_of_SomeD)
      then show "k' \<in> as_recent ?h k t" using t'(1,3) unfolding as_recent_def by blast
    qed
    finally show False using k(2) by simp
  qed
  have "seen_at ?h k = Some t" if "hm_get (enforce_cap ?m) k = Some t" for k t
  proof -
    have "hm_get ?m k = Some t" using that enforce_cap_get [of ?m k] by (metis insertE option.distinct(1) singletonD)
    then show ?thesis by (rule sound)
  qed
  moreover have "cp_seen (presence_note p channel holder now) = enforce_cap ?m" by (simp add: presence_note_def)
  ultimately show ?thesis unfolding knows_def using enforce_cap_wf [OF wf(2)] enforce_cap_len [of ?m] fresh kept by metis
qed

lemma knows_run: "sorted (rev (map snd h)) \<Longrightarrow> knows (presence_run h) h (case h of [] \<Rightarrow> 0 | (_, t) # _ \<Rightarrow> t)"
proof (induction h)
  case Nil
  show ?case by (simp add: knows_def presence_run_def presence_new_def seen_at_def hm_len_def hm_empty_def hm_get_def hm_wf_def)
next
  case (Cons x h)
  obtain c a t where x: "x = ((c, a), t)" by (metis surj_pair)
  have s: "sorted (rev (map snd h))" "\<forall>(_, t') \<in> set h. t' \<le> t" using Cons.prems by (auto simp: x sorted_append)
  have "(case h of [] \<Rightarrow> 0 | (_, t) # _ \<Rightarrow> t) \<le> t" using s(2) by (auto split: list.split)
  from knows_note [OF Cons.IH [OF s(1)] this s(2)] show ?case by (simp add: presence_run_def x)
qed

text \<open>
  C22. The card tells the truth. After any notes with a clock that does not go back, the map holds at most 4096
  members; an age it reports is the time since the member was last admitted, within five minutes; a member
  admitted within five minutes is reported unless at least 4096 others were admitted since; and the
  members reported for a channel are exactly those with an age, most recent first.
\<close>

theorem presence_exact:
  assumes "sorted (rev (map snd h))" "\<forall>(_, t) \<in> set h. t \<le> now"
  shows "presence_len (presence_run h) \<le> 4096
    \<and> (\<forall>ago. last_seen_secs_ago (presence_run h) channel holder now = Some ago \<longrightarrow>
         (\<exists>t. seen_at h (channel, holder) = Some t \<and> ago = now - t \<and> ago \<le> 300))
    \<and> (\<forall>t. seen_at h (channel, holder) = Some t \<and> now - t \<le> 300 \<and> card (as_recent h (channel, holder) t) < 4096 \<longrightarrow>
         last_seen_secs_ago (presence_run h) channel holder now = Some (now - t))
    \<and> (let r = holders_of (presence_run h) channel now in sorted (map snd r)
         \<and> ((holder, ago) \<in> set r \<longleftrightarrow> last_seen_secs_ago (presence_run h) channel holder now = Some ago))"
proof -
  let ?p = "presence_run h" and ?t0 = "case h of [] \<Rightarrow> 0 | (_, t) # _ \<Rightarrow> t"
  note k = knows_run [OF assms(1)]
  have t0: "?t0 \<le> now" using assms(2) by (auto split: list.split)
  have sub: "saturating_sub now t = now - t" if "seen_at h j = Some t" for j t
    using that assms(2) by (fastforce simp: seen_at_def saturating_sub_def not_less dest: map_of_SomeD)
  have get: "hm_get (cp_seen ?p) j = Some t \<longleftrightarrow> (j, t) \<in> set (cp_seen ?p)" for j t
    using k by (simp add: knows_def hm_get_def hm_wf_def)
  have sound: "seen_at h j = Some t" if "hm_get (cp_seen ?p) j = Some t" for j t using that k unfolding knows_def by blast
  have "last_seen_secs_ago ?p channel holder now = Some (now - t)"
    if t: "seen_at h (channel, holder) = Some t" "now - t \<le> 300" "card (as_recent h (channel, holder) t) < 4096" for t
  proof -
    have "saturating_sub ?t0 t \<le> PRESENCE_MAX_AGE_SECS"
      using saturating_sub_mono [OF t0, of t] sub [OF t(1)] t(2) by (simp add: PRESENCE_MAX_AGE_SECS_def)
    then have "hm_get (cp_seen ?p) (channel, holder) = Some t" using k t(1,3) unfolding knows_def PRESENCE_MAX_ENTRIES_def by blast
    then show ?thesis using t(2) sub [OF t(1)] by (simp add: last_seen_secs_ago_def PRESENCE_MAX_AGE_SECS_def Let_def)
  qed
  moreover have "\<exists>t. seen_at h (channel, holder) = Some t \<and> ago = now - t \<and> ago \<le> 300"
    if "last_seen_secs_ago ?p channel holder now = Some ago" for ago
    using that sound sub by (auto simp: last_seen_secs_ago_def PRESENCE_MAX_AGE_SECS_def Let_def split: option.splits if_splits) blast
  moreover have "(holder, ago) \<in> set (holders_of ?p channel now) \<longleftrightarrow> last_seen_secs_ago ?p channel holder now = Some ago"
  proof -
    have "(holder, ago) \<in> set (holders_of ?p channel now) \<longleftrightarrow>
        (\<exists>at. ((channel, holder), at) \<in> set (cp_seen ?p) \<and> ago = saturating_sub now at \<and> ago \<le> PRESENCE_MAX_AGE_SECS)"
      by (auto simp: holders_of_def map_filter_def Let_def image_iff split: if_splits; force)
    then show ?thesis unfolding get [symmetric]
      by (cases "hm_get (cp_seen ?p) (channel, holder)") (auto simp: last_seen_secs_ago_def Let_def)
  qed
  moreover have "presence_len ?p \<le> 4096" using k unfolding knows_def presence_len_def PRESENCE_MAX_ENTRIES_def by blast
  moreover have "sorted (map snd (holders_of ?p channel now))" by (simp add: holders_of_def)
  ultimately show ?thesis unfolding Let_def by blast
qed

text \<open>The witness: two members of a channel, one of them admitted twice.\<close>

theorem presence_exact_witness:
  "last_seen_secs_ago (presence_run [(([1], [2]), 130), (([1], [3]), 110), (([1], [2]), 100)]) [1] [2] 150 = Some 20"
proof -
  let ?h = "[(([1], [2]), 130), (([1], [3]), 110), (([1], [2]), 100)] :: ((bytes \<times> bytes) \<times> u64) list"
  have s: "sorted (rev (map snd ?h))" "\<forall>(_, t) \<in> set ?h. t \<le> 150" by simp_all
  have "as_recent ?h ([1], [2]) 130 \<subseteq> {([1], [3])}" by (auto simp: as_recent_def)
  then have "card (as_recent ?h ([1], [2]) 130) \<le> card {([1 :: u8], [3 :: u8])}" by (intro card_mono) simp_all
  then have "card (as_recent ?h ([1], [2]) 130) < 4096" by simp
  moreover have "seen_at ?h ([1], [2]) = Some 130" by (simp add: seen_at_def)
  ultimately have "last_seen_secs_ago (presence_run ?h) [1] [2] 150 = Some (150 - 130)"
    using presence_exact [OF s, of "[1]" "[2]", THEN conjunct2, THEN conjunct2, THEN conjunct1, rule_format, of 130] by simp
  then show ?thesis by simp
qed

end
