(* ===== verification/EdgeMeters.thy ===== *)
theory EdgeMeters
  imports Prelude
begin

text \<open>
  Small shared objects of \<open>edge/src/state.rs\<close>: the connection cap of the accept loops, the heartbeat of a
  broker loop, and the bounded table of observed TLS fingerprints.
\<close>

section \<open>Connection cap\<close>

text \<open>The semaphore is the number of its free permits; a permit that is dropped gives its slot back.\<close>

record connection_cap =
  cc_available :: nat
  cc_shed :: u64
  cc_max :: nat

definition cap_new :: "nat \<Rightarrow> connection_cap" where
  "cap_new m = \<lparr>cc_available = m, cc_shed = 0, cc_max = m\<rparr>"

definition cap_in_use :: "connection_cap \<Rightarrow> nat" where
  "cap_in_use c = cc_max c - cc_available c"

definition try_admit :: "connection_cap \<Rightarrow> bool \<times> connection_cap" where
  "try_admit c = (if 0 < cc_available c then (True, c\<lparr>cc_available := cc_available c - 1\<rparr>) else (False, c))"

definition drop_permit :: "connection_cap \<Rightarrow> connection_cap" where
  "drop_permit c = c\<lparr>cc_available := cc_available c + 1\<rparr>"

definition note_shed :: "connection_cap \<Rightarrow> u64 \<times> connection_cap" where
  "note_shed c = (cc_shed c + 1, c\<lparr>cc_shed := cc_shed c + 1\<rparr>)"

text \<open>
  An accept loop: connections arrive and leave. An arrival is admitted, or shed and counted; only an
  admitted connection leaves.
\<close>

datatype cap_event = Arrive | Leave

fun cap_run :: "connection_cap \<Rightarrow> nat \<Rightarrow> nat \<Rightarrow> cap_event list \<Rightarrow> connection_cap \<times> nat \<times> nat" where
  "cap_run c live shed [] = (c, live, shed)"
| "cap_run c live shed (Arrive # es) =
     (case try_admit c of
        (True, c) \<Rightarrow> cap_run c (live + 1) shed es
      | (False, c) \<Rightarrow> cap_run (snd (note_shed c)) live (shed + 1) es)"
| "cap_run c live shed (Leave # es) =
     (if 0 < live then cap_run (drop_permit c) (live - 1) shed es else cap_run c live shed es)"

lemma cap_run_inv:
  assumes "cap_run c live shed es = (c', live', shed')" "cc_available c + live = cc_max c" "cc_shed c = of_nat shed"
  shows "cc_available c' + live' = cc_max c \<and> cc_max c' = cc_max c \<and> cc_shed c' = of_nat shed'"
  using assms
proof (induction c live shed es rule: cap_run.induct)
  case (2 c live shed es)
  show ?case
  proof (cases "0 < cc_available c")
    case True
    then show ?thesis using 2(1) [of True "c\<lparr>cc_available := cc_available c - 1\<rparr>"] 2(3-5) by (simp add: try_admit_def)
  next
    case False
    then show ?thesis using 2(2) [of False c] 2(3-5) by (simp add: try_admit_def note_shed_def add.commute)
  qed
next
  case (3 c live shed es)
  then show ?case by (cases "0 < live") (simp_all add: drop_permit_def)
qed simp

text \<open>
  The gauge of the cap is exact: after any arrivals and departures, what it reports as in use is the
  number of admitted connections that have not left, never above the maximum; the next arrival is shed
  exactly when that many are live; and the shed counter is the number of sheds.
\<close>

lemma connection_cap_exact:
  assumes "cap_run (cap_new m) 0 0 es = (c, live, shed)"
  shows "cap_in_use c = live \<and> live \<le> m \<and> (fst (try_admit c) \<longleftrightarrow> live < m) \<and> cc_shed c = of_nat shed"
  using cap_run_inv [OF assms] by (auto simp: cap_new_def cap_in_use_def try_admit_def)

section \<open>Heartbeat\<close>

record broker_heartbeat =
  bh_last_seen :: u64
  bh_expected_since :: u64

definition heartbeat_new :: broker_heartbeat where
  "heartbeat_new = \<lparr>bh_last_seen = 0, bh_expected_since = 0\<rparr>"

definition beat :: "broker_heartbeat \<Rightarrow> u64 \<Rightarrow> broker_heartbeat" where
  "beat b now = b\<lparr>bh_last_seen := now\<rparr>"

definition expect_start :: "broker_heartbeat \<Rightarrow> u64 \<Rightarrow> broker_heartbeat" where
  "expect_start b now = (if bh_expected_since b = 0 then b\<lparr>bh_expected_since := now\<rparr> else b)"

lemma first_expectation_wins:
  "t \<noteq> 0 \<Longrightarrow> bh_expected_since (foldl expect_start (beat (expect_start heartbeat_new t) now) ts) = t"
  by (induction ts rule: rev_induct) (simp_all add: expect_start_def beat_def heartbeat_new_def)

section \<open>Observed fingerprints\<close>

definition JA4_MAX_TRACKED_FINGERPRINTS :: nat where
  "JA4_MAX_TRACKED_FINGERPRINTS = 256"

record ja4_observations =
  jo_counts :: "(bytes, u64) hmap"
  jo_order :: "bytes list"
  jo_total :: u64
  jo_evictions :: u64

definition ja4_observations_new :: ja4_observations where
  "ja4_observations_new = \<lparr>jo_counts = hm_empty, jo_order = [], jo_total = 0, jo_evictions = 0\<rparr>"

text \<open>The \<open>while let Some(oldest) = order.pop_front()\<close> loop.\<close>

fun ja4_evict :: "bytes list \<Rightarrow> ja4_observations \<Rightarrow> ja4_observations" where
  "ja4_evict [] t = t\<lparr>jo_order := []\<rparr>"
| "ja4_evict (oldest # order) t =
     (if hm_get (jo_counts t) oldest \<noteq> None
      then t\<lparr>jo_order := order, jo_counts := hm_remove oldest (jo_counts t), jo_evictions := jo_evictions t + 1\<rparr>
      else ja4_evict order t)"

definition ja4_note :: "ja4_observations \<Rightarrow> bytes \<Rightarrow> ja4_observations" where
  "ja4_note t fingerprint =
     (let t = t\<lparr>jo_total := jo_total t + 1\<rparr> in
      case hm_get (jo_counts t) fingerprint of
        Some c \<Rightarrow> t\<lparr>jo_counts := hm_insert fingerprint (c + 1) (jo_counts t)\<rparr>
      | None \<Rightarrow>
          let t = (if JA4_MAX_TRACKED_FINGERPRINTS \<le> hm_len (jo_counts t) then ja4_evict (jo_order t) t else t)
          in t\<lparr>jo_order := jo_order t @ [fingerprint], jo_counts := hm_insert fingerprint 1 (jo_counts t)\<rparr>)"

definition ja4_snapshot :: "ja4_observations \<Rightarrow> (bytes \<times> u64) list" where
  "ja4_snapshot t = jo_counts t"

definition tracked_fingerprints :: "ja4_observations \<Rightarrow> nat" where
  "tracked_fingerprints t = hm_len (jo_counts t)"

text \<open>The order lists the tracked fingerprints, once each; without evictions the counts are complete.\<close>

definition table_ok :: "bytes list \<Rightarrow> ja4_observations \<Rightarrow> nat \<Rightarrow> bool" where
  "table_ok fs t n \<longleftrightarrow> hm_wf (jo_counts t) \<and> distinct (jo_order t) \<and> set (jo_order t) = dom (hm_get (jo_counts t))
     \<and> hm_len (jo_counts t) \<le> JA4_MAX_TRACKED_FINGERPRINTS
     \<and> jo_total t = of_nat (length fs) \<and> jo_evictions t = of_nat n \<and> n \<le> length fs
     \<and> dom (hm_get (jo_counts t)) \<subseteq> set fs
     \<and> (n = 0 \<longrightarrow> (\<forall>f. hm_get (jo_counts t) f = (if count_list fs f = 0 then None else Some (of_nat (count_list fs f)))))
     \<and> (n \<noteq> 0 \<longrightarrow> JA4_MAX_TRACKED_FINGERPRINTS < card (set fs))"

lemma table_okD:
  assumes "table_ok fs t n"
  shows "hm_wf (jo_counts t)" "distinct (jo_order t)" "set (jo_order t) = dom (hm_get (jo_counts t))"
    "hm_len (jo_counts t) \<le> JA4_MAX_TRACKED_FINGERPRINTS" "n \<le> length fs" "dom (hm_get (jo_counts t)) \<subseteq> set fs"
    "n = 0 \<Longrightarrow> hm_get (jo_counts t) f = (if count_list fs f = 0 then None else Some (of_nat (count_list fs f)))"
    "n \<noteq> 0 \<Longrightarrow> JA4_MAX_TRACKED_FINGERPRINTS < card (set fs)" "jo_total t = of_nat (length fs)" "jo_evictions t = of_nat n"
  using assms by (simp_all add: table_ok_def)

lemma table_complete: "table_ok fs t 0 \<Longrightarrow> dom (hm_get (jo_counts t)) = set fs"
  by (auto simp: table_okD(7) count_list_0_iff split: if_splits)

lemma note_tracked:
  assumes "table_ok fs t n" "hm_get (jo_counts t) f = Some c"
  shows "table_ok (f # fs) (ja4_note t f) n"
proof -
  note d = table_okD [OF assms(1)]
  have "card (set fs) \<le> card (set (f # fs))" by (rule card_mono) auto
  moreover have "hm_len (hm_insert f (c + 1) (jo_counts t)) = hm_len (jo_counts t)" using d(1) assms(2) by (simp add: hm.len_ins_old)
  moreover have "f \<in> dom (hm_get (jo_counts t))" using assms(2) by blast
  moreover have "c = of_nat (count_list fs f)" if "n = 0" using d(7) [OF that, of f] assms(2) by (simp split: if_splits)
  ultimately show ?thesis using d(1-5,8-10) d(6) d(7) assms(2)
    unfolding table_ok_def by (auto simp: ja4_note_def hm.dom_ins insert_absorb)
qed

lemma note_room:
  assumes "table_ok fs t n" "hm_get (jo_counts t) f = None" "hm_len (jo_counts t) < JA4_MAX_TRACKED_FINGERPRINTS"
  shows "table_ok (f # fs) (ja4_note t f) n"
proof -
  note d = table_okD [OF assms(1)]
  have "card (set fs) \<le> card (set (f # fs))" by (rule card_mono) auto
  moreover have "hm_len (hm_insert f 1 (jo_counts t)) = Suc (hm_len (jo_counts t))" using d(1) assms(2) by (simp add: hm.len_ins_new)
  moreover have "f \<notin> set (jo_order t)" using assms(2) d(3) by blast
  moreover have "count_list fs f = 0" if "n = 0" using d(7) [OF that, of f] assms(2) by (simp split: if_splits)
  ultimately show ?thesis using d(1-6,8-10) d(7) assms(2,3)
    unfolding table_ok_def by (auto simp: ja4_note_def hm.dom_ins)
qed

lemma note_full:
  assumes "table_ok fs t n" "hm_get (jo_counts t) f = None" "JA4_MAX_TRACKED_FINGERPRINTS \<le> hm_len (jo_counts t)"
  shows "table_ok (f # fs) (ja4_note t f) (Suc n)"
proof -
  note d = table_okD [OF assms(1)]
  have full: "hm_len (jo_counts t) = JA4_MAX_TRACKED_FINGERPRINTS" using d(4) assms(3) by simp
  then have "jo_order t \<noteq> []" using d(1,3) by (auto simp: hm.len_card JA4_MAX_TRACKED_FINGERPRINTS_def)
  then obtain old rest where order: "jo_order t = old # rest" by (cases "jo_order t") auto
  have old: "hm_get (jo_counts t) old \<noteq> None" using d(3) order by auto
  let ?c = "hm_remove old (jo_counts t)"
  have note': "ja4_note t f = t\<lparr>jo_total := jo_total t + 1, jo_order := rest @ [f], jo_counts := hm_insert f 1 ?c, jo_evictions := jo_evictions t + 1\<rparr>"
    using assms(2,3) order old by (simp add: ja4_note_def)
  have "hm_len (hm_insert f 1 ?c) \<le> JA4_MAX_TRACKED_FINGERPRINTS"
    using hm.len_evict_insert_le [OF d(1) old d(4)] by (simp add: JA4_MAX_TRACKED_FINGERPRINTS_def)
  moreover have "JA4_MAX_TRACKED_FINGERPRINTS < card (set (f # fs))"
  proof (cases "n = 0")
    case True
    then have "dom (hm_get (jo_counts t)) = set fs" using table_complete assms(1) by blast
    moreover from this have "card (set fs) = JA4_MAX_TRACKED_FINGERPRINTS" using full d(1) by (simp add: hm.len_card)
    moreover from calculation(1) have "f \<notin> set fs" using assms(2) by blast
    ultimately show ?thesis by simp
  next
    case False
    moreover have "card (set fs) \<le> card (set (f # fs))" by (rule card_mono) auto
    ultimately show ?thesis using d(8) by linarith
  qed
  moreover have "set (rest @ [f]) = dom (hm_get (hm_insert f 1 ?c))" "distinct (rest @ [f])"
    using d(2,3) order assms(2) by (auto simp: hm.dom_ins hm.dom_rem domIff)
  moreover have "dom (hm_get (hm_insert f 1 ?c)) \<subseteq> set (f # fs)" using d(6) by (auto simp: hm.dom_ins hm.dom_rem)
  ultimately show ?thesis using d(1,5,9,10) unfolding table_ok_def note' by (simp add: add.commute)
qed

definition ja4_noted :: "bytes list \<Rightarrow> ja4_observations" where
  "ja4_noted fs = foldr (\<lambda>f t. ja4_note t f) fs ja4_observations_new"

lemma ja4_noted_ok: "\<exists>n. table_ok fs (ja4_noted fs) n"
proof (induction fs)
  case Nil
  have "table_ok [] ja4_observations_new 0"
    by (simp add: table_ok_def ja4_observations_new_def hm_len_def hm_empty_def hm_get_def hm_wf_def)
  then show ?case by (auto simp: ja4_noted_def)
next
  case (Cons f fs)
  then obtain n where ok: "table_ok fs (ja4_noted fs) n" by blast
  have "\<exists>n. table_ok (f # fs) (ja4_note (ja4_noted fs) f) n"
    using note_tracked [OF ok] note_room [OF ok] note_full [OF ok] by (metis leI not_None_eq)
  then show ?case by (simp add: ja4_noted_def)
qed

text \<open>
  The eviction counter tells whether the breakdown is complete. After any observations (latest first), at
  most 256 fingerprints are tracked and the total is exact; no fingerprint was evicted exactly when at
  most 256 distinct ones were seen; and then the table lists each fingerprint seen with the exact number
  of times.
\<close>

theorem ja4_table_exact:
  assumes "length fs < 2 ^ 64"
  shows "tracked_fingerprints (ja4_noted fs) \<le> 256 \<and> unat (jo_total (ja4_noted fs)) = length fs
    \<and> (jo_evictions (ja4_noted fs) = 0 \<longleftrightarrow> card (set fs) \<le> 256)
    \<and> (jo_evictions (ja4_noted fs) = 0 \<longrightarrow>
         ((f, c) \<in> set (ja4_snapshot (ja4_noted fs)) \<longleftrightarrow> f \<in> set fs \<and> unat c = count_list fs f))"
proof -
  obtain n where ok: "table_ok fs (ja4_noted fs) n" using ja4_noted_ok by blast
  note d = table_okD [OF ok]
  have n: "jo_evictions (ja4_noted fs) = 0 \<longleftrightarrow> n = 0" using d(5,10) assms by (auto simp: of_nat_eq_0_iff [symmetric] word_of_nat_eq_0_iff dest: nat_dvd_not_less)
  have "n = 0 \<longleftrightarrow> card (set fs) \<le> 256"
  proof
    assume "n = 0"
    then show "card (set fs) \<le> 256" using table_complete [of fs "ja4_noted fs"] ok d(1,4) by (simp add: hm.len_card JA4_MAX_TRACKED_FINGERPRINTS_def)
  next
    assume "card (set fs) \<le> 256"
    then show "n = 0" using d(8) by (force simp: JA4_MAX_TRACKED_FINGERPRINTS_def)
  qed
  moreover have "(f, c) \<in> set (ja4_snapshot (ja4_noted fs)) \<longleftrightarrow> f \<in> set fs \<and> unat c = count_list fs f" if "n = 0"
  proof -
    have "count_list fs f < 2 ^ 64" using assms count_le_length [of fs f] by linarith
    then have u: "unat (of_nat (count_list fs f) :: u64) = count_list fs f" by (simp add: unat_of_nat)
    have "(f, c) \<in> set (ja4_snapshot (ja4_noted fs)) \<longleftrightarrow> hm_get (jo_counts (ja4_noted fs)) f = Some c"
      using d(1) by (simp add: ja4_snapshot_def hm_get_def hm_wf_def)
    then show ?thesis using d(7) [OF that, of f] u by (auto simp: count_list_0_iff) (metis word_unat_eq_iff)
  qed
  ultimately show ?thesis using d(4,9) n assms by (simp add: tracked_fingerprints_def JA4_MAX_TRACKED_FINGERPRINTS_def unat_of_nat)
qed

theorem ja4_table_exact_witness:
  "unat (jo_total (ja4_noted [[1], [2], [1]])) = 3 \<and> jo_evictions (ja4_noted [[1], [2], [1]]) = 0
    \<and> ([1], 2) \<in> set (ja4_snapshot (ja4_noted [[1], [2], [1]]))"
proof -
  have "length [[1], [2], [1 :: u8]] < 2 ^ 64" by simp
  note t = ja4_table_exact [OF this, of "[1]" 2]
  have "card (set [[1], [2], [1 :: u8]]) \<le> length [[1], [2], [1 :: u8]]" by (rule card_length)
  then have "card (set [[1], [2], [1 :: u8]]) \<le> 256" unfolding list.size by linarith
  then show ?thesis using t by simp
qed

end
