(* ===== verification/Credential.thy ===== *)
theory Credential
  imports Admission Text Wire Hex
begin

text \<open>
  Short-lived credentials (\<open>common/src/credential.rs\<close>) and agent bindings (\<open>common/src/agent_binding.rs\<close>):
  what the control plane signs about an agent, and what an agent proves when it registers. \<open>sha\<close> is
  SHA-256, \<open>vrfy\<close> the ed25519 verifier, \<open>strict\<close> its strict variant, \<open>key_ok\<close> whether a key parses.
\<close>

section \<open>Credentials\<close>

record credential =
  cr_tenant :: bytes
  cr_agent :: bytes
  cr_expires_at :: u64

definition credential_signing_bytes :: "credential \<Rightarrow> bytes" where
  "credential_signing_bytes c =
     pre_finish (pre_u64 (cr_expires_at c) (pre_var_bytes (cr_agent c) (pre_var_bytes (cr_tenant c)
       (preimage_new (ascii ''ct-cred:v1'')))))"

record signed_credential =
  sc_credential :: credential
  sc_signature :: bytes

datatype cred_error = CredBadSignature | CredExpired | CredBadKey | CredMalformed | CredReplayed

definition credential_encode :: "signed_credential \<Rightarrow> bytes" where
  "credential_encode s =
     (let c = sc_credential s in sc_signature s @ put_str (cr_tenant c) @ put_str (cr_agent c) @ to_le_bytes64 (cr_expires_at c))"

definition credential_fields_decode :: "bytes \<Rightarrow> signed_credential option" where
  "credential_fields_decode bytes = do {
     (signature, cur) \<leftarrow> take_n 64 bytes;
     (n, cur) \<leftarrow> take_n 4 cur;
     (t, cur) \<leftarrow> take_n (unat (from_le_bytes32 n)) cur;
     tenant \<leftarrow> from_utf8 t;
     (n, cur) \<leftarrow> take_n 4 cur;
     (a, cur) \<leftarrow> take_n (unat (from_le_bytes32 n)) cur;
     agent \<leftarrow> from_utf8 a;
     (e, cur) \<leftarrow> take_n 8 cur;
     if cur \<noteq> [] then None
     else Some \<lparr>sc_credential = \<lparr>cr_tenant = tenant, cr_agent = agent, cr_expires_at = from_le_bytes64 e\<rparr>, sc_signature = signature\<rparr>
   }"

definition credential_decode :: "bytes \<Rightarrow> cred_error + signed_credential" where
  "credential_decode bytes = (case credential_fields_decode bytes of None \<Rightarrow> Err CredMalformed | Some s \<Rightarrow> Ok s)"

definition cred_verify_stateless :: "(bytes \<Rightarrow> bool) \<Rightarrow> verifier \<Rightarrow> bytes \<Rightarrow> signed_credential \<Rightarrow> u64 \<Rightarrow> cred_error + unit" where
  "cred_verify_stateless key_ok vrfy issuer_pubkey s now =
     (if \<not> key_ok issuer_pubkey then Err CredBadKey
      else if \<not> vrfy issuer_pubkey (credential_signing_bytes (sc_credential s)) (sc_signature s) then Err CredBadSignature
      else if cr_expires_at (sc_credential s) \<le> now then Err CredExpired
      else Ok ())"

definition cred_verify_fresh ::
  "(bytes \<Rightarrow> bool) \<Rightarrow> verifier \<Rightarrow> bytes \<Rightarrow> signed_credential \<Rightarrow> u64 \<Rightarrow> replay_cache \<Rightarrow> (cred_error + unit) \<times> replay_cache" where
  "cred_verify_fresh key_ok vrfy issuer_pubkey s now cache =
     (case cred_verify_stateless key_ok vrfy issuer_pubkey s now of
        Inl e \<Rightarrow> (Err e, cache)
      | Inr _ \<Rightarrow> (case check_and_record cache (sc_signature s) (cr_expires_at (sc_credential s)) now of
           (fresh, cache) \<Rightarrow> (if \<not> fresh then Err CredReplayed else Ok (), cache)))"

interpretation credentials: replay_admission "cred_verify_stateless key_ok vrfy" "cred_verify_fresh key_ok vrfy" sc_signature
  "\<lambda>s. cr_expires_at (sc_credential s)" CredReplayed for key_ok vrfy
  by unfold_locales (auto simp: cred_verify_fresh_def cred_verify_stateless_def split: if_splits)

section \<open>Agent bindings\<close>

definition CLOCK_SKEW_SECS :: u64 where
  "CLOCK_SKEW_SECS = 300"

definition MAX_ENCODED_LEN :: nat where
  "MAX_ENCODED_LEN = 512"

definition MAX_TUNNEL_ID_LEN :: nat where
  "MAX_TUNNEL_ID_LEN = 128"

datatype agent_binding_error = BindMalformed | TunnelIdTooLong | TokenMismatch | BindExpired | IssuedInFuture | UnknownIssuer
  | BindBadSignature | BindBadKey

record agent_binding =
  ab_tunnel_id :: bytes
  ab_token_hash :: bytes
  ab_agent_pubkey :: bytes
  ab_issued_at :: u64
  ab_expires_at :: u64

definition binding_signing_bytes :: "agent_binding \<Rightarrow> bytes" where
  "binding_signing_bytes b =
     pre_finish (pre_u64 (ab_expires_at b) (pre_u64 (ab_issued_at b) (pre_fixed (ab_agent_pubkey b) (pre_fixed (ab_token_hash b)
       (pre_var_bytes (ab_tunnel_id b) (preimage_new (ascii ''ct-agent-binding:v1'')))))))"

definition key_fingerprint :: "digest \<Rightarrow> agent_binding \<Rightarrow> bytes" where
  "key_fingerprint sha b = sha (ab_agent_pubkey b)"

record signed_agent_binding =
  sb_binding :: agent_binding
  sb_signature :: bytes

definition binding_mint :: "('sk \<Rightarrow> bytes \<Rightarrow> bytes) \<Rightarrow> 'sk \<Rightarrow> agent_binding \<Rightarrow> signed_agent_binding" where
  "binding_mint sign signing_key b = \<lparr>sb_binding = b, sb_signature = sign signing_key (binding_signing_bytes b)\<rparr>"

definition binding_encode :: "signed_agent_binding \<Rightarrow> bytes" where
  "binding_encode s =
     (let b = sb_binding s in
      sb_signature s @ put_str (ab_tunnel_id b) @ ab_token_hash b @ ab_agent_pubkey b
      @ to_le_bytes64 (ab_issued_at b) @ to_le_bytes64 (ab_expires_at b))"

text \<open>What the decoder reads after the length prefix; every failure there is \<open>Malformed\<close>.\<close>

definition binding_rest_decode :: "bytes \<Rightarrow> nat \<Rightarrow> bytes \<Rightarrow> signed_agent_binding option" where
  "binding_rest_decode signature tunnel_id_len cur = do {
     (t, cur) \<leftarrow> take_n tunnel_id_len cur;
     tunnel_id \<leftarrow> from_utf8 t;
     (token_hash, cur) \<leftarrow> take_n 32 cur;
     (agent_pubkey, cur) \<leftarrow> take_n 32 cur;
     (i, cur) \<leftarrow> take_n 8 cur;
     (e, cur) \<leftarrow> take_n 8 cur;
     if cur \<noteq> [] then None
     else Some \<lparr>sb_binding = \<lparr>ab_tunnel_id = tunnel_id, ab_token_hash = token_hash, ab_agent_pubkey = agent_pubkey,
                 ab_issued_at = from_le_bytes64 i, ab_expires_at = from_le_bytes64 e\<rparr>, sb_signature = signature\<rparr>
   }"

definition binding_decode :: "bytes \<Rightarrow> agent_binding_error + signed_agent_binding" where
  "binding_decode bytes =
     (if MAX_ENCODED_LEN < length bytes then Err BindMalformed
      else case take_n 64 bytes of None \<Rightarrow> Err BindMalformed | Some (signature, cur) \<Rightarrow>
      case take_n 4 cur of None \<Rightarrow> Err BindMalformed | Some (n, cur) \<Rightarrow>
      let tunnel_id_len = unat (from_le_bytes32 n) in
      if MAX_TUNNEL_ID_LEN < tunnel_id_len then Err TunnelIdTooLong
      else case binding_rest_decode signature tunnel_id_len cur of None \<Rightarrow> Err BindMalformed | Some s \<Rightarrow> Ok s)"

definition verify_binding ::
  "digest \<Rightarrow> (bytes \<Rightarrow> bool) \<Rightarrow> verifier \<Rightarrow> bytes list \<Rightarrow> signed_agent_binding \<Rightarrow> bytes \<Rightarrow> u64 \<Rightarrow> agent_binding_error + unit" where
  "verify_binding sha key_ok strict issuers s token now =
     (let b = sb_binding s in
      if MAX_TUNNEL_ID_LEN < length (ab_tunnel_id b) then Err TunnelIdTooLong
      else if \<not> ct_eq (ab_token_hash b) (sha token) then Err TokenMismatch
      else if ab_expires_at b \<le> now then Err BindExpired
      else if saturating_add now CLOCK_SKEW_SECS < ab_issued_at b then Err IssuedInFuture
      else if list_ex (\<lambda>issuer. key_ok issuer \<and> strict issuer (binding_signing_bytes b) (sb_signature s)) issuers then Ok ()
      else Err UnknownIssuer)"

definition registration_challenge_bytes :: "bytes \<Rightarrow> bytes \<Rightarrow> bytes" where
  "registration_challenge_bytes nonce token =
     pre_finish (pre_var_bytes token (pre_fixed nonce (preimage_new (ascii ''ct-agent-reg:v1''))))"

definition sign_registration :: "('sk \<Rightarrow> bytes \<Rightarrow> bytes) \<Rightarrow> 'sk \<Rightarrow> bytes \<Rightarrow> bytes \<Rightarrow> bytes" where
  "sign_registration sign agent_signing_key nonce token = sign agent_signing_key (registration_challenge_bytes nonce token)"

definition verify_registration ::
  "digest \<Rightarrow> (bytes \<Rightarrow> bool) \<Rightarrow> verifier \<Rightarrow> bytes list \<Rightarrow> signed_agent_binding \<Rightarrow> bytes \<Rightarrow> bytes \<Rightarrow> bytes \<Rightarrow> u64
     \<Rightarrow> agent_binding_error + unit" where
  "verify_registration sha key_ok strict issuers s token nonce signature now =
     (case verify_binding sha key_ok strict issuers s token now of
        Inl e \<Rightarrow> Err e
      | Inr _ \<Rightarrow>
          if \<not> key_ok (ab_agent_pubkey (sb_binding s)) then Err BindBadKey
          else if \<not> strict (ab_agent_pubkey (sb_binding s)) (registration_challenge_bytes nonce token) signature then Err BindBadSignature
          else Ok ())"

section \<open>Lemmas\<close>

lemma credential_build: "credential_signing_bytes c = build (ascii ''ct-cred:v1'') [Var (cr_tenant c), Var (cr_agent c), U64 (cr_expires_at c)]"
  by (simp add: credential_signing_bytes_def build_def)

lemma binding_build: "binding_signing_bytes b = build (ascii ''ct-agent-binding:v1'')
    [Var (ab_tunnel_id b), Fixed (ab_token_hash b), Fixed (ab_agent_pubkey b), U64 (ab_issued_at b), U64 (ab_expires_at b)]"
  by (simp add: binding_signing_bytes_def build_def)

lemma registration_build: "registration_challenge_bytes nonce token = build (ascii ''ct-agent-reg:v1'') [Fixed nonce, Var token]"
  by (simp add: registration_challenge_bytes_def build_def)

lemma short_domains: "length (ascii ''ct-cred:v1'') < 2 ^ 32" "length (ascii ''ct-agent-binding:v1'') < 2 ^ 32" "length (ascii ''ct-agent-reg:v1'') < 2 ^ 32"
  by (simp_all add: ascii_def)

lemma credential_message_inject:
  assumes "credential_signing_bytes c = credential_signing_bytes c'"
    and "length (cr_tenant c) < 2 ^ 32" "length (cr_agent c) < 2 ^ 32" "length (cr_tenant c') < 2 ^ 32" "length (cr_agent c') < 2 ^ 32"
  shows "c = c'"
  using build_inject [OF assms(1) [unfolded credential_build] short_domains(1,1)] assms(2-) by (intro credential.equality) simp_all

lemma binding_message_inject:
  assumes "binding_signing_bytes b = binding_signing_bytes b'" "length (ab_tunnel_id b) < 2 ^ 32" "length (ab_tunnel_id b') < 2 ^ 32"
    and "length (ab_token_hash b) = length (ab_token_hash b')" "length (ab_agent_pubkey b) = length (ab_agent_pubkey b')"
  shows "b = b'"
  using build_inject [OF assms(1) [unfolded binding_build] short_domains(2,2)] assms(2-) by (intro agent_binding.equality) simp_all

text \<open>The three messages never coincide, so a signature over one verifies as no other.\<close>

lemma agent_messages_apart:
  "credential_signing_bytes c \<noteq> binding_signing_bytes b" "binding_signing_bytes b \<noteq> registration_challenge_bytes nonce token"
  "credential_signing_bytes c \<noteq> registration_challenge_bytes nonce token"
  using build_domain [OF _ short_domains(1,2)] build_domain [OF _ short_domains(2,3)] build_domain [OF _ short_domains(1,3)]
  unfolding credential_build binding_build registration_build by (auto simp: ascii_def)

lemma credential_wire_exact:
  "credential_decode bs = Ok s \<longleftrightarrow>
     credential_encode s = bs \<and> length (sc_signature s) = 64 \<and> utf8_valid (cr_tenant (sc_credential s)) \<and> utf8_valid (cr_agent (sc_credential s))
     \<and> length (cr_tenant (sc_credential s)) < 2 ^ 32 \<and> length (cr_agent (sc_credential s)) < 2 ^ 32" (is "?d \<longleftrightarrow> ?e")
proof
  have b: "unat (w :: u32) < 2 ^ 32" for w using unat_bound [of w] by simp
  assume ?d
  then have "credential_fields_decode bs = Some s" by (simp add: credential_decode_def split: option.splits)
  then show ?e
    by (auto simp: credential_fields_decode_def bind_eq_Some_conv take_n_iff credential_encode_def put_str_def to_le_from_le64
        to_le_from_le32 Let_def b b [simplified] split: if_splits)
next
  assume e: ?e
  then show ?d by (auto simp: credential_decode_def credential_fields_decode_def credential_encode_def put_str_def Let_def from_utf8_def)
qed

lemma binding_wire_exact:
  "binding_decode bs = Ok s \<longleftrightarrow>
     binding_encode s = bs \<and> length (sb_signature s) = 64 \<and> utf8_valid (ab_tunnel_id (sb_binding s)) \<and> length (ab_tunnel_id (sb_binding s)) \<le> 128
     \<and> length (ab_token_hash (sb_binding s)) = 32 \<and> length (ab_agent_pubkey (sb_binding s)) = 32" (is "?d \<longleftrightarrow> ?e")
proof
  assume ?d
  then show ?e
    by (auto simp: binding_decode_def binding_rest_decode_def bind_eq_Some_conv take_n_iff binding_encode_def put_str_def to_le_from_le64
        to_le_from_le32 Let_def MAX_TUNNEL_ID_LEN_def split: if_splits option.splits)
next
  assume ?e
  then show ?d
    by (auto simp: binding_decode_def binding_rest_decode_def binding_encode_def put_str_def Let_def from_utf8_def
        MAX_TUNNEL_ID_LEN_def MAX_ENCODED_LEN_def)
qed

text \<open>A credential that was admitted is not admitted again.\<close>

lemma credential_admitted_once:
  assumes "cred_verify_fresh key_ok vrfy issuer s now cache = (Ok (), cache')" "hm_wf (rc_seen cache)"
    and "list_all (\<lambda>(_, _, t). t \<le> later) calls"
  shows "fst (cred_verify_fresh key_ok vrfy issuer s later
      (foldl (\<lambda>c (k, s, t). snd (cred_verify_fresh key_ok vrfy k s t c)) cache' calls)) \<in> {Err CredReplayed, Err CredExpired}"
  using credentials.admitted_once [OF assms] credentials.fresh_Ok(1) [OF assms(1,2)]
  by (auto simp: cred_verify_stateless_def split: if_splits)

lemma verify_registration_Ok:
  "verify_registration sha key_ok strict issuers s token nonce signature now = Ok () \<longleftrightarrow>
     (let b = sb_binding s in length (ab_tunnel_id b) \<le> 128 \<and> ab_token_hash b = sha token \<and> now < ab_expires_at b
        \<and> unat (ab_issued_at b) \<le> unat now + 300
        \<and> (\<exists>issuer \<in> set issuers. key_ok issuer \<and> strict issuer (binding_signing_bytes b) (sb_signature s))
        \<and> key_ok (ab_agent_pubkey b) \<and> strict (ab_agent_pubkey b) (registration_challenge_bytes nonce token) signature)"
proof -
  have skew: "saturating_add now CLOCK_SKEW_SECS < (i :: u64) \<longleftrightarrow> unat now + 300 < unat i" for i
    using unat_bound [of i] by (auto simp: word_less_nat_alt unat_saturating_add CLOCK_SKEW_SECS_def min_def)
  show ?thesis
    by (auto simp: verify_registration_def verify_binding_def Let_def ct_eq_iff list_ex_iff skew not_le not_less MAX_TUNNEL_ID_LEN_def)
qed

section \<open>Properties\<close>

text \<open>
  C19. A stolen token registers nobody. When the issuers sign only the bindings in a set (no forgery under
  their keys), an accepted registration is for one of these bindings, made out for exactly this token, in
  force now, and the peer signed the fresh nonce with the key named there; and a peer that holds that key
  is accepted.
\<close>

theorem registration_bound:
  assumes issued: "\<forall>issuer \<in> set issuers. \<forall>m sig. strict issuer m sig \<longrightarrow> m \<in> binding_signing_bytes ` B"
    and sized: "\<forall>b \<in> insert (sb_binding s) B. length (ab_token_hash b) = 32 \<and> length (ab_agent_pubkey b) = 32 \<and> length (ab_tunnel_id b) \<le> 128"
  shows "(verify_registration sha key_ok strict issuers s token nonce signature now = Ok () \<longrightarrow>
      sb_binding s \<in> B \<and> ab_token_hash (sb_binding s) = sha token \<and> now < ab_expires_at (sb_binding s)
      \<and> unat (ab_issued_at (sb_binding s)) \<le> unat now + 300
      \<and> strict (ab_agent_pubkey (sb_binding s)) (registration_challenge_bytes nonce token) signature)
    \<and> (strict (pubkey ik) (binding_signing_bytes b) (sign ik (binding_signing_bytes b)) \<and> key_ok (pubkey ik) \<and> key_ok (pubkey ak)
         \<and> strict (pubkey ak) (registration_challenge_bytes nonce token) (sign ak (registration_challenge_bytes nonce token))
         \<and> pubkey ik \<in> set issuers \<and> b \<in> B \<and> ab_agent_pubkey b = pubkey ak
         \<and> ab_token_hash b = sha token \<and> now < ab_expires_at b \<and> ab_issued_at b \<le> now \<longrightarrow>
       verify_registration sha key_ok strict issuers (binding_mint sign ik b) token nonce (sign_registration sign ak nonce token) now = Ok ())"
proof (intro conjI impI)
  assume ok: "verify_registration sha key_ok strict issuers s token nonce signature now = Ok ()"
  then obtain issuer where "issuer \<in> set issuers" "strict issuer (binding_signing_bytes (sb_binding s)) (sb_signature s)"
    by (auto simp: verify_registration_Ok Let_def)
  then obtain b where b: "b \<in> B" "binding_signing_bytes (sb_binding s) = binding_signing_bytes b" using issued by blast
  have "sb_binding s = b" using b sized by (intro binding_message_inject) auto
  then show "sb_binding s \<in> B" using b(1) by simp
  show "ab_token_hash (sb_binding s) = sha token" "now < ab_expires_at (sb_binding s)" "unat (ab_issued_at (sb_binding s)) \<le> unat now + 300"
    "strict (ab_agent_pubkey (sb_binding s)) (registration_challenge_bytes nonce token) signature"
    using ok by (simp_all add: verify_registration_Ok Let_def)
next
  assume "strict (pubkey ik) (binding_signing_bytes b) (sign ik (binding_signing_bytes b)) \<and> key_ok (pubkey ik) \<and> key_ok (pubkey ak)
         \<and> strict (pubkey ak) (registration_challenge_bytes nonce token) (sign ak (registration_challenge_bytes nonce token))
         \<and> pubkey ik \<in> set issuers \<and> b \<in> B \<and> ab_agent_pubkey b = pubkey ak
         \<and> ab_token_hash b = sha token \<and> now < ab_expires_at b \<and> ab_issued_at b \<le> now"
  then show "verify_registration sha key_ok strict issuers (binding_mint sign ik b) token nonce (sign_registration sign ak nonce token) now = Ok ()"
    using sized by (auto simp: verify_registration_Ok Let_def binding_mint_def sign_registration_def word_le_nat_alt)
qed

text \<open>The witness: a signature is its key and message; the issuer bound one agent key to one token.\<close>

definition ex_binding :: agent_binding where
  "ex_binding = \<lparr>ab_tunnel_id = [116], ab_token_hash = replicate 32 5, ab_agent_pubkey = replicate 32 2, ab_issued_at = 10, ab_expires_at = 90\<rparr>"

definition ex_strict :: verifier where
  "ex_strict pk m sig \<longleftrightarrow> sig = pk @ m \<and> (pk = replicate 32 1 \<longrightarrow> m = binding_signing_bytes ex_binding)"

definition ex_thief :: signed_agent_binding where
  "ex_thief = \<lparr>sb_binding = ex_binding\<lparr>ab_agent_pubkey := replicate 32 3\<rparr>, sb_signature = replicate 32 1 @ binding_signing_bytes ex_binding\<rparr>"

theorem registration_bound_witness:
  "verify_registration (\<lambda>_. replicate 32 5) (\<lambda>_. True) ex_strict [replicate 32 1] (binding_mint (@) (replicate 32 1) ex_binding) [7] [9]
     (sign_registration (@) (replicate 32 2) [9] [7]) 50 = Ok ()
   \<and> verify_registration (\<lambda>_. replicate 32 5) (\<lambda>_. True) ex_strict [replicate 32 1] ex_thief [7] [9]
     (sign_registration (@) (replicate 32 3) [9] [7]) 50 \<noteq> Ok ()"
proof -
  have i: "\<forall>issuer \<in> set [replicate 32 1]. \<forall>m sig. ex_strict issuer m sig \<longrightarrow> m \<in> binding_signing_bytes ` {ex_binding}"
    by (simp add: ex_strict_def)
  have z: "\<forall>b \<in> insert (sb_binding ex_thief) {ex_binding}. length (ab_token_hash b) = 32 \<and> length (ab_agent_pubkey b) = 32 \<and> length (ab_tunnel_id b) \<le> 128"
    by (simp add: ex_binding_def ex_thief_def)
  have "replicate 32 2 \<noteq> (replicate 32 1 :: bytes)" by simp
  then have h: "ex_strict (replicate 32 1) (binding_signing_bytes ex_binding) (replicate 32 1 @ binding_signing_bytes ex_binding) \<and> True \<and> True
      \<and> ex_strict (replicate 32 2) (registration_challenge_bytes [9] [7]) (replicate 32 2 @ registration_challenge_bytes [9] [7])
      \<and> replicate 32 1 \<in> set [replicate 32 1 :: bytes] \<and> ex_binding \<in> {ex_binding} \<and> ab_agent_pubkey ex_binding = replicate 32 2
      \<and> ab_token_hash ex_binding = replicate 32 5 \<and> 50 < ab_expires_at ex_binding \<and> ab_issued_at ex_binding \<le> 50"
    unfolding ex_strict_def by (simp add: ex_binding_def)
  note r = registration_bound [OF i z, where sha = "\<lambda>_. replicate 32 5" and key_ok = "\<lambda>_. True" and token = "[7]" and nonce = "[9]"
      and now = 50 and pubkey = "\<lambda>x. x" and ik = "replicate 32 1" and b = ex_binding and sign = "(@)" and ak = "replicate 32 2"]
  have "sb_binding ex_thief \<notin> {ex_binding}" by (simp add: ex_binding_def ex_thief_def)
  then show ?thesis using r [THEN conjunct1, rule_format] r [THEN conjunct2, rule_format, OF h] by blast
qed

end
