(* ===== verification/Pow.thy ===== *)
theory Pow
  imports Wire
begin

text \<open>
  The proof-of-work gate (\<open>common/src/pow.rs\<close>): the edge's challenge, the client's search and the gated
  rendezvous request. \<open>sha\<close> is SHA-256. The search has no bound of its own; it is a partial function whose
  value is \<open>None\<close> when it runs forever.
\<close>

unbundle bit_operations_syntax

record pow_challenge =
  pc_nonce :: bytes
  pc_difficulty :: u8

definition u8_leading_zeros :: "u8 \<Rightarrow> nat" where
  "u8_leading_zeros b = length (takeWhile (\<lambda>i. \<not> bit b i) [7, 6, 5, 4, 3, 2, 1, 0])"

fun leading_zero_bits :: "bytes \<Rightarrow> nat" where
  "leading_zero_bits [] = 0"
| "leading_zero_bits (b # bs) = (if b = 0 then 8 + leading_zero_bits bs else u8_leading_zeros b)"

definition pow_hash :: "digest \<Rightarrow> bytes \<Rightarrow> bytes \<Rightarrow> u64 \<Rightarrow> bytes" where
  "pow_hash sha nonce token solution = sha (nonce @ token @ to_le_bytes64 solution)"

definition pow_verify :: "digest \<Rightarrow> pow_challenge \<Rightarrow> bytes \<Rightarrow> u64 \<Rightarrow> bool" where
  "pow_verify sha challenge token solution \<longleftrightarrow>
     unat (pc_difficulty challenge) \<le> leading_zero_bits (pow_hash sha (pc_nonce challenge) token solution)"

definition MAX_CLIENT_SOLVABLE_DIFFICULTY :: u8 where
  "MAX_CLIENT_SOLVABLE_DIFFICULTY = 32"

datatype difficulty_too_high = DifficultyTooHigh u8

text \<open>The loop; the counter wraps.\<close>

partial_function (option) solve_from :: "digest \<Rightarrow> pow_challenge \<Rightarrow> bytes \<Rightarrow> u64 \<Rightarrow> u64 option" where
  "solve_from sha challenge token solution =
     (if pow_verify sha challenge token solution then Some solution else solve_from sha challenge token (solution + 1))"

definition pow_solve :: "digest \<Rightarrow> pow_challenge \<Rightarrow> bytes \<Rightarrow> (difficulty_too_high + u64) option" where
  "pow_solve sha challenge token =
     (if MAX_CLIENT_SOLVABLE_DIFFICULTY < pc_difficulty challenge then Some (Err (DifficultyTooHigh (pc_difficulty challenge)))
      else map_option Ok (solve_from sha challenge token 0))"

datatype gate_error = GateMalformed | BadProofOfWork

definition assemble_request :: "u64 \<Rightarrow> bytes \<Rightarrow> bytes" where
  "assemble_request solution token = to_le_bytes64 solution @ token"

definition build_request :: "digest \<Rightarrow> pow_challenge \<Rightarrow> bytes \<Rightarrow> (difficulty_too_high + bytes) option" where
  "build_request sha challenge token =
     map_option (\<lambda>r. case r of Inl e \<Rightarrow> Err e | Inr solution \<Rightarrow> Ok (assemble_request solution token)) (pow_solve sha challenge token)"

definition check_request :: "digest \<Rightarrow> pow_challenge \<Rightarrow> bytes \<Rightarrow> gate_error + bytes" where
  "check_request sha challenge request =
     (if length request \<noteq> 40 then Err GateMalformed
      else let solution = from_le_bytes64 (take 8 request); token = drop 8 request in
        if \<not> pow_verify sha challenge token solution then Err BadProofOfWork else Ok token)"

section \<open>The search\<close>

lemma solve_from_reaches:
  assumes "pow_verify sha challenge token (s + of_nat n)" "\<forall>i < n. \<not> pow_verify sha challenge token (s + of_nat i)"
  shows "solve_from sha challenge token s = Some (s + of_nat n)"
  using assms
proof (induction n arbitrary: s)
  case 0
  then show ?case by (simp add: solve_from.simps)
next
  case (Suc n)
  have "\<not> pow_verify sha challenge token s" using Suc.prems(2) by force
  moreover have "solve_from sha challenge token (s + 1) = Some (s + 1 + of_nat n)"
  proof (rule Suc.IH)
    show "pow_verify sha challenge token (s + 1 + of_nat n)" using Suc.prems(1) by (simp add: algebra_simps)
    show "\<forall>i < n. \<not> pow_verify sha challenge token (s + 1 + of_nat i)"
    proof (intro allI impI)
      fix i assume "i < n"
      then have "\<not> pow_verify sha challenge token (s + of_nat (Suc i))" using Suc.prems(2) by blast
      then show "\<not> pow_verify sha challenge token (s + 1 + of_nat i)" by (simp add: algebra_simps)
    qed
  qed
  ultimately show ?case by (subst solve_from.simps) (simp add: algebra_simps)
qed

lemma solve_from_sound: "solve_from sha challenge token s = Some r \<Longrightarrow> pow_verify sha challenge token r"
  by (rule solve_from.raw_induct [where P = "\<lambda>sha challenge token s r. pow_verify sha challenge token r"])
    (auto split: if_splits)

lemma solve_from_least:
  "solve_from sha challenge token 0 = Some r \<longleftrightarrow>
     pow_verify sha challenge token r \<and> (\<forall>i < r. \<not> pow_verify sha challenge token i)"
proof -
  have least: "solve_from sha challenge token 0 = Some t"
    if t: "pow_verify sha challenge token t" "\<forall>i < t. \<not> pow_verify sha challenge token i" for t
  proof -
    have "\<not> pow_verify sha challenge token (of_nat i)" if "i < unat t" for i
    proof -
      have "unat (of_nat i :: u64) = i" using that unat_bound [of t] by (simp add: unat_of_nat)
      then have "(of_nat i :: u64) < t" using that by (simp add: word_less_nat_alt)
      then show ?thesis using t(2) by blast
    qed
    then show ?thesis using solve_from_reaches [of sha challenge token 0 "unat t"] t(1) by simp
  qed
  show ?thesis
  proof
    assume r: "solve_from sha challenge token 0 = Some r"
    define t where "t = (LEAST x. pow_verify sha challenge token x)"
    have v: "pow_verify sha challenge token t" unfolding t_def using solve_from_sound [OF r] by (rule LeastI)
    have m: "\<forall>i < t. \<not> pow_verify sha challenge token i" unfolding t_def using not_less_Least by blast
    have "r = t" using r least [OF v m] by simp
    then show "pow_verify sha challenge token r \<and> (\<forall>i < r. \<not> pow_verify sha challenge token i)" using v m by simp
  qed (use least in blast)
qed

section \<open>Leading zeros\<close>

definition be_nat :: "bytes \<Rightarrow> nat" where
  "be_nat bs = le_nat (rev bs)"

lemma le_nat_append: "le_nat (xs @ ys) = le_nat xs + 256 ^ length xs * le_nat ys"
  by (induction xs) (simp_all add: algebra_simps)

lemma be_nat_Cons: "be_nat (b # bs) = unat b * 256 ^ length bs + be_nat bs"
  by (simp add: be_nat_def le_nat_append algebra_simps)

lemma be_nat_bound: "be_nat bs < 256 ^ length bs"
  using le_nat_bound [of "rev bs"] by (simp add: be_nat_def)

lemma length_takeWhile_ge: "d \<le> length xs \<Longrightarrow> d \<le> length (takeWhile P xs) \<longleftrightarrow> (\<forall>j < d. P (xs ! j))"
proof (induction xs arbitrary: d)
  case (Cons x xs)
  show ?case
  proof (cases d)
    case (Suc e)
    then show ?thesis using Cons.IH [of e] Cons.prems by (auto simp: All_less_Suc2)
  qed simp
qed simp

lemma unat_less_bits: "unat (b :: u8) < 2 ^ k \<longleftrightarrow> (\<forall>i \<ge> k. \<not> bit b i)"
proof -
  have "unat b < 2 ^ k \<longleftrightarrow> take_bit k (unat b) = unat b" by (simp add: take_bit_nat_eq_self_iff)
  also have "\<dots> \<longleftrightarrow> (\<forall>i. (i < k \<and> bit b i) = bit b i)"
    unfolding bit_eq_iff by (simp add: bit_take_bit_iff bit_unsigned_iff)
  also have "\<dots> \<longleftrightarrow> (\<forall>i \<ge> k. \<not> bit b i)" by (meson not_le)
  finally show ?thesis .
qed

lemma u8_leading_zeros_ge:
  assumes "d \<le> 8"
  shows "d \<le> u8_leading_zeros b \<longleftrightarrow> unat b < 2 ^ (8 - d)"
proof -
  have nth: "[7, 6, 5, 4, 3, 2, 1, 0 :: nat] ! j = 7 - j" if "j < 8" for j
  proof -
    have "j \<in> {0, 1, 2, 3, 4, 5, 6, 7}" using that by auto
    then show ?thesis by auto
  qed
  have "d \<le> u8_leading_zeros b \<longleftrightarrow> (\<forall>j < d. \<not> bit b (7 - j))"
    using length_takeWhile_ge [of d "[7, 6, 5, 4, 3, 2, 1, 0]" "\<lambda>i. \<not> bit b i"] assms nth by (auto simp: u8_leading_zeros_def)
  also have "\<dots> \<longleftrightarrow> (\<forall>i \<ge> 8 - d. \<not> bit b i)"
  proof
    assume z: "\<forall>j < d. \<not> bit b (7 - j)"
    show "\<forall>i \<ge> 8 - d. \<not> bit b i"
    proof (intro allI impI)
      fix i assume i: "8 - d \<le> i"
      show "\<not> bit b i"
      proof (cases "i < 8")
        case True
        then have "7 - (7 - i) = i" "7 - i < d" using i by auto
        then show ?thesis using z by metis
      next
        case False
        then show ?thesis using bit_imp_le_length [of b i] by auto
      qed
    qed
  next
    assume z: "\<forall>i \<ge> 8 - d. \<not> bit b i"
    have "8 - d \<le> 7 - j" if "j < d" for j using that assms by linarith
    then show "\<forall>j < d. \<not> bit b (7 - j)" using z by blast
  qed
  finally show ?thesis by (simp add: unat_less_bits)
qed

lemma block_less:
  assumes "(r :: nat) < m"
  shows "a * m + r < k * m \<longleftrightarrow> a < k"
proof
  assume "a * m + r < k * m"
  then have "a * m < k * m" by linarith
  then show "a < k" by simp
next
  assume "a < k"
  then have "Suc a * m \<le> k * m" by (intro mult_right_mono) auto
  then show "a * m + r < k * m" using assms by simp
qed

lemma leading_zero_bits_ge:
  "d \<le> 8 * length bs \<Longrightarrow> d \<le> leading_zero_bits bs \<longleftrightarrow> be_nat bs < 2 ^ (8 * length bs - d)"
proof (induction bs arbitrary: d)
  case (Cons b bs)
  let ?m = "2 ^ (8 * length bs) :: nat"
  have m: "256 ^ length bs = ?m" by (simp add: power_mult [symmetric] power_mult)
  have r: "be_nat bs < ?m" using be_nat_bound [of bs] m by simp
  have small: "be_nat bs < 2 ^ (8 * Suc (length bs) - d)" if "d \<le> 8"
  proof -
    have "8 * length bs \<le> 8 * Suc (length bs) - d" using that by simp
    then have "?m \<le> 2 ^ (8 * Suc (length bs) - d)" by (rule power_increasing) simp
    then show ?thesis using r by linarith
  qed
  have high: "2 ^ (8 * Suc (length bs) - d) = 2 ^ (8 - d) * ?m" if "d \<le> 8"
  proof -
    have "8 * Suc (length bs) - d = (8 - d) + 8 * length bs" using that by simp
    then show ?thesis by (simp add: power_add)
  qed
  show ?case
  proof (cases "d \<le> 8")
    case True
    show ?thesis
    proof (cases "b = 0")
      case zero: True
      then show ?thesis using small [OF True] True by (simp add: be_nat_Cons)
    next
      case False
      then show ?thesis using u8_leading_zeros_ge [OF True, of b] block_less [OF r, of "unat b" "2 ^ (8 - d)"] high [OF True]
        by (simp add: be_nat_Cons m)
    qed
  next
    case False
    show ?thesis
    proof (cases "b = 0")
      case True
      have "d - 8 \<le> 8 * length bs" "8 * Suc (length bs) - d = 8 * length bs - (d - 8)" using Cons.prems False by auto
      then show ?thesis using Cons.IH [of "d - 8"] True False by (simp add: be_nat_Cons) linarith
    next
      case nz: False
      have "u8_leading_zeros b \<le> 8" using length_takeWhile_le [of "\<lambda>i. \<not> bit b i" "[7, 6, 5, 4, 3, 2, 1, 0]"] by (simp add: u8_leading_zeros_def)
      moreover have "1 \<le> unat b" using nz by (simp add: Suc_le_eq unat_gt_0)
      then have "1 * ?m \<le> unat b * ?m" by (rule mult_right_mono) simp
      then have "?m \<le> be_nat (b # bs)" unfolding be_nat_Cons m by linarith
      moreover have "2 ^ (8 * length (b # bs) - d) \<le> ?m" using False by (intro power_increasing) auto
      ultimately have "\<not> be_nat (b # bs) < 2 ^ (8 * length (b # bs) - d)" "\<not> d \<le> leading_zero_bits (b # bs)"
        using nz False by (linarith, simp)
      then show ?thesis by blast
    qed
  qed
qed (simp add: be_nat_def)

section \<open>Properties\<close>

text \<open>
  C20. The gate charges what it says. With a 32-byte digest, a proof is valid exactly when the digest of nonce,
  token and proof, as a number, lies below 2 to the 256 minus the difficulty; a request passes exactly when
  it carries a token with a proof for that token; a client refuses a difficulty above 32 without searching,
  and otherwise its search returns the smallest valid proof, whenever there is one, and its request then
  passes the gate for exactly its token.
\<close>

theorem pow_gate_exact:
  assumes "\<forall>m. length (sha m) = 32" "length token = 32"
  shows "(pow_verify sha challenge token solution \<longleftrightarrow>
       be_nat (sha (pc_nonce challenge @ token @ to_le_bytes64 solution)) < 2 ^ (256 - unat (pc_difficulty challenge)))
    \<and> (check_request sha challenge request = Ok token \<longleftrightarrow>
         (\<exists>s. request = to_le_bytes64 s @ token \<and> pow_verify sha challenge token s))
    \<and> (32 < pc_difficulty challenge \<longrightarrow> build_request sha challenge token = Some (Err (DifficultyTooHigh (pc_difficulty challenge))))
    \<and> (pc_difficulty challenge \<le> 32 \<longrightarrow>
         (build_request sha challenge token = Some (Ok request) \<longleftrightarrow>
            (\<exists>s. request = to_le_bytes64 s @ token \<and> pow_verify sha challenge token s \<and> (\<forall>i < s. \<not> pow_verify sha challenge token i)))
         \<and> ((\<exists>s. pow_verify sha challenge token s) \<longrightarrow>
              (\<exists>request. build_request sha challenge token = Some (Ok request) \<and> check_request sha challenge request = Ok token)))"
proof -
  have d: "unat (pc_difficulty challenge) \<le> 8 * length (sha m)" for m using assms(1) unat_bound [of "pc_difficulty challenge"] by simp
  have v: "pow_verify sha challenge token solution \<longleftrightarrow>
       be_nat (sha (pc_nonce challenge @ token @ to_le_bytes64 solution)) < 2 ^ (256 - unat (pc_difficulty challenge))"
    using leading_zero_bits_ge [OF d, of "pc_nonce challenge @ token @ to_le_bytes64 solution"] assms(1)
    by (simp add: pow_verify_def pow_hash_def)
  have c: "check_request sha challenge request = Ok token \<longleftrightarrow>
      (\<exists>s. request = to_le_bytes64 s @ token \<and> pow_verify sha challenge token s)" for request
  proof
    assume ok: "check_request sha challenge request = Ok token"
    then have "length request = 40" "token = drop 8 request" "pow_verify sha challenge token (from_le_bytes64 (take 8 request))"
      by (auto simp: check_request_def Let_def split: if_splits)
    moreover from this have "request = to_le_bytes64 (from_le_bytes64 (take 8 request)) @ token"
      by (simp add: to_le_from_le64)
    ultimately show "\<exists>s. request = to_le_bytes64 s @ token \<and> pow_verify sha challenge token s" by blast
  next
    assume "\<exists>s. request = to_le_bytes64 s @ token \<and> pow_verify sha challenge token s"
    then show "check_request sha challenge request = Ok token" using assms(2) by (auto simp: check_request_def)
  qed
  have b: "build_request sha challenge token = Some (Ok request) \<longleftrightarrow>
      (\<exists>s. request = to_le_bytes64 s @ token \<and> pow_verify sha challenge token s \<and> (\<forall>i < s. \<not> pow_verify sha challenge token i))"
    if "pc_difficulty challenge \<le> 32" for request
    using that solve_from_least [of sha challenge token]
    by (auto simp: build_request_def pow_solve_def MAX_CLIENT_SOLVABLE_DIFFICULTY_def assemble_request_def)
  have "\<exists>request. build_request sha challenge token = Some (Ok request) \<and> check_request sha challenge request = Ok token"
    if "pc_difficulty challenge \<le> 32" "pow_verify sha challenge token s" for s
  proof -
    define t where "t = (LEAST x. pow_verify sha challenge token x)"
    have "pow_verify sha challenge token t" "\<forall>i < t. \<not> pow_verify sha challenge token i"
      unfolding t_def using that(2) LeastI not_less_Least by blast+
    then show ?thesis using b [OF that(1)] c by blast
  qed
  then show ?thesis using v c b
    by (auto simp: build_request_def pow_solve_def MAX_CLIENT_SOLVABLE_DIFFICULTY_def)
qed

text \<open>The witness: a digest that is zero from proof 2 on.\<close>

definition ex_pow_sha :: digest where
  "ex_pow_sha m = replicate 32 (if m ! 32 < 2 then 0xff else 0)"

theorem pow_gate_exact_witness:
  "build_request ex_pow_sha \<lparr>pc_nonce = [], pc_difficulty = 16\<rparr> (replicate 32 5) = Some (Ok (to_le_bytes64 2 @ replicate 32 5))
    \<and> check_request ex_pow_sha \<lparr>pc_nonce = [], pc_difficulty = 16\<rparr> (to_le_bytes64 2 @ replicate 32 5) = Ok (replicate 32 5)"
proof -
  let ?c = "\<lparr>pc_nonce = [], pc_difficulty = 16\<rparr>" and ?t = "replicate 32 5 :: bytes"
  have s: "\<forall>m. length (ex_pow_sha m) = 32" "length ?t = 32" by (simp_all add: ex_pow_sha_def)
  have first: "(?t @ to_le_bytes64 i) ! 32 = word_of_nat (unat i)" for i
    using nat_le.simps(2) [of 7 "unat i"] by (simp add: nth_append to_le_bytes64_def)
  have z: "leading_zero_bits (replicate n 0) = 8 * n" for n by (induction n) simp_all
  have "replicate 32 (0xff :: u8) = 0xff # replicate 31 0xff" by (simp add: numeral_eq_Suc)
  moreover have "u8_leading_zeros 0xff = 0" by (simp add: u8_leading_zeros_def)
  ultimately have "leading_zero_bits (replicate 32 0xff) = 0" by simp
  then have v: "pow_verify ex_pow_sha ?c ?t i \<longleftrightarrow> \<not> (word_of_nat (unat i) < (2 :: u8))" for i
    using z [of 32] by (simp add: pow_verify_def pow_hash_def ex_pow_sha_def first)
  have "\<not> pow_verify ex_pow_sha ?c ?t i" if "i < 2" for i
  proof -
    have "unat i < 2" using that by (simp add: word_less_nat_alt)
    then have "unat (word_of_nat (unat i) :: u8) < 2" by (simp only: unat_of_nat) simp
    then show ?thesis unfolding v by (simp only: word_less_nat_alt) simp
  qed
  moreover have "pow_verify ex_pow_sha ?c ?t 2" unfolding v by simp
  ultimately have p: "\<exists>x. to_le_bytes64 2 @ ?t = to_le_bytes64 x @ ?t \<and> pow_verify ex_pow_sha ?c ?t x \<and> (\<forall>i < x. \<not> pow_verify ex_pow_sha ?c ?t i)"
    by blast
  have d: "pc_difficulty ?c \<le> 32" by simp
  note g = pow_gate_exact [OF s, where challenge = ?c and request = "to_le_bytes64 2 @ ?t"]
  have "build_request ex_pow_sha ?c ?t = Some (Ok (to_le_bytes64 2 @ ?t))"
    using g [THEN conjunct2, THEN conjunct2, THEN conjunct2, THEN mp, OF d, THEN conjunct1] p by blast
  moreover have "check_request ex_pow_sha ?c (to_le_bytes64 2 @ ?t) = Ok ?t"
    using g [THEN conjunct2, THEN conjunct1] p by blast
  ultimately show ?thesis by blast
qed

end
