(* ===== verification/DnsMessage.thy ===== *)
theory DnsMessage
  imports Hostname Slices
begin

text \<open>
  The DNS codec of the ACME DNS-01 responder, \<open>dns/src/message.rs\<close>: the reader of a question, the builders of
  queries and responses and the reader of TXT answers. Names and values are UTF-8 bytes. A cursor \<open>p\<close> into
  the datagram is the rest of the datagram from there, and \<open>get\<close> past the end fails on either alike.
\<close>

section \<open>Questions\<close>

definition TYPE_TXT :: u16 where
  "TYPE_TXT = 16"

definition CLASS_IN :: u16 where
  "CLASS_IN = 1"

record dns_query =
  dq_id :: u16
  dq_name :: bytes
  dq_qtype :: u16
  dq_qclass :: u16

function parse_qname :: "bytes \<Rightarrow> bytes \<Rightarrow> (bytes \<times> bytes) option" where
  "parse_qname name rest =
     (case get_byte rest 0 of None \<Rightarrow> None | Some len \<Rightarrow>
      if len = 0 then Some (name, drop 1 rest)
      else if len AND 0xC0 \<noteq> 0 then None
      else case get_range rest 1 (1 + unat len) of None \<Rightarrow> None | Some label \<Rightarrow>
      case from_utf8 label of None \<Rightarrow> None | Some label \<Rightarrow>
        parse_qname ((if name \<noteq> [] then name @ [0x2E] else name) @ to_ascii_lowercase label)
          (drop (1 + unat len) rest))"
  by pat_completeness auto
termination
  by (relation "measure (\<lambda>(_, rest). length rest)") (auto simp: get_byte_def split: if_splits)

declare parse_qname.simps [simp del]

definition parse_query :: "bytes \<Rightarrow> dns_query option" where
  "parse_query dgram =
     (if length dgram < 12 then None
      else let id = from_be_bytes16 [dgram ! 0, dgram ! 1]; qdcount = from_be_bytes16 [dgram ! 4, dgram ! 5] in
      if qdcount < 1 then None
      else case parse_qname [] (drop 12 dgram) of None \<Rightarrow> None | Some (name, rest) \<Rightarrow>
      case get_be16 rest 0 of None \<Rightarrow> None | Some qtype \<Rightarrow>
      case get_be16 rest 2 of None \<Rightarrow> None | Some qclass \<Rightarrow>
        Some \<lparr>dq_id = id, dq_name = name, dq_qtype = qtype, dq_qclass = qclass\<rparr>)"

section \<open>Names and queries\<close>

definition encode_name :: "bytes \<Rightarrow> bytes" where
  "encode_name name =
     (if name \<noteq> [] then concat (map (\<lambda>label. word_of_nat (length label) # label) (split_on 0x2E name)) else []) @ [0]"

definition name_wire_len :: "bytes \<Rightarrow> nat" where
  "name_wire_len name =
     (if name = [] then 1 else sum_list (map (\<lambda>label. 1 + length label) (split_on 0x2E name)) + 1)"

definition build_query :: "u16 \<Rightarrow> bytes \<Rightarrow> u16 \<Rightarrow> bytes" where
  "build_query qid name qtype =
     to_be_bytes16 qid @ to_be_bytes16 0x0100 @ to_be_bytes16 1 @ [0, 0, 0, 0, 0, 0]
     @ encode_name name @ to_be_bytes16 qtype @ to_be_bytes16 CLASS_IN"

section \<open>Responses\<close>

definition MAX_UDP_RESPONSE_BYTES :: nat where
  "MAX_UDP_RESPONSE_BYTES = 512"

fun chunks :: "nat \<Rightarrow> bytes \<Rightarrow> bytes list" where
  "chunks n [] = []"
| "chunks n (b # bs) = (if n = 0 then [] else take n (b # bs) # chunks n (drop n (b # bs)))"

definition txt_rdata :: "bytes \<Rightarrow> bytes" where
  "txt_rdata txt = concat (map (\<lambda>chunk. word_of_nat (length chunk) # chunk) (chunks 255 txt))"

definition txt_rr :: "bytes \<Rightarrow> bytes" where
  "txt_rr txt =
     [0xC0, 0x0C] @ to_be_bytes16 TYPE_TXT @ to_be_bytes16 CLASS_IN @ to_be_bytes32 60
     @ to_be_bytes16 (word_of_nat (length (txt_rdata txt))) @ txt_rdata txt"

fun included_answers :: "nat \<Rightarrow> bytes list \<Rightarrow> nat" where
  "included_answers budget [] = 0"
| "included_answers budget (rr # rrs) =
     (if budget < length rr then 0 else Suc (included_answers (budget - length rr) rrs))"

definition build_response :: "dns_query \<Rightarrow> bytes list \<Rightarrow> bytes" where
  "build_response query txts =
     (let answer_rrs = (if dq_qtype query = TYPE_TXT then map txt_rr txts else []);
          header_and_question_len = 12 + name_wire_len (dq_name query) + 4;
          included = included_answers (MAX_UDP_RESPONSE_BYTES - header_and_question_len) answer_rrs;
          truncated = included < length answer_rrs in
      to_be_bytes16 (dq_id query) @ to_be_bytes16 (if truncated then 0x8600 else 0x8400)
      @ to_be_bytes16 1 @ to_be_bytes16 (word_of_nat included) @ to_be_bytes16 0 @ to_be_bytes16 0
      @ encode_name (dq_name query) @ to_be_bytes16 (dq_qtype query) @ to_be_bytes16 (dq_qclass query)
      @ concat (take included answer_rrs))"

section \<open>Answers\<close>

function skip_name :: "bytes \<Rightarrow> bytes option" where
  "skip_name rest =
     (case get_byte rest 0 of None \<Rightarrow> None | Some len \<Rightarrow>
      if len = 0 then Some (drop 1 rest)
      else if len AND 0xC0 = 0xC0 then Some (drop 2 rest)
      else skip_name (drop (1 + unat len) rest))"
  by pat_completeness auto
termination by (relation "measure length") (auto simp: get_byte_def split: if_splits)

declare skip_name.simps [simp del]

fun skip_questions :: "nat \<Rightarrow> bytes \<Rightarrow> bytes option" where
  "skip_questions 0 rest = Some rest"
| "skip_questions (Suc qd) rest =
     (case skip_name rest of None \<Rightarrow> None | Some rest \<Rightarrow> skip_questions qd (drop 4 rest))"

function character_strings :: "bytes \<Rightarrow> bytes option" where
  "character_strings rdata =
     (if rdata = [] then Some []
      else case get_range rdata 1 (1 + unat (rdata ! 0)) of None \<Rightarrow> None | Some chunk \<Rightarrow>
      case from_utf8 chunk of None \<Rightarrow> None | Some s \<Rightarrow>
        map_option ((@) s) (character_strings (drop (1 + unat (rdata ! 0)) rdata)))"
  by pat_completeness auto
termination by (relation "measure length") auto

declare character_strings.simps [simp del]

fun read_answers :: "nat \<Rightarrow> bytes \<Rightarrow> bytes list option" where
  "read_answers 0 rest = Some []"
| "read_answers (Suc an) rest =
     (case skip_name rest of None \<Rightarrow> None | Some rest \<Rightarrow>
      case get_be16 rest 0 of None \<Rightarrow> None | Some rtype \<Rightarrow>
      case get_be16 rest 8 of None \<Rightarrow> None | Some rdlen \<Rightarrow>
      case get_range rest 10 (10 + unat rdlen) of None \<Rightarrow> None | Some rdata \<Rightarrow>
      let rest = drop (10 + unat rdlen) rest in
      if rtype = TYPE_TXT
      then case character_strings rdata of None \<Rightarrow> None | Some s \<Rightarrow> map_option ((#) s) (read_answers an rest)
      else read_answers an rest)"

definition parse_txt_answers :: "bytes \<Rightarrow> bytes list" where
  "parse_txt_answers dgram =
     (if length dgram < 12 then []
      else let qd = from_be_bytes16 [dgram ! 4, dgram ! 5]; an = from_be_bytes16 [dgram ! 6, dgram ! 7] in
      case skip_questions (unat qd) (drop 12 dgram) of None \<Rightarrow> [] | Some rest \<Rightarrow>
      case read_answers (unat an) rest of None \<Rightarrow> [] | Some out \<Rightarrow> out)"

section \<open>Names on the wire\<close>

lemma length_encode_name: "length (encode_name name) = name_wire_len name"
proof -
  have "sum_list (map (length \<circ> (\<lambda>label. word_of_nat (length label) # label)) (split_on 0x2E name))
      = sum_list (map (\<lambda>label. 1 + length label) (split_on 0x2E name))"
    by (simp add: comp_def)
  then show ?thesis by (simp add: encode_name_def name_wire_len_def length_concat comp_def)
qed

lemma name_wire_len_length: "name_wire_len name = (if name = [] then 1 else length name + 2)"
proof -
  have "length (concat (map (\<lambda>p. 0x2E # p) (split_on 0x2E name))) = Suc (length name)" by (simp add: split_on_concat)
  then show ?thesis by (simp add: name_wire_len_def length_concat comp_def)
qed

lemma lowercase_length [simp]: "length (to_ascii_lowercase s) = length s"
  by (simp add: to_ascii_lowercase_def)

lemma lowercase_append [simp]: "to_ascii_lowercase (s @ t) = to_ascii_lowercase s @ to_ascii_lowercase t"
  by (simp add: to_ascii_lowercase_def)

lemma lowercase_Nil [simp]: "to_ascii_lowercase [] = []" "to_ascii_lowercase s = [] \<longleftrightarrow> s = []"
  by (simp_all add: to_ascii_lowercase_def)

lemma lowercase_byte_idem: "byte_to_ascii_lowercase (byte_to_ascii_lowercase b) = byte_to_ascii_lowercase b"
proof (cases "0x41 \<le> b \<and> b \<le> 0x5A")
  case True
  then have "unat (b + 32) = unat b + 32" by (subst unat_add_no_wrap) (auto simp: word_le_nat_alt)
  then show ?thesis using True by (auto simp: byte_to_ascii_lowercase_def word_le_nat_alt)
qed (auto simp: byte_to_ascii_lowercase_def)

lemma to_lowercase_idem [simp]: "to_ascii_lowercase (to_ascii_lowercase s) = to_ascii_lowercase s"
  by (simp add: to_ascii_lowercase_def lowercase_byte_idem)

lemma lowercase_dot: "byte_to_ascii_lowercase b = 0x2E \<longleftrightarrow> b = 0x2E"
proof (cases "0x41 \<le> b \<and> b \<le> 0x5A")
  case True
  then have "unat (b + 32) = unat b + 32" by (subst unat_add_no_wrap) (auto simp: word_le_nat_alt)
  then show ?thesis using True by (auto simp: byte_to_ascii_lowercase_def word_le_nat_alt)
qed (auto simp: byte_to_ascii_lowercase_def)

lemma split_on_lowercase: "split_on 0x2E (to_ascii_lowercase s) = map to_ascii_lowercase (split_on 0x2E s)"
  by (induction s) (auto simp: to_ascii_lowercase_def lowercase_dot split: list.splits)

text \<open>A name that survives the wire: no empty label and none that needs a length of two bits or more.\<close>

definition dns_label :: "bytes \<Rightarrow> bool" where
  "dns_label l \<longleftrightarrow> l \<noteq> [] \<and> length l \<le> 63 \<and> utf8_valid l"

definition queryable :: "bytes \<Rightarrow> bool" where
  "queryable name \<longleftrightarrow> list_all dns_label (split_on 0x2E name)"

definition wire_labels :: "bytes list \<Rightarrow> bytes" where
  "wire_labels ls = concat (map (\<lambda>label. word_of_nat (length label) # label) ls)"

lemma queryable_encode: "queryable name \<Longrightarrow> name \<noteq> [] \<and> encode_name name = wire_labels (split_on 0x2E name) @ [0]"
  by (auto simp: queryable_def dns_label_def encode_name_def wire_labels_def)

lemma plain_length:
  assumes "0 < n" "n \<le> 63"
  shows "(word_of_nat n :: u8) \<noteq> 0" "(word_of_nat n :: u8) AND 0xC0 = 0" "unat (word_of_nat n :: u8) = n"
proof -
  show u: "unat (word_of_nat n :: u8) = n" using assms by simp
  show "(word_of_nat n :: u8) \<noteq> 0" using u assms by (metis unat_0 less_irrefl)
  have "(word_of_nat n :: u8) AND 0xC0 = 0" if "n \<in> set [0..<64]" for n
  proof -
    have "list_all (\<lambda>n. (word_of_nat n :: u8) AND 0xC0 = 0) [0..<64]" by code_simp
    then show ?thesis using that by (simp only: list_all_iff)
  qed
  then show "(word_of_nat n :: u8) AND 0xC0 = 0" using assms by simp
qed

lemma get_byte_Cons [simp]: "get_byte (b # bs) 0 = Some b"
  by (simp add: get_byte_def)

lemma get_range_Cons [simp]: "get_range (b # v @ rest) (Suc 0) (Suc (length v)) = Some v"
  by (simp add: get_range_def)

text \<open>How the labels of a name add up again.\<close>

definition joined :: "bytes \<Rightarrow> bytes list \<Rightarrow> bytes" where
  "joined name ls = fold (\<lambda>l name. (if name \<noteq> [] then name @ [0x2E] else name) @ to_ascii_lowercase l) ls name"

lemma parse_qname_labels:
  assumes "list_all dns_label ls"
  shows "parse_qname name (wire_labels ls @ 0 # rest) = Some (joined name ls, rest)"
  using assms
proof (induction ls arbitrary: name)
  case Nil
  show ?case by (simp add: parse_qname.simps [of name "0 # rest"] wire_labels_def joined_def)
next
  case (Cons l ls)
  then have l: "0 < length l" "length l \<le> 63" "utf8_valid l" by (auto simp: dns_label_def)
  note p = plain_length [OF l(1,2)]
  have w: "wire_labels (l # ls) @ 0 # rest = word_of_nat (length l) # l @ (wire_labels ls @ 0 # rest)"
    by (simp add: wire_labels_def)
  show ?case unfolding w using Cons l(3) p by (subst parse_qname.simps) (simp add: from_utf8_def joined_def)
qed

lemma joined_nonempty: "name \<noteq> [] \<Longrightarrow> joined name ls = name @ concat (map (\<lambda>l. 0x2E # to_ascii_lowercase l) ls)"
  by (induction ls arbitrary: name) (auto simp: joined_def)

lemma joined_split:
  assumes "queryable name"
  shows "joined [] (split_on 0x2E name) = to_ascii_lowercase name"
proof -
  obtain l ls where s: "split_on 0x2E name = l # ls" by (meson neq_Nil_conv split_on_not_Nil)
  have "to_ascii_lowercase (concat (map (\<lambda>p. 0x2E # p) ps)) = concat (map (\<lambda>p. 0x2E # to_ascii_lowercase p) ps)" for ps
    by (induction ps) (simp_all add: to_ascii_lowercase_def lowercase_dot)
  moreover have "name = l @ concat (map (\<lambda>p. 0x2E # p) ls)" using split_on_concat [of "0x2E" name] by (simp add: s)
  ultimately have "to_ascii_lowercase name = to_ascii_lowercase l @ concat (map (\<lambda>p. 0x2E # to_ascii_lowercase p) ls)" by simp
  moreover have "l \<noteq> []" using assms by (simp add: queryable_def s dns_label_def)
  then have "joined [] (l # ls) = to_ascii_lowercase l @ concat (map (\<lambda>p. 0x2E # to_ascii_lowercase p) ls)"
    using joined_nonempty [of "to_ascii_lowercase l" ls] by (simp add: joined_def)
  ultimately show ?thesis by (simp add: s)
qed

lemma parse_qname_encoded: "queryable name \<Longrightarrow> parse_qname [] (encode_name name @ rest) = Some (to_ascii_lowercase name, rest)"
  using parse_qname_labels [of "split_on 0x2E name" "[]" rest] joined_split [of name] queryable_encode [of name]
  by (simp add: queryable_def)

lemma get_be16_at: "get_be16 (to_be_bytes16 w @ rest) 0 = Some w"
  using get_be16_drop [of "to_be_bytes16 w @ rest" 0 w] by simp

lemma get_be16_past: "get_be16 (xs @ rest) (length xs + k) = get_be16 rest k"
  by (simp add: get_be16_def get_byte_def nth_append)

lemma be16_pair: "\<exists>a b. to_be_bytes16 w = [a, b] \<and> from_be_bytes16 [a, b] = w"
  by (rule be16_cases [of w]) blast

text \<open>A query reads back as it was meant, in lower case.\<close>

lemma parse_build_query:
  assumes "queryable name"
  shows "parse_query (build_query qid name qtype)
    = Some \<lparr>dq_id = qid, dq_name = to_ascii_lowercase name, dq_qtype = qtype, dq_qclass = CLASS_IN\<rparr>"
proof -
  obtain a b where ab: "to_be_bytes16 qid = [a, b]" "from_be_bytes16 [a, b] = qid" using be16_pair by blast
  obtain c d where cd: "to_be_bytes16 0x0100 = [c, d]" using be16_pair by blast
  obtain e f where ef: "to_be_bytes16 1 = [e, f]" "from_be_bytes16 [e, f] = 1" using be16_pair by blast
  let ?t = "to_be_bytes16 qtype @ to_be_bytes16 CLASS_IN"
  have q: "build_query qid name qtype = [a, b, c, d, e, f, 0, 0, 0, 0, 0, 0] @ encode_name name @ ?t"
    by (simp add: build_query_def ab cd ef)
  have "get_be16 ?t 0 = Some qtype" "get_be16 ?t 2 = Some CLASS_IN"
    using get_be16_at [of qtype "to_be_bytes16 CLASS_IN"] get_be16_past [of "to_be_bytes16 qtype" "to_be_bytes16 CLASS_IN" 0]
      get_be16_at [of CLASS_IN "[]"] by (simp_all add: numeral_2_eq_2)
  then show ?thesis using parse_qname_encoded [OF assms, of ?t] by (simp add: q parse_query_def ab ef Let_def)
qed

section \<open>Answers on the wire\<close>

lemma skip_labels:
  assumes "list_all (\<lambda>l. l \<noteq> [] \<and> length l \<le> 63) ls"
  shows "skip_name (wire_labels ls @ 0 # rest) = Some rest"
  using assms
proof (induction ls)
  case Nil
  show ?case by (simp add: skip_name.simps [of "0 # rest"] wire_labels_def)
next
  case (Cons l ls)
  then have p: "0 < length l" "length l \<le> 63" by auto
  have w: "wire_labels (l # ls) @ 0 # rest = word_of_nat (length l) # l @ (wire_labels ls @ 0 # rest)"
    by (simp add: wire_labels_def)
  show ?case unfolding w using Cons plain_length [OF p] by (subst skip_name.simps) simp
qed

lemma skip_pointer: "skip_name (0xC0 # 0x0C # rest) = Some rest"
  by (subst skip_name.simps) simp

lemma queryable_lower: "queryable name \<Longrightarrow> list_all (\<lambda>l. l \<noteq> [] \<and> length l \<le> 63) (split_on 0x2E (to_ascii_lowercase name))"
  by (auto simp: queryable_def split_on_lowercase list_all_iff dns_label_def)

lemma skip_encoded: "queryable name \<Longrightarrow> skip_name (encode_name (to_ascii_lowercase name) @ rest) = Some rest"
  using skip_labels [OF queryable_lower, of name rest] queryable_encode [of name]
  by (auto simp: encode_name_def wire_labels_def)

text \<open>A value whose character strings are text on their own: every value of up to 255 bytes, and every ASCII one.\<close>

definition chunk_safe :: "bytes \<Rightarrow> bool" where
  "chunk_safe v \<longleftrightarrow> list_all utf8_valid (chunks 255 v)"

lemma concat_chunks: "0 < n \<Longrightarrow> concat (chunks n bs) = bs"
  by (induction n bs rule: chunks.induct) (auto simp: append_take_drop_id)

lemma chunks_sized: "0 < n \<Longrightarrow> c \<in> set (chunks n bs) \<Longrightarrow> c \<noteq> [] \<and> length c \<le> n"
  by (induction n bs rule: chunks.induct) (auto split: if_splits)

lemma character_strings_chunks:
  assumes "\<forall>c \<in> set cs. length c \<le> 255 \<and> utf8_valid c"
  shows "character_strings (concat (map (\<lambda>c. word_of_nat (length c) # c) cs)) = Some (concat cs)"
  using assms
proof (induction cs)
  case Nil
  show ?case by (simp add: character_strings.simps [of "[]"])
next
  case (Cons c cs)
  then have u: "unat (word_of_nat (length c) :: u8) = length c" by simp
  show ?case using Cons u
    by (subst character_strings.simps) (simp add: from_utf8_def)
qed

lemma character_strings_rdata: "chunk_safe v \<Longrightarrow> character_strings (txt_rdata v) = Some v"
  using character_strings_chunks [of "chunks 255 v"] chunks_sized [of 255 _ v] concat_chunks [of 255 v]
  by (auto simp: txt_rdata_def chunk_safe_def list_all_iff)

lemma chunk_safe_short: "utf8_valid v \<Longrightarrow> length v \<le> 255 \<Longrightarrow> chunk_safe v"
  by (cases v) (auto simp: chunk_safe_def)

lemma txt_rr_shape:
  "\<exists>pre. length pre = 8 \<and> txt_rr v = [0xC0, 0x0C] @ pre @ to_be_bytes16 (word_of_nat (length (txt_rdata v))) @ txt_rdata v
     \<and> get_be16 (pre @ rest) 0 = Some TYPE_TXT"
  by (intro exI [of _ "to_be_bytes16 TYPE_TXT @ to_be_bytes16 CLASS_IN @ to_be_bytes32 60"])
    (simp add: txt_rr_def get_be16_at)

lemma length_txt_rr: "length (txt_rr v) = 12 + length (txt_rdata v)"
  by (simp add: txt_rr_def)

lemma read_answers_rrs:
  assumes "\<forall>v \<in> set vs. chunk_safe v \<and> length (txt_rdata v) < 65536"
  shows "read_answers (length vs) (concat (map txt_rr vs) @ rest) = Some vs"
  using assms
proof (induction vs)
  case (Cons v vs)
  let ?d = "txt_rdata v" and ?rest = "concat (map txt_rr vs) @ rest"
  obtain pre where pre: "length pre = 8" "txt_rr v = [0xC0, 0x0C] @ pre @ to_be_bytes16 (word_of_nat (length ?d)) @ ?d"
    "get_be16 (pre @ to_be_bytes16 (word_of_nat (length ?d)) @ ?d @ ?rest) 0 = Some TYPE_TXT"
    using txt_rr_shape [of v] by blast
  let ?r = "pre @ to_be_bytes16 (word_of_nat (length ?d)) @ ?d @ ?rest"
  have u: "unat (word_of_nat (length ?d) :: u16) = length ?d" using Cons.prems by (intro unat16_of_nat) simp
  have l: "get_be16 ?r 8 = Some (word_of_nat (length ?d))"
    using get_be16_past [of pre "to_be_bytes16 (word_of_nat (length ?d)) @ ?d @ ?rest" 0] by (simp add: pre(1) get_be16_at)
  have g: "get_range ?r 10 (10 + length ?d) = Some ?d"
    using get_range_drop [of ?r 10 "length ?d" ?d] by (auto simp: pre(1))
  have s: "skip_name (concat (map txt_rr (v # vs)) @ rest) = Some ?r" by (simp add: pre(2) skip_pointer)
  have "read_answers (length vs) ?rest = Some vs" using Cons by simp
  then show ?case using Cons.prems character_strings_rdata [of v] u
    by (simp del: append.simps(2) append_assoc concat.simps list.map add: s pre(1,3) l g Let_def)
qed simp

lemma included_spec:
  assumes "included_answers budget rrs = k"
  shows "k \<le> length rrs \<and> sum_list (map length (take k rrs)) \<le> budget
    \<and> (k < length rrs \<longrightarrow> budget < sum_list (map length (take (Suc k) rrs)))"
  using assms
proof (induction budget rrs arbitrary: k rule: included_answers.induct)
  case (2 budget rr rrs)
  show ?case
  proof (cases "budget < length rr")
    case False
    then obtain j where j: "k = Suc j" "included_answers (budget - length rr) rrs = j" using 2(2) by auto
    then show ?thesis using 2(1) [OF False j(2)] False by auto
  qed (use 2(2) in auto)
qed simp

text \<open>The bytes a response carries before its answers, and its size.\<close>

lemma response_length:
  "length (build_response q txts) =
     16 + name_wire_len (dq_name q) + sum_list (map length (take (included_answers (512 - (16 + name_wire_len (dq_name q)))
       (if dq_qtype q = TYPE_TXT then map txt_rr txts else [])) (if dq_qtype q = TYPE_TXT then map txt_rr txts else [])))"
  by (simp add: build_response_def Let_def length_encode_name length_concat MAX_UDP_RESPONSE_BYTES_def)

lemma response_bounded: "length (build_response q txts) \<le> max 512 (16 + name_wire_len (dq_name q))"
  using included_spec [OF refl, of "512 - (16 + name_wire_len (dq_name q))" "if dq_qtype q = TYPE_TXT then map txt_rr txts else []"]
  by (simp only: response_length) linarith

lemma flag_bytes: "to_be_bytes16 0x8600 = [0x86, 0]" "to_be_bytes16 0x8400 = [0x84, 0]"
  using to_be_from_be16 [of "[0x86, 0]"] to_be_from_be16 [of "[0x84, 0]"] by (simp_all add: from_be_bytes16_def)

text \<open>
  What a client reads from the response to a question for \<open>name\<close>: the longest run of values whose records
  fit, with the truncation bit set exactly when some are left out.
\<close>

lemma parse_response:
  assumes name: "queryable name" "16 + name_wire_len name \<le> 512" and safe: "\<forall>v \<in> set txts. chunk_safe v"
    and q: "dq_name q = to_ascii_lowercase name" "dq_qtype q = TYPE_TXT"
  defines "k \<equiv> included_answers (512 - (16 + name_wire_len name)) (map txt_rr txts)"
  shows "parse_txt_answers (build_response q txts) = take k txts"
    and "take 2 (build_response q txts) = to_be_bytes16 (dq_id q)"
    and "bit (build_response q txts ! 2) 1 \<longleftrightarrow> k < length txts"
proof -
  have w: "name_wire_len (dq_name q) = name_wire_len name" by (simp add: q name_wire_len_length)
  have sum: "sum_list (map length (take k (map txt_rr txts))) \<le> 512 - (16 + name_wire_len name)"
    using included_spec [of "512 - (16 + name_wire_len name)" "map txt_rr txts" k] by (simp add: k_def)
  have rr: "length (txt_rdata v) < 65536" if "v \<in> set (take k txts)" for v
  proof -
    have "length (txt_rr v) \<le> sum_list (map length (take k (map txt_rr txts)))"
      using that by (intro member_le_sum_list) (auto simp: take_map)
    then show ?thesis using sum by (simp add: length_txt_rr)
  qed
  have twelve: "12 * length vs \<le> sum_list (map length (map txt_rr vs))" for vs
    by (induction vs) (auto simp: length_txt_rr)
  have kl: "k \<le> length txts" using included_spec [OF refl, of "512 - (16 + name_wire_len name)" "map txt_rr txts"] by (simp add: k_def)
  then have "12 * k \<le> 512" using twelve [of "take k txts"] sum by (simp add: take_map)
  then have ku: "unat (word_of_nat k :: u16) = k" by (intro unat16_of_nat) simp
  obtain a b where ab: "to_be_bytes16 (dq_id q) = [a, b]" using be16_pair by blast
  define fl where "fl = (if k < length txts then 0x86 else 0x84 :: u8)"
  have f: "to_be_bytes16 (if k < length txts then 0x8600 else 0x8400) = [fl, 0]"
    using flag_bytes by (simp add: fl_def)
  obtain e1 e2 where e: "to_be_bytes16 1 = [e1, e2]" "from_be_bytes16 [e1, e2] = 1" using be16_pair by blast
  obtain c1 c2 where c: "to_be_bytes16 (word_of_nat k) = [c1, c2]" "from_be_bytes16 [c1, c2] = word_of_nat k" using be16_pair by blast
  obtain z1 z2 where z: "to_be_bytes16 0 = [z1, z2]" using be16_pair by blast
  let ?tail = "encode_name (to_ascii_lowercase name) @ (to_be_bytes16 (dq_qtype q) @ to_be_bytes16 (dq_qclass q)) @ concat (map txt_rr (take k txts))"
  have kk: "included_answers (496 - name_wire_len name) (map txt_rr txts) = k" by (simp add: k_def)
  have r: "build_response q txts = [a, b, fl, 0, e1, e2, c1, c2, z1, z2, z1, z2] @ ?tail"
    using w f kk by (simp add: build_response_def Let_def q MAX_UDP_RESPONSE_BYTES_def ab e(1) c(1) z take_map)
  show "take 2 (build_response q txts) = to_be_bytes16 (dq_id q)" by (simp add: r ab)
  show "bit (build_response q txts ! 2) 1 \<longleftrightarrow> k < length txts" by (simp add: r fl_def)
  have "skip_questions 1 ?tail = Some (concat (map txt_rr (take k txts)))" by (simp add: skip_encoded [OF name(1)])
  moreover have "read_answers k (concat (map txt_rr (take k txts))) = Some (take k txts)"
    using read_answers_rrs [of "take k txts" "[]"] safe rr kl by (auto dest: in_set_takeD)
  ultimately show "parse_txt_answers (build_response q txts) = take k txts"
    by (simp add: r parse_txt_answers_def e(2) c(2) ku Let_def)
qed

text \<open>The question comes back in as many bytes as it was asked in.\<close>

lemma parse_qname_length:
  "parse_qname name rest = Some (name', rest') \<Longrightarrow> length rest + name_wire_len name = length rest' + name_wire_len name' + 1"
proof (induction name rest arbitrary: name' rest' rule: parse_qname.induct)
  case (1 name rest)
  from 1(2) obtain len where len: "get_byte rest 0 = Some len" by (subst (asm) parse_qname.simps) (auto split: option.splits)
  then have ne: "rest \<noteq> []" by (auto simp: get_byte_def split: if_splits)
  show ?case
  proof (cases "len = 0")
    case True
    then show ?thesis using 1(2) len ne by (subst (asm) parse_qname.simps) auto
  next
    case False
    let ?name = "\<lambda>label. (if name \<noteq> [] then name @ [0x2E] else name) @ to_ascii_lowercase label"
    from 1(2) len False obtain label where label: "len AND 0xC0 = 0" "get_range rest 1 (1 + unat len) = Some label" "from_utf8 label = Some label"
      and p: "parse_qname (?name label) (drop (1 + unat len) rest) = Some (name', rest')"
      by (subst (asm) parse_qname.simps) (auto split: option.splits if_splits)
    have "length label = unat len" "1 + unat len \<le> length rest" using label(2) by (auto simp: get_range_def split: if_splits)
    moreover have "label \<noteq> []" using calculation False by (auto simp: unat_eq_0)
    moreover have "length (drop (1 + unat len) rest) + name_wire_len (?name label) = length rest' + name_wire_len name' + 1"
      using "1.IH" [OF len False _ label(2,3) p] label(1) by simp
    ultimately show ?thesis by (auto simp: name_wire_len_length split: if_splits)
  qed
qed

lemma parse_query_length:
  assumes "parse_query dgram = Some q"
  shows "16 + name_wire_len (dq_name q) \<le> length dgram \<and> to_be_bytes16 (dq_id q) = take 2 dgram"
proof -
  from assms obtain rest qtype qclass where p: "12 \<le> length dgram" "parse_qname [] (drop 12 dgram) = Some (dq_name q, rest)"
    "get_be16 rest 0 = Some qtype" "get_be16 rest 2 = Some qclass" "dq_id q = from_be_bytes16 [dgram ! 0, dgram ! 1]"
    by (auto simp: parse_query_def Let_def split: if_splits option.splits prod.splits)
  have "4 \<le> length rest" using p(4) by (auto simp: get_be16_def get_byte_def split: if_splits option.splits)
  moreover have "take 2 dgram = [dgram ! 0, dgram ! 1]" using p(1)
    by (cases dgram rule: remdups_adj.cases) auto
  ultimately show ?thesis using p parse_qname_length [OF p(2)] to_be_from_be16 [of "[dgram ! 0, dgram ! 1]"]
    by (simp add: name_wire_len_length [of "[]"])
qed

end
