(* ===== verification/DnsServer.thy ===== *)
theory DnsServer
  imports DnsMessage Text Hex
begin

text \<open>
  The ACME challenge store and the responder over it: \<open>dns/src/store.rs\<close>, \<open>server.rs\<close> and the client of
  \<open>client.rs\<close>. Files are a map from paths to contents; what goes wrong during a write to disk is an argument
  of the operation, and a crash at that point leaves the files as the failed operation does. The JSON
  library is a pair of functions \<open>to_json\<close>, \<open>from_json\<close>.
\<close>

section \<open>Store\<close>

record file_path =
  fp_dir :: bytes
  fp_stem :: bytes
  fp_ext :: "bytes option"

type_synonym files = "(file_path, bytes) hmap"

type_synonym txt_map = "(bytes, bytes list) hmap"

definition with_extension :: "file_path \<Rightarrow> bytes \<Rightarrow> file_path" where
  "with_extension p ext = p\<lparr>fp_ext := Some ext\<rparr>"

record acme_dns_store =
  ad_txt :: txt_map
  ad_persist_path :: "file_path option"

definition store_new :: acme_dns_store where
  "store_new = \<lparr>ad_txt = hm_empty, ad_persist_path = None\<rparr>"

datatype io_fault = NoFault | CreateFails | WriteFails nat | SyncFails | RenameFails | DirSyncFails

datatype io_error = InvalidData | OtherIo | UnexpectedEof | TimedOut

definition persist_locked ::
  "(txt_map \<Rightarrow> bytes) \<Rightarrow> io_fault \<Rightarrow> file_path option \<Rightarrow> txt_map \<Rightarrow> files \<Rightarrow> (io_error + unit) \<times> files" where
  "persist_locked to_json fault persist_path txt fs =
     (case persist_path of None \<Rightarrow> (Ok (), fs) | Some path \<Rightarrow>
      let json = to_json txt; tmp_path = with_extension path (ascii ''tmp'') in
      if fault = CreateFails then (Err OtherIo, fs)
      else case fault of
        WriteFails n \<Rightarrow> (Err OtherIo, hm_insert tmp_path (take n json) fs)
      | _ \<Rightarrow>
        let fs = hm_insert tmp_path json fs in
        if fault = SyncFails \<or> fault = RenameFails then (Err OtherIo, fs)
        else let fs = hm_insert path json (hm_remove tmp_path fs) in
          if fault = DirSyncFails then (Err OtherIo, fs) else (Ok (), fs))"


definition add_txt ::
  "(txt_map \<Rightarrow> bytes) \<Rightarrow> io_fault \<Rightarrow> bytes \<Rightarrow> bytes \<Rightarrow> acme_dns_store \<times> files \<Rightarrow> acme_dns_store \<times> files" where
  "add_txt to_json fault name val = (\<lambda>(st, fs).
     let k = to_ascii_lowercase name;
         txt = hm_insert k ((case hm_get (ad_txt st) k of None \<Rightarrow> [] | Some vs \<Rightarrow> vs) @ [val]) (ad_txt st)
     in (st\<lparr>ad_txt := txt\<rparr>, snd (persist_locked to_json fault (ad_persist_path st) txt fs)))"

definition set_txt ::
  "(txt_map \<Rightarrow> bytes) \<Rightarrow> io_fault \<Rightarrow> bytes \<Rightarrow> bytes \<Rightarrow> acme_dns_store \<times> files \<Rightarrow> acme_dns_store \<times> files" where
  "set_txt to_json fault name val = (\<lambda>(st, fs).
     let txt = hm_insert (to_ascii_lowercase name) [val] (ad_txt st)
     in (st\<lparr>ad_txt := txt\<rparr>, snd (persist_locked to_json fault (ad_persist_path st) txt fs)))"

definition clear_txt ::
  "(txt_map \<Rightarrow> bytes) \<Rightarrow> io_fault \<Rightarrow> bytes \<Rightarrow> acme_dns_store \<times> files \<Rightarrow> acme_dns_store \<times> files" where
  "clear_txt to_json fault name = (\<lambda>(st, fs).
     let txt = hm_remove (to_ascii_lowercase name) (ad_txt st)
     in (st\<lparr>ad_txt := txt\<rparr>, snd (persist_locked to_json fault (ad_persist_path st) txt fs)))"

definition store_txt :: "acme_dns_store \<Rightarrow> bytes \<Rightarrow> bytes list" where
  "store_txt st name =
     (if list_ex (\<lambda>b. 0x41 \<le> b \<and> b \<le> 0x5A) name
      then case hm_get (ad_txt st) (to_ascii_lowercase name) of None \<Rightarrow> [] | Some vs \<Rightarrow> vs
      else case hm_get (ad_txt st) name of None \<Rightarrow> [] | Some vs \<Rightarrow> vs)"

section \<open>Responder and client\<close>

definition respond :: "acme_dns_store \<Rightarrow> bytes \<Rightarrow> bytes option" where
  "respond st query = (case parse_query query of None \<Rightarrow> None | Some q \<Rightarrow> Some (build_response q (store_txt st (dq_name q))))"

definition MAX_TCP_MESSAGE_BYTES :: nat where
  "MAX_TCP_MESSAGE_BYTES = 512"

text \<open>One datagram of the UDP loop, received into a buffer of 512 bytes.\<close>

definition udp_answer :: "acme_dns_store \<Rightarrow> bytes \<Rightarrow> bytes option" where
  "udp_answer st dgram = respond st (take 512 dgram)"

text \<open>What the connection's handler writes, given what the peer sends before it stops or stalls.\<close>

definition handle_tcp :: "acme_dns_store \<Rightarrow> bytes \<Rightarrow> io_error + bytes" where
  "handle_tcp st stream =
     (case take_n 2 stream of None \<Rightarrow> Err UnexpectedEof | Some (lenb, stream) \<Rightarrow>
      let len = unat (from_be_bytes16 lenb) in
      if MAX_TCP_MESSAGE_BYTES < len then Err InvalidData
      else case take_n len stream of None \<Rightarrow> Err UnexpectedEof | Some (msg, _) \<Rightarrow>
      case respond st msg of
        None \<Rightarrow> Ok []
      | Some resp \<Rightarrow> Ok (to_be_bytes16 (word_of_nat (length resp)) @ resp))"

definition query_txt :: "(bytes \<Rightarrow> io_error + bytes) \<Rightarrow> bytes \<Rightarrow> io_error + bytes list" where
  "query_txt server name =
     (let query = build_query 0x1234 name TYPE_TXT;
          framed = to_be_bytes16 (word_of_nat (length query)) @ query in
      case server framed of Inl e \<Rightarrow> Err e | Inr stream \<Rightarrow>
      case take_n 2 stream of None \<Rightarrow> Err UnexpectedEof | Some (lenb, stream) \<Rightarrow>
      case take_n (unat (from_be_bytes16 lenb)) stream of None \<Rightarrow> Err UnexpectedEof | Some (resp, _) \<Rightarrow>
        Ok (parse_txt_answers resp))"

section \<open>The local API\<close>

text \<open>
  The handlers of \<open>dns/src/api.rs\<close>. \<open>presented\<close> is the token header as text, if there is one; the path and
  body come decoded from the web framework.
\<close>

datatype api_status = ApiOk | ApiUnauthorized | ApiBadRequest | ApiPayloadTooLarge

definition token_eq :: "bytes \<Rightarrow> bytes \<Rightarrow> bool" where
  "token_eq a b =
     (if length a \<noteq> length b then False else foldl (\<lambda>acc (x, y). acc OR (x XOR y)) 0 (zip a b) = 0)"

definition authorized :: "bytes option \<Rightarrow> bytes option \<Rightarrow> bool" where
  "authorized token presented =
     (case token of None \<Rightarrow> True | Some t \<Rightarrow> (case presented of None \<Rightarrow> False | Some p \<Rightarrow> token_eq p t))"

definition MAX_TXT_VALUE_BYTES :: nat where
  "MAX_TXT_VALUE_BYTES = 256"

definition put_txt ::
  "(txt_map \<Rightarrow> bytes) \<Rightarrow> io_fault \<Rightarrow> bytes option \<Rightarrow> bytes option \<Rightarrow> bytes \<Rightarrow> ustring \<Rightarrow> acme_dns_store \<times> files
     \<Rightarrow> api_status \<times> acme_dns_store \<times> files" where
  "put_txt to_json fault token presented name body s =
     (if \<not> authorized token presented then (ApiUnauthorized, s)
      else let val = utf8 (str_trim body) in
      if name = [] \<or> val = [] then (ApiBadRequest, s)
      else if MAX_TXT_VALUE_BYTES < length val then (ApiPayloadTooLarge, s)
      else (ApiOk, set_txt to_json fault name val s))"

definition delete_txt ::
  "(txt_map \<Rightarrow> bytes) \<Rightarrow> io_fault \<Rightarrow> bytes option \<Rightarrow> bytes option \<Rightarrow> bytes \<Rightarrow> acme_dns_store \<times> files
     \<Rightarrow> api_status \<times> acme_dns_store \<times> files" where
  "delete_txt to_json fault token presented name s =
     (if \<not> authorized token presented then (ApiUnauthorized, s) else (ApiOk, clear_txt to_json fault name s))"

section \<open>Histories\<close>

datatype store_call = AddTxt bytes bytes | SetTxt bytes bytes | ClearTxt bytes

fun store_step :: "(txt_map \<Rightarrow> bytes) \<Rightarrow> store_call \<times> io_fault \<Rightarrow> acme_dns_store \<times> files \<Rightarrow> acme_dns_store \<times> files" where
  "store_step to_json (AddTxt name val, fault) = add_txt to_json fault name val"
| "store_step to_json (SetTxt name val, fault) = set_txt to_json fault name val"
| "store_step to_json (ClearTxt name, fault) = clear_txt to_json fault name"

definition store_run :: "(txt_map \<Rightarrow> bytes) \<Rightarrow> (store_call \<times> io_fault) list \<Rightarrow> acme_dns_store \<times> files \<Rightarrow> acme_dns_store \<times> files" where
  "store_run to_json h s = fold (store_step to_json) h s"

text \<open>What a history publishes under a name, told without a store.\<close>

fun publish :: "store_call \<Rightarrow> bytes \<Rightarrow> bytes list \<Rightarrow> bytes list" where
  "publish (AddTxt name val) n vs = (if eq_ignore_ascii_case name n then vs @ [val] else vs)"
| "publish (SetTxt name val) n vs = (if eq_ignore_ascii_case name n then [val] else vs)"
| "publish (ClearTxt name) n vs = (if eq_ignore_ascii_case name n then [] else vs)"

definition published :: "store_call list \<Rightarrow> bytes \<Rightarrow> bytes list" where
  "published h n = fold (\<lambda>c. publish c n) h []"

definition values_at :: "txt_map \<Rightarrow> bytes \<Rightarrow> bytes list" where
  "values_at txt k = (case hm_get txt k of None \<Rightarrow> [] | Some vs \<Rightarrow> vs)"

lemma lowercase_fixed: "\<not> list_ex (\<lambda>b. 0x41 \<le> b \<and> b \<le> 0x5A) name \<Longrightarrow> to_ascii_lowercase name = name"
  by (auto simp: to_ascii_lowercase_def list_ex_iff byte_to_ascii_lowercase_def intro!: map_idI)

lemma store_txt_lower: "store_txt st name = values_at (ad_txt st) (to_ascii_lowercase name)"
  using lowercase_fixed [of name] by (auto simp: store_txt_def values_at_def)

lemma step_values:
  "values_at (ad_txt (fst (store_step to_json (c, fault) s))) (to_ascii_lowercase n)
     = publish c n (values_at (ad_txt (fst s)) (to_ascii_lowercase n))"
  by (cases s; cases c) (auto simp: add_txt_def set_txt_def clear_txt_def values_at_def eq_ignore_ascii_case_def Let_def)

lemma run_values:
  "values_at (ad_txt (fst (store_run to_json h s))) (to_ascii_lowercase n)
     = fold (\<lambda>c. publish c n) (map fst h) (values_at (ad_txt (fst s)) (to_ascii_lowercase n))"
  by (induction h rule: rev_induct) (auto simp: store_run_def step_values)

lemma new_values: "values_at (ad_txt store_new) k = []"
  by (simp add: store_new_def values_at_def)

lemma respond_bounded:
  assumes "respond st query = Some r" "length query \<le> 512"
  shows "length r \<le> 512"
proof -
  obtain q where q: "parse_query query = Some q" "r = build_response q (store_txt st (dq_name q))"
    using assms(1) by (auto simp: respond_def split: option.splits)
  have "16 + name_wire_len (dq_name q) \<le> 512" using parse_query_length [OF q(1)] assms(2) by simp
  then show ?thesis using response_bounded [of q] q(2) by (simp add: max_absorb1)
qed

text \<open>One exchange over TCP with a store that publishes \<open>vs\<close>.\<close>

lemma query_handle_tcp:
  assumes name: "queryable name" "16 + name_wire_len name \<le> 512"
    and vs: "store_txt st (to_ascii_lowercase name) = vs" "\<forall>v \<in> set vs. chunk_safe v"
  shows "query_txt (handle_tcp st) name = Ok (take (included_answers (512 - (16 + name_wire_len name)) (map txt_rr vs)) vs)"
proof -
  let ?query = "build_query 0x1234 name TYPE_TXT"
  define q where "q = \<lparr>dq_id = 0x1234, dq_name = to_ascii_lowercase name, dq_qtype = TYPE_TXT, dq_qclass = CLASS_IN\<rparr>"
  define r where "r = build_response q vs"
  have l: "length ?query = 16 + name_wire_len name" by (simp add: build_query_def length_encode_name)
  have p: "respond st ?query = Some r" using parse_build_query [OF name(1)] vs(1) by (simp add: respond_def r_def q_def)
  have "length r < 65536" using respond_bounded [OF p] l name(2) by simp
  then have u: "unat (word_of_nat (length r) :: u16) = length r" by (rule unat16_of_nat)
  have u': "unat (word_of_nat (length ?query) :: u16) = length ?query" using l name(2) by (intro unat16_of_nat) simp
  have "handle_tcp st (to_be_bytes16 (word_of_nat (length ?query)) @ ?query) = Ok (to_be_bytes16 (word_of_nat (length r)) @ r)"
    using l name(2) p u' by (simp add: handle_tcp_def MAX_TCP_MESSAGE_BYTES_def Let_def)
  then show ?thesis using u parse_response(1) [OF name vs(2), of q] by (simp add: query_txt_def Let_def r_def q_def)
qed

text \<open>What a request to the API changes: only with the token, and only the values of its own name.\<close>

lemma authorized_iff: "authorized token presented \<longleftrightarrow> token = None \<or> presented = token"
proof -
  have "token_eq a b \<longleftrightarrow> a = b" for a b unfolding token_eq_def ct_eq_def [symmetric] by (rule ct_eq_iff)
  then show ?thesis by (auto simp: authorized_def split: option.splits)
qed

lemma put_txt_exact:
  "store_txt (fst (snd (put_txt to_json fault token presented name body s))) n =
     (if (token = None \<or> presented = token) \<and> name \<noteq> [] \<and> utf8 (str_trim body) \<noteq> [] \<and> length (utf8 (str_trim body)) \<le> 256
         \<and> eq_ignore_ascii_case name n then [utf8 (str_trim body)] else store_txt (fst s) n)"
  using step_values [of to_json "SetTxt name (utf8 (str_trim body))" fault s n]
  by (auto simp: put_txt_def authorized_iff Let_def MAX_TXT_VALUE_BYTES_def store_txt_lower)

lemma delete_txt_exact:
  "store_txt (fst (snd (delete_txt to_json fault token presented name s))) n =
     (if (token = None \<or> presented = token) \<and> eq_ignore_ascii_case name n then [] else store_txt (fst s) n)"
  using step_values [of to_json "ClearTxt name" fault s n] by (auto simp: delete_txt_def authorized_iff store_txt_lower)

text \<open>A value of 256 bytes passes the API and yet leaves no room under a long name.\<close>

lemma largest_value_left_out:
  assumes "length v = MAX_TXT_VALUE_BYTES" "227 \<le> name_wire_len name"
  shows "included_answers (512 - (16 + name_wire_len name)) (map txt_rr [v]) = 0"
proof -
  obtain b bs where v: "v = b # bs" using assms(1) by (cases v) (auto simp: MAX_TXT_VALUE_BYTES_def)
  have l: "length (drop 255 v) = Suc 0" using assms(1) by (simp add: MAX_TXT_VALUE_BYTES_def)
  then obtain c where c: "drop 255 v = [c]" by (auto simp: length_Suc_conv simp del: length_drop)
  have "chunks 255 v = [take 255 v, [c]]" using c by (simp add: v)
  then have "length (txt_rdata v) = 258" using assms(1) by (simp add: txt_rdata_def MAX_TXT_VALUE_BYTES_def)
  then show ?thesis using assms(2) by (simp add: length_txt_rr)
qed

section \<open>What reaches the disk\<close>








section \<open>Properties\<close>

text \<open>
  C23. A published challenge is served. Whatever was published, replaced and cleared before, and whatever
  failed on disk, a client that asks over TCP for a name in any case gets exactly the values published
  under it, in order: the longest run of them whose records fit into 512 bytes with the question, and all
  of them when they are at most four challenges of 43 bytes under a name within the DNS limits.
\<close>

theorem dns_challenge_served:
  fixes to_json and path and fs
  assumes name: "queryable name" "name_wire_len name \<le> 255"
    and safe: "\<forall>v \<in> set (published (map fst h) name). chunk_safe v"
  defines "st \<equiv> fst (store_run to_json h (store_new\<lparr>ad_persist_path := path\<rparr>, fs))"
    and "vs \<equiv> published (map fst h) name"
    and "bytes_for \<equiv> \<lambda>j. 16 + name_wire_len name + sum_list (map (length \<circ> txt_rr) (take j (published (map fst h) name)))"
  shows "\<exists>k \<le> length vs. query_txt (handle_tcp st) name = Ok (take k vs)
    \<and> bytes_for k \<le> 512 \<and> (k < length vs \<longrightarrow> 512 < bytes_for (Suc k))
    \<and> (length vs \<le> 4 \<and> (\<forall>v \<in> set vs. length v \<le> 43) \<longrightarrow> k = length vs)"
proof -
  have "store_txt st (to_ascii_lowercase name) = vs"
    using run_values [of to_json h "(store_new\<lparr>ad_persist_path := path\<rparr>, fs)" name] new_values
    by (simp add: store_txt_lower st_def vs_def published_def values_at_def)
  moreover define k where "k = included_answers (512 - (16 + name_wire_len name)) (map txt_rr vs)"
  ultimately have q: "query_txt (handle_tcp st) name = Ok (take k vs)"
    using query_handle_tcp [of name st vs] name safe by (simp add: vs_def)
  have s: "sum_list (map length (take j (map txt_rr vs))) = sum_list (map (length \<circ> txt_rr) (take j vs))" for j
    by (simp add: take_map)
  have i: "k \<le> length vs" "bytes_for k \<le> 512" "k < length vs \<Longrightarrow> 512 < bytes_for (Suc k)"
    using included_spec [OF refl, of "512 - (16 + name_wire_len name)" "map txt_rr vs", folded k_def] name(2)
    by (auto simp: bytes_for_def s vs_def [symmetric])
  have "k = length vs" if small: "length vs \<le> 4" "\<forall>v \<in> set vs. length v \<le> 43"
  proof (rule ccontr)
    assume "k \<noteq> length vs"
    then have "512 < bytes_for (Suc k)" "Suc k \<le> 4" using i(1,3) small(1) by auto
    moreover have "length (txt_rr v) \<le> 56" if "length v \<le> 43" for v
      using that by (cases v) (auto simp: length_txt_rr txt_rdata_def)
    then have "sum_list (map (length \<circ> txt_rr) us) \<le> 56 * length us" if "set us \<subseteq> set vs" for us
      using that small(2) by (induction us) force+
    from this [of "take (Suc k) vs"] have "sum_list (map (length \<circ> txt_rr) (take (Suc k) vs)) \<le> 56 * Suc k"
      using i(1) \<open>k \<noteq> length vs\<close> by (simp add: set_take_subset min_def split: if_splits)
    ultimately show False using name(2) by (simp add: bytes_for_def vs_def [symmetric])
  qed
  then show ?thesis using q i by blast
qed

text \<open>
  The responder cannot be used to amplify. Whatever bytes arrive, a UDP answer has at most 512 bytes and
  carries the identifier of the question, and a TCP connection is answered with at most 514 bytes.
\<close>

theorem dns_answers_bounded:
  "(udp_answer st dgram = Some r \<longrightarrow> length r \<le> 512 \<and> take 2 r = take 2 dgram)
   \<and> (handle_tcp st stream = Ok out \<longrightarrow> length out \<le> 514)"
proof (intro conjI impI)
  assume r: "udp_answer st dgram = Some r"
  then show "length r \<le> 512" using respond_bounded [of st "take 512 dgram" r] by (simp add: udp_answer_def)
  obtain q where q: "parse_query (take 512 dgram) = Some q" "r = build_response q (store_txt st (dq_name q))"
    using r by (auto simp: udp_answer_def respond_def split: option.splits)
  then show "take 2 r = take 2 dgram" using parse_query_length [OF q(1)] by (simp add: build_response_def Let_def)
next
  assume "handle_tcp st stream = Ok out"
  then show "length out \<le> 514"
    using respond_bounded [of st] by (auto simp: handle_tcp_def Let_def take_n_iff MAX_TCP_MESSAGE_BYTES_def split: option.splits if_splits prod.splits)
qed


section \<open>Witnesses\<close>

text \<open>A concrete codec of the map: a mark before each string and entry.\<close>

definition ex_str :: "bytes \<Rightarrow> bytes" where
  "ex_str s = 1 # concat (map (\<lambda>b. [0, b]) s)"

definition ex_to_json :: "txt_map \<Rightarrow> bytes" where
  "ex_to_json m = 9 # concat (map (\<lambda>(k, vs). 2 # ex_str k @ concat (map ex_str vs)) m)"








definition ex_path :: file_path where
  "ex_path = \<lparr>fp_dir = [], fp_stem = [100], fp_ext = Some (ascii ''json'')\<rparr>"

definition ex_calls :: "(store_call \<times> io_fault) list" where
  "ex_calls = [(SetTxt [97, 46, 66] [7], CreateFails), (SetTxt [97, 46, 98] [1], NoFault), (AddTxt [65, 46, 66] [2], WriteFails 3)]"

theorem dns_challenge_served_witness:
  "query_txt (handle_tcp (fst (store_run ex_to_json ex_calls (store_new\<lparr>ad_persist_path := Some ex_path\<rparr>, [])))) [65, 46, 98] = Ok [[1], [2]]"
proof -
  have p: "published (map fst ex_calls) [65, 46, 98] = [[1], [2]]"
    by (simp add: published_def ex_calls_def eq_ignore_ascii_case_def to_ascii_lowercase_def byte_to_ascii_lowercase_def)
  have n: "queryable [65, 46, 98]" "name_wire_len [65, 46, 98] \<le> 255" by (simp_all add: queryable_def dns_label_def name_wire_len_def)
  have s: "\<forall>v \<in> set (published (map fst ex_calls) [65, 46, 98]). chunk_safe v" by (simp add: p chunk_safe_def)
  show ?thesis using dns_challenge_served [OF n s, of ex_to_json "Some ex_path" "[]"] by (auto simp: p)
qed

theorem dns_answers_bounded_witness:
  "(\<exists>r. udp_answer store_new (build_query 7 [97] TYPE_TXT) = Some r \<and> length r \<le> 512 \<and> take 2 r = to_be_bytes16 7)
    \<and> (\<exists>out. handle_tcp store_new [0, 1, 5] = Ok out \<and> length out \<le> 514)"
proof -
  have n: "queryable [97]" by (simp add: queryable_def dns_label_def)
  have t: "take 512 (build_query 7 [97] TYPE_TXT) = build_query 7 [97] TYPE_TXT"
    by (simp add: build_query_def length_encode_name name_wire_len_def)
  obtain r where r: "udp_answer store_new (build_query 7 [97] TYPE_TXT) = Some r"
    using parse_build_query [OF n, of 7 TYPE_TXT] by (simp add: udp_answer_def t respond_def)
  obtain out where out: "handle_tcp store_new [0, 1, 5] = Ok out"
    by (simp add: handle_tcp_def take_n_def from_be_bytes16_def MAX_TCP_MESSAGE_BYTES_def respond_def parse_query_def)
  show ?thesis using r out dns_answers_bounded [of store_new "build_query 7 [97] TYPE_TXT" r "[0, 1, 5]" out] by (auto simp: build_query_def)
qed


end
