(* ===== verification/Overlay.thy ===== *)
theory Overlay
  imports Policy Hostname "HOL-Library.Product_Lexorder"
begin

text \<open>
  The overlay planner's spanning tree, \<open>common/src/overlay.rs\<close>: union-find with path halving, Kruskal's loop
  over the candidate links, and the median of probes. \<open>find\<close> is a loop that need not end on an arbitrary
  array, so it is a partial function: \<open>None\<close> stands for a run that does not end or an index out of range.
  Node ids are byte strings in the order of Rust's \<open>str\<close>.
\<close>

section \<open>Data\<close>

record weighted_link =
  wl_a :: bytes
  wl_b :: bytes
  wl_cost :: u64

record overlay_plan =
  op_links :: "(bytes \<times> bytes) list"
  op_total_cost :: u64
  op_connected :: bool

definition plan_default :: overlay_plan where
  "plan_default = \<lparr>op_links = [], op_total_cost = 0, op_connected = False\<rparr>"

section \<open>Union-find\<close>

record disjoint_set =
  ds_parent :: "nat list"
  ds_size :: "nat list"

definition ds_new :: "nat \<Rightarrow> disjoint_set" where
  "ds_new n = \<lparr>ds_parent = [0..<n], ds_size = replicate n 1\<rparr>"

partial_function (option) ds_find :: "nat list \<Rightarrow> nat \<Rightarrow> (nat \<times> nat list) option" where
  "ds_find parent x =
     (if length parent \<le> x then None
      else if parent ! x = x then Some (x, parent)
      else if length parent \<le> parent ! x then None
      else let parent = parent[x := parent ! (parent ! x)] in ds_find parent (parent ! x))"

definition ds_union :: "disjoint_set \<Rightarrow> nat \<Rightarrow> nat \<Rightarrow> (bool \<times> disjoint_set) option" where
  "ds_union ds x y =
     (case ds_find (ds_parent ds) x of None \<Rightarrow> None | Some (rx, parent) \<Rightarrow>
      case ds_find parent y of None \<Rightarrow> None | Some (ry, parent) \<Rightarrow>
      if rx = ry then Some (False, ds\<lparr>ds_parent := parent\<rparr>)
      else let (big, small) = (if ds_size ds ! ry \<le> ds_size ds ! rx then (rx, ry) else (ry, rx)) in
        Some (True, \<lparr>ds_parent = parent[small := big],
          ds_size = (ds_size ds)[big := ds_size ds ! big + ds_size ds ! small]\<rparr>))"

section \<open>The spanning tree\<close>

definition canon :: "bytes \<Rightarrow> bytes \<Rightarrow> bytes \<times> bytes" where
  "canon a b = (if a \<le> b then (a, b) else (b, a))"

definition node_index :: "bytes list \<Rightarrow> (bytes, nat) hmap" where
  "node_index nodes = fold (\<lambda>(i, n) m. hm_insert n i m) (enumerate 0 nodes) hm_empty"

definition candidate_links :: "bytes list \<Rightarrow> weighted_link list \<Rightarrow> (u64 \<times> bytes \<times> bytes \<times> nat \<times> nat) list" where
  "candidate_links nodes links =
     List.map_filter (\<lambda>l.
       if wl_a l = wl_b l then None
       else case hm_get (node_index nodes) (wl_a l) of None \<Rightarrow> None | Some ia \<Rightarrow>
       case hm_get (node_index nodes) (wl_b l) of None \<Rightarrow> None | Some ib \<Rightarrow>
       let (ca, cb) = canon (wl_a l) (wl_b l) in Some (wl_cost l, ca, cb, ia, ib)) links"

fun kruskal_loop :: "nat \<Rightarrow> disjoint_set \<Rightarrow> overlay_plan \<Rightarrow> (u64 \<times> bytes \<times> bytes \<times> nat \<times> nat) list \<Rightarrow> overlay_plan option" where
  "kruskal_loop n ds plan [] = Some plan"
| "kruskal_loop n ds plan ((cost, ca, cb, ia, ib) # rest) =
     (case ds_union ds ia ib of None \<Rightarrow> None | Some (joined, ds) \<Rightarrow>
      if joined
      then let plan = plan\<lparr>op_links := op_links plan @ [(ca, cb)], op_total_cost := saturating_add (op_total_cost plan) cost\<rparr> in
        if length (op_links plan) = n - 1 then Some plan else kruskal_loop n ds plan rest
      else kruskal_loop n ds plan rest)"

definition min_latency_overlay :: "bytes list \<Rightarrow> weighted_link list \<Rightarrow> overlay_plan option" where
  "min_latency_overlay nodes links =
     (let sorted = sort_key (\<lambda>(cost, ca, cb, _, _). (cost, ca, cb)) (candidate_links nodes links) in
      case kruskal_loop (length nodes) (ds_new (length nodes)) plan_default sorted of
        None \<Rightarrow> None
      | Some plan \<Rightarrow> Some (plan\<lparr>op_connected := (length (op_links plan) = length nodes - 1)\<rparr>))"

definition link_cost_from_probes :: "u64 list \<Rightarrow> u64 option" where
  "link_cost_from_probes samples =
     (if samples = [] then None
      else let v = sort samples; n = length v; mid = n div 2 in
        Some (if n mod 2 = 1 then v ! mid
          else let lo = v ! (mid - 1); hi = v ! mid in lo + (hi - lo) div 2))"

section \<open>The routing factor\<close>

datatype routing_approach = Baseline | SmartRoute | Shortcut | RandomMesh

definition ustr :: "string \<Rightarrow> ustring" where
  "ustr s = map of_char s"

fun approach_as_str :: "routing_approach \<Rightarrow> ustring" where
  "approach_as_str Baseline = ustr ''baseline''"
| "approach_as_str SmartRoute = ustr ''smart-route''"
| "approach_as_str Shortcut = ustr ''shortcut''"
| "approach_as_str RandomMesh = ustr ''random-mesh''"

text \<open>The error carries the token as it was given.\<close>

definition approach_parse :: "ustring \<Rightarrow> ustring + routing_approach" where
  "approach_parse token =
     (let t = map (\<lambda>c. if c = 0x5F then 0x2D else c) (map char_to_ascii_lowercase (str_trim token)) in
      if t = ustr ''baseline'' then Ok Baseline
      else if t = ustr ''smart-route'' then Ok SmartRoute
      else if t = ustr ''shortcut'' then Ok Shortcut
      else if t = ustr ''random-mesh'' then Ok RandomMesh
      else Err token)"

lemma approach_round_trip: "approach_parse (approach_as_str a) = Ok a"
  by (cases a) (simp_all add: approach_parse_def ustr_def str_trim_def trim_end_by_def char_is_whitespace_def char_to_ascii_lowercase_def)

section \<open>Components as labels\<close>

text \<open>
  The state of union-find, told without arrays: a label per node, equal for nodes of one component. Joining
  two nodes relabels one component.
\<close>

definition merge :: "'a \<times> 'a \<Rightarrow> ('a \<Rightarrow> 'b) \<Rightarrow> 'a \<Rightarrow> 'b" where
  "merge e lab = (\<lambda>z. if lab z = lab (fst e) then lab (snd e) else lab z)"

definition linked :: "('a \<times> 'a) set \<Rightarrow> 'a \<Rightarrow> 'a \<Rightarrow> bool" where
  "linked E x y \<longleftrightarrow> (x, y) \<in> (E \<union> E\<inverse>)\<^sup>*"

lemma linked_refl [simp]: "linked E x x"
  by (simp add: linked_def)

lemma linked_sym: "linked E x y \<Longrightarrow> linked E y x"
proof -
  assume "linked E x y"
  then have "(y, x) \<in> ((E \<union> E\<inverse>)\<inverse>)\<^sup>*" by (simp add: linked_def rtrancl_converse)
  then show ?thesis by (simp add: linked_def converse_Un Un_commute)
qed

lemma linked_trans: "linked E x y \<Longrightarrow> linked E y z \<Longrightarrow> linked E x z"
  by (simp add: linked_def)

lemma linked_mono: "linked E x y \<Longrightarrow> E \<subseteq> E' \<Longrightarrow> linked E' x y"
  unfolding linked_def by (erule rtrancl_mono [THEN subsetD, rotated]) auto

lemma linked_edge: "e \<in> E \<Longrightarrow> linked E (fst e) (snd e)"
  unfolding linked_def by (cases e) auto

lemma linked_into:
  assumes "linked E x y" "\<And>a b. (a, b) \<in> E \<Longrightarrow> lab a = lab b"
  shows "lab x = lab y"
  using assms(1) unfolding linked_def by (induction rule: rtrancl_induct) (use assms(2) in auto)

lemma labels_linked: "fold merge es id x = fold merge es id y \<longleftrightarrow> linked (set es) x y"
proof (induction es arbitrary: x y rule: rev_induct)
  case Nil
  show ?case by (simp add: linked_def)
next
  case (snoc e es)
  let ?lab = "fold merge es id"
  have step: "fold merge (es @ [e]) id z = (if ?lab z = ?lab (fst e) then ?lab (snd e) else ?lab z)" for z
    by (simp add: merge_def)
  have up: "linked (set (es @ [e])) a b" if "?lab a = ?lab b" for a b
    using that snoc linked_mono [of "set es" a b "set (es @ [e])"] by auto
  have join: "linked (set (es @ [e])) (fst e) (snd e)" by (rule linked_edge) simp
  show ?case
  proof
    assume eq: "fold merge (es @ [e]) id x = fold merge (es @ [e]) id y"
    have via: "linked (set (es @ [e])) a b" if "?lab a = ?lab (fst e)" "?lab (snd e) = ?lab b" for a b
      using linked_trans [OF up [OF that(1)] linked_trans [OF join up [OF that(2)]]] .
    show "linked (set (es @ [e])) x y"
    proof (cases "?lab x = ?lab (fst e)"; cases "?lab y = ?lab (fst e)")
      assume "?lab x = ?lab (fst e)" "?lab y = ?lab (fst e)"
      then show ?thesis by (intro up) simp
    next
      assume "?lab x = ?lab (fst e)" "?lab y \<noteq> ?lab (fst e)"
      then show ?thesis using eq unfolding step by (intro via) simp_all
    next
      assume "?lab x \<noteq> ?lab (fst e)" "?lab y = ?lab (fst e)"
      then show ?thesis using eq unfolding step by (intro linked_sym [OF via]) simp_all
    next
      assume "?lab x \<noteq> ?lab (fst e)" "?lab y \<noteq> ?lab (fst e)"
      then show ?thesis using eq unfolding step by (intro up) simp
    qed
  next
    assume "linked (set (es @ [e])) x y"
    then show "fold merge (es @ [e]) id x = fold merge (es @ [e]) id y"
    proof (rule linked_into)
      fix a b assume "(a, b) \<in> set (es @ [e])"
      then consider "(a, b) \<in> set es" | "e = (a, b)" by auto
      then show "fold merge (es @ [e]) id a = fold merge (es @ [e]) id b"
      proof cases
        case 1
        then have "linked (set es) a b" using linked_edge [of "(a, b)" "set es"] by simp
        then have "?lab a = ?lab b" using snoc by blast
        then show ?thesis unfolding step by (simp only:)
      next
        case 2
        then show ?thesis unfolding step by simp
      qed
    qed
  qed
qed

text \<open>Counting components: each join of two different ones takes one away, any other link none.\<close>

lemma card_merge:
  assumes "finite V" "fst e \<in> V" "snd e \<in> V"
  shows "card (merge e lab ` V) = card (lab ` V) - (if lab (fst e) = lab (snd e) then 0 else 1)"
proof (cases "lab (fst e) = lab (snd e)")
  case True
  then have "merge e lab = lab" by (auto simp: merge_def)
  then show ?thesis using True by simp
next
  case False
  have "merge e lab ` V = lab ` V - {lab (fst e)}" using assms False by (auto simp: merge_def image_iff)
  then show ?thesis using False assms by simp
qed

lemma card_coarser:
  assumes "finite V" "\<And>x y. x \<in> V \<Longrightarrow> y \<in> V \<Longrightarrow> f x = f y \<Longrightarrow> g x = g y"
  shows "card (g ` V) \<le> card (f ` V)"
proof -
  have "g ` V = (\<lambda>v. g (SOME x. x \<in> V \<and> f x = v)) ` (f ` V)"
  proof -
    have "g (SOME x'. x' \<in> V \<and> f x' = f x) = g x" if "x \<in> V" for x
      using someI [of "\<lambda>x'. x' \<in> V \<and> f x' = f x" x] that assms(2) by blast
    then show ?thesis by (auto simp: image_image)
  qed
  then show ?thesis using assms(1) by (metis card_image_le finite_imageI)
qed

definition components :: "'a set \<Rightarrow> ('a \<times> 'a) list \<Rightarrow> nat" where
  "components V es = card (fold merge es id ` V)"

lemma components_mono:
  assumes "finite V" "\<And>x y. linked (set es) x y \<Longrightarrow> linked (set es') x y"
  shows "components V es' \<le> components V es"
  unfolding components_def using assms by (intro card_coarser) (auto simp: labels_linked)

lemma components_cong:
  assumes "finite V" "\<And>x y. linked (set es) x y \<longleftrightarrow> linked (set es') x y"
  shows "components V es = components V es'"
  using components_mono [OF assms(1)] assms(2) by (metis le_antisym)

lemma components_append_le:
  assumes "finite V" "\<forall>e \<in> set es'. fst e \<in> V \<and> snd e \<in> V"
  shows "components V es \<le> components V (es @ es') + length es'"
  using assms(2)
proof (induction es' rule: rev_induct)
  case (snoc e es')
  then show ?case
    using card_merge [OF assms(1), of e "fold merge (es @ es') id"] by (auto simp: components_def split: if_splits)
qed simp

section \<open>The greedy choice\<close>

text \<open>Kruskal's choice on labels, without arrays and without stopping early.\<close>

fun greedy :: "('a \<Rightarrow> 'a) \<Rightarrow> ('c \<times> 'a \<times> 'a) list \<Rightarrow> ('c \<times> 'a \<times> 'a) list" where
  "greedy lab [] = []"
| "greedy lab (e # es) =
     (if lab (fst (snd e)) = lab (snd (snd e)) then greedy lab es else e # greedy (merge (snd e) lab) es)"

lemma merge_same: "lab (fst e) = lab (snd e) \<Longrightarrow> merge e lab = lab"
  by (auto simp: merge_def)

lemma greedy_subset: "set (greedy lab es) \<subseteq> set es"
  by (induction lab es rule: greedy.induct) auto

lemma greedy_labels: "fold merge (map snd (greedy lab es)) lab = fold merge (map snd es) lab"
  by (induction lab es rule: greedy.induct) (auto simp: merge_same)

lemma greedy_append: "greedy lab (es @ es') = greedy lab es @ greedy (fold merge (map snd es) lab) es'"
  by (induction lab es rule: greedy.induct) (auto simp: merge_same)

lemma greedy_card:
  assumes "finite V" "\<forall>e \<in> set es. fst (snd e) \<in> V \<and> snd (snd e) \<in> V"
  shows "card (fold merge (map snd es) lab ` V) + length (greedy lab es) = card (lab ` V)"
  using assms(2)
proof (induction lab es rule: greedy.induct)
  case (2 lab e es)
  have e: "fst (snd e) \<in> V" "snd (snd e) \<in> V" using 2(3) by auto
  show ?case
  proof (cases "lab (fst (snd e)) = lab (snd (snd e))")
    case True
    then show ?thesis using 2(1) [OF True] 2(3) by (simp add: merge_same)
  next
    case False
    have "card (lab ` V) \<noteq> 0" using e assms(1) by auto
    then show ?thesis using 2(2) [OF False] 2(3) False card_merge [OF assms(1) e, of lab] by simp
  qed
qed simp

lemma greedy_done:
  assumes "\<forall>e \<in> set es. fst (snd e) \<in> V \<and> snd (snd e) \<in> V" "\<forall>x \<in> V. \<forall>y \<in> V. lab x = lab y"
  shows "greedy lab es = []"
  using assms(1)
proof (induction es)
  case (Cons e es)
  then have "lab (fst (snd e)) = lab (snd (snd e))" using assms(2) by simp
  then show ?case using Cons by simp
qed simp

section \<open>Minimality\<close>

lemma sum_layers:
  fixes c :: "'a \<Rightarrow> nat"
  assumes "\<forall>x \<in> set xs. c x \<le> M"
  shows "sum_list (map c xs) = (\<Sum>w<M. length (filter (\<lambda>x. w < c x) xs))"
  using assms
proof (induction xs)
  case (Cons x xs)
  have "(\<Sum>w<M. if w < c x then 1 else 0) = c x"
    using Cons.prems by (subst sum.inter_filter [symmetric]) (auto simp: Collect_conj_eq Int_absorb1 subset_iff lessThan_def [symmetric])
  moreover have "(\<Sum>w<M. length (filter (\<lambda>x. w < c x) (x # xs)))
      = (\<Sum>w<M. if w < c x then 1 else 0) + (\<Sum>w<M. length (filter (\<lambda>x. w < c x) xs))"
    by (subst sum.distrib [symmetric]) (rule sum.cong, auto)
  ultimately show ?case using Cons by simp
qed simp

lemma filter_sorted_split:
  fixes c :: "'a \<Rightarrow> nat"
  assumes "sorted (map c es)"
  shows "es = filter (\<lambda>e. c e \<le> w) es @ filter (\<lambda>e. w < c e) es"
  using assms
proof (induction es)
  case (Cons e es)
  show ?case
  proof (cases "c e \<le> w")
    case False
    then have "\<forall>x \<in> set es. w < c x" using Cons.prems by force
    then have "filter (\<lambda>e. c e \<le> w) es = []" "filter (\<lambda>e. w < c e) es = es" by (auto simp: filter_empty_conv filter_id_conv)
    then show ?thesis using False by simp
  qed (use Cons in simp)
qed simp

text \<open>Above every cost, a spanning choice has at least as many links as the greedy one.\<close>

lemma greedy_layer:
  fixes c :: "'c \<times> 'a \<times> 'a \<Rightarrow> nat"
  assumes fin: "finite V" and ends: "\<forall>e \<in> set es. fst (snd e) \<in> V \<and> snd (snd e) \<in> V" and srt: "sorted (map c es)"
    and T: "set T \<subseteq> set es" "\<And>x y. linked (snd ` set T) x y \<longleftrightarrow> linked (snd ` set es) x y"
  shows "length (filter (\<lambda>e. w < c e) (greedy id es)) \<le> length (filter (\<lambda>e. w < c e) T)"
proof -
  let ?es1 = "filter (\<lambda>e. c e \<le> w) es" and ?es2 = "filter (\<lambda>e. w < c e) es"
  let ?T1 = "map snd (filter (\<lambda>e. c e \<le> w) T)" and ?T2 = "map snd (filter (\<lambda>e. w < c e) T)"
  let ?lab = "fold merge (map snd ?es1) id"
  have split: "greedy id es = greedy id ?es1 @ greedy ?lab ?es2"
    using filter_sorted_split [OF srt, of w] greedy_append [of id ?es1 ?es2] by simp
  have "filter (\<lambda>e. w < c e) (greedy id ?es1) = []" "filter (\<lambda>e. w < c e) (greedy ?lab ?es2) = greedy ?lab ?es2"
    using greedy_subset [of id ?es1] greedy_subset [of ?lab ?es2] by (auto simp: filter_empty_conv filter_id_conv)
  then have g: "length (filter (\<lambda>e. w < c e) (greedy id es)) = length (greedy ?lab ?es2)" by (simp add: split)
  have "fold merge (map snd ?es2) ?lab = fold merge (map snd es) id"
    using filter_sorted_split [OF srt, of w] by (metis fold_append comp_apply map_append)
  then have k: "components V (map snd es) + length (greedy ?lab ?es2) = components V (map snd ?es1)"
    using greedy_card [OF fin, of ?es2 ?lab] ends by (simp add: components_def)
  have "components V (map snd ?es1) \<le> components V ?T1"
    using T(1) by (intro components_mono [OF fin]) (auto elim!: linked_mono)
  also have "\<dots> \<le> components V (?T1 @ ?T2) + length ?T2"
    using T(1) ends by (intro components_append_le [OF fin]) (auto dest!: subsetD)
  also have "components V (?T1 @ ?T2) = components V (map snd es)"
  proof (rule components_cong [OF fin])
    have "set (filter (\<lambda>e. c e \<le> w) T) \<union> set (filter (\<lambda>e. w < c e) T) = set T" by auto
    then have "set (?T1 @ ?T2) = snd ` set T" by (metis image_Un set_append set_map)
    then show "linked (set (?T1 @ ?T2)) x y \<longleftrightarrow> linked (set (map snd es)) x y" for x y by (simp add: T(2))
  qed
  finally show ?thesis using k g by simp
qed

lemma greedy_minimal:
  fixes c :: "'c \<times> 'a \<times> 'a \<Rightarrow> nat"
  assumes "finite V" "\<forall>e \<in> set es. fst (snd e) \<in> V \<and> snd (snd e) \<in> V" "sorted (map c es)"
    and "set T \<subseteq> set es" "\<And>x y. linked (snd ` set T) x y \<longleftrightarrow> linked (snd ` set es) x y"
  shows "sum_list (map c (greedy id es)) \<le> sum_list (map c T)"
proof -
  define M where "M = Max (insert 0 (c ` set es))"
  have M: "\<forall>x \<in> set xs. c x \<le> M" if "set xs \<subseteq> set es" for xs using that by (auto simp: M_def)
  show ?thesis
    unfolding sum_layers [OF M [OF greedy_subset]] sum_layers [OF M [OF assms(4)]]
    by (intro sum_mono greedy_layer [OF assms])
qed

section \<open>Union-find keeps the labels\<close>

text \<open>
  The array follows the labels: a parent has its child's label, each label has one root, and sizes grow
  towards the root, which is why a search ends.
\<close>

definition forest_of :: "nat list \<Rightarrow> nat list \<Rightarrow> (nat \<Rightarrow> 'b) \<Rightarrow> bool" where
  "forest_of parent sz lab \<longleftrightarrow>
     length sz = length parent
     \<and> (\<forall>x < length parent. parent ! x < length parent \<and> lab (parent ! x) = lab x \<and> 1 \<le> sz ! x
          \<and> (parent ! x \<noteq> x \<longrightarrow> sz ! x < sz ! (parent ! x)))
     \<and> (\<forall>x < length parent. \<forall>y < length parent. parent ! x = x \<and> parent ! y = y \<and> lab x = lab y \<longrightarrow> x = y)"

lemma forest_parent:
  assumes "forest_of parent sz lab" "x < length parent"
  shows "parent ! x < length parent" "lab (parent ! x) = lab x" "1 \<le> sz ! x" "parent ! x \<noteq> x \<Longrightarrow> sz ! x < sz ! (parent ! x)"
  using assms unfolding forest_of_def by blast+

lemma forest_root:
  "forest_of parent sz lab \<Longrightarrow> x < length parent \<Longrightarrow> y < length parent \<Longrightarrow> parent ! x = x \<Longrightarrow> parent ! y = y \<Longrightarrow> lab x = lab y \<Longrightarrow> x = y"
  unfolding forest_of_def by blast

lemma forest_new: "forest_of (ds_parent (ds_new n)) (ds_size (ds_new n)) (\<lambda>i. i)"
  by (auto simp: forest_of_def ds_new_def)

lemma forest_cong:
  assumes "forest_of parent sz lab" "\<And>x y. x < length parent \<Longrightarrow> y < length parent \<Longrightarrow> lab x = lab y \<longleftrightarrow> lab' x = lab' y"
  shows "forest_of parent sz lab'"
  using assms unfolding forest_of_def by blast

lemma forest_halve:
  assumes "forest_of parent sz lab" "x < length parent" "parent ! x \<noteq> x"
  shows "forest_of (parent[x := parent ! (parent ! x)]) sz lab"
    and "\<And>z. z < length parent \<Longrightarrow> (parent[x := parent ! (parent ! x)]) ! z = z \<longleftrightarrow> parent ! z = z"
    and "sz ! x < sz ! (parent ! (parent ! x))"
proof -
  let ?p = "parent ! x" and ?g = "parent ! (parent ! x)"
  note p = forest_parent [OF assms(1,2)]
  note g = forest_parent [OF assms(1) p(1)]
  show up: "sz ! x < sz ! ?g" using p(4) [OF assms(3)] g(4) by (cases "?g = ?p") auto
  then have gx: "?g \<noteq> x" by auto
  show root: "(parent[x := ?g]) ! z = z \<longleftrightarrow> parent ! z = z" if "z < length parent" for z
    using that assms(3) gx by (cases "z = x") auto
  show "forest_of (parent[x := ?g]) sz lab"
    unfolding forest_of_def
  proof (intro conjI allI impI)
    fix z assume z: "z < length (parent[x := ?g])"
    show "(parent[x := ?g]) ! z < length (parent[x := ?g])" "lab ((parent[x := ?g]) ! z) = lab z" "1 \<le> sz ! z"
      "(parent[x := ?g]) ! z \<noteq> z \<Longrightarrow> sz ! z < sz ! ((parent[x := ?g]) ! z)"
      using z g(1,2) p(2) up forest_parent [OF assms(1), of z] by (cases "z = x"; simp)+
  next
    fix y z assume "y < length (parent[x := ?g])" "z < length (parent[x := ?g])"
      and "(parent[x := ?g]) ! y = y \<and> (parent[x := ?g]) ! z = z \<and> lab y = lab z"
    then show "y = z" using root [of y] root [of z] forest_root [OF assms(1), of y z] by simp
  qed (use assms(1) in \<open>simp add: forest_of_def\<close>)
qed

lemma find_root:
  assumes "forest_of parent sz lab" "x < length parent"
  shows "\<exists>r parent'. ds_find parent x = Some (r, parent') \<and> r < length parent \<and> parent ! r = r \<and> lab r = lab x
    \<and> forest_of parent' sz lab \<and> length parent' = length parent \<and> (\<forall>z < length parent. parent' ! z = z \<longleftrightarrow> parent ! z = z)"
  using assms
proof (induction "Max (set sz) - sz ! x" arbitrary: parent x rule: less_induct)
  case less
  show ?case
  proof (cases "parent ! x = x")
    case True
    then show ?thesis using less.prems by (simp add: ds_find.simps [of parent x])
  next
    case False
    let ?g = "parent ! (parent ! x)"
    note h = forest_halve [OF less.prems False]
    note p = forest_parent [OF less.prems]
    have b: "parent ! x < length parent" "?g < length parent" "lab ?g = lab x"
      using p forest_parent [OF less.prems(1) p(1)] by simp_all
    have "sz ! ?g \<in> set sz" using b(2) less.prems(1) by (auto simp: forest_of_def)
    then have "Max (set sz) - sz ! ?g < Max (set sz) - sz ! x" using h(3) Max_ge [of "set sz" "sz ! ?g"] by (simp del: Max_ge)
    from less.hyps [OF this h(1)] b(2) obtain r parent' where r: "ds_find (parent[x := ?g]) ?g = Some (r, parent')"
      "r < length parent" "(parent[x := ?g]) ! r = r" "lab r = lab ?g" "forest_of parent' sz lab" "length parent' = length parent"
      "\<forall>z < length parent. parent' ! z = z \<longleftrightarrow> (parent[x := ?g]) ! z = z" by auto
    have "ds_find parent x = Some (r, parent')"
      using r(1) less.prems(2) False b(1) by (simp add: ds_find.simps [of parent x])
    then show ?thesis using r h(2) b(3) by auto
  qed
qed

lemma merge_pattern:
  "merge e lab x = merge e lab y \<longleftrightarrow> lab x = lab y \<or> lab x \<in> {lab (fst e), lab (snd e)} \<and> lab y \<in> {lab (fst e), lab (snd e)}"
  by (auto simp: merge_def)

lemma merge_swap: "merge (a, b) lab x = merge (a, b) lab y \<longleftrightarrow> merge (b, a) lab x = merge (b, a) lab y"
  by (auto simp: merge_pattern)

lemma forest_join:
  assumes "forest_of parent sz lab" "big < length parent" "small < length parent" "parent ! big = big" "parent ! small = small"
    "big \<noteq> small"
  shows "forest_of (parent[small := big]) (sz[big := sz ! big + sz ! small]) (merge (small, big) lab)"
proof -
  let ?sz = "sz[big := sz ! big + sz ! small]"
  have l: "length sz = length parent" "1 \<le> sz ! big" "1 \<le> sz ! small" using assms(1-3) unfolding forest_of_def by blast+
  have grow: "sz ! z \<le> ?sz ! z" if "z < length parent" for z using that l by (cases "z = big") auto
  show ?thesis
    unfolding forest_of_def
  proof (intro conjI allI impI)
    fix z assume z: "z < length (parent[small := big])"
    then have p: "parent ! z < length parent" "lab (parent ! z) = lab z" "1 \<le> sz ! z" "parent ! z \<noteq> z \<Longrightarrow> sz ! z < sz ! (parent ! z)"
      using forest_parent [OF assms(1), of z] by auto
    show "(parent[small := big]) ! z < length (parent[small := big])" using p(1) assms(2) z by (cases "z = small") auto
    show "merge (small, big) lab ((parent[small := big]) ! z) = merge (small, big) lab z"
      using p(2) z by (cases "z = small") (auto simp: merge_def)
    show "1 \<le> ?sz ! z" using p(3) grow [of z] z by simp
    assume ne: "(parent[small := big]) ! z \<noteq> z"
    show "?sz ! z < ?sz ! ((parent[small := big]) ! z)"
    proof (cases "z = small")
      case True
      then show ?thesis using z l assms(2,6) by simp
    next
      case False
      then have "parent ! z \<noteq> z" "z \<noteq> big" using ne z assms(4) by auto
      then show ?thesis using p(4) grow [OF p(1)] False z by simp
    qed
  next
    fix y z assume yz: "y < length (parent[small := big])" "z < length (parent[small := big])"
      and r: "(parent[small := big]) ! y = y \<and> (parent[small := big]) ! z = z \<and> merge (small, big) lab y = merge (small, big) lab z"
    then have ne: "y \<noteq> small" "z \<noteq> small" using assms(2,3,6) by auto
    then have rt: "parent ! y = y" "parent ! z = z" using r yz by auto
    have "lab y \<noteq> lab small" "lab z \<noteq> lab small"
      using ne rt yz forest_root [OF assms(1) _ assms(3) _ assms(5), of y] forest_root [OF assms(1) _ assms(3) _ assms(5), of z] by auto
    then have "lab y = lab z" using r by (simp add: merge_def)
    then show "y = z" using rt yz forest_root [OF assms(1), of y z] by simp
  qed (simp add: l)
qed

lemma union_merges:
  assumes "forest_of (ds_parent ds) (ds_size ds) lab" "x < length (ds_parent ds)" "y < length (ds_parent ds)"
  shows "\<exists>ds'. ds_union ds x y = Some (lab x \<noteq> lab y, ds') \<and> length (ds_parent ds') = length (ds_parent ds)
    \<and> forest_of (ds_parent ds') (ds_size ds') (merge (x, y) lab)"
proof -
  let ?n = "length (ds_parent ds)"
  obtain rx p where x: "ds_find (ds_parent ds) x = Some (rx, p)" "rx < ?n" "lab rx = lab x" "forest_of p (ds_size ds) lab" "length p = ?n"
    "p ! rx = rx" using find_root [OF assms(1,2)] by auto
  obtain ry q where y: "ds_find p y = Some (ry, q)" "ry < ?n" "lab ry = lab y" "forest_of q (ds_size ds) lab" "length q = ?n"
    "q ! ry = ry" "q ! rx = rx" using find_root [OF x(4), of y] assms(3) x(2,5,6) by auto
  have same: "rx = ry \<longleftrightarrow> lab x = lab y" using x(2,3) y forest_root [OF y(4), of rx ry] by auto
  show ?thesis
  proof (cases "rx = ry")
    case True
    then show ?thesis using x(1) y(1,4,5) same by (auto simp: ds_union_def merge_same [of lab "(x, y)"])
  next
    case False
    define big small where "big = (if ds_size ds ! ry \<le> ds_size ds ! rx then rx else ry)" and "small = (if ds_size ds ! ry \<le> ds_size ds ! rx then ry else rx)"
    have bs: "big < length q" "small < length q" "q ! big = big" "q ! small = small" "big \<noteq> small"
      using x(2) y False by (auto simp: big_def small_def)
    have u: "ds_union ds x y = Some (True, \<lparr>ds_parent = q[small := big], ds_size = (ds_size ds)[big := ds_size ds ! big + ds_size ds ! small]\<rparr>)"
      using x(1) y(1) False by (simp add: ds_union_def big_def small_def)
    have "forest_of (q[small := big]) ((ds_size ds)[big := ds_size ds ! big + ds_size ds ! small]) (merge (x, y) lab)"
      by (rule forest_cong [OF forest_join [OF y(4) bs]]) (use x(3) y(3) in \<open>auto simp: merge_pattern big_def small_def\<close>)
    then show ?thesis using u same False y(5) by simp
  qed
qed

section \<open>The loop makes the greedy choice\<close>

definition edge_of :: "u64 \<times> bytes \<times> bytes \<times> nat \<times> nat \<Rightarrow> u64 \<times> bytes \<times> bytes" where
  "edge_of = (\<lambda>(cost, ca, cb, _, _). (cost, ca, cb))"

definition indexed :: "bytes list \<Rightarrow> u64 \<times> bytes \<times> bytes \<times> nat \<times> nat \<Rightarrow> bool" where
  "indexed nodes = (\<lambda>(_, ca, cb, ia, ib). ia < length nodes \<and> ib < length nodes
     \<and> ((ca, cb) = (nodes ! ia, nodes ! ib) \<or> (ca, cb) = (nodes ! ib, nodes ! ia)))"

lemma index_snoc: "hm_get (node_index (nodes @ [n])) a = (if a = n then Some (length nodes) else hm_get (node_index nodes) a)"
  by (simp add: node_index_def enumerate_append_eq)

lemma node_index_Some: "distinct nodes \<Longrightarrow> hm_get (node_index nodes) a = Some i \<longleftrightarrow> i < length nodes \<and> nodes ! i = a"
proof (induction nodes rule: rev_induct)
  case (snoc n nodes)
  then show ?case by (auto simp: index_snoc nth_append less_Suc_eq)
qed (simp add: node_index_def)

lemma node_index_None: "distinct nodes \<Longrightarrow> hm_get (node_index nodes) a = None \<longleftrightarrow> a \<notin> set nodes"
  by (metis (no_types, lifting) in_set_conv_nth node_index_Some not_Some_eq)

definition candidates :: "bytes list \<Rightarrow> weighted_link list \<Rightarrow> (u64 \<times> bytes \<times> bytes) list" where
  "candidates nodes links =
     map (\<lambda>l. (wl_cost l, canon (wl_a l) (wl_b l)))
       (filter (\<lambda>l. wl_a l \<noteq> wl_b l \<and> wl_a l \<in> set nodes \<and> wl_b l \<in> set nodes) links)"

lemma candidate_links_edges:
  assumes "distinct nodes"
  shows "map edge_of (candidate_links nodes links) = candidates nodes links \<and> list_all (indexed nodes) (candidate_links nodes links)"
proof (induction links)
  case Nil
  show ?case by (simp add: candidate_links_def candidates_def List.map_filter_simps)
next
  case (Cons l links)
  let ?x = "hm_get (node_index nodes) (wl_a l)" and ?y = "hm_get (node_index nodes) (wl_b l)"
  have x: "?x = None \<longleftrightarrow> wl_a l \<notin> set nodes" "?y = None \<longleftrightarrow> wl_b l \<notin> set nodes" using node_index_None [OF assms] by auto
  have i: "?x = Some i \<Longrightarrow> i < length nodes \<and> nodes ! i = wl_a l" "?y = Some i \<Longrightarrow> i < length nodes \<and> nodes ! i = wl_b l" for i
    using node_index_Some [OF assms] by auto
  show ?case
  proof (cases "wl_a l = wl_b l \<or> ?x = None \<or> ?y = None")
    case True
    then have "candidate_links nodes (l # links) = candidate_links nodes links"
      by (auto simp: candidate_links_def List.map_filter_simps split: option.splits)
    then show ?thesis using Cons True x by (auto simp: candidates_def)
  next
    case False
    then obtain ia ib where ab: "?x = Some ia" "?y = Some ib" by auto
    have "candidate_links nodes (l # links)
        = (wl_cost l, fst (canon (wl_a l) (wl_b l)), snd (canon (wl_a l) (wl_b l)), ia, ib) # candidate_links nodes links"
      using False ab by (simp add: candidate_links_def List.map_filter_simps split: prod.split)
    moreover have "indexed nodes (wl_cost l, fst (canon (wl_a l) (wl_b l)), snd (canon (wl_a l) (wl_b l)), ia, ib)"
      using i ab by (auto simp: indexed_def canon_def)
    moreover have "wl_a l \<in> set nodes" "wl_b l \<in> set nodes" using x ab by auto
    ultimately show ?thesis using Cons False by (simp add: candidates_def edge_of_def)
  qed
qed

definition added_costs :: "(u64 \<times> bytes \<times> bytes) list \<Rightarrow> u64 \<Rightarrow> u64" where
  "added_costs G t = fold (\<lambda>e t. saturating_add t (fst e)) G t"

lemma merge_nodes:
  assumes "(ca, cb) = (nodes ! ia, nodes ! ib) \<or> (ca, cb) = (nodes ! ib, nodes ! ia)"
  shows "merge (ia, ib) (\<lambda>i. lab (nodes ! i)) x = merge (ia, ib) (\<lambda>i. lab (nodes ! i)) y
    \<longleftrightarrow> merge (ca, cb) lab (nodes ! x) = merge (ca, cb) lab (nodes ! y)"
  using assms
proof
  assume "(ca, cb) = (nodes ! ia, nodes ! ib)"
  then show ?thesis by (simp only: merge_def fst_conv snd_conv)
next
  assume "(ca, cb) = (nodes ! ib, nodes ! ia)"
  then show ?thesis unfolding merge_swap [of ia ib] by (simp only: merge_def fst_conv snd_conv)
qed

lemma all_joined:
  assumes "finite V" "card (lab ` V) \<le> 1"
  shows "\<forall>x \<in> V. \<forall>y \<in> V. lab x = lab y"
proof -
  have "\<forall>a \<in> lab ` V. \<forall>b \<in> lab ` V. a = b"
    using assms card_le_Suc0_iff_eq [of "lab ` V"] unfolding One_nat_def by blast
  then show ?thesis by blast
qed

lemma loop_greedy:
  assumes "n = length nodes" "list_all (indexed nodes) es"
    and "forest_of (ds_parent ds) (ds_size ds) (\<lambda>i. lab (nodes ! i))" "length (ds_parent ds) = n"
    and "length (op_links plan) + card (lab ` set nodes) = n"
  shows "\<exists>plan'. kruskal_loop n ds plan es = Some plan'
    \<and> op_links plan' = op_links plan @ map snd (greedy lab (map edge_of es))
    \<and> op_total_cost plan' = added_costs (greedy lab (map edge_of es)) (op_total_cost plan)"
  using assms(2-)
proof (induction es arbitrary: ds plan lab)
  case Nil
  show ?case by (simp add: added_costs_def)
next
  case (Cons e es)
  obtain cost ca cb ia ib where e: "e = (cost, ca, cb, ia, ib)" by (cases e)
  have i: "ia < n" "ib < n" "(ca, cb) = (nodes ! ia, nodes ! ib) \<or> (ca, cb) = (nodes ! ib, nodes ! ia)"
    using Cons.prems(1) assms(1) by (auto simp: e indexed_def)
  have ends: "\<forall>e \<in> set (map edge_of es). fst (snd e) \<in> set nodes \<and> snd (snd e) \<in> set nodes"
    using Cons.prems(1) by (auto simp: list_all_iff indexed_def edge_of_def)
  have joins: "lab (nodes ! ia) = lab (nodes ! ib) \<longleftrightarrow> lab ca = lab cb" using i(3) by auto
  obtain ds' where u: "ds_union ds ia ib = Some (lab ca \<noteq> lab cb, ds')" "length (ds_parent ds') = n"
    "forest_of (ds_parent ds') (ds_size ds') (merge (ia, ib) (\<lambda>i. lab (nodes ! i)))"
    using union_merges [OF Cons.prems(2), of ia ib] i Cons.prems(3) joins by auto
  have f: "forest_of (ds_parent ds') (ds_size ds') (\<lambda>i. merge (ca, cb) lab (nodes ! i))"
    by (rule forest_cong [OF u(3)]) (rule merge_nodes [OF i(3)])
  have all: "list_all (indexed nodes) es" using Cons.prems(1) by simp
  show ?case
  proof (cases "lab ca = lab cb")
    case True
    then show ?thesis using Cons.IH [OF all f u(2)] Cons.prems(4) u(1) by (simp add: e edge_of_def merge_same)
  next
    case False
    let ?plan = "plan\<lparr>op_links := op_links plan @ [(ca, cb)], op_total_cost := saturating_add (op_total_cost plan) cost\<rparr>"
    have c: "card (merge (ca, cb) lab ` set nodes) = card (lab ` set nodes) - 1" "ca \<in> set nodes"
      using card_merge [of "set nodes" "(ca, cb)" lab] i assms(1) False by auto
    have "0 < card (lab ` set nodes)" using c(2) by (auto simp: card_gt_0_iff)
    then have count: "length (op_links ?plan) + card (merge (ca, cb) lab ` set nodes) = n" using c(1) Cons.prems(4) by (simp del: card_gt_0_iff)
    show ?thesis
    proof (cases "length (op_links ?plan) = n - 1")
      case True
      then have "card (merge (ca, cb) lab ` set nodes) \<le> 1" using count by simp
      then have "greedy (merge (ca, cb) lab) (map edge_of es) = []" by (intro greedy_done [OF ends] all_joined) simp_all
      then show ?thesis using True False u(1) by (simp add: e edge_of_def added_costs_def)
    next
      case stop: False
      show ?thesis using Cons.IH [OF all f u(2) count] stop False u(1) by (simp add: e edge_of_def added_costs_def)
    qed
  qed
qed

lemma added_costs_sum: "unat (added_costs G t) = min (2 ^ 64 - 1) (unat t + sum_list (map (unat \<circ> fst) G))"
proof (induction G arbitrary: t)
  case Nil
  show ?case using unat_bound [of t] by (simp add: added_costs_def)
next
  case (Cons e G)
  have "added_costs (e # G) t = added_costs G (saturating_add t (fst e))" by (simp add: added_costs_def)
  then show ?case using Cons [of "saturating_add t (fst e)"] by (simp add: unat_saturating_add)
qed

lemma candidates_ends: "e \<in> set (candidates nodes links) \<Longrightarrow> fst (snd e) \<in> set nodes \<and> snd (snd e) \<in> set nodes"
  by (auto simp: candidates_def canon_def)

lemma components_one:
  assumes "finite V" "V \<noteq> {}"
  shows "components V es = 1 \<longleftrightarrow> (\<forall>x \<in> V. \<forall>y \<in> V. linked (set es) x y)"
proof -
  have "card (fold merge es id ` V) = 1 \<longleftrightarrow> (\<forall>x \<in> V. \<forall>y \<in> V. fold merge es id x = fold merge es id y)"
  proof
    assume "card (fold merge es id ` V) = 1"
    then show "\<forall>x \<in> V. \<forall>y \<in> V. fold merge es id x = fold merge es id y" by (intro all_joined [OF assms(1)]) simp
  next
    assume all: "\<forall>x \<in> V. \<forall>y \<in> V. fold merge es id x = fold merge es id y"
    obtain v where v: "v \<in> V" using assms(2) by blast
    then have "fold merge es id ` V = {fold merge es id v}" using all by blast
    then show "card (fold merge es id ` V) = 1" by simp
  qed
  then show ?thesis unfolding components_def labels_linked .
qed

lemma overlay_returns:
  assumes "distinct nodes"
  shows "\<exists>plan. min_latency_overlay nodes links = Some plan"
proof -
  let ?srt = "sort_key (\<lambda>(cost, ca, cb, _, _). (cost, ca, cb)) (candidate_links nodes links)"
  have idx: "list_all (indexed nodes) ?srt" using candidate_links_edges [OF assms, of links] by (simp add: list_all_iff)
  have inj: "forest_of (ds_parent (ds_new (length nodes))) (ds_size (ds_new (length nodes))) (\<lambda>i. id (nodes ! i))"
    by (rule forest_cong [OF forest_new]) (use assms in \<open>auto simp: ds_new_def nth_eq_iff_index_eq\<close>)
  have start: "length (op_links plan_default) + card (id ` set nodes) = length nodes" using assms by (simp add: plan_default_def distinct_card)
  show ?thesis using loop_greedy [where lab = id, OF refl idx inj _ start] by (auto simp: min_latency_overlay_def ds_new_def)
qed

text \<open>The cost of a link is the median of its probes, rounded down, and never wraps around.\<close>

lemma probes_median:
  assumes "link_cost_from_probes samples = Some m"
  defines "v \<equiv> sort samples" and "mid \<equiv> length samples div 2"
  shows "unat m = (if odd (length samples) then unat (v ! mid) else (unat (v ! (mid - 1)) + unat (v ! mid)) div 2)"
proof (cases "odd (length samples)")
  case True
  then show ?thesis using assms(1) by (auto simp: link_cost_from_probes_def v_def mid_def Let_def odd_iff_mod_2_eq_one split: if_splits)
next
  case False
  have ne: "samples \<noteq> []" using assms(1) by (auto simp: link_cost_from_probes_def)
  then have "mid < length v" by (simp add: mid_def v_def)
  then have le: "v ! (mid - 1) \<le> v ! mid" using sorted_nth_mono [of v "mid - 1" mid] by (simp add: v_def)
  let ?lo = "v ! (mid - 1)" and ?hi = "v ! mid"
  have "m = ?lo + (?hi - ?lo) div 2"
    using assms(1) ne False by (simp add: link_cost_from_probes_def v_def mid_def Let_def even_iff_mod_2_eq_zero)
  moreover have "unat ((?hi - ?lo) div 2) = (unat ?hi - unat ?lo) div 2" using le by (simp add: unat_div unat_sub)
  moreover have "unat ?lo + (unat ?hi - unat ?lo) div 2 = (unat ?lo + unat ?hi) div 2" using le by (simp add: word_le_nat_alt)
  moreover have "(unat ?lo + unat ?hi) div 2 < 2 ^ 64" using unat_bound [of ?lo] unat_bound [of ?hi] by simp
  ultimately show ?thesis using False unat_add_no_wrap [of ?lo "(?hi - ?lo) div 2"] by simp
qed

section \<open>Properties\<close>

text \<open>
  C29. The overlay is a minimum spanning tree. For distinct nodes the planner ends; its links are candidates and
  connect exactly the nodes that the candidates connect; it reports a connected overlay exactly when these
  connect all nodes, with one link less than there are nodes; and no choice of candidates that connects as
  much has fewer links or a lower total cost. The reported cost is that total, capped at the largest u64.
\<close>

theorem overlay_minimal:
  fixes links
  assumes "distinct nodes"
  defines "E \<equiv> set (candidates nodes links)"
  shows "\<exists>plan G. min_latency_overlay nodes links = Some plan \<and> op_links plan = map snd G \<and> set G \<subseteq> E
    \<and> unat (op_total_cost plan) = min (2 ^ 64 - 1) (sum_list (map (unat \<circ> fst) G))
    \<and> (\<forall>x y. linked (set (op_links plan)) x y \<longleftrightarrow> linked (snd ` E) x y)
    \<and> (op_connected plan \<longleftrightarrow> (\<forall>x \<in> set nodes. \<forall>y \<in> set nodes. linked (snd ` E) x y))
    \<and> (op_connected plan \<longleftrightarrow> length (op_links plan) = length nodes - 1)
    \<and> (\<forall>T. set T \<subseteq> E \<and> (\<forall>x y. linked (snd ` set T) x y \<longleftrightarrow> linked (snd ` E) x y) \<longrightarrow>
         length G \<le> length T \<and> sum_list (map (unat \<circ> fst) G) \<le> sum_list (map (unat \<circ> fst) T))"
proof -
  let ?srt = "sort_key (\<lambda>(cost, ca, cb, _, _). (cost, ca, cb)) (candidate_links nodes links)" and ?V = "set nodes"
  define es where "es = map edge_of ?srt"
  define G where "G = greedy id es"
  note cl = candidate_links_edges [OF assms(1), of links]
  have key: "(\<lambda>(cost, ca, cb, _, _). (cost, ca, cb)) = edge_of" by (auto simp: edge_of_def)
  have "sorted (map edge_of ?srt)" unfolding key by (rule sorted_sort_key)
  then have srt: "sorted (map (unat \<circ> fst) es)" unfolding es_def [symmetric] sorted_map
    by (rule sorted_wrt_mono_rel [rotated]) (auto simp: word_le_nat_alt word_less_nat_alt)
  have "set (map edge_of ?srt) = edge_of ` set (candidate_links nodes links)" by simp
  also have "\<dots> = set (map edge_of (candidate_links nodes links))" by (rule set_map [symmetric])
  also have "\<dots> = E" unfolding E_def cl [THEN conjunct1] by (rule refl)
  finally have "set (map edge_of ?srt) = E" .
  then have es: "set es = E" by (simp add: es_def)
  have ends: "\<forall>e \<in> set es. fst (snd e) \<in> ?V \<and> snd (snd e) \<in> ?V" using candidates_ends unfolding es E_def by blast
  have idx: "list_all (indexed nodes) ?srt" using cl by (simp add: list_all_iff)
  have inj: "forest_of (ds_parent (ds_new (length nodes))) (ds_size (ds_new (length nodes))) (\<lambda>i. id (nodes ! i))"
    by (rule forest_cong [OF forest_new]) (use assms(1) in \<open>auto simp: ds_new_def nth_eq_iff_index_eq\<close>)
  have start: "length (op_links plan_default) + card (id ` ?V) = length nodes" using assms(1) by (simp add: plan_default_def distinct_card)
  obtain plan where plan: "kruskal_loop (length nodes) (ds_new (length nodes)) plan_default ?srt = Some plan"
    "op_links plan = map snd G" "op_total_cost plan = added_costs G 0"
    using loop_greedy [where lab = id, OF refl idx inj _ start] unfolding G_def es_def by (auto simp: plan_default_def ds_new_def)
  let ?plan = "plan\<lparr>op_connected := (length (op_links plan) = length nodes - 1)\<rparr>"
  have m: "min_latency_overlay nodes links = Some ?plan" by (simp add: min_latency_overlay_def Let_def plan(1))
  have sub: "set G \<subseteq> E" using greedy_subset [of id es] by (simp add: G_def es)
  have conn: "linked (set (op_links plan)) x y \<longleftrightarrow> linked (snd ` E) x y" for x y
    unfolding plan(2) labels_linked [symmetric] G_def greedy_labels unfolding labels_linked by (simp add: es)
  have count: "components ?V (map snd es) + length G = length nodes"
    using greedy_card [OF _ ends, of id] assms(1) by (simp add: components_def G_def distinct_card)
  have full: "length G = length nodes - 1 \<longleftrightarrow> (\<forall>x \<in> ?V. \<forall>y \<in> ?V. linked (snd ` E) x y)"
  proof (cases "nodes = []")
    case False
    then have "length G = length nodes - 1 \<longleftrightarrow> components ?V (map snd es) = 1" using count by (cases nodes) auto
    then show ?thesis using components_one [of ?V "map snd es"] False by (simp add: es)
  qed (use count in simp)
  have least: "length G \<le> length T \<and> sum_list (map (unat \<circ> fst) G) \<le> sum_list (map (unat \<circ> fst) T)"
    if "set T \<subseteq> E" "\<forall>x y. linked (snd ` set T) x y \<longleftrightarrow> linked (snd ` E) x y" for T
    using greedy_minimal [OF _ ends, of "\<lambda>_. 1" T] greedy_minimal [OF _ ends srt, of T] that
    by (simp add: es G_def sorted_wrt_map sum_list_triv)
  have "unat (op_total_cost plan) = min (2 ^ 64 - 1) (sum_list (map (unat \<circ> fst) G))" by (simp add: plan(3) added_costs_sum)
  then show ?thesis using m plan(2) sub conn full least by (intro exI [of _ ?plan] exI [of _ G]) auto
qed

section \<open>Witness\<close>

definition ex_nodes :: "bytes list" where
  "ex_nodes = [[97], [98], [99]]"

definition ex_links :: "weighted_link list" where
  "ex_links = [\<lparr>wl_a = [99], wl_b = [97], wl_cost = 9\<rparr>, \<lparr>wl_a = [97], wl_b = [98], wl_cost = 3\<rparr>,
     \<lparr>wl_a = [98], wl_b = [98], wl_cost = 0\<rparr>, \<lparr>wl_a = [99], wl_b = [98], wl_cost = 1\<rparr>]"

lemma linked_closed:
  assumes "linked E' x y" "\<And>a b. (a, b) \<in> E' \<Longrightarrow> linked E a b"
  shows "linked E x y"
  using assms(1) unfolding linked_def
proof (induction rule: rtrancl_induct)
  case (step y z)
  have "linked E y z" using step(2) assms(2) [of y z] assms(2) [of z y] linked_sym [of E z y] by auto
  then show ?case using step(3) by (simp add: linked_def)
qed simp

theorem overlay_minimal_witness:
  "\<exists>plan. min_latency_overlay ex_nodes ex_links = Some plan \<and> op_connected plan \<and> length (op_links plan) = 2
    \<and> unat (op_total_cost plan) \<le> 4"
proof -
  let ?E = "set (candidates ex_nodes ex_links)" and ?T = "[(3 :: u64, [97 :: u8], [98 :: u8]), (1, [98], [99])]"
  have E: "?E = {(9, [97], [99]), (3, [97], [98]), (1, [98], [99])}"
    by (auto simp: candidates_def ex_nodes_def ex_links_def canon_def)
  have ab: "linked (snd ` set ?T) [97] [98]" "linked (snd ` set ?T) [98] [99]"
    using linked_edge [of "([97], [98])" "snd ` set ?T"] linked_edge [of "([98], [99])" "snd ` set ?T"] by simp_all
  have ac: "linked (snd ` set ?T) [97] [99]" by (rule linked_trans [OF ab])
  have sub: "set ?T \<subseteq> ?E" unfolding E by simp
  have same: "linked (snd ` set ?T) x y \<longleftrightarrow> linked (snd ` ?E) x y" for x y
  proof
    assume "linked (snd ` set ?T) x y"
    then show "linked (snd ` ?E) x y" by (rule linked_mono) (use sub in blast)
  next
    assume "linked (snd ` ?E) x y"
    then show "linked (snd ` set ?T) x y" by (rule linked_closed) (use ab ac in \<open>auto simp: E\<close>)
  qed
  have all: "\<forall>x \<in> set ex_nodes. \<forall>y \<in> set ex_nodes. linked (snd ` ?E) x y"
    using ab ac linked_sym unfolding same [symmetric] by (auto simp: ex_nodes_def)
  have d: "distinct ex_nodes" by (simp add: ex_nodes_def)
  obtain plan and G :: "(u64 \<times> bytes \<times> bytes) list" where p: "min_latency_overlay ex_nodes ex_links = Some plan"
    "unat (op_total_cost plan) = min (2 ^ 64 - 1) (sum_list (map (unat \<circ> fst) G))"
    "op_connected plan \<longleftrightarrow> (\<forall>x \<in> set ex_nodes. \<forall>y \<in> set ex_nodes. linked (snd ` ?E) x y)"
    "op_connected plan \<longleftrightarrow> length (op_links plan) = length ex_nodes - 1"
    "\<forall>T. set T \<subseteq> ?E \<and> (\<forall>x y. linked (snd ` set T) x y \<longleftrightarrow> linked (snd ` ?E) x y) \<longrightarrow>
       length G \<le> length T \<and> sum_list (map (unat \<circ> fst) G) \<le> sum_list (map (unat \<circ> fst) T)"
    using overlay_minimal [OF d, of ex_links] by (elim exE conjE) (rule that)
  have c: "op_connected plan" using p(3) all by (rule iffD2)
  then have l: "length (op_links plan) = 2" using p(4) by (simp add: ex_nodes_def)
  have "sum_list (map (unat \<circ> fst) G) \<le> sum_list (map (unat \<circ> fst) ?T)" using p(5) [rule_format, of ?T] sub same by blast
  then have "unat (op_total_cost plan) \<le> 4" by (simp add: p(2))
  then show ?thesis using p(1) c l by blast
qed

end
