(* ===== verification/Shortcuts.thy ===== *)
theory Shortcuts
  imports Overlay
begin

text \<open>
  Latency-reducing shortcuts on top of the spanning tree, \<open>common/src/overlay.rs\<close>: all shortest paths by
  Floyd and Warshall, the greedy choice of links with an incremental update of the matrix, and the planner
  of a network. The matrix is a list of rows, updated in place as in the source.
\<close>

section \<open>Data\<close>

type_synonym matrix = "u64 list list"

definition mget :: "matrix \<Rightarrow> nat \<Rightarrow> nat \<Rightarrow> u64" where
  "mget d i j = d ! i ! j"

definition mset_at :: "matrix \<Rightarrow> nat \<Rightarrow> nat \<Rightarrow> u64 \<Rightarrow> matrix" where
  "mset_at d i j v = d[i := (d ! i)[j := v]]"

definition inf_cost :: u64 where
  "inf_cost = 0x3FFFFFFFFFFFFFFF"

text \<open>The cheapest candidate per unordered pair of indices.\<close>

definition note_cost :: "(bytes, nat) hmap \<Rightarrow> weighted_link \<Rightarrow> (nat \<times> nat, u64) hmap \<Rightarrow> (nat \<times> nat, u64) hmap" where
  "note_cost index l cost =
     (if wl_a l = wl_b l then cost
      else case (hm_get index (wl_a l), hm_get index (wl_b l)) of
        (Some ia, Some ib) \<Rightarrow>
          (let k = (min ia ib, max ia ib) in
           hm_insert k (case hm_get cost k of None \<Rightarrow> wl_cost l | Some c \<Rightarrow> min c (wl_cost l)) cost)
      | _ \<Rightarrow> cost)"

definition link_costs :: "bytes list \<Rightarrow> weighted_link list \<Rightarrow> (nat \<times> nat, u64) hmap" where
  "link_costs nodes links = fold (note_cost (node_index nodes)) links hm_empty"

definition base_pairs :: "bytes list \<Rightarrow> overlay_plan \<Rightarrow> (nat \<times> nat) list" where
  "base_pairs nodes base =
     fold List.insert
       (List.map_filter (\<lambda>(a, b).
          case hm_get (node_index nodes) a of None \<Rightarrow> None | Some ia \<Rightarrow>
          case hm_get (node_index nodes) b of None \<Rightarrow> None | Some ib \<Rightarrow> Some (min ia ib, max ia ib)) (op_links base)) []"

section \<open>Shortest paths\<close>

definition seed_pair :: "(nat \<times> nat, u64) hmap \<Rightarrow> nat \<times> nat \<Rightarrow> matrix \<Rightarrow> matrix" where
  "seed_pair cost = (\<lambda>(a, b) d.
     let c = (case hm_get cost (a, b) of None \<Rightarrow> inf_cost | Some c \<Rightarrow> c);
         d = mset_at d a b (min (mget d a b) c)
     in mset_at d b a (min (mget d b a) c))"

definition seed_matrix :: "nat \<Rightarrow> (nat \<times> nat, u64) hmap \<Rightarrow> (nat \<times> nat) list \<Rightarrow> matrix" where
  "seed_matrix n cost chosen =
     fold (seed_pair cost) chosen (fold (\<lambda>i d. mset_at d i i 0) [0..<n] (replicate n (replicate n inf_cost)))"

definition relax_entry :: "nat \<Rightarrow> nat \<Rightarrow> nat \<Rightarrow> matrix \<Rightarrow> matrix" where
  "relax_entry k i j d =
     (let via = saturating_add (mget d i k) (mget d k j) in if via < mget d i j then mset_at d i j via else d)"

definition relax_row :: "nat \<Rightarrow> nat \<Rightarrow> nat \<Rightarrow> matrix \<Rightarrow> matrix" where
  "relax_row n k i d = (if mget d i k = inf_cost then d else fold (relax_entry k i) [0..<n] d)"

definition floyd_warshall :: "nat \<Rightarrow> matrix \<Rightarrow> matrix" where
  "floyd_warshall n d = fold (\<lambda>k. fold (relax_row n k) [0..<n]) [0..<n] d"

section \<open>Choosing links\<close>

definition better_link ::
  "matrix \<Rightarrow> (nat \<times> nat) list \<Rightarrow> (nat \<times> nat) \<times> u64 \<Rightarrow> ((nat \<times> nat) \<times> u64) option \<Rightarrow> ((nat \<times> nat) \<times> u64) option" where
  "better_link d chosen = (\<lambda>((a, b), c) best.
     if (a, b) \<in> set chosen then best
     else let improvement = saturating_sub (mget d a b) c in
       if improvement = 0 then best
       else case best of
         None \<Rightarrow> Some ((a, b), improvement)
       | Some (pair, bi) \<Rightarrow>
           if bi < improvement \<or> improvement = bi \<and> (a, b) < pair then Some ((a, b), improvement) else best)"

definition best_link :: "matrix \<Rightarrow> (nat \<times> nat) list \<Rightarrow> (nat \<times> nat, u64) hmap \<Rightarrow> ((nat \<times> nat) \<times> u64) option" where
  "best_link d chosen cost = fold (better_link d chosen) cost None"

definition fold_entry :: "u64 list \<Rightarrow> u64 list \<Rightarrow> u64 \<Rightarrow> u64 \<Rightarrow> nat \<Rightarrow> u64 list \<Rightarrow> u64 list" where
  "fold_entry row_a row_b via_a via_b j row =
     (let cand1 = saturating_add via_a (row_b ! j);
          row = (if cand1 < row ! j then row[j := cand1] else row);
          cand2 = saturating_add via_b (row_a ! j)
      in if cand2 < row ! j then row[j := cand2] else row)"

definition fold_edge :: "nat \<Rightarrow> nat \<Rightarrow> nat \<Rightarrow> u64 \<Rightarrow> matrix \<Rightarrow> matrix" where
  "fold_edge n a b w d =
     (let row_a = d ! a; row_b = d ! b in
      fold (\<lambda>i d.
        if row_a ! i = inf_cost \<and> row_b ! i = inf_cost then d
        else d[i := fold (fold_entry row_a row_b (saturating_add (row_a ! i) w) (saturating_add (row_b ! i) w)) [0..<n] (d ! i)])
        [0..<n] d)"

fun shortcut_loop ::
  "bytes list \<Rightarrow> (nat \<times> nat, u64) hmap \<Rightarrow> nat \<Rightarrow> (nat \<times> nat) list \<Rightarrow> matrix \<Rightarrow> overlay_plan \<Rightarrow> overlay_plan" where
  "shortcut_loop nodes cost 0 chosen d plan = plan"
| "shortcut_loop nodes cost (Suc budget) chosen d plan =
     (case best_link d chosen cost of
        None \<Rightarrow> plan
      | Some ((a, b), _) \<Rightarrow>
          let w = (case hm_get cost (a, b) of None \<Rightarrow> 0 | Some w \<Rightarrow> w) in
          shortcut_loop nodes cost budget (List.insert (a, b) chosen) (fold_edge (length nodes) a b w d)
            (plan\<lparr>op_links := op_links plan @ [canon (nodes ! a) (nodes ! b)],
                  op_total_cost := saturating_add (op_total_cost plan) w\<rparr>))"

definition add_shortcuts :: "bytes list \<Rightarrow> weighted_link list \<Rightarrow> overlay_plan \<Rightarrow> nat \<Rightarrow> overlay_plan" where
  "add_shortcuts nodes links base budget =
     (let n = length nodes in
      if n < 2 \<or> budget = 0 then base
      else let cost = link_costs nodes links; chosen = base_pairs nodes base in
        shortcut_loop nodes cost budget chosen (floyd_warshall n (seed_matrix n cost chosen)) base)"

section \<open>Planning a network\<close>

definition plan_network_overlay :: "network \<Rightarrow> (bytes \<Rightarrow> bytes \<Rightarrow> u64 option) \<Rightarrow> nat \<Rightarrow> overlay_plan option" where
  "plan_network_overlay network latency shortcut_budget =
     (let nodes = map ag_id (nw_agents network);
          links = List.map_filter (\<lambda>(a, b). map_option (\<lambda>c. \<lparr>wl_a = a, wl_b = b, wl_cost = c\<rparr>) (latency a b)) (desired_channels network) in
      case min_latency_overlay nodes links of
        None \<Rightarrow> None
      | Some base \<Rightarrow> Some (add_shortcuts nodes links base shortcut_budget))"

datatype topology_too_large = TooManyAgents nat nat | ShortcutBudgetTooHigh nat nat

definition plan_network_overlay_bounded ::
  "network \<Rightarrow> (bytes \<Rightarrow> bytes \<Rightarrow> u64 option) \<Rightarrow> nat \<Rightarrow> nat \<Rightarrow> nat \<Rightarrow> (topology_too_large + overlay_plan) option" where
  "plan_network_overlay_bounded network latency shortcut_budget max_agents max_shortcut_budget =
     (let agents = length (nw_agents network) in
      if max_agents < agents then Some (Err (TooManyAgents agents max_agents))
      else if max_shortcut_budget < shortcut_budget then Some (Err (ShortcutBudgetTooHigh shortcut_budget max_shortcut_budget))
      else map_option Ok (plan_network_overlay network latency shortcut_budget))"

section \<open>Loops over the matrix\<close>

definition square :: "nat \<Rightarrow> matrix \<Rightarrow> bool" where
  "square n d \<longleftrightarrow> length d = n \<and> (\<forall>row \<in> set d. length row = n)"





lemma matrix_eqI:
  assumes "square n d" "square n d'" "\<And>i j. i < n \<Longrightarrow> j < n \<Longrightarrow> mget d i j = mget d' i j"
  shows "d = d'"
  using assms by (auto simp: square_def mget_def intro!: nth_equalityI)









section \<open>Walks and what the matrix says of them\<close>





definition FAR :: nat where
  "FAR = 0x3FFFFFFFFFFFFFFF"













section \<open>Adding one link\<close>





lemma sat_exact: "unat x \<le> FAR \<Longrightarrow> unat y \<le> FAR \<Longrightarrow> unat (saturating_add x (y :: u64)) = unat x + unat y"
  by (simp add: unat_saturating_add FAR_def)





section \<open>The first matrix\<close>





section \<open>The best link\<close>





section \<open>The cheapest candidates\<close>













section \<open>The greedy shortcuts\<close>






text \<open>With distinct agents the planner always returns, within its limits with a plan.\<close>

lemma plan_network_returns:
  assumes "distinct (map ag_id (nw_agents network))"
  shows "\<exists>plan. plan_network_overlay network latency budget = Some plan"
proof -
  define links where "links = List.map_filter (\<lambda>(a, b). map_option (\<lambda>c. \<lparr>wl_a = a, wl_b = b, wl_cost = c\<rparr>) (latency a b)) (desired_channels network)"
  obtain plan where "min_latency_overlay (map ag_id (nw_agents network)) links = Some plan" using overlay_returns [OF assms] by blast
  then show ?thesis by (simp add: plan_network_overlay_def links_def Let_def)
qed

section \<open>Properties\<close>


end
