(* ===== verification/Spec2Isabelle.thy ===== *)
theory Spec2Isabelle
  imports Masque Messages Join Reach Calendar RateLimit Policy EdgeRouting EdgeGauges EdgeEnforce EdgeBounds DeliverySession ChannelAdmit Splices
    Ja4 Penalty Presence EdgeMeters Credential Pow DnsServer Shortcuts
begin

text \<open>
  Verification of CADS-Tunnel, a tunnel service with end-to-end encrypted agent channels. The sources
  are the Rust crates under \<open>src/crates\<close>.

  \<^bold>\<open>The program.\<close> Agents behind NAT keep outbound connections to an \<^emph>\<open>edge\<close>, which routes visitors to them
  by token or hostname, relays channel sessions between agents, and enforces what the \<^emph>\<open>control plane\<close>
  decides. The crate \<open>common\<close> holds the objects they exchange: signed channel grants, invitations,
  membership staples, join requests, the capacity market and its settlement chain, and the delivery
  protocol that runs between two agents over a Noise session. A member of a channel presents a grant to
  the edge (join), the edge checks it and pairs two members of one channel (pairer), and relays bytes
  between them; the two then run the delivery protocol. Bids cleared on the market are paid through the
  escrow of the settlement chain, whose leader the members elect.

  \<^bold>\<open>Theories and sources.\<close> Each theory is a component; its definitions follow the order of the source.
  \<^item> \<open>Prelude\<close>: byte strings, machine words with checked and saturating arithmetic, little and big endian
    codecs, hash maps (association lists, interface \<open>finite_map_ops\<close>) and the locale \<open>timed_refinement\<close>
    for components that forget what a clock makes irrelevant. \<open>Collections\<close>: ordered maps and sets.
    \<open>Text\<close>, \<open>Wire\<close>, \<open>Varint\<close>, \<open>Hex\<close> (\<open>common/src/hex.rs\<close>, \<open>ct.rs\<close>), \<open>Preimage\<close> (\<open>preimage.rs\<close>): codecs.
  \<^item> \<open>Ledger\<close>, \<open>Escrow\<close>, \<open>Election\<close> (\<open>common/src/settlement.rs\<close>): transfers, blocks, the chain with its balance
    cache; holds and their release, refund and expiry; votes, tallies and leader attestations.
    \<open>Usage\<close>: usage receipts. \<open>Market\<close>: offers, bids, clearing and the commitment tally (\<open>channel.rs\<close>).
  \<^item> \<open>Grant\<close>, \<open>Invitation\<close>, \<open>Staple\<close>, \<open>Join\<close>, \<open>Reach\<close>, \<open>Messages\<close> (\<open>common/src/channel.rs\<close>): grants and their
    verification, the replay cache (\<open>Replay\<close>, \<open>replay.rs\<close>), invitations, staples and their cache, join and
    refusal frames, the address filter and the superpeer election, and the separation of all signed
    messages.
  \<^item> \<open>AccessWindow\<close>, \<open>Calendar\<close> (\<open>access_window.rs\<close>), \<open>RateLimit\<close> (\<open>ratelimit.rs\<close>), \<open>Policy\<close> (\<open>policy.rs\<close>),
    \<open>Hostname\<close> (\<open>common/src/lib.rs\<close>), \<open>LogThrottle\<close> (\<open>edge/src/log_throttle.rs\<close>).
  \<^item> \<open>Delivery\<close>, \<open>DeliverySession\<close> (\<open>delivery.rs\<close>): the pump as a machine of events, and two pumps over a
    transport that may be cut anywhere.
  \<^item> \<open>AgentKey\<close>, \<open>EdgeState\<close>, \<open>EdgeSteps\<close> (\<open>edge/src/state.rs\<close>): the edge's routing state, one function per
    locked method, and runs of calls. \<open>EdgeRouting\<close>, \<open>EdgeGauges\<close>, \<open>EdgeEnforce\<close>, \<open>EdgeBounds\<close> hold its
    properties.
    \<open>Penalty\<close>, \<open>EdgeMeters\<close>: the penalty for refused joins, the connection cap, the broker's heartbeat and
    the table of fingerprints of the same file.
  \<^item> \<open>Slices\<close>, \<open>ClientHello\<close> (\<open>edge/src/sni.rs\<close>), \<open>Ja4\<close> (\<open>ja4.rs\<close>): the front door's reader of TLS ClientHello
    records, its routing decision and the client fingerprint.
  \<^item> \<open>Credential\<close> (\<open>common/src/credential.rs\<close>, \<open>agent_binding.rs\<close>): agent credentials, bindings of a tunnel to an
    agent key and the registration challenge. \<open>Pow\<close> (\<open>pow.rs\<close>): the proof-of-work gate. \<open>Admission\<close> is the
    interface of checks that admit a signed object once, which grants and credentials instantiate.
  \<^item> \<open>Pairer\<close>, \<open>ChannelAdmit\<close>, \<open>Splices\<close>, \<open>Presence\<close> (\<open>edge/src/channel_broker.rs\<close>): the queue of waiting members, the
    join handshake that admits them, the registry of running sessions with the sweep that cuts them, and
    the record of who was admitted lately.
    \<open>Authorizer\<close> (\<open>channel_authorize.rs\<close>), \<open>Revocation\<close> (\<open>grant_revocation.rs\<close>): the cached lookups at the control
    plane that admission and the sweep rely on. A lookup is two steps, around the request, so that other
    lookups run in between.
  \<^item> \<open>DnsMessage\<close>, \<open>DnsServer\<close> (\<open>dns/src\<close>): the responder that publishes ACME challenges, with its codec, its
    store and the store's file, the answers over UDP and TCP and the local API.
  \<^item> \<open>Overlay\<close>, \<open>Shortcuts\<close> (\<open>common/src/overlay.rs\<close>): the planner of a network's links, a spanning tree by
    union-find and shortcuts over a matrix of shortest paths.
  \<^item> \<open>Masque\<close> (\<open>masque-proxy/src\<close>): varints, capsules, admission and the datagram pump of the UDP proxy.

  \<^bold>\<open>How state and effects are modelled.\<close> A struct is a record, an enum a datatype; a method with \<open>&mut self\<close>
  or behind a lock is a function from the state to a result and the new state; errors are values of
  sum types, and every panic is a separate outcome where it can happen. Integers keep their width as
  words; times of the wall clock are arguments. Strings are byte lists, or lists of Unicode scalars where
  trimming and case matter. Iteration over a hash map follows the order of insertion; no property
  depends on it other than through what is a set or multiset of results. Concurrency between critical
  sections is the arbitrary order of steps in a run, and shared flags are stores that may change between
  reads.

  \<^bold>\<open>Parameters.\<close> Third-party code enters as arguments: \<open>vrfy\<close>, \<open>sign\<close>, \<open>pubkey\<close>, \<open>key_ok\<close> for ed25519, \<open>sha\<close> for
  SHA-256, a parser of socket addresses, the control plane's answers. Theorems that need it state the
  documented property as a hypothesis (a signature made with a key verifies under its public key) or
  name the collision instead of excluding it. Each such theorem has a witness with concrete functions.

  \<^bold>\<open>Bounds.\<close> No definition needs fuel: loops of the source are structural recursions, or terminate by a
  measure proved with the definition (weeks in \<open>AccessWindow\<close>, draining in \<open>EdgeState\<close>, capsules in
  \<open>Masque\<close>, extensions in \<open>ClientHello\<close>). The search for a proof of work may run for ever; it is a partial
  function, \<open>solve_from\<close>, and it is proved to return whenever there is a proof; so is the
  walk to a root in \<open>Overlay\<close>, \<open>ds_find\<close>, which returns on every array the planner builds. Limits such as 4096 endpoints or four parks per member are the source's constants.

  \<^bold>\<open>What is shown.\<close> Conservation and validity of the chain and the escrow over all reachable states; that a
  spend needs its owner's signature and cannot be replayed; exactness of the election; that a cleared
  match settles. Finality of revocation and soundness of key enforcement over all runs of the edge;
  exactness of its gauges, with the one that is not. That a join is admitted exactly under the
  documented checks; that whoever is admitted was vouched for by the control plane within seconds,
  whatever lookups race; that a sweep cuts exactly the sessions whose membership or grant is gone; that
  an arriving member is paired with the right partner and nobody is lost. That a delivery report means delivery, and that honest peers neither
  accuse each other nor hang. That the front door routes by what a client offers and fingerprints it alike
  whatever it shuffles; that a registration needs the bound key, and a passage through the gate a proof
  for its own token. That a published challenge is served and survives a crash, and that no answer
  amplifies. That the planned overlay is a minimum spanning forest and each shortcut the one that saves most. Round trips and injectivity of the signed and framed forms. Equivalence of
  the caches, limiters and throttles with references that forget nothing.

  \<^bold>\<open>Not modelled.\<close> Socket, TLS, QUIC and HTTP code (\<open>serve.rs\<close>, \<open>relay.rs\<close>, \<open>transport.rs\<close>, the client), where the
  behaviour is that of the libraries; the control plane's handlers, which are SQL statements and web
  framework calls; DNS provider calls; the Noise handshake, which is the library's.
\<close>

section \<open>From a match to its payment\<close>








end
